(* ===== verification/Prelude.thy ===== *)
theory Prelude
  imports Main "HOL-Library.Word"
begin

unbundle bit_operations_syntax

text \<open>
  What the component theories share: the widths of the C integer types, the result of a kernel
  operation with its sequencing, the loop combinator, and generic facts on words, byte lists and
  finite updates of memory. The collection \<open>kres_simps\<close> holds the equations that evaluate the
  sequencing combinators; \<open>page_simps\<close> (filled by the theory of the memory layout) those of page
  arithmetic.
\<close>

section \<open>Integer types\<close>

text \<open>types.h: \<open>uint\<close>, \<open>ushort\<close> and \<open>uchar\<close>.\<close>

type_synonym u8 = "8 word"
type_synonym u16 = "16 word"
type_synonym u32 = "32 word"

text \<open>Byte-addressed memory, and a C buffer as seen from the pointer to its first byte.\<close>

type_synonym memory = "u32 \<Rightarrow> u8"
type_synonym cbuf = "nat \<Rightarrow> u8"

named_theorems kres_simps
named_theorems page_simps

section \<open>Channels and locks\<close>

text \<open>
  The address passed to \<open>sleep\<close> and \<open>wakeup\<close>. The kernel uses the address of the object that is
  waited for; each constructor is the address of one object (or array element), so two channels
  are equal exactly when the addresses are.
\<close>

datatype chan =
    NoChan
  | ChTicks
  | ChProc nat
  | ChBuf nat
  | ChBufLock nat
  | ChInodeLock nat
  | ChLog
  | ChPipeRead u32
  | ChPipeWrite u32
  | ChInput

text \<open>The spin locks of the kernel, by the object that holds them.\<close>

datatype lockid =
    LkPtable
  | LkKmem
  | LkBcache
  | LkBufLock nat
  | LkIcache
  | LkInodeLock nat
  | LkLog
  | LkFtable
  | LkPipe u32
  | LkCons
  | LkTicks
  | LkIde
  | LkShm

section \<open>The result of a kernel operation\<close>

text \<open>
  A kernel operation run from a state returns a value and a new state (\<open>Done\<close>), calls \<open>panic\<close>
  (\<open>Panic\<close>, with the message), puts the calling process to sleep on a channel (\<open>Asleep\<close>, with
  the state at that moment), accesses an address that is not mapped (\<open>Fault\<close>), or runs a loop
  that never ends (\<open>Diverges\<close>).
\<close>

datatype ('s, 'a) kres =
    Done 'a 's
  | Panic string
  | Asleep chan 's
  | Fault u32 's
  | Diverges

text \<open>Sequencing: the rest runs only when the first part returned.\<close>

primrec bindK :: "('s, 'a) kres \<Rightarrow> ('a \<Rightarrow> 's \<Rightarrow> ('s, 'b) kres) \<Rightarrow> ('s, 'b) kres" where
  "bindK (Done a s) f = f a s"
| "bindK (Panic m) f = Panic m"
| "bindK (Asleep c s) f = Asleep c s"
| "bindK (Fault a s) f = Fault a s"
| "bindK Diverges f = Diverges"

declare bindK.simps [kres_simps]

lemma bindK_Done_iff [kres_simps]:
  "bindK r f = Done b t \<longleftrightarrow> (\<exists>a s. r = Done a s \<and> f a s = Done b t)"
  by (cases r) auto

lemma bindK_assoc: "bindK (bindK r f) g = bindK r (\<lambda>a s. bindK (f a s) g)"
  by (cases r) auto

lemma bindK_cong [fundef_cong]:
  "r = r' \<Longrightarrow> (\<And>a s. r' = Done a s \<Longrightarrow> f a s = g a s) \<Longrightarrow> bindK r f = bindK r' g"
  by (cases r') auto

text \<open>A counted loop: the body is run for each index in turn.\<close>

primrec forK :: "'i list \<Rightarrow> ('i \<Rightarrow> 's \<Rightarrow> ('s, unit) kres) \<Rightarrow> 's \<Rightarrow> ('s, unit) kres" where
  "forK [] body s = Done () s"
| "forK (i # is) body s = bindK (body i s) (\<lambda>_ s. forK is body s)"

declare forK.simps [kres_simps]

lemma forK_append:
  "forK (xs @ ys) body s = bindK (forK xs body s) (\<lambda>_ s. forK ys body s)"
  by (induction xs arbitrary: s) (simp_all add: bindK_assoc)

text \<open>An invariant of the body is one of the loop.\<close>

lemma forK_invariant:
  assumes "forK is body s = Done u t" and "P s"
    and "\<And>i s t. i \<in> set is \<Longrightarrow> P s \<Longrightarrow> body i s = Done () t \<Longrightarrow> P t"
  shows "P t"
  using assms
proof (induction "is" arbitrary: s)
  case Nil
  then show ?case by simp
next
  case (Cons i "is")
  from Cons.prems(1) obtain s' where s': "body i s = Done () s'" "forK is body s' = Done u t"
    by (auto simp: kres_simps)
  have "P s'" using Cons.prems(2,3) s'(1) by (meson list.set_intros(1))
  with s'(2) show ?case by (rule Cons.IH) (meson Cons.prems(3) list.set_intros(2))
qed

section \<open>Facts on words\<close>

lemma word_sub_less_iff_range:
  fixes a d :: "'a :: len word"
  assumes "unat d + n \<le> 2 ^ LENGTH('a)"
  shows "unat (a - d) < n \<longleftrightarrow> unat d \<le> unat a \<and> unat a < unat d + n"
proof (cases "d \<le> a")
  case True
  then have "unat (a - d) = unat a - unat d" by (rule unat_sub)
  with True show ?thesis by (auto simp: word_le_nat_alt)
next
  case False
  then have lt: "unat a < unat d" by (simp add: word_le_nat_alt not_le)
  have "unat (a - d) = (2 ^ LENGTH('a) + unat a) - unat d"
    using lt by (simp add: unat_sub_if' add.commute)
  with assms lt show ?thesis by (simp add: not_le)
qed

lemma unat_of_nat32 [simp]: "n < 4294967296 \<Longrightarrow> unat (of_nat n :: u32) = n"
  by (simp add: unat_of_nat)

lemma u32_unat_less: "unat (x :: u32) < 4294967296"
  using unsigned_less [of x] by simp

lemma u32_eq_iff_unat: "(x :: u32) = y \<longleftrightarrow> unat x = unat y"
  by (simp add: word_unat_eq_iff)

text \<open>Addition and subtraction without wrap-around.\<close>

lemma unat_add32: "unat x + unat y < 4294967296 \<Longrightarrow> unat (x + y :: u32) = unat x + unat y"
  by (simp add: unat_word_ariths)

lemma unat_sub32: "y \<le> x \<Longrightarrow> unat (x - y :: u32) = unat x - unat y"
  by (rule unat_sub)

text \<open>Words read as signed C integers.\<close>

lemma sint_unat32: "sint (x :: u32) = (if unat x < 2147483648 then int (unat x) else int (unat x) - 4294967296)"
proof -
  define n where "n = int (unat x)"
  have u: "n < 4294967296" "0 \<le> n" using unsigned_less[of x, where 'a=int] by (auto simp: n_def)
  have "sint x = signed_take_bit 31 n" by (simp add: sint_uint n_def)
  also have "\<dots> = (n + 2147483648) mod 4294967296 - 2147483648"
    by (simp only: signed_take_bit_eq_take_bit_shift take_bit_eq_mod) simp
  also have "\<dots> = (if n < 2147483648 then n else n - 4294967296)"
  proof (cases "n < 2147483648")
    case True
    then have "(n + 2147483648) mod 4294967296 = n + 2147483648" using u by (intro mod_pos_pos_trivial) auto
    then show ?thesis using True by simp
  next
    case False
    then have "(n - 2147483648) mod 4294967296 = n - 2147483648" using u by (intro mod_pos_pos_trivial) auto
    moreover have "(n + 2147483648) mod 4294967296 = (n - 2147483648) mod 4294967296"
      using minus_mod_self2 [of "n + 2147483648" 4294967296] by simp
    ultimately show ?thesis using False by simp
  qed
  finally show ?thesis unfolding n_def by (metis of_nat_less_iff of_nat_numeral)
qed

lemma sint_neg32: "sint (x :: u32) < 0 \<longleftrightarrow> 2147483648 \<le> unat x"
  using sint_unat32[of x] unsigned_less[of x, where 'a=int] by auto

lemma unat_minus32: "unat (- x :: u32) = (if x = 0 then 0 else 4294967296 - unat x)"
  using unat_sub_if' [of 0 x] by (auto simp: unat_eq_zero)

end
