(* ===== verification/Machine.thy ===== *)
theory Machine
  imports Prelude
begin

unbundle bit_operations_syntax

text \<open>
  The constants of param.h and memlayout.h, the address and page-table macros of mmu.h with the
  arithmetic they compute, and little-endian words in byte-addressed memory. The facts in
  \<open>page_simps\<close> turn the bit masks and shifts of the macros into division and remainder of the
  address read as a natural number.
\<close>

section \<open>param.h\<close>

abbreviation (input) NPROC :: nat where "NPROC \<equiv> 64"
abbreviation (input) KSTACKSIZE :: u32 where "KSTACKSIZE \<equiv> 4096"
abbreviation (input) NCPU :: nat where "NCPU \<equiv> 8"
abbreviation (input) NOFILE :: nat where "NOFILE \<equiv> 16"
abbreviation (input) NFILE :: nat where "NFILE \<equiv> 100"
abbreviation (input) NINODE :: nat where "NINODE \<equiv> 50"
abbreviation (input) NDEV :: int where "NDEV \<equiv> 10"
abbreviation (input) ROOTDEV :: u32 where "ROOTDEV \<equiv> 1"
abbreviation (input) MAXARG :: nat where "MAXARG \<equiv> 32"
abbreviation (input) MAXOPBLOCKS :: int where "MAXOPBLOCKS \<equiv> 10"
abbreviation (input) LOGSIZE :: int where "LOGSIZE \<equiv> MAXOPBLOCKS * 3"
abbreviation (input) NBUF :: nat where "NBUF \<equiv> 30"
abbreviation (input) FSSIZE :: u32 where "FSSIZE \<equiv> 1000"

section \<open>memlayout.h\<close>

abbreviation (input) EXTMEM :: u32 where "EXTMEM \<equiv> 0x100000"
abbreviation (input) PHYSTOP :: u32 where "PHYSTOP \<equiv> 0xE000000"
abbreviation (input) DEVSPACE :: u32 where "DEVSPACE \<equiv> 0xFE000000"
abbreviation (input) KERNBASE :: u32 where "KERNBASE \<equiv> 0x80000000"
abbreviation (input) KERNLINK :: u32 where "KERNLINK \<equiv> KERNBASE + EXTMEM"
abbreviation (input) STACK_TOP :: u32 where "STACK_TOP \<equiv> KERNBASE - 4"

definition V2P :: "u32 \<Rightarrow> u32" where
  "V2P a = a - KERNBASE"

definition P2V :: "u32 \<Rightarrow> u32" where
  "P2V a = a + KERNBASE"

section \<open>mmu.h: page directories and page tables\<close>

abbreviation (input) NPDENTRIES :: nat where "NPDENTRIES \<equiv> 1024"
abbreviation (input) NPTENTRIES :: nat where "NPTENTRIES \<equiv> 1024"
abbreviation (input) PGSIZE :: u32 where "PGSIZE \<equiv> 4096"
abbreviation (input) PTXSHIFT :: nat where "PTXSHIFT \<equiv> 12"
abbreviation (input) PDXSHIFT :: nat where "PDXSHIFT \<equiv> 22"

abbreviation (input) PTE_P :: u32 where "PTE_P \<equiv> 0x001"
abbreviation (input) PTE_W :: u32 where "PTE_W \<equiv> 0x002"
abbreviation (input) PTE_U :: u32 where "PTE_U \<equiv> 0x004"
abbreviation (input) PTE_PS :: u32 where "PTE_PS \<equiv> 0x080"

definition PDX :: "u32 \<Rightarrow> u32" where
  "PDX va = drop_bit PDXSHIFT va AND 0x3FF"

definition PTX :: "u32 \<Rightarrow> u32" where
  "PTX va = drop_bit PTXSHIFT va AND 0x3FF"

definition PGADDR :: "u32 \<Rightarrow> u32 \<Rightarrow> u32 \<Rightarrow> u32" where
  "PGADDR d t o' = push_bit PDXSHIFT d OR push_bit PTXSHIFT t OR o'"

definition PGROUNDUP :: "u32 \<Rightarrow> u32" where
  "PGROUNDUP sz = (sz + PGSIZE - 1) AND NOT (PGSIZE - 1)"

definition PGROUNDDOWN :: "u32 \<Rightarrow> u32" where
  "PGROUNDDOWN a = a AND NOT (PGSIZE - 1)"

definition PTE_ADDR :: "u32 \<Rightarrow> u32" where
  "PTE_ADDR pte = pte AND NOT 0xFFF"

definition PTE_FLAGS :: "u32 \<Rightarrow> u32" where
  "PTE_FLAGS pte = pte AND 0xFFF"

section \<open>Page arithmetic\<close>

lemma mask10: "(0x3FF :: u32) = mask 10"
  by (simp add: mask_eq_exp_minus_1)

lemma mask12: "(0xFFF :: u32) = mask 12"
  by (simp add: mask_eq_exp_minus_1)

lemma and_minus_4096: "(a :: u32) AND - 4096 = push_bit 12 (drop_bit 12 a)"
proof -
  have "a AND - 4096 = a AND NOT (mask 12)" by (simp add: mask_eq_exp_minus_1)
  also have "\<dots> = push_bit 12 (drop_bit 12 a)"
    by (rule bit_word_eqI) (auto simp only: bit_simps not_less le_add_diff_inverse
        le_add_diff_inverse2 o_apply)
  finally show ?thesis .
qed

lemma unat_and_minus_4096: "unat ((a :: u32) AND - 4096) = 4096 * (unat a div 4096)"
proof -
  have le: "4096 * (unat a div 4096) \<le> unat a" by simp
  show ?thesis
    unfolding and_minus_4096
    using le u32_unat_less [of a]
    by (simp add: unsigned_push_bit_eq unat_drop_bit_eq drop_bit_eq_div push_bit_eq_mult
        take_bit_eq_mod mult.commute unat_word_ariths unat_div)
qed

lemma unat_PGROUNDDOWN [page_simps]: "unat (PGROUNDDOWN a) = 4096 * (unat a div 4096)"
  by (simp add: PGROUNDDOWN_def unat_and_minus_4096)

lemma unat_PTE_ADDR [page_simps]: "unat (PTE_ADDR a) = 4096 * (unat a div 4096)"
  by (simp add: PTE_ADDR_def unat_and_minus_4096)

lemma unat_PGROUNDUP [page_simps]:
  assumes "unat a + 4095 < 4294967296"
  shows "unat (PGROUNDUP a) = 4096 * ((unat a + 4095) div 4096)"
proof -
  have "a + PGSIZE - 1 = a + 4095" by simp
  moreover have "unat (a + 4095) = unat a + 4095"
    using assms by (simp add: unat_word_ariths)
  ultimately show ?thesis by (simp add: PGROUNDUP_def unat_and_minus_4096 add.commute)
qed

lemma unat_PTE_FLAGS [page_simps]: "unat (PTE_FLAGS a) = unat a mod 4096"
  unfolding PTE_FLAGS_def mask12
  by (simp add: take_bit_eq_mask [symmetric] unsigned_take_bit_eq take_bit_eq_mod unat_mod)

lemma unat_PDX [page_simps]: "unat (PDX va) = unat va div 4194304"
  using u32_unat_less [of va] unfolding PDX_def mask10
  by (simp add: take_bit_eq_mask [symmetric] unsigned_take_bit_eq take_bit_eq_mod
      unat_drop_bit_eq drop_bit_eq_div unat_mod unat_div)

lemma unat_PTX [page_simps]: "unat (PTX va) = unat va div 4096 mod 1024"
  unfolding PTX_def mask10
  by (simp add: take_bit_eq_mask [symmetric] unsigned_take_bit_eq take_bit_eq_mod
      unat_drop_bit_eq drop_bit_eq_div unat_mod unat_div)


text \<open>An address is put back together from its directory index, table index and offset.\<close>

lemma PGADDR_parts: "PGADDR (PDX va) (PTX va) (PTE_FLAGS va) = va"
proof -
  have "PGADDR (PDX va) (PTX va) (PTE_FLAGS va)
      = push_bit 22 (take_bit 10 (drop_bit 22 va)) OR push_bit 12 (take_bit 10 (drop_bit 12 va))
        OR take_bit 12 va"
    by (simp only: PGADDR_def PDX_def PTX_def PTE_FLAGS_def mask10 mask12 take_bit_eq_mask)
  also have "\<dots> = va"
  proof (rule bit_word_eqI)
    fix n
    assume n: "n < LENGTH(32)"
    then have "n < 12 \<or> (\<exists>k < 10. n = 12 + k) \<or> (\<exists>k < 10. n = 22 + k)"
      by simp presburger
    then show "bit (push_bit 22 (take_bit 10 (drop_bit 22 va))
        OR push_bit 12 (take_bit 10 (drop_bit 12 va)) OR take_bit 12 va) n = bit va n"
      by (elim disjE exE conjE) (auto simp: bit_simps simp del: push_bit_take_bit)
  qed
  finally show ?thesis .
qed

lemma PGADDR_directory: "unat d < 1024 \<Longrightarrow> unat (PGADDR d 0 0) = 4194304 * unat d"
  by (simp add: PGADDR_def push_bit_eq_mult unat_word_ariths)

lemma page_aligned_iff: "PGROUNDDOWN a = a \<longleftrightarrow> unat a mod 4096 = 0"
  by (auto simp: u32_eq_iff_unat page_simps mod_eq_0_iff_dvd) (metis dvd_triv_left)

section \<open>Words in memory\<close>

text \<open>The machine stores the bytes of a word from the least significant one on.\<close>

definition le32 :: "u8 \<Rightarrow> u8 \<Rightarrow> u8 \<Rightarrow> u8 \<Rightarrow> u32" where
  "le32 b0 b1 b2 b3 =
     ucast b0 OR push_bit 8 (ucast b1) OR push_bit 16 (ucast b2) OR push_bit 24 (ucast b3)"

definition byte_of :: "nat \<Rightarrow> u32 \<Rightarrow> u8" where
  "byte_of i v = ucast (drop_bit (8 * i) v)"

definition load32 :: "memory \<Rightarrow> u32 \<Rightarrow> u32" where
  "load32 m a = le32 (m a) (m (a + 1)) (m (a + 2)) (m (a + 3))"

definition store32 :: "memory \<Rightarrow> u32 \<Rightarrow> u32 \<Rightarrow> memory" where
  "store32 m a v =
     m(a := byte_of 0 v, a + 1 := byte_of 1 v, a + 2 := byte_of 2 v, a + 3 := byte_of 3 v)"

text \<open>The effect of filling the \<open>n\<close> bytes from \<open>d\<close> on with the byte \<open>c\<close>.\<close>

definition fill :: "memory \<Rightarrow> u32 \<Rightarrow> u8 \<Rightarrow> nat \<Rightarrow> memory" where
  "fill m d c n = (\<lambda>a. if unat (a - d) < n then c else m a)"

text \<open>The effect of copying \<open>n\<close> bytes from \<open>s\<close> to \<open>d\<close>, all read before any is written.\<close>

definition copy :: "memory \<Rightarrow> u32 \<Rightarrow> u32 \<Rightarrow> nat \<Rightarrow> memory" where
  "copy m d s n = (\<lambda>a. if unat (a - d) < n then m (s + (a - d)) else m a)"

lemma byte_cases: "n < (32 :: nat) \<Longrightarrow>
    n < 8 \<or> (\<exists>k < 8. n = 8 + k) \<or> (\<exists>k < 8. n = 16 + k) \<or> (\<exists>k < 8. n = 24 + k)"
  by presburger

lemma le32_bytes [simp]: "le32 (byte_of 0 v) (byte_of (Suc 0) v) (byte_of 2 v) (byte_of 3 v) = v"
proof (rule bit_word_eqI)
  fix n
  assume "n < LENGTH(32)"
  then have "n < 8 \<or> (\<exists>k < 8. n = 8 + k) \<or> (\<exists>k < 8. n = 16 + k) \<or> (\<exists>k < 8. n = 24 + k)"
    by (intro byte_cases) simp
  then show "bit (le32 (byte_of 0 v) (byte_of (Suc 0) v) (byte_of 2 v) (byte_of 3 v)) n = bit v n"
    by (elim disjE exE conjE) (auto simp: le32_def byte_of_def bit_simps)
qed

lemma u8_bit_beyond: "8 \<le> n \<Longrightarrow> \<not> bit (b :: u8) n"
  using bit_imp_le_length [of b n] by auto

lemma byte_of_le32 [simp]:
  "byte_of 0 (le32 b0 b1 b2 b3) = b0" "byte_of (Suc 0) (le32 b0 b1 b2 b3) = b1"
  "byte_of 2 (le32 b0 b1 b2 b3) = b2" "byte_of 3 (le32 b0 b1 b2 b3) = b3"
  by (auto intro!: bit_word_eqI simp: le32_def byte_of_def bit_simps u8_bit_beyond)

abbreviation aligned4 :: "u32 \<Rightarrow> bool" where
  "aligned4 a \<equiv> unat a mod 4 = 0"

lemma aligned4_offset:
  assumes "aligned4 a" and "k < 4"
  shows "unat (a + of_nat k) = unat a + k"
proof -
  obtain q where q: "unat a = 4 * q" using assms(1) by auto
  then have "unat a + k < 4294967296" using assms(2) u32_unat_less [of a] by simp
  with assms(2) show ?thesis by (simp add: unat_add32)
qed

lemma aligned4_separate:
  assumes "aligned4 a" "aligned4 b" "a \<noteq> b" "i < 4" "j < 4"
  shows "a + of_nat i \<noteq> b + of_nat j"
proof
  assume "a + of_nat i = b + of_nat j"
  then have "unat a + i = unat b + j"
    using aligned4_offset assms by metis
  moreover obtain p q where "unat a = 4 * p" "unat b = 4 * q"
    using assms(1,2) by (meson mod_0_imp_dvd dvdE)
  ultimately have "p = q" using assms(4,5) by linarith
  with \<open>unat a = 4 * p\<close> \<open>unat b = 4 * q\<close> assms(3) show False by (simp add: u32_eq_iff_unat)
qed

lemma load32_store32_same [simp]: "load32 (store32 m a v) a = v"
  by (simp add: load32_def store32_def)

lemma load32_store32_other [simp]:
  assumes "aligned4 a" "aligned4 b" "a \<noteq> b"
  shows "load32 (store32 m b v) a = load32 m a"
proof -
  have sep: "a + of_nat i \<noteq> b + of_nat j" if "i < 4" "j < 4" for i j
    using assms that by (rule aligned4_separate)
  show ?thesis
    using sep [of 0 0] sep [of 0 1] sep [of 0 2] sep [of 0 3]
      sep [of 1 0] sep [of 1 1] sep [of 1 2] sep [of 1 3]
      sep [of 2 0] sep [of 2 1] sep [of 2 2] sep [of 2 3]
      sep [of 3 0] sep [of 3 1] sep [of 3 2] sep [of 3 3]
    by (simp add: load32_def store32_def)
qed

text \<open>A word stored outside an aligned region leaves the region's bytes alone.\<close>

lemma store32_outside:
  assumes "aligned4 b" and "aligned4 p" and "n mod 4 = 0"
    and "unat p + n \<le> 4294967296" and "\<not> unat (b - p) < n" and "unat (a - p) < n"
  shows "store32 m b v a = m a"
proof -
  have a: "unat p \<le> unat a" "unat a < unat p + n"
    using word_sub_less_iff_range [of p n a] assms(4,6) by simp_all
  have b: "\<not> (unat p \<le> unat b \<and> unat b < unat p + n)"
    using word_sub_less_iff_range [of p n b] assms(4,5) by simp
  obtain x y z where xyz: "unat b = 4 * x" "unat p = 4 * y" "n = 4 * z"
    using assms(1-3) by (meson mod_0_imp_dvd dvdE)
  with b have "x < y \<or> y + z \<le> x" by simp linarith
  have "a \<noteq> b + of_nat k" if "k < 4" for k
  proof
    assume "a = b + of_nat k"
    then have "unat a = unat b + k" using aligned4_offset [OF assms(1) that] by simp
    with a \<open>x < y \<or> y + z \<le> x\<close> xyz that show False by linarith
  qed
  from this [of 0] this [of 1] this [of 2] this [of 3] show ?thesis
    by (simp add: store32_def)
qed

section \<open>Pages of memory\<close>

abbreviation in_page :: "u32 \<Rightarrow> u32 \<Rightarrow> bool" where
  "in_page v a \<equiv> unat (a - v) < 4096"

text \<open>Two different pages do not share a byte.\<close>

lemma page_disjoint:
  fixes u v :: u32
  assumes "unat u mod 4096 = 0" "unat v mod 4096 = 0" "u \<noteq> v" "in_page u a"
  shows "\<not> in_page v a"
proof
  assume a: "in_page v a"
  obtain p q where pq: "unat u = 4096 * p" "unat v = 4096 * q"
    using assms(1,2) by (meson mod_0_imp_dvd dvdE)
  have "p < 1048576" "q < 1048576" using pq u32_unat_less [of u] u32_unat_less [of v] by simp_all
  then have "unat u \<le> unat a \<and> unat a < unat u + 4096" "unat v \<le> unat a \<and> unat a < unat v + 4096"
    using a assms(4) word_sub_less_iff_range [of u 4096 a] word_sub_less_iff_range [of v 4096 a] pq
    by simp_all
  then have "p = q" using pq by linarith
  with pq assms(3) show False by (simp add: u32_eq_iff_unat)
qed

lemma in_page_range:
  fixes v :: u32
  assumes "unat v mod 4096 = 0"
  shows "in_page v a \<longleftrightarrow> unat v \<le> unat a \<and> unat a < unat v + 4096"
proof -
  obtain q where "unat v = 4096 * q" using assms by (meson mod_0_imp_dvd dvdE)
  then have "q < 1048576" using u32_unat_less [of v] by simp
  then show ?thesis
    using word_sub_less_iff_range [of v 4096 a] \<open>unat v = 4096 * q\<close> by simp
qed

lemma in_page_word:
  fixes v :: u32
  assumes "unat v mod 4096 = 0" and "aligned4 a" and "k < 4"
  shows "in_page v (a + of_nat k) \<longleftrightarrow> in_page v a"
proof -
  obtain p q where "unat v = 4096 * q" "unat a = 4 * p"
    using assms(1,2) by (meson mod_0_imp_dvd dvdE)
  then show ?thesis
    unfolding in_page_range [OF assms(1)] aligned4_offset [OF assms(2,3)] using assms(3)
    by (cases "p < 1024 * q + 1024") auto
qed

lemma load32_cong: "(\<And>k. k < 4 \<Longrightarrow> m' (a + of_nat k) = m (a + of_nat k)) \<Longrightarrow> load32 m' a = load32 m a"
proof -
  assume eq: "\<And>k. k < 4 \<Longrightarrow> m' (a + of_nat k) = m (a + of_nat k)"
  from eq [of 0] eq [of 1] eq [of 2] eq [of 3] show ?thesis by (simp add: load32_def)
qed

text \<open>A word of a page is read from that page only.\<close>

lemma load32_page:
  assumes "unat v mod 4096 = 0" and "aligned4 a" and "in_page v a"
    and "\<And>b. in_page v b \<Longrightarrow> m' b = m b"
  shows "load32 m' a = load32 m a"
  using assms in_page_word [OF assms(1,2)] by (intro load32_cong) auto

lemma load32_outside:
  assumes "unat v mod 4096 = 0" and "aligned4 a" and "\<not> in_page v a"
    and "\<And>b. \<not> in_page v b \<Longrightarrow> m' b = m b"
  shows "load32 m' a = load32 m a"
  using assms in_page_word [OF assms(1,2)] by (intro load32_cong) auto

end
