(* ===== verification/Kernel.thy ===== *)
theory Kernel
  imports Machine
begin

text \<open>
  The part of the kernel state that every driver touches: memory, the process table with the
  fields of \<open>struct proc\<close>, the processes the CPUs run, and the spin locks the running kernel
  thread holds; and the operations of proc.c that put a process to sleep and wake it up.

  A critical section runs atomically: the model of an operation takes and releases its locks,
  with the checks of spinlock.c on the caller (theory \<open>Spinlock\<close> has the locks themselves),
  and no other thread runs before the operation returns or sleeps. Sleeping is the outcome
  \<open>Asleep\<close>: \<open>sleep\<close> has released its lock, marked the process and entered the scheduler; the
  rest of the caller runs from \<open>sleep_resume\<close> once the process is chosen again.
\<close>

section \<open>proc.h and x86.h\<close>

record trapframe =
  tf_edi :: u32
  tf_esi :: u32
  tf_ebp :: u32
  tf_oesp :: u32
  tf_ebx :: u32
  tf_edx :: u32
  tf_ecx :: u32
  tf_eax :: u32
  tf_gs :: u16
  tf_fs :: u16
  tf_es :: u16
  tf_ds :: u16
  tf_trapno :: u32
  tf_err :: u32
  tf_eip :: u32
  tf_cs :: u16
  tf_eflags :: u32
  tf_esp :: u32
  tf_ss :: u16

record kcontext =
  cx_edi :: u32
  cx_esi :: u32
  cx_ebx :: u32
  cx_ebp :: u32
  cx_eip :: u32

datatype procstate = UNUSED | EMBRYO | SLEEPING | RUNNABLE | RUNNING | ZOMBIE

text \<open>
  Pointers to processes, files and inodes are indices into \<open>ptable.proc\<close>, \<open>ftable.file\<close> and
  \<open>icache.inode\<close>, with \<open>None\<close> for the null pointer. The trap frame and the context, which C
  keeps on the kernel stack and points to, are fields.
\<close>

record proc =
  p_sz :: u32
  p_stacktop :: u32
  p_stackSize :: u32
  p_pgdir :: u32
  p_kstack :: u32
  p_state :: procstate
  p_pid :: int
  p_parent :: "nat option"
  p_tf :: trapframe
  p_context :: kcontext
  p_chan :: chan
  p_killed :: bool
  p_ofile :: "nat option list"
  p_cwd :: "nat option"
  p_name :: "u8 list"

section \<open>The machine\<close>

text \<open>
  \<open>sym_end\<close> and \<open>sym_data\<close> are the linker's symbols \<open>end\<close> and \<open>data\<close>; \<open>cpu\<close> is the CPU that
  executes, \<open>cpu_proc c\<close> the field \<open>proc\<close> of \<open>cpus[c]\<close>; \<open>held\<close> lists the spin locks the
  executing thread holds, the latest first; \<open>cons_locking\<close> is \<open>cons.locking\<close> of console.c and
  \<open>console\<close> the text printed so far.
\<close>

record machine =
  mem :: memory
  sym_end :: u32
  sym_data :: u32
  held :: "lockid list"
  ptable :: "proc list"
  initproc :: "nat option"
  nextpid :: int
  cpu :: nat
  cpu_proc :: "nat \<Rightarrow> nat option"
  ticks :: u32
  cons_locking :: bool
  console :: string

definition myproc :: "'a machine_scheme \<Rightarrow> nat option" where
  "myproc s = cpu_proc s (cpu s)"

definition proc_at :: "'a machine_scheme \<Rightarrow> nat \<Rightarrow> proc" where
  "proc_at s i = ptable s ! i"

definition upd_proc :: "nat \<Rightarrow> (proc \<Rightarrow> proc) \<Rightarrow> 'a machine_scheme \<Rightarrow> 'a machine_scheme" where
  "upd_proc i f s = s\<lparr>ptable := (ptable s)[i := f (ptable s ! i)]\<rparr>"

text \<open>
  The conditions spinlock.c checks on the thread that takes or releases a lock; theory
  \<open>Spinlock\<close> proves that its \<open>acquire\<close> and \<open>release\<close> keep this list.
\<close>

definition acquireK :: "lockid \<Rightarrow> 'a machine_scheme \<Rightarrow> ('a machine_scheme, unit) kres" where
  "acquireK lk s =
     (if lk \<in> set (held s) then Panic ''acquire'' else Done () (s\<lparr>held := lk # held s\<rparr>))"

definition releaseK :: "lockid \<Rightarrow> 'a machine_scheme \<Rightarrow> ('a machine_scheme, unit) kres" where
  "releaseK lk s =
     (if lk \<notin> set (held s) then Panic ''release''
      else Done () (s\<lparr>held := remove1 lk (held s)\<rparr>))"

text \<open>\<open>initlock\<close> marks the lock as not held.\<close>

definition initlockK :: "lockid \<Rightarrow> 'a machine_scheme \<Rightarrow> 'a machine_scheme" where
  "initlockK lk s = s\<lparr>held := removeAll lk (held s)\<rparr>"

section \<open>Sleeping and waking (proc.c)\<close>

definition wakeup1 :: "chan \<Rightarrow> 'a machine_scheme \<Rightarrow> 'a machine_scheme" where
  "wakeup1 ch s =
     s\<lparr>ptable := map (\<lambda>p. if p_state p = SLEEPING \<and> p_chan p = ch
                          then p\<lparr>p_state := RUNNABLE\<rparr> else p) (ptable s)\<rparr>"

definition wakeup :: "chan \<Rightarrow> 'a machine_scheme \<Rightarrow> ('a machine_scheme, unit) kres" where
  "wakeup ch s =
     bindK (acquireK LkPtable s) (\<lambda>_ s. releaseK LkPtable (wakeup1 ch s))"

text \<open>
  The checks of \<open>sched\<close> before it switches to the scheduler. \<open>ncli\<close> counts the locks held, and
  interrupts are off while there are any.
\<close>

definition sched_check :: "'a machine_scheme \<Rightarrow> ('a machine_scheme, unit) kres" where
  "sched_check s =
     (if LkPtable \<notin> set (held s) then Panic ''sched ptable.lock''
      else if length (held s) \<noteq> 1 then Panic ''sched locks''
      else case myproc s of
        None \<Rightarrow> Fault 0 s
      | Some p \<Rightarrow> if p_state (proc_at s p) = RUNNING then Panic ''sched running'' else Done () s)"

definition sleep :: "chan \<Rightarrow> lockid option \<Rightarrow> 'a machine_scheme \<Rightarrow> ('a machine_scheme, 'r) kres" where
  "sleep ch lk s =
     (case myproc s of
        None \<Rightarrow> Panic ''sleep''
      | Some p \<Rightarrow>
          (case lk of
             None \<Rightarrow> Panic ''sleep without lk''
           | Some l \<Rightarrow>
               bindK (if l \<noteq> LkPtable
                      then bindK (acquireK LkPtable s) (\<lambda>_ s. releaseK l s)
                      else Done () s)
                 (\<lambda>_ s. bindK (sched_check (upd_proc p (\<lambda>q. q\<lparr>p_chan := ch, p_state := SLEEPING\<rparr>) s))
                   (\<lambda>_ s. Asleep ch s))))"

text \<open>The rest of \<open>sleep\<close>, run when the scheduler has switched back to the process.\<close>

definition sleep_resume :: "lockid \<Rightarrow> nat \<Rightarrow> 'a machine_scheme \<Rightarrow> ('a machine_scheme, unit) kres" where
  "sleep_resume l p s =
     (let s = upd_proc p (\<lambda>q. q\<lparr>p_chan := NoChan\<rparr>) s in
      if l \<noteq> LkPtable
      then bindK (releaseK LkPtable s) (\<lambda>_ s. acquireK l s)
      else Done () s)"

section \<open>Locks of the running thread\<close>

lemma acquireK_free [kres_simps]:
  "lk \<notin> set (held s) \<Longrightarrow> acquireK lk s = Done () (s\<lparr>held := lk # held s\<rparr>)"
  by (simp add: acquireK_def)

lemma releaseK_top [kres_simps]: "releaseK lk (s\<lparr>held := lk # ls\<rparr>) = Done () (s\<lparr>held := ls\<rparr>)"
  by (simp add: releaseK_def)

lemma releaseK_first [kres_simps]:
  "held s = lk # ls \<Longrightarrow> releaseK lk s = Done () (s\<lparr>held := ls\<rparr>)"
  by (simp add: releaseK_def)

lemma held_restore [simp]: "s\<lparr>held := held s\<rparr> = s"
  by simp

lemma held_wakeup1 [simp]: "held (wakeup1 ch s) = held s"
  by (simp add: wakeup1_def)

lemma wakeup1_held_commute: "wakeup1 ch (s\<lparr>held := ls\<rparr>) = (wakeup1 ch s)\<lparr>held := ls\<rparr>"
  by (simp add: wakeup1_def)

lemma wakeup_eq [kres_simps]:
  "LkPtable \<notin> set (held s) \<Longrightarrow> wakeup ch s = Done () (wakeup1 ch s)"
  by (simp add: wakeup_def acquireK_def releaseK_def wakeup1_def)

text \<open>\<open>wakeup\<close> makes runnable exactly the processes that sleep on the channel.\<close>

lemma wakeup1_state:
  "i < length (ptable s) \<Longrightarrow>
    p_state (proc_at (wakeup1 ch s) i) =
      (if p_state (proc_at s i) = SLEEPING \<and> p_chan (proc_at s i) = ch then RUNNABLE
       else p_state (proc_at s i))"
  by (simp add: wakeup1_def proc_at_def)

lemma wakeup1_none_sleeping:
  assumes "\<forall>p \<in> set (ptable s). p_state p = SLEEPING \<longrightarrow> p_chan p \<noteq> ch"
  shows "wakeup1 ch s = s"
proof -
  have "map (\<lambda>p. if p_state p = SLEEPING \<and> p_chan p = ch then p\<lparr>p_state := RUNNABLE\<rparr> else p)
      (ptable s) = ptable s"
    using assms by (intro map_idI) auto
  then show ?thesis by (simp add: wakeup1_def)
qed

section \<open>Blank values\<close>

text \<open>A trap frame of zeros, and a process slot as the zeroed memory of the kernel has it.\<close>

definition zero_tf :: trapframe where
  "zero_tf =
     \<lparr>tf_edi = 0, tf_esi = 0, tf_ebp = 0, tf_oesp = 0, tf_ebx = 0, tf_edx = 0, tf_ecx = 0,
      tf_eax = 0, tf_gs = 0, tf_fs = 0, tf_es = 0, tf_ds = 0, tf_trapno = 0, tf_err = 0,
      tf_eip = 0, tf_cs = 0, tf_eflags = 0, tf_esp = 0, tf_ss = 0\<rparr>"

definition blank_proc :: proc where
  "blank_proc =
     \<lparr>p_sz = 0, p_stacktop = 0, p_stackSize = 0, p_pgdir = 0, p_kstack = 0, p_state = UNUSED, p_pid = 0,
      p_parent = None, p_tf = zero_tf,
      p_context = \<lparr>cx_edi = 0, cx_esi = 0, cx_ebx = 0, cx_ebp = 0, cx_eip = 0\<rparr>, p_chan = NoChan,
      p_killed = False, p_ofile = replicate NOFILE None, p_cwd = None, p_name = replicate 16 0\<rparr>"

end
