(* ===== verification/Strings.thy ===== *)
theory Strings
  imports Machine
begin

unbundle bit_operations_syntax

text \<open>
  string.c, with the \<open>rep stos\<close> instructions of x86.h that it uses. Functions that only read take
  the C strings as buffers (a byte for each offset from the pointer); functions that write memory
  take and return it. The lemmas give the effect of each loop in closed form: \<open>memset\<close> fills,
  \<open>memmove\<close> copies correctly also between overlapping regions, \<open>strncmp\<close> compares the names two
  fixed-size fields hold, \<open>strncpy\<close> and \<open>safestrcpy\<close> store a name and never write past the field.
\<close>

section \<open>Definitions\<close>

fun stosb :: "memory \<Rightarrow> u32 \<Rightarrow> u32 \<Rightarrow> nat \<Rightarrow> memory" where
  "stosb m a d 0 = m"
| "stosb m a d (Suc cnt) = stosb (m(a := ucast d)) (a + 1) d cnt"

fun stosl :: "memory \<Rightarrow> u32 \<Rightarrow> u32 \<Rightarrow> nat \<Rightarrow> memory" where
  "stosl m a d 0 = m"
| "stosl m a d (Suc cnt) = stosl (store32 m a d) (a + 4) d cnt"

definition memset :: "memory \<Rightarrow> u32 \<Rightarrow> u32 \<Rightarrow> u32 \<Rightarrow> memory" where
  "memset m dst c n =
     (if dst mod 4 = 0 \<and> n mod 4 = 0
      then let c = c AND 0xFF in
           stosl m dst (push_bit 24 c OR push_bit 16 c OR push_bit 8 c OR c) (unat (n div 4))
      else stosb m dst c (unat n))"

fun memcmp :: "cbuf \<Rightarrow> cbuf \<Rightarrow> nat \<Rightarrow> int" where
  "memcmp s1 s2 0 = 0"
| "memcmp s1 s2 (Suc n) =
     (if s1 0 \<noteq> s2 0 then uint (s1 0) - uint (s2 0)
      else memcmp (\<lambda>i. s1 (Suc i)) (\<lambda>i. s2 (Suc i)) n)"

text \<open>The two loops of \<open>memmove\<close>: from the end downwards, and from the start upwards.\<close>

fun copy_down :: "memory \<Rightarrow> u32 \<Rightarrow> u32 \<Rightarrow> nat \<Rightarrow> memory" where
  "copy_down m d s 0 = m"
| "copy_down m d s (Suc n) = copy_down (m(d - 1 := m (s - 1))) (d - 1) (s - 1) n"

fun copy_up :: "memory \<Rightarrow> u32 \<Rightarrow> u32 \<Rightarrow> nat \<Rightarrow> memory" where
  "copy_up m d s 0 = m"
| "copy_up m d s (Suc n) = copy_up (m(d := m s)) (d + 1) (s + 1) n"

definition memmove :: "memory \<Rightarrow> u32 \<Rightarrow> u32 \<Rightarrow> u32 \<Rightarrow> memory" where
  "memmove m dst src n =
     (if src < dst \<and> src + n > dst then copy_down m (dst + n) (src + n) (unat n)
      else copy_up m dst src (unat n))"

fun strncmp :: "cbuf \<Rightarrow> cbuf \<Rightarrow> nat \<Rightarrow> int" where
  "strncmp p q 0 = 0"
| "strncmp p q (Suc n) =
     (if p 0 \<noteq> 0 \<and> p 0 = q 0 then strncmp (\<lambda>i. p (Suc i)) (\<lambda>i. q (Suc i)) n
      else uint (p 0) - uint (q 0))"

text \<open>\<open>strncpy\<close>: the copying loop, then the loop that pads with zeros; \<open>i\<close> is the offset reached.\<close>

fun strncpy_pad :: "cbuf \<Rightarrow> nat \<Rightarrow> nat \<Rightarrow> cbuf" where
  "strncpy_pad s i 0 = s"
| "strncpy_pad s i (Suc n) = strncpy_pad (s(i := 0)) (Suc i) n"

fun strncpy_copy :: "cbuf \<Rightarrow> cbuf \<Rightarrow> nat \<Rightarrow> nat \<Rightarrow> cbuf" where
  "strncpy_copy s t i 0 = s"
| "strncpy_copy s t i (Suc n) =
     (if t i \<noteq> 0 then strncpy_copy (s(i := t i)) t (Suc i) n
      else strncpy_pad (s(i := t i)) (Suc i) n)"

definition strncpy :: "cbuf \<Rightarrow> cbuf \<Rightarrow> int \<Rightarrow> cbuf" where
  "strncpy s t n = strncpy_copy s t 0 (nat n)"

fun safestrcpy_loop :: "cbuf \<Rightarrow> cbuf \<Rightarrow> nat \<Rightarrow> nat \<Rightarrow> cbuf" where
  "safestrcpy_loop s t i 0 = s(i := 0)"
| "safestrcpy_loop s t i (Suc n) =
     (if t i \<noteq> 0 then safestrcpy_loop (s(i := t i)) t (Suc i) n
      else s(i := t i, Suc i := 0))"

definition safestrcpy :: "cbuf \<Rightarrow> cbuf \<Rightarrow> int \<Rightarrow> cbuf" where
  "safestrcpy s t n = (if n \<le> 0 then s else safestrcpy_loop s t 0 (nat (n - 1)))"

text \<open>\<open>strlen\<close> reads on until it meets a zero byte, so it may not return.\<close>

partial_function (option) strlen_from :: "cbuf \<Rightarrow> nat \<Rightarrow> nat option" where
  "strlen_from s n = (if s n = 0 then Some n else strlen_from s (Suc n))"

definition strlen :: "cbuf \<Rightarrow> nat option" where
  "strlen s = strlen_from s 0"

section \<open>\<open>memset\<close>\<close>

lemma fill_0 [simp]: "fill m d c 0 = m"
  by (simp add: fill_def)

lemma fill_fill:
  assumes "i + j \<le> 4294967296" and "i < 4294967296"
  shows "fill (fill m d c i) (d + of_nat i) c j = fill m d c (i + j)"
proof
  fix a
  have i: "unat (of_nat i :: u32) = i" using assms(2) by simp
  have "unat (a - d - of_nat i) < j \<longleftrightarrow> i \<le> unat (a - d) \<and> unat (a - d) < i + j"
    using word_sub_less_iff_range [of "of_nat i :: u32" j "a - d"] assms by (simp add: i)
  then show "fill (fill m d c i) (d + of_nat i) c j a = fill m d c (i + j) a"
    by (auto simp: fill_def diff_diff_eq)
qed

lemma fill_1: "fill m a c (Suc 0) = m(a := c)"
  by (auto simp: fill_def fun_eq_iff unat_eq_0)

lemma stosb_fill: "n < 4294967296 \<Longrightarrow> stosb m a d n = fill m a (ucast d) n"
proof (induction n arbitrary: m a)
  case 0
  then show ?case by simp
next
  case (Suc n)
  then show ?case
    using fill_fill [of 1 n m a "ucast d"] by (simp add: fill_1)
qed

lemma byte_of_repeated:
  fixes c :: u32
  assumes "i < 4"
  shows "byte_of i (push_bit 24 (c AND 0xFF) OR push_bit 16 (c AND 0xFF) OR push_bit 8 (c AND 0xFF)
           OR (c AND 0xFF)) = ucast c"
proof -
  have m: "(0xFF :: u32) = mask 8" by (simp add: mask_eq_exp_minus_1)
  have "i = 0 \<or> i = 1 \<or> i = 2 \<or> i = 3" using assms by auto
  then show ?thesis
    unfolding m take_bit_eq_mask [symmetric]
    by (elim disjE) (auto intro!: bit_word_eqI simp: byte_of_def bit_simps)
qed

lemma store32_repeated:
  assumes "\<And>i. i < 4 \<Longrightarrow> byte_of i d = c"
  shows "store32 m a d = fill m a c 4"
proof -
  have 2: "fill (fill m a c 1) (a + 1) c 1 = fill m a c 2"
    using fill_fill [of 1 1 m a c] by (simp add: numeral_2_eq_2)
  have 3: "fill (fill m a c 2) (a + 2) c 1 = fill m a c 3"
    using fill_fill [of 2 1 m a c] by simp
  have 4: "fill (fill m a c 3) (a + 3) c 1 = fill m a c 4"
    using fill_fill [of 3 1 m a c] by simp
  have "fill m a c 4 = fill (fill (fill (fill m a c 1) (a + 1) c 1) (a + 2) c 1) (a + 3) c 1"
    by (simp only: 2 3 4)
  then show ?thesis
    using assms [of 0] assms [of 1] assms [of 2] assms [of 3]
    by (simp add: store32_def fill_1)
qed

lemma stosl_fill:
  assumes "\<And>i. i < 4 \<Longrightarrow> byte_of i d = c" and "4 * n \<le> 4294967296"
  shows "stosl m a d n = fill m a c (4 * n)"
  using assms(2)
proof (induction n arbitrary: m a)
  case 0
  then show ?case by simp
next
  case (Suc n)
  then show ?case
    using fill_fill [of 4 "4 * n" m a c] by (simp add: store32_repeated [OF assms(1)])
qed

lemma memset_fill: "memset m dst c n = fill m dst (ucast c) (unat n)"
proof (cases "dst mod 4 = 0 \<and> n mod 4 = 0")
  case True
  then have "unat n mod 4 = 0" using unat_mod [of n 4] by simp
  then have "4 * (unat n div 4) = unat n" by auto
  then show ?thesis
    using True u32_unat_less [of n] stosl_fill [OF byte_of_repeated]
    by (simp add: memset_def unat_div)
next
  case False
  then show ?thesis using stosb_fill u32_unat_less by (auto simp: memset_def)
qed


section \<open>\<open>memmove\<close>\<close>

lemma copy_up_other:
  "\<lbrakk>\<not> unat (a - d) < n; n < 4294967296\<rbrakk> \<Longrightarrow> copy_up m d s n a = m a"
proof (induction n arbitrary: m d s)
  case 0
  then show ?case by simp
next
  case (Suc n)
  have "a \<noteq> d" using Suc.prems(1) by auto
  moreover have "\<not> unat (a - (d + 1)) < n"
    using Suc.prems word_sub_less_iff_range [of 1 n "a - d"] by (auto simp: diff_diff_eq)
  ultimately show ?case using Suc by simp
qed

text \<open>Going up is right when no source byte is overwritten before it is read.\<close>

lemma copy_up_copy:
  "\<lbrakk>unat s + n < 4294967296; unat d + n < 4294967296; d \<le> s \<or> unat s + n \<le> unat d\<rbrakk>
    \<Longrightarrow> copy_up m d s n = copy m d s n"
proof (induction n arbitrary: m d s)
  case 0
  then show ?case by (simp add: copy_def)
next
  case (Suc n)
  have s1: "unat (s + 1) = unat s + 1" and d1: "unat (d + 1) = unat d + 1"
    using Suc.prems by (auto simp: unat_word_ariths)
  have "copy_up (m(d := m s)) (d + 1) (s + 1) n = copy (m(d := m s)) (d + 1) (s + 1) n"
    using Suc.prems s1 d1 by (intro Suc.IH) (auto simp: word_le_nat_alt)
  also have "\<dots> = copy m d s (Suc n)"
  proof
    fix a
    have r1: "unat (a - (d + 1)) < n \<longleftrightarrow> unat d + 1 \<le> unat a \<and> unat a < unat d + 1 + n"
      using word_sub_less_iff_range [of "d + 1" n a] Suc.prems d1 by simp
    have r2: "unat (a - d) < Suc n \<longleftrightarrow> unat d \<le> unat a \<and> unat a < unat d + Suc n"
      using word_sub_less_iff_range [of d "Suc n" a] Suc.prems by simp
    have src: "s + (a - d) \<noteq> d" if "unat d + 1 \<le> unat a" "unat a < unat d + 1 + n"
    proof -
      have "unat (a - d) = unat a - unat d"
        using that by (intro unat_sub32) (simp add: word_le_nat_alt)
      then have "unat (s + (a - d)) = unat s + (unat a - unat d)"
        using Suc.prems that by (subst unat_add32) auto
      then show ?thesis
        using that Suc.prems(3) by (auto simp: u32_eq_iff_unat word_le_nat_alt)
    qed
    have shift: "s + 1 + (a - (d + 1)) = s + (a - d)" by simp
    show "copy (m(d := m s)) (d + 1) (s + 1) n a = copy m d s (Suc n) a"
    proof (cases "a = d")
      case True
      then show ?thesis using r1 r2 by (simp add: copy_def)
    next
      case False
      then show ?thesis using r1 r2 src by (auto simp: copy_def shift u32_eq_iff_unat)
    qed
  qed
  finally show ?case by simp
qed

lemma copy_down_copy:
  "\<lbrakk>unat s + n < 4294967296; unat d + n < 4294967296; s \<le> d\<rbrakk>
    \<Longrightarrow> copy_down m (d + of_nat n) (s + of_nat n) n = copy m d s n"
proof (induction n arbitrary: m)
  case 0
  then show ?case by (simp add: copy_def)
next
  case (Suc n)
  have n: "unat (of_nat n :: u32) = n" using Suc.prems by simp
  let ?m = "m(d + of_nat n := m (s + of_nat n))"
  have "copy_down m (d + of_nat (Suc n)) (s + of_nat (Suc n)) (Suc n)
      = copy_down ?m (d + of_nat n) (s + of_nat n) n"
    by (simp add: algebra_simps)
  also have "\<dots> = copy ?m d s n" using Suc.prems by (intro Suc.IH) auto
  also have "\<dots> = copy m d s (Suc n)"
  proof
    fix a
    have r1: "unat (a - d) < n \<longleftrightarrow> unat d \<le> unat a \<and> unat a < unat d + n"
      using word_sub_less_iff_range [of d n a] Suc.prems by simp
    have r2: "unat (a - d) < Suc n \<longleftrightarrow> unat d \<le> unat a \<and> unat a < unat d + Suc n"
      using word_sub_less_iff_range [of d "Suc n" a] Suc.prems by simp
    have dn: "unat (d + of_nat n) = unat d + n" using Suc.prems n by (subst unat_add32) auto
    have src: "s + (a - d) \<noteq> d + of_nat n" if "unat d \<le> unat a" "unat a < unat d + n"
    proof -
      have "unat (a - d) = unat a - unat d"
        using that by (intro unat_sub32) (simp add: word_le_nat_alt)
      then have "unat (s + (a - d)) = unat s + (unat a - unat d)"
        using Suc.prems that by (subst unat_add32) auto
      then show ?thesis
        using that Suc.prems(3) dn by (auto simp: u32_eq_iff_unat word_le_nat_alt)
    qed
    have last: "a = d + of_nat n \<Longrightarrow> s + (a - d) = s + of_nat n" by simp
    have eq: "a = d + of_nat n \<longleftrightarrow> unat a = unat d + n" by (simp add: u32_eq_iff_unat dn)
    show "copy ?m d s n a = copy m d s (Suc n) a"
      using r1 r2 src last eq by (auto simp: copy_def)
  qed
  finally show ?case .
qed

lemma memmove_copy:
  assumes "unat src + unat n < 4294967296" and "unat dst + unat n < 4294967296"
  shows "memmove m dst src n = copy m dst src (unat n)"
proof (cases "src < dst \<and> src + n > dst")
  case True
  then have "copy_down m (dst + of_nat (unat n)) (src + of_nat (unat n)) (unat n)
      = copy m dst src (unat n)"
    using assms by (intro copy_down_copy) auto
  with True show ?thesis by (simp add: memmove_def)
next
  case False
  have "unat (src + n) = unat src + unat n" using assms by (simp add: unat_add32)
  with False have "dst \<le> src \<or> unat src + unat n \<le> unat dst"
    by (auto simp: word_less_nat_alt word_le_nat_alt)
  then have "copy_up m dst src (unat n) = copy m dst src (unat n)"
    using assms by (intro copy_up_copy) auto
  with False show ?thesis by (auto simp: memmove_def)
qed


section \<open>Strings\<close>

text \<open>The string a field of \<open>n\<close> bytes holds: up to the first zero byte, or all of it.\<close>

definition cname :: "cbuf \<Rightarrow> nat \<Rightarrow> u8 list" where
  "cname p n = takeWhile (\<lambda>b. b \<noteq> 0) (map p [0..<n])"

text \<open>A byte list as a buffer: zero past its end.\<close>

definition buf_of :: "u8 list \<Rightarrow> cbuf" where
  "buf_of bs = (\<lambda>i. if i < length bs then bs ! i else 0)"

lemma cname_0 [simp]: "cname p 0 = []"
  by (simp add: cname_def)

lemma cname_Suc: "cname p (Suc n) = (if p 0 = 0 then [] else p 0 # cname (\<lambda>i. p (Suc i)) n)"
proof -
  have "map p [0..<Suc n] = p 0 # map (\<lambda>i. p (Suc i)) [0..<n]"
    by (simp add: upt_conv_Cons map_Suc_upt [symmetric] del: upt_Suc)
  then show ?thesis by (simp only: cname_def takeWhile.simps) simp
qed

lemma memcmp_eq_0_iff: "memcmp p q n = 0 \<longleftrightarrow> (\<forall>i < n. p i = q i)"
proof (induction n arbitrary: p q)
  case 0
  then show ?case by simp
next
  case (Suc n)
  have split: "(\<forall>i < Suc n. p i = q i) \<longleftrightarrow> p 0 = q 0 \<and> (\<forall>i < n. p (Suc i) = q (Suc i))"
    by (simp add: All_less_Suc2)
  have "p 0 \<noteq> q 0 \<Longrightarrow> uint (p 0) - uint (q 0) \<noteq> 0" by (simp add: word_uint_eq_iff)
  with Suc.IH [of "\<lambda>i. p (Suc i)" "\<lambda>i. q (Suc i)"] split show ?case by simp
qed

lemma strncmp_eq_0_iff: "strncmp p q n = 0 \<longleftrightarrow> cname p n = cname q n"
proof (induction n arbitrary: p q)
  case 0
  then show ?case by simp
next
  case (Suc n)
  have "p 0 \<noteq> q 0 \<Longrightarrow> uint (p 0) - uint (q 0) \<noteq> 0" by (simp add: word_uint_eq_iff)
  with Suc.IH [of "\<lambda>i. p (Suc i)" "\<lambda>i. q (Suc i)"] show ?case by (auto simp: cname_Suc)
qed

lemma cname_eqI:
  "(\<And>i. i < n \<Longrightarrow> (\<forall>j < i. q j \<noteq> 0) \<Longrightarrow> p i = q i) \<Longrightarrow> cname p n = cname q n"
proof (induction n arbitrary: p q)
  case 0
  then show ?case by simp
next
  case (Suc n)
  have 0: "p 0 = q 0" using Suc.prems [of 0] by simp
  show ?case
  proof (cases "q 0 = 0")
    case True
    then show ?thesis by (simp add: cname_Suc 0)
  next
    case False
    have "cname (\<lambda>i. p (Suc i)) n = cname (\<lambda>i. q (Suc i)) n"
    proof (rule Suc.IH)
      fix i
      assume "i < n" and "\<forall>j < i. q (Suc j) \<noteq> 0"
      with False show "p (Suc i) = q (Suc i)"
        by (intro Suc.prems) (auto simp: less_Suc_eq_0_disj)
    qed
    with False show ?thesis by (simp add: cname_Suc 0)
  qed
qed

lemma strncpy_pad_eq:
  "strncpy_pad s i n j = (if i \<le> j \<and> j < i + n then 0 else s j)"
  by (induction n arbitrary: s i) auto

lemma strncpy_copy_eq:
  "strncpy_copy s t i n j =
     (if i \<le> j \<and> j < i + n then (if \<exists>k. i \<le> k \<and> k < j \<and> t k = 0 then 0 else t j) else s j)"
proof (induction n arbitrary: s i)
  case 0
  then show ?case by auto
next
  case (Suc n)
  show ?case
  proof (cases "t i = 0")
    case True
    then have "i < j \<Longrightarrow> \<exists>k. i \<le> k \<and> k < j \<and> t k = 0" by auto
    with True show ?thesis
      by (cases i j rule: linorder_cases) (simp_all add: strncpy_pad_eq)
  next
    case False
    have "(\<exists>k. i \<le> k \<and> k < j \<and> t k = 0) \<longleftrightarrow> (\<exists>k. Suc i \<le> k \<and> k < j \<and> t k = 0)"
      using False by (metis Suc_le_eq le_less)
    with False show ?thesis by (auto simp: Suc.IH)
  qed
qed

lemma strncpy_eq:
  "strncpy s t n j =
     (if j < nat n then (if \<exists>k < j. t k = 0 then 0 else t j) else s j)"
  by (simp add: strncpy_def strncpy_copy_eq)

lemma cname_strncpy: "cname (strncpy s t (int n)) n = cname t n"
  by (rule cname_eqI) (auto simp: strncpy_eq)

lemma safestrcpy_loop_outside: "j < i \<or> i + n < j \<Longrightarrow> safestrcpy_loop s t i n j = s j"
  by (induction n arbitrary: s i) auto

lemma cname_safestrcpy_loop:
  "cname (\<lambda>j. safestrcpy_loop s t i n (i + j)) (Suc n) = cname (\<lambda>j. t (i + j)) n"
proof (induction n arbitrary: s i)
  case 0
  then show ?case by (simp add: cname_Suc)
next
  case (Suc n)
  show ?case
  proof (cases "t i = 0")
    case True
    then show ?thesis by (simp add: cname_Suc)
  next
    case False
    have "safestrcpy_loop (s(i := t i)) t (Suc i) n i = t i"
      using safestrcpy_loop_outside [of i "Suc i" n "s(i := t i)" t] by simp
    moreover have "cname (\<lambda>j. safestrcpy_loop (s(i := t i)) t (Suc i) n (Suc (i + j))) (Suc n)
        = cname (\<lambda>j. t (Suc (i + j))) n"
      using Suc.IH [of "s(i := t i)" "Suc i"] by (simp only: add_Suc)
    ultimately show ?thesis
      using False by (subst (1 2) cname_Suc) simp
  qed
qed

lemma cname_safestrcpy: "0 < n \<Longrightarrow> cname (safestrcpy s t (int n)) n = cname t (n - 1)"
  using cname_safestrcpy_loop [of s t 0 "n - 1"] by (simp add: safestrcpy_def nat_diff_distrib)

lemma safestrcpy_outside: "n \<le> j \<Longrightarrow> safestrcpy s t (int n) j = s j"
  using safestrcpy_loop_outside [of j 0 "n - 1" s t]
  by (cases n) (auto simp: safestrcpy_def nat_diff_distrib)

lemma cname_zero: "length (cname p n) < n \<Longrightarrow> p (length (cname p n)) = 0"
proof (induction n arbitrary: p)
  case 0
  then show ?case by simp
next
  case (Suc n)
  then show ?case using Suc.IH [of "\<lambda>i. p (Suc i)"] by (auto simp: cname_Suc split: if_splits)
qed

lemma length_cname: "length (cname p n) \<le> n"
  unfolding cname_def by (rule order.trans [OF length_takeWhile_le]) simp

text \<open>\<open>strlen\<close> returns the offset of the first zero byte.\<close>

lemma strlen_from_least: "\<lbrakk>s (n + k) = 0; \<forall>j < k. s (n + j) \<noteq> 0\<rbrakk> \<Longrightarrow> strlen_from s n = Some (n + k)"
proof (induction k arbitrary: n)
  case 0
  then show ?case by (simp add: strlen_from.simps)
next
  case (Suc k)
  have "strlen_from s (Suc n) = Some (Suc n + k)"
    using Suc.prems by (intro Suc.IH) (auto dest: spec [of _ "Suc _"])
  moreover have "s n \<noteq> 0" using Suc.prems(2) by (auto dest: spec [of _ 0])
  ultimately show ?case by (simp add: strlen_from.simps [of s n])
qed

lemma strlen_least: "\<lbrakk>s k = 0; \<forall>j < k. s j \<noteq> 0\<rbrakk> \<Longrightarrow> strlen s = Some k"
  using strlen_from_least [of s 0 k] by (simp add: strlen_def)

section \<open>Properties\<close>

text \<open>
  C17: \<open>memmove\<close> copies as if through a buffer of its own: for areas that do not wrap around the
  address space, every byte of the destination is the byte the source had before the call, also
  when the areas overlap, and no other byte changes.
\<close>

theorem memmove_simultaneous:
  assumes "unat src + unat n < 4294967296" and "unat dst + unat n < 4294967296"
  shows "memmove m dst src n a = (if unat (a - dst) < unat n then m (src + (a - dst)) else m a)"
  using memmove_copy [OF assms] by (simp add: copy_def)

theorem memmove_simultaneous_witness:
  "memmove (\<lambda>a. ucast a) 1002 1000 4 1005 = 235"
  using memmove_simultaneous [of 1000 4 1002 "\<lambda>a. ucast a" 1005] by simp

text \<open>
  \<open>memset\<close> writes the low byte of its argument to exactly the \<open>n\<close> bytes from \<open>dst\<close> on, whether it
  stores words or bytes.
\<close>

theorem memset_bytes: "memset m dst c n a = (if unat (a - dst) < unat n then ucast c else m a)"
  by (simp add: memset_fill fill_def)

text \<open>
  C24: \<open>safestrcpy\<close> with room for \<open>n\<close> characters leaves a terminated string in the buffer, the first
  \<open>n - 1\<close> characters of the source at most, and writes nothing beyond the buffer.
\<close>

theorem safestrcpy_terminated:
  assumes "0 < n"
  shows "cname (safestrcpy s t (int n)) n = cname t (n - 1)
    \<and> length (cname (safestrcpy s t (int n)) n) < n
    \<and> safestrcpy s t (int n) (length (cname t (n - 1))) = 0
    \<and> (\<forall>j \<ge> n. safestrcpy s t (int n) j = s j)"
proof -
  have c: "cname (safestrcpy s t (int n)) n = cname t (n - 1)" by (rule cname_safestrcpy [OF assms])
  moreover have lt: "length (cname t (n - 1)) < n"
    using length_cname [of t "n - 1"] assms by simp
  moreover have "safestrcpy s t (int n) (length (cname t (n - 1))) = 0"
    using cname_zero [of "safestrcpy s t (int n)" n] lt unfolding c by blast
  ultimately show ?thesis using safestrcpy_outside by simp
qed

theorem safestrcpy_terminated_witness:
  "cname (safestrcpy (\<lambda>_. 7) (buf_of [1, 2, 3]) (int 3)) 3 = [1, 2]"
  using safestrcpy_terminated [of 3 "\<lambda>_. 7" "buf_of [1, 2, 3]"]
  by (simp add: cname_Suc buf_of_def eval_nat_numeral)

end
