(* ===== verification/Kalloc.thy ===== *)
theory Kalloc
  imports Kernel Strings
begin

unbundle bit_operations_syntax

text \<open>
  kalloc.c: the physical page allocator. The free list is threaded through the free pages, the
  first word of each holding the address of the next, so it lives in memory like everything else;
  \<open>free_list\<close> says which pages a chain visits. The interface other components rely on is the
  locale \<open>page_allocator\<close>: the allocator is a stack of distinct pages. It is interpreted on
  \<open>kalloc\<close> and \<open>kfree\<close>.
\<close>

section \<open>State and operations\<close>

record physmem = machine +
  kmem_use_lock :: bool
  kmem_freelist :: u32

definition kfree :: "u32 \<Rightarrow> 'a physmem_scheme \<Rightarrow> ('a physmem_scheme, unit) kres" where
  "kfree v s =
     (if v mod PGSIZE \<noteq> 0 \<or> v < sym_end s \<or> V2P v \<ge> PHYSTOP then Panic ''kfree''
      else
        let s = s\<lparr>mem := memset (mem s) v 1 PGSIZE\<rparr> in
        bindK (if kmem_use_lock s then acquireK LkKmem s else Done () s)
          (\<lambda>_ s. let s = s\<lparr>mem := store32 (mem s) v (kmem_freelist s), kmem_freelist := v\<rparr> in
                 if kmem_use_lock s then releaseK LkKmem s else Done () s))"

definition kalloc :: "'a physmem_scheme \<Rightarrow> ('a physmem_scheme, u32) kres" where
  "kalloc s =
     bindK (if kmem_use_lock s then acquireK LkKmem s else Done () s)
       (\<lambda>_ s. let r = kmem_freelist s;
                  s = (if r \<noteq> 0 then s\<lparr>kmem_freelist := load32 (mem s) r\<rparr> else s) in
              bindK (if kmem_use_lock s then releaseK LkKmem s else Done () s)
                (\<lambda>_ s. Done r s))"

text \<open>
  The loop of \<open>freerange\<close> ends: \<open>kfree\<close> panics on an address from which adding a page would
  wrap around.
\<close>

lemma kfree_Done_range: "kfree p s = Done u t \<Longrightarrow> unat p < 2382364672"
proof -
  assume "kfree p s = Done u t"
  then have "V2P p < PHYSTOP" by (auto simp: kfree_def split: if_splits)
  then show ?thesis unfolding V2P_def word_less_nat_alt by (simp add: unat_sub_if' split: if_splits)
qed

function freerange_loop :: "u32 \<Rightarrow> u32 \<Rightarrow> 'a physmem_scheme \<Rightarrow> ('a physmem_scheme, unit) kres" where
  "freerange_loop p vend s =
     (if p + PGSIZE \<le> vend
      then bindK (kfree p s) (\<lambda>_ s. freerange_loop (p + PGSIZE) vend s)
      else Done () s)"
  by pat_completeness auto
termination
proof (relation "measure (\<lambda>(p, vend, s). 4294967296 - unat p)", goal_cases)
  case 1
  then show ?case by simp
next
  case (2 p vend s u t)
  from kfree_Done_range [OF 2(2)] have "unat (p + PGSIZE) = unat p + 4096"
    by (intro unat_add32 [THEN trans]) simp_all
  with kfree_Done_range [OF 2(2)] show ?case by simp
qed

declare freerange_loop.simps [simp del]

definition freerange :: "u32 \<Rightarrow> u32 \<Rightarrow> 'a physmem_scheme \<Rightarrow> ('a physmem_scheme, unit) kres" where
  "freerange vstart vend s = freerange_loop (PGROUNDUP vstart) vend s"

definition kinit1 :: "u32 \<Rightarrow> u32 \<Rightarrow> 'a physmem_scheme \<Rightarrow> ('a physmem_scheme, unit) kres" where
  "kinit1 vstart vend s = freerange vstart vend ((initlockK LkKmem s)\<lparr>kmem_use_lock := False\<rparr>)"

definition kinit2 :: "u32 \<Rightarrow> u32 \<Rightarrow> 'a physmem_scheme \<Rightarrow> ('a physmem_scheme, unit) kres" where
  "kinit2 vstart vend s =
     bindK (freerange vstart vend s) (\<lambda>_ s. Done () (s\<lparr>kmem_use_lock := True\<rparr>))"

section \<open>The free list\<close>

text \<open>The addresses \<open>kfree\<close> accepts: the pages between the kernel image and the top of memory.\<close>

definition kpage :: "'a machine_scheme \<Rightarrow> u32 \<Rightarrow> bool" where
  "kpage s v \<longleftrightarrow> unat v mod 4096 = 0 \<and> sym_end s \<le> v \<and> V2P v < PHYSTOP"

fun free_list :: "memory \<Rightarrow> u32 \<Rightarrow> u32 list \<Rightarrow> bool" where
  "free_list m p [] \<longleftrightarrow> p = 0"
| "free_list m p (x # xs) \<longleftrightarrow> p = x \<and> free_list m (load32 m x) xs"

text \<open>
  The allocator holds the pages \<open>xs\<close>, in the order in which \<open>kalloc\<close> will return them, and its
  lock is free if it is used.
\<close>

definition kpool :: "'a physmem_scheme \<Rightarrow> u32 list \<Rightarrow> bool" where
  "kpool s xs \<longleftrightarrow> free_list (mem s) (kmem_freelist s) xs \<and> distinct xs \<and> (\<forall>x \<in> set xs. kpage s x)
     \<and> (kmem_use_lock s \<longrightarrow> LkKmem \<notin> set (held s))"

lemma kpage_range: "kpage s v \<Longrightarrow> 2147483648 \<le> unat v \<and> unat v + 4096 \<le> 2382364672"
proof -
  assume v: "kpage s v"
  then have "2147483648 \<le> unat v \<and> unat v < 2382364672"
    unfolding kpage_def V2P_def word_less_nat_alt by (auto simp: unat_sub_if' split: if_splits)
  moreover obtain q where "unat v = 4096 * q" using v unfolding kpage_def by (meson mod_0_imp_dvd dvdE)
  moreover from calculation have "q < 581632" by linarith
  ultimately show ?thesis by linarith
qed

lemma kpage_nonzero: "kpage s v \<Longrightarrow> v \<noteq> 0"
  using kpage_range [of s v] by auto

lemma kpage_aligned4: "kpage s v \<Longrightarrow> aligned4 v"
  unfolding kpage_def using mod_mod_cancel [of 4 4096 "unat v"] by simp

lemma page_mod_PGSIZE: "v mod PGSIZE = 0 \<longleftrightarrow> unat v mod 4096 = 0"
  by (simp add: u32_eq_iff_unat unat_mod)

lemma kfree_guard: "(v mod PGSIZE \<noteq> 0 \<or> v < sym_end s \<or> V2P v \<ge> PHYSTOP) \<longleftrightarrow> \<not> kpage s v"
  unfolding kpage_def page_mod_PGSIZE by auto

text \<open>What a page frees up to: filled with ones, then the link in its first word.\<close>

definition freed_mem :: "memory \<Rightarrow> u32 \<Rightarrow> u32 \<Rightarrow> memory" where
  "freed_mem m v next = store32 (fill m v 1 4096) v next"

lemma kfree_eq:
  assumes "kpage s v" and "kmem_use_lock s \<Longrightarrow> LkKmem \<notin> set (held s)"
  shows "kfree v s = Done () (s\<lparr>mem := freed_mem (mem s) v (kmem_freelist s), kmem_freelist := v\<rparr>)"
  unfolding kfree_def kfree_guard freed_mem_def
  using assms by (simp add: kres_simps memset_fill Let_def acquireK_def releaseK_def)

lemma kfree_panic: "\<not> kpage s v \<Longrightarrow> kfree v s = Panic ''kfree''"
  unfolding kfree_def kfree_guard by simp

lemma kalloc_eq:
  assumes "kmem_use_lock s \<Longrightarrow> LkKmem \<notin> set (held s)"
  shows "kalloc s = Done (kmem_freelist s)
    (if kmem_freelist s \<noteq> 0 then s\<lparr>kmem_freelist := load32 (mem s) (kmem_freelist s)\<rparr> else s)"
  using assms by (simp add: kalloc_def Let_def acquireK_def releaseK_def)

lemma free_list_frame:
  "(\<And>x. x \<in> set xs \<Longrightarrow> load32 m' x = load32 m x) \<Longrightarrow> free_list m' p xs = free_list m p xs"
  by (induction xs arbitrary: p) auto

lemma free_list_nonempty: "free_list m p xs \<Longrightarrow> \<forall>x \<in> set xs. x \<noteq> 0 \<Longrightarrow> p = 0 \<longleftrightarrow> xs = []"
  by (cases xs) auto

lemma freed_mem_outside:
  assumes "kpage s v" and "\<not> in_page v a"
  shows "freed_mem m v nx a = m a"
proof -
  have "a \<noteq> v + of_nat k" if "k < 4" for k using assms(2) that by auto
  from this [of 0] this [of 1] this [of 2] this [of 3] assms(2) show ?thesis
    by (simp add: freed_mem_def store32_def fill_def)
qed

lemma load32_freed_mem_outside:
  assumes "kpage s v" and "aligned4 a" and "\<not> in_page v a"
  shows "load32 (freed_mem m v nx) a = load32 m a"
  using assms by (intro load32_outside) (auto simp: kpage_def intro: freed_mem_outside [OF assms(1)])

lemma load32_freed_mem_link: "load32 (freed_mem m v nx) v = nx"
  by (simp add: freed_mem_def)

lemma kpage_update [simp]:
  "kpage (s\<lparr>mem := m\<rparr>) = kpage s" "kpage (s\<lparr>held := h\<rparr>) = kpage s"
  "kpage (t\<lparr>kmem_freelist := f\<rparr>) = kpage t" "kpage (t\<lparr>kmem_use_lock := b\<rparr>) = kpage t"
  by (simp_all add: fun_eq_iff kpage_def)

lemma kpool_distinct: "kpool s xs \<Longrightarrow> distinct xs"
  by (simp add: kpool_def)

lemma kpool_kpage: "kpool s xs \<Longrightarrow> x \<in> set xs \<Longrightarrow> kpage s x"
  by (simp add: kpool_def)

lemma kpool_head: "kpool s xs \<Longrightarrow> kmem_freelist s = (case xs of [] \<Rightarrow> 0 | x # _ \<Rightarrow> x)"
  by (cases xs) (auto simp: kpool_def)

text \<open>Memory may change anywhere outside the free pages.\<close>

lemma kpool_mem:
  assumes "kpool s xs" and "\<And>x a. x \<in> set xs \<Longrightarrow> in_page x a \<Longrightarrow> m a = mem s a"
  shows "kpool (s\<lparr>mem := m\<rparr>) xs"
proof -
  have "load32 m x = load32 (mem s) x" if "x \<in> set xs" for x
  proof (rule load32_page)
    have x: "kpage s x" using assms(1) that by (rule kpool_kpage)
    then show "unat x mod 4096 = 0" "aligned4 x" by (auto simp: kpage_def intro: kpage_aligned4)
    show "in_page x x" by simp
  qed (use assms(2) that in auto)
  then have "free_list m (kmem_freelist s) xs = free_list (mem s) (kmem_freelist s) xs"
    by (rule free_list_frame)
  with assms(1) show ?thesis by (simp add: kpool_def)
qed

lemma kalloc_pool:
  assumes "kpool s xs"
  shows "kalloc s = Done (case xs of [] \<Rightarrow> 0 | x # _ \<Rightarrow> x)
           (s\<lparr>kmem_freelist := case xs of [] \<Rightarrow> 0 | x # _ \<Rightarrow> load32 (mem s) x\<rparr>)"
    and "kpool (s\<lparr>kmem_freelist := case xs of [] \<Rightarrow> 0 | x # _ \<Rightarrow> load32 (mem s) x\<rparr>) (tl xs)"
proof -
  have "kmem_use_lock s \<Longrightarrow> LkKmem \<notin> set (held s)" using assms by (simp add: kpool_def)
  from kalloc_eq [OF this] assms
  show "kalloc s = Done (case xs of [] \<Rightarrow> 0 | x # _ \<Rightarrow> x)
      (s\<lparr>kmem_freelist := case xs of [] \<Rightarrow> 0 | x # _ \<Rightarrow> load32 (mem s) x\<rparr>)"
    by (cases xs) (auto simp: kpool_def dest: kpage_nonzero)
  show "kpool (s\<lparr>kmem_freelist := case xs of [] \<Rightarrow> 0 | x # _ \<Rightarrow> load32 (mem s) x\<rparr>) (tl xs)"
    using assms by (cases xs) (auto simp: kpool_def)
qed

lemma kfree_pool:
  assumes "kpool s xs" and "kpage s v" and "v \<notin> set xs"
  shows "kfree v s = Done () (s\<lparr>mem := freed_mem (mem s) v (kmem_freelist s), kmem_freelist := v\<rparr>)"
    and "kpool (s\<lparr>mem := freed_mem (mem s) v (kmem_freelist s), kmem_freelist := v\<rparr>) (v # xs)"
proof -
  show "kfree v s = Done () (s\<lparr>mem := freed_mem (mem s) v (kmem_freelist s), kmem_freelist := v\<rparr>)"
    using assms by (intro kfree_eq) (auto simp: kpool_def)
  have "load32 (freed_mem (mem s) v (kmem_freelist s)) x = load32 (mem s) x" if "x \<in> set xs" for x
  proof (rule load32_freed_mem_outside [OF assms(2)])
    have x: "kpage s x" using assms(1) that by (rule kpool_kpage)
    then show "aligned4 x" by (rule kpage_aligned4)
    show "\<not> in_page v x"
      using page_disjoint [of x v x] x assms(2,3) that by (auto simp: kpage_def)
  qed
  then have "free_list (freed_mem (mem s) v (kmem_freelist s)) (kmem_freelist s) xs"
    using assms(1) free_list_frame unfolding kpool_def by blast
  then show "kpool (s\<lparr>mem := freed_mem (mem s) v (kmem_freelist s), kmem_freelist := v\<rparr>) (v # xs)"
    using assms by (simp add: kpool_def load32_freed_mem_link)
qed

section \<open>The allocator as an interface\<close>

text \<open>
  \<open>pool s xs\<close>: the allocator in state \<open>s\<close> holds the pages \<open>xs\<close>. Allocation pops, freeing pushes;
  the null pointer stands for ``no memory''.
\<close>

locale page_allocator =
  fixes alloc :: "'s \<Rightarrow> ('s, u32) kres"
    and free :: "u32 \<Rightarrow> 's \<Rightarrow> ('s, unit) kres"
    and pool :: "'s \<Rightarrow> u32 list \<Rightarrow> bool"
    and page :: "'s \<Rightarrow> u32 \<Rightarrow> bool"
  assumes alloc_nil: "pool s [] \<Longrightarrow> alloc s = Done 0 s"
    and alloc_cons: "pool s (x # xs) \<Longrightarrow> \<exists>t. alloc s = Done x t \<and> pool t xs \<and> page t = page s"
    and free_push: "pool s xs \<Longrightarrow> page s v \<Longrightarrow> v \<notin> set xs
          \<Longrightarrow> \<exists>t. free v s = Done () t \<and> pool t (v # xs) \<and> page t = page s"
    and pool_distinct: "pool s xs \<Longrightarrow> distinct xs"
    and pool_page: "pool s xs \<Longrightarrow> x \<in> set xs \<Longrightarrow> page s x"
    and page_nonzero: "page s x \<Longrightarrow> x \<noteq> 0"
begin

lemma alloc_returns: "pool s xs \<Longrightarrow> \<exists>t. alloc s = Done (case xs of [] \<Rightarrow> 0 | x # _ \<Rightarrow> x) t \<and> pool t (tl xs)"
  using alloc_nil alloc_cons by (cases xs) (auto, blast)

lemma alloc_zero_iff: "pool s xs \<Longrightarrow> (\<exists>t. alloc s = Done 0 t) \<longleftrightarrow> xs = []"
  using alloc_nil alloc_cons [of s] pool_page [of s xs] page_nonzero [of s]
  by (cases xs) fastforce+

lemma free_alloc:
  assumes "pool s xs" "page s v" "v \<notin> set xs"
  shows "\<exists>t. bindK (free v s) (\<lambda>_ s. alloc s) = Done v t \<and> pool t xs"
  using free_push [OF assms] alloc_cons by fastforce

lemma alloc_alloc_distinct:
  assumes "pool s xs" and "alloc s = Done x t" "x \<noteq> 0" and "alloc t = Done y u"
  shows "x \<noteq> y"
proof (cases xs)
  case Nil
  with assms show ?thesis using alloc_nil by auto
next
  case (Cons a as)
  then have "x = a" "pool t as" "page t = page s"
    using assms(1,2) alloc_cons [of s a as] by auto
  moreover have "a \<notin> set as" using Cons assms(1) pool_distinct by fastforce
  moreover have "y = (case as of [] \<Rightarrow> 0 | b # _ \<Rightarrow> b)"
    using alloc_returns [OF \<open>pool t as\<close>] assms(4) by auto
  ultimately show ?thesis using assms(3) by (auto split: list.splits)
qed

end

interpretation ka: page_allocator kalloc kfree kpool kpage
proof
  fix s :: "'a physmem_scheme" and x :: u32 and xs :: "u32 list"
  show "kalloc s = Done 0 s" if "kpool s []"
  proof -
    have "s\<lparr>kmem_freelist := 0\<rparr> = s" using kpool_head [OF that] by simp
    with kalloc_pool(1) [OF that] show ?thesis by simp
  qed
  show "\<exists>t. kalloc s = Done x t \<and> kpool t xs \<and> kpage t = kpage s" if "kpool s (x # xs)"
    using kalloc_pool [OF that] by simp
  show "\<exists>t. kfree x s = Done () t \<and> kpool t (x # xs) \<and> kpage t = kpage s"
    if "kpool s xs" "kpage s x" "x \<notin> set xs"
    using kfree_pool [OF that] by simp
qed (auto intro: kpool_distinct kpool_kpage dest: kpage_nonzero)

section \<open>Initialisation\<close>

text \<open>The whole pages between two addresses, the lowest first.\<close>

definition pages_from :: "u32 \<Rightarrow> nat \<Rightarrow> u32 list" where
  "pages_from p n = map (\<lambda>i. p + of_nat (4096 * i)) [0..<n]"

lemma pages_from_0 [simp]: "pages_from p 0 = []"
  by (simp add: pages_from_def)

lemma pages_from_Suc: "pages_from p (Suc n) = p # pages_from (p + PGSIZE) n"
proof -
  have "map (\<lambda>i. p + of_nat (4096 * i)) [0..<Suc n]
      = p # map (\<lambda>i. p + of_nat (4096 * Suc i)) [0..<n]"
    by (simp add: upt_conv_Cons map_Suc_upt [symmetric] del: upt_Suc)
  then show ?thesis by (simp add: pages_from_def add.assoc)
qed

lemma freerange_loop_pool:
  assumes "kpool s xs" and "unat p mod 4096 = 0" and "sym_end s \<le> p"
    and "2147483648 \<le> unat p" and "unat p \<le> 2382364672"
    and "unat vend \<le> 2382364672" and "n = (unat vend - unat p) div 4096"
    and "\<forall>x \<in> set xs. unat x < unat p \<or> unat vend \<le> unat x"
  shows "\<exists>t. freerange_loop p vend s = Done () t \<and> kpool t (rev (pages_from p n) @ xs)"
  using assms
proof (induction n arbitrary: p s xs)
  case 0
  have "unat (p + PGSIZE) = unat p + 4096" using 0(5) by (subst unat_add32) auto
  moreover have "unat vend - unat p < 4096" using 0 by (simp add: div_eq_0_iff)
  ultimately have "\<not> p + PGSIZE \<le> vend" by (auto simp: word_le_nat_alt)
  with 0 show ?case by (simp add: freerange_loop.simps)
next
  case (Suc n)
  have p1: "unat (p + PGSIZE) = unat p + 4096" using Suc.prems(5) by (subst unat_add32) auto
  have room: "unat p + 4096 \<le> unat vend"
  proof -
    have "0 < (unat vend - unat p) div 4096" by (simp flip: Suc.prems(7))
    then show ?thesis by (simp add: div_greater_zero_iff)
  qed
  have page: "kpage s p"
    using Suc.prems room by (auto simp: kpage_def V2P_def word_less_nat_alt unat_sub_if')
  have "p \<notin> set xs" using Suc.prems(8) room by auto
  from kfree_pool [OF Suc.prems(1) page this] obtain t where
    t: "kfree p s = Done () t" "kpool t (p # xs)" "sym_end t = sym_end s" by auto
  have "\<exists>u. freerange_loop (p + PGSIZE) vend t = Done () u
      \<and> kpool u (rev (pages_from (p + PGSIZE) n) @ p # xs)"
  proof (rule Suc.IH [OF t(2)])
    show "unat (p + PGSIZE) mod 4096 = 0" using Suc.prems(2) p1 by simp
    show "sym_end t \<le> p + PGSIZE" using Suc.prems(3) p1 t(3) by (simp add: word_le_nat_alt)
    show "n = (unat vend - unat (p + PGSIZE)) div 4096"
      using Suc.prems(7) room p1 by (simp add: le_div_geq)
    show "\<forall>x \<in> set (p # xs). unat x < unat (p + PGSIZE) \<or> unat vend \<le> unat x"
      using Suc.prems(8) p1 by auto
  qed (use Suc.prems p1 room in auto)
  moreover have "p + PGSIZE \<le> vend" using p1 room by (simp add: word_le_nat_alt)
  ultimately show ?case
    using t(1) by (subst freerange_loop.simps) (auto simp: pages_from_Suc)
qed

lemma freerange_pool:
  assumes "kpool s xs" and "sym_end s \<le> vstart" and "KERNBASE \<le> vstart" and "vstart \<le> vend"
    and "vend \<le> P2V PHYSTOP" and "\<forall>x \<in> set xs. x < vstart \<or> vend \<le> x"
  shows "\<exists>t. freerange vstart vend s = Done () t
    \<and> kpool t (rev (pages_from (PGROUNDUP vstart) ((unat vend - unat (PGROUNDUP vstart)) div 4096)) @ xs)"
proof -
  have v: "unat vstart \<le> unat vend" "unat vend \<le> 2382364672" "2147483648 \<le> unat vstart"
    using assms by (simp_all add: word_le_nat_alt P2V_def)
  then have up: "unat (PGROUNDUP vstart) = 4096 * ((unat vstart + 4095) div 4096)"
    by (intro unat_PGROUNDUP) auto
  moreover have "(unat vstart + 4095) div 4096 \<le> 581632"
    using v div_le_mono [of "unat vstart + 4095" "2382364672 + 4095" 4096] by simp
  ultimately have bounds: "unat vstart \<le> unat (PGROUNDUP vstart)" "unat (PGROUNDUP vstart) \<le> 2382364672"
    by linarith+
  show ?thesis
    unfolding freerange_def
  proof (rule freerange_loop_pool [OF assms(1)])
    show "sym_end s \<le> PGROUNDUP vstart" using assms(2) bounds by (auto simp: word_le_nat_alt)
    show "\<forall>x \<in> set xs. unat x < unat (PGROUNDUP vstart) \<or> unat vend \<le> unat x"
      using assms(6) bounds by (force simp: word_le_nat_alt word_less_nat_alt)
  qed (use v up bounds in auto)
qed

section \<open>Properties\<close>

text \<open>A machine with two free pages, for examples.\<close>

definition two_pages :: physmem where
  "two_pages =
     \<lparr>mem = store32 (\<lambda>_. 0) 0x80400000 0x80401000, sym_end = 0x80110000, sym_data = 0x80108000,
      held = [], ptable = [], initproc = None, nextpid = 1, cpu = 0, cpu_proc = \<lambda>_. None, ticks = 0,
      cons_locking = False, console = [], kmem_use_lock = True, kmem_freelist = 0x80400000\<rparr>"

lemma load32_zero: "load32 (\<lambda>_. 0) a = 0"
  by (simp add: load32_def le32_def)

lemma two_pages_pool: "kpool two_pages [0x80400000, 0x80401000]"
  by (simp add: two_pages_def kpool_def kpage_def V2P_def load32_zero)

text \<open>
  C13: The free list is a stack of distinct pages. When it holds the pages \<open>xs\<close>, \<open>kalloc\<close> returns the
  first of them and keeps the others, and returns 0 exactly when there is none; \<open>kfree\<close> of a page
  outside the list pushes it, so that the next \<open>kalloc\<close> returns it.
\<close>

theorem kalloc_kfree_stack:
  assumes "kpool s xs"
  shows "(\<exists>t. kalloc s = Done (case xs of [] \<Rightarrow> 0 | x # _ \<Rightarrow> x) t \<and> kpool t (tl xs))
    \<and> ((\<exists>t. kalloc s = Done 0 t) \<longleftrightarrow> xs = [])
    \<and> (\<forall>v. kpage s v \<longrightarrow> v \<notin> set xs \<longrightarrow>
         (\<exists>t u. kfree v s = Done () t \<and> kpool t (v # xs) \<and> kalloc t = Done v u \<and> kpool u xs))"
proof (intro conjI allI impI)
  show "\<exists>t. kalloc s = Done (case xs of [] \<Rightarrow> 0 | x # _ \<Rightarrow> x) t \<and> kpool t (tl xs)"
    by (rule ka.alloc_returns [OF assms])
  show "(\<exists>t. kalloc s = Done 0 t) \<longleftrightarrow> xs = []"
    by (rule ka.alloc_zero_iff [OF assms])
  fix v
  assume "kpage s v" "v \<notin> set xs"
  then show "\<exists>t u. kfree v s = Done () t \<and> kpool t (v # xs) \<and> kalloc t = Done v u \<and> kpool u xs"
    using ka.free_push [OF assms] ka.alloc_cons by metis
qed

theorem kalloc_kfree_stack_witness:
  "\<exists>t. kalloc two_pages = Done 0x80400000 t \<and> kpool t [0x80401000]"
  using kalloc_kfree_stack [OF two_pages_pool] by simp

text \<open>
  \<open>kfree\<close> panics on exactly the addresses it must not accept: those not aligned to a page, below
  the end of the kernel, or beyond the physical memory. On the others it returns.
\<close>

theorem kfree_guarded:
  assumes "kmem_use_lock s \<longrightarrow> LkKmem \<notin> set (held s)"
  shows "kfree v s = Panic ''kfree'' \<longleftrightarrow> unat v mod 4096 \<noteq> 0 \<or> v < sym_end s \<or> V2P v \<ge> PHYSTOP"
proof -
  have "kfree v s = Panic ''kfree'' \<longleftrightarrow> \<not> kpage s v"
    using kfree_panic [of s v] kfree_eq [of s v] assms by auto
  then show ?thesis using kfree_guard [of v s] by (simp add: page_mod_PGSIZE)
qed

theorem kfree_guarded_witness:
  "kfree 0x80400004 two_pages = Panic ''kfree'' \<and> kfree 0x80402000 two_pages \<noteq> Panic ''kfree''"
  using kfree_guarded [of two_pages "0x80400004"] kfree_guarded [of two_pages "0x80402000"]
  by (simp add: two_pages_def V2P_def)

text \<open>
  C21: \<open>kinit1\<close> on an empty allocator frees exactly the whole pages between its arguments, the
  highest on top of the list, provided that they lie between the end of the kernel and the top
  of physical memory.
\<close>

theorem kinit1_pages:
  assumes "kmem_freelist s = 0" and "sym_end s \<le> vstart" and "KERNBASE \<le> vstart" and "vstart \<le> vend"
    and "vend \<le> P2V PHYSTOP"
  shows "\<exists>t. kinit1 vstart vend s = Done () t
    \<and> kpool t (rev (pages_from (PGROUNDUP vstart) ((unat vend - unat (PGROUNDUP vstart)) div 4096)))"
proof -
  let ?s = "(initlockK LkKmem s)\<lparr>kmem_use_lock := False\<rparr>"
  have "kpool ?s []" using assms(1) by (simp add: kpool_def initlockK_def)
  moreover have "sym_end ?s \<le> vstart" using assms(2) by (simp add: initlockK_def)
  ultimately show ?thesis
    using freerange_pool [of ?s "[]" vstart vend] assms(3-5) by (simp add: kinit1_def)
qed

theorem kinit1_pages_witness:
  "\<exists>t. kinit1 0x80110000 0x80400000 (two_pages\<lparr>kmem_freelist := 0\<rparr>) = Done () t"
  using kinit1_pages [of "two_pages\<lparr>kmem_freelist := 0\<rparr>" "0x80110000" "0x80400000"]
  by (auto simp: two_pages_def P2V_def)

end
