(* ===== verification/Cprintf.thy ===== *)
theory Cprintf
  imports Kernel
begin

unbundle bit_operations_syntax

text \<open>
  Formatted output: \<open>printint\<close> and \<open>cprintf\<close> of console.c, and \<open>printint\<close> and \<open>printf\<close> of the
  user library's printf.c, which differ in the hexadecimal digits they use and in the directives
  they know. The number printer fills a buffer of 16 characters from the back; \<open>None\<close> stands for
  a write past its end. The lemmas show that this never happens for the bases in use, and that
  the text printed reads back as the number.
\<close>

section \<open>Printing numbers\<close>

text \<open>The two tables \<open>digits\<close>.\<close>

definition digits_lower :: string where
  "digits_lower = ''0123456789abcdef''"

definition digits_upper :: string where
  "digits_upper = ''0123456789ABCDEF''"

text \<open>
  The loop that stores the digits, the least significant first; \<open>n\<close> is the room left in the
  buffer.
\<close>

fun printint_digits :: "string \<Rightarrow> nat \<Rightarrow> u32 \<Rightarrow> u32 \<Rightarrow> string option" where
  "printint_digits ds 0 x base = None"
| "printint_digits ds (Suc n) x base =
     (let c = ds ! unat (x mod base) in
      if x div base \<noteq> 0 then map_option (\<lambda>r. c # r) (printint_digits ds n (x div base) base)
      else Some [c])"

definition printint :: "string \<Rightarrow> u32 \<Rightarrow> u32 \<Rightarrow> bool \<Rightarrow> string option" where
  "printint ds xx base sg =
     (let neg = (sg \<and> sint xx < 0);
          x = (if neg then - xx else xx) in
      case printint_digits ds 16 x base of
        None \<Rightarrow> None
      | Some buf \<Rightarrow>
          if neg then (if length buf < 16 then Some (rev (buf @ ''-'')) else None)
          else Some (rev buf))"

section \<open>Format strings\<close>

text \<open>An argument word: a number, or a pointer to a string (\<open>None\<close> is the null pointer).\<close>

datatype carg = Num u32 | Str "string option"

text \<open>
  The loop of \<open>cprintf\<close>. \<open>None\<close>: the directive finds no argument, or one of the other kind,
  which in C reads whatever word lies there.
\<close>

fun cformat :: "string \<Rightarrow> carg list \<Rightarrow> string option" where
  "cformat [] args = Some []"
| "cformat [c] args = (if c \<noteq> CHR ''%'' then Some [c] else Some [])"
| "cformat (c # d # fmt) args =
     (if c \<noteq> CHR ''%'' then map_option (\<lambda>r. c # r) (cformat (d # fmt) args)
      else if d = CHR ''d'' then
        (case args of
           Num x # as \<Rightarrow> (case printint digits_lower x 10 True of
                           None \<Rightarrow> None | Some t \<Rightarrow> map_option (\<lambda>r. t @ r) (cformat fmt as))
         | _ \<Rightarrow> None)
      else if d = CHR ''x'' \<or> d = CHR ''p'' then
        (case args of
           Num x # as \<Rightarrow> (case printint digits_lower x 16 False of
                           None \<Rightarrow> None | Some t \<Rightarrow> map_option (\<lambda>r. t @ r) (cformat fmt as))
         | _ \<Rightarrow> None)
      else if d = CHR ''s'' then
        (case args of
           Str p # as \<Rightarrow> map_option (\<lambda>r. (case p of None \<Rightarrow> ''(null)'' | Some t \<Rightarrow> t) @ r) (cformat fmt as)
         | _ \<Rightarrow> None)
      else if d = CHR ''%'' then map_option (\<lambda>r. CHR ''%'' # r) (cformat fmt args)
      else map_option (\<lambda>r. CHR ''%'' # d # r) (cformat fmt args))"

text \<open>The user library's \<open>printf\<close>: the same loop as a two-state machine, with \<open>%c\<close> in addition.\<close>

fun uformat :: "bool \<Rightarrow> string \<Rightarrow> carg list \<Rightarrow> string option" where
  "uformat st [] args = Some []"
| "uformat False (c # fmt) args =
     (if c = CHR ''%'' then uformat True fmt args
      else map_option (\<lambda>r. c # r) (uformat False fmt args))"
| "uformat True (c # fmt) args =
     (if c = CHR ''d'' then
        (case args of
           Num x # as \<Rightarrow> (case printint digits_upper x 10 True of
                           None \<Rightarrow> None | Some t \<Rightarrow> map_option (\<lambda>r. t @ r) (uformat False fmt as))
         | _ \<Rightarrow> None)
      else if c = CHR ''x'' \<or> c = CHR ''p'' then
        (case args of
           Num x # as \<Rightarrow> (case printint digits_upper x 16 False of
                           None \<Rightarrow> None | Some t \<Rightarrow> map_option (\<lambda>r. t @ r) (uformat False fmt as))
         | _ \<Rightarrow> None)
      else if c = CHR ''s'' then
        (case args of
           Str p # as \<Rightarrow>
             map_option (\<lambda>r. (case p of None \<Rightarrow> ''(null)'' | Some t \<Rightarrow> t) @ r) (uformat False fmt as)
         | _ \<Rightarrow> None)
      else if c = CHR ''c'' then
        (case args of
           Num x # as \<Rightarrow> map_option (\<lambda>r. char_of (unat x mod 256) # r) (uformat False fmt as)
         | _ \<Rightarrow> None)
      else if c = CHR ''%'' then map_option (\<lambda>r. c # r) (uformat False fmt args)
      else map_option (\<lambda>r. CHR ''%'' # c # r) (uformat False fmt args))"

text \<open>\<open>cprintf\<close>: the formatted text goes to the console under \<open>cons.lock\<close>.\<close>

definition cprintf :: "string \<Rightarrow> carg list \<Rightarrow> 'a machine_scheme \<Rightarrow> ('a machine_scheme, unit) kres" where
  "cprintf fmt args s =
     (let locking = cons_locking s in
      bindK (if locking then acquireK LkCons s else Done () s)
        (\<lambda>_ s. case cformat fmt args of
                 None \<Rightarrow> Fault 0 s
               | Some t \<Rightarrow>
                   let s = s\<lparr>console := console s @ t\<rparr> in
                   if locking then releaseK LkCons s else Done () s))"

section \<open>What is printed\<close>

text \<open>The value of a digit string, the least significant digit first.\<close>

fun digits_value :: "string \<Rightarrow> nat \<Rightarrow> string \<Rightarrow> nat" where
  "digits_value ds base [] = 0"
| "digits_value ds base (c # cs) =
     length (takeWhile (\<lambda>d. d \<noteq> c) ds) + base * digits_value ds base cs"

text \<open>Reading a printed number back: an optional minus sign, then digits.\<close>

definition read_number :: "string \<Rightarrow> nat \<Rightarrow> string \<Rightarrow> int" where
  "read_number ds base t =
     (if t \<noteq> [] \<and> hd t = CHR ''-'' then - int (digits_value ds base (rev (tl t)))
      else int (digits_value ds base (rev t)))"

definition digit_table :: "string \<Rightarrow> bool" where
  "digit_table ds \<longleftrightarrow> length ds = 16 \<and> distinct ds \<and> CHR ''-'' \<notin> set ds"

lemma digit_tables [simp]: "digit_table digits_lower" "digit_table digits_upper"
  by (simp_all add: digit_table_def digits_lower_def digits_upper_def)

lemma index_of_nth:
  assumes "distinct ds" "i < length ds"
  shows "length (takeWhile (\<lambda>d. d \<noteq> ds ! i) ds) = i"
  using assms
proof (induction ds arbitrary: i)
  case (Cons d ds)
  then show ?case by (cases i) auto
qed simp

lemma printint_digits_value:
  assumes "unat x < unat base ^ k" "0 < k" "k \<le> n" "2 \<le> unat base" "unat base \<le> 16"
    "digit_table ds"
  shows "\<exists>r. printint_digits ds n x base = Some r \<and> length r \<le> k \<and> r \<noteq> [] \<and> set r \<subseteq> set ds \<and>
             digits_value ds (unat base) r = unat x"
  using assms
proof (induction n arbitrary: x k)
  case 0
  then show ?case by simp
next
  case (Suc n)
  have m: "unat (x mod base) < 16" "unat (x mod base) = unat x mod unat base"
    using Suc.prems(4,5) by (auto simp: unat_mod intro: less_le_trans [OF mod_less_divisor])
  then have idx: "length (takeWhile (\<lambda>d. d \<noteq> ds ! unat (x mod base)) ds) = unat x mod unat base"
    and mem: "ds ! unat (x mod base) \<in> set ds"
    using Suc.prems(6) index_of_nth [of ds "unat (x mod base)"] by (auto simp: digit_table_def)
  show ?case
  proof (cases "x div base = 0")
    case True
    then have "unat x div unat base = 0" by (metis unat_div unat_0)
    then have "unat x mod unat base = unat x" by (simp add: minus_mult_div_eq_mod [symmetric])
    then show ?thesis using True idx mem Suc.prems(2) by (simp add: Let_def)
  next
    case False
    then have nz: "unat x div unat base \<noteq> 0" by (metis unat_div unat_eq_zero)
    obtain k' where k': "k = Suc k'" using Suc.prems(2) by (cases k) auto
    have lt: "unat x div unat base < unat base ^ k'"
      using Suc.prems(1,4) k' by (simp add: less_mult_imp_div_less mult.commute)
    have "0 < k'" using lt nz by (cases k') auto
    moreover have "unat (x div base) < unat base ^ k'" using lt by (simp add: unat_div)
    ultimately obtain r where r: "printint_digits ds n (x div base) base = Some r" "length r \<le> k'"
        "r \<noteq> []" "set r \<subseteq> set ds" "digits_value ds (unat base) r = unat (x div base)"
      using Suc.IH [of "x div base" k'] Suc.prems k' by auto
    then show ?thesis using False idx mem k' by (simp add: Let_def unat_div)
  qed
qed

lemma printint_digits_table:
  assumes "base = 10 \<or> base = 16" "digit_table ds"
  shows "\<exists>r. printint_digits ds 16 x base = Some r \<and> length r \<le> 10 \<and> r \<noteq> [] \<and> set r \<subseteq> set ds \<and>
             digits_value ds (unat base) r = unat x"
proof -
  have "unat x < 10 ^ 10" "unat x < 16 ^ 10" using unsigned_less [of x, where 'a = nat] by simp_all
  then show ?thesis using assms printint_digits_value [of x base 10 16 ds] by (elim disjE) simp_all
qed

lemma printint_value:
  assumes b: "base = 10 \<or> base = 16" and d: "digit_table ds"
  shows "\<exists>t. printint ds x base sg = Some t \<and> length t \<le> 11 \<and>
             read_number ds (unat base) t = (if sg then sint x else int (unat x))"
proof (cases "sg \<and> sint x < 0")
  case True
  obtain r where r: "printint_digits ds 16 (- x) base = Some r" "length r \<le> 10"
      "digits_value ds (unat base) r = unat (- x)"
    using printint_digits_table [OF b d, of "- x"] by auto
  have "int (unat (- x)) = - sint x"
    using True unsigned_less [of x, where 'a = nat] by (auto simp: unat_minus32 sint_unat32 sint_neg32)
  then show ?thesis using True r by (auto simp: printint_def read_number_def Let_def)
next
  case False
  obtain r where r: "printint_digits ds 16 x base = Some r" "length r \<le> 10" "r \<noteq> []"
      "set r \<subseteq> set ds" "digits_value ds (unat base) r = unat x"
    using printint_digits_table [OF b d, of x] by auto
  then obtain c t where ct: "rev r = c # t" by (cases "rev r") auto
  have "c \<in> set (rev r)" by (simp add: ct)
  then have "hd (rev r) \<noteq> CHR ''-''" using ct r(4) d by (auto simp: digit_table_def)
  then have "read_number ds (unat base) (rev r) = int (digits_value ds (unat base) r)"
    by (simp add: read_number_def)
  moreover have "\<not> sint x < 0 \<Longrightarrow> int (unat x) = sint x" using sint_neg32 [of x] by (simp add: sint_unat32)
  ultimately show ?thesis using False r by (auto simp: printint_def Let_def)
qed

text \<open>With the console's lock free, \<open>cprintf\<close> appends the text and leaves the rest of the state.\<close>

definition console_free :: "'a machine_scheme \<Rightarrow> bool" where
  "console_free s \<longleftrightarrow> (cons_locking s \<longrightarrow> LkCons \<notin> set (held s))"

lemma cprintf_eq:
  assumes "console_free s" "cformat fmt args = Some t"
  shows "cprintf fmt args s = Done () (s\<lparr>console := console s @ t\<rparr>)"
  using assms by (simp add: cprintf_def console_free_def acquireK_def releaseK_def Let_def)

section \<open>Properties\<close>

text \<open>
  C20: \<open>printint\<close> prints a number that reads back as the value, signed or unsigned as asked, in base 10
  or 16 and with either digit table, and never needs more than 11 of the 16 characters of its
  buffer, the most negative integer included.
\<close>

theorem printint_reads_back:
  assumes "base = 10 \<or> base = 16" and "ds = digits_lower \<or> ds = digits_upper"
  shows "\<exists>t. printint ds x base sg = Some t \<and> length t \<le> 11 \<and>
             read_number ds (unat base) t = (if sg then sint x else int (unat x))"
proof (rule printint_value [OF assms(1)])
  show "digit_table ds" using assms(2) by auto
qed

theorem printint_reads_back_witness:
  "\<exists>t. printint digits_lower 0x80000000 10 True = Some t \<and> length t \<le> 11
     \<and> read_number digits_lower 10 t = - 2147483648"
  using printint_reads_back [of 10 digits_lower "0x80000000" True] by simp

end
