(* ===== verification/Segments.thy ===== *)
theory Segments
  imports Prelude
begin

unbundle bit_operations_syntax

text \<open>
  The descriptors of mmu.h: segment descriptors, the task state segment and interrupt gates, as
  records whose fields have the widths of the C bit-fields, with the macros that build them. The
  lemmas read the descriptors the way the processor does and show that it sees the base, limit and
  offset the macro was given.
\<close>

section \<open>Segment descriptors\<close>

record segdesc =
  sd_lim_15_0 :: "16 word"
  sd_base_15_0 :: "16 word"
  sd_base_23_16 :: "8 word"
  sd_type :: "4 word"
  sd_s :: "1 word"
  sd_dpl :: "2 word"
  sd_p :: "1 word"
  sd_lim_19_16 :: "4 word"
  sd_avl :: "1 word"
  sd_rsv1 :: "1 word"
  sd_db :: "1 word"
  sd_g :: "1 word"
  sd_base_31_24 :: "8 word"

abbreviation (input) SEG_KCODE :: nat where "SEG_KCODE \<equiv> 1"
abbreviation (input) SEG_KDATA :: nat where "SEG_KDATA \<equiv> 2"
abbreviation (input) SEG_UCODE :: nat where "SEG_UCODE \<equiv> 3"
abbreviation (input) SEG_UDATA :: nat where "SEG_UDATA \<equiv> 4"
abbreviation (input) SEG_TSS :: nat where "SEG_TSS \<equiv> 5"

abbreviation (input) DPL_USER :: "2 word" where "DPL_USER \<equiv> 3"
abbreviation (input) STA_X :: "4 word" where "STA_X \<equiv> 8"
abbreviation (input) STA_W :: "4 word" where "STA_W \<equiv> 2"
abbreviation (input) STA_R :: "4 word" where "STA_R \<equiv> 2"
abbreviation (input) STS_T32A :: "4 word" where "STS_T32A \<equiv> 9"
abbreviation (input) STS_IG32 :: "4 word" where "STS_IG32 \<equiv> 14"
abbreviation (input) STS_TG32 :: "4 word" where "STS_TG32 \<equiv> 15"

definition SEG :: "4 word \<Rightarrow> u32 \<Rightarrow> u32 \<Rightarrow> 2 word \<Rightarrow> segdesc" where
  "SEG ty base lim dpl =
     \<lparr>sd_lim_15_0 = ucast (drop_bit 12 lim AND 0xFFFF), sd_base_15_0 = ucast (base AND 0xFFFF),
      sd_base_23_16 = ucast (drop_bit 16 base AND 0xFF), sd_type = ty, sd_s = 1, sd_dpl = dpl,
      sd_p = 1, sd_lim_19_16 = ucast (drop_bit 28 lim), sd_avl = 0, sd_rsv1 = 0, sd_db = 1,
      sd_g = 1, sd_base_31_24 = ucast (drop_bit 24 base)\<rparr>"

definition SEG16 :: "4 word \<Rightarrow> u32 \<Rightarrow> u32 \<Rightarrow> 2 word \<Rightarrow> segdesc" where
  "SEG16 ty base lim dpl =
     \<lparr>sd_lim_15_0 = ucast (lim AND 0xFFFF), sd_base_15_0 = ucast (base AND 0xFFFF),
      sd_base_23_16 = ucast (drop_bit 16 base AND 0xFF), sd_type = ty, sd_s = 1, sd_dpl = dpl,
      sd_p = 1, sd_lim_19_16 = ucast (drop_bit 16 lim), sd_avl = 0, sd_rsv1 = 0, sd_db = 1,
      sd_g = 0, sd_base_31_24 = ucast (drop_bit 24 base)\<rparr>"

section \<open>The task state segment\<close>

record taskstate =
  ts_link :: u32
  ts_esp0 :: u32
  ts_ss0 :: u16
  ts_esp1 :: u32
  ts_ss1 :: u16
  ts_esp2 :: u32
  ts_ss2 :: u16
  ts_cr3 :: u32
  ts_eip :: u32
  ts_eflags :: u32
  ts_eax :: u32
  ts_ecx :: u32
  ts_edx :: u32
  ts_ebx :: u32
  ts_esp :: u32
  ts_ebp :: u32
  ts_esi :: u32
  ts_edi :: u32
  ts_es :: u16
  ts_cs :: u16
  ts_ss :: u16
  ts_ds :: u16
  ts_fs :: u16
  ts_gs :: u16
  ts_ldt :: u16
  ts_t :: u16
  ts_iomb :: u16

definition zero_ts :: taskstate where
  "zero_ts =
     \<lparr>ts_link = 0, ts_esp0 = 0, ts_ss0 = 0, ts_esp1 = 0, ts_ss1 = 0, ts_esp2 = 0, ts_ss2 =
      0, ts_cr3 = 0, ts_eip = 0, ts_eflags = 0, ts_eax = 0, ts_ecx = 0, ts_edx = 0, ts_ebx
      = 0, ts_esp = 0, ts_ebp = 0, ts_esi = 0, ts_edi = 0, ts_es = 0, ts_cs = 0, ts_ss =
      0, ts_ds = 0, ts_fs = 0, ts_gs = 0, ts_ldt = 0, ts_t = 0, ts_iomb = 0\<rparr>"

text \<open>Its size in C, with the paddings.\<close>

abbreviation (input) sizeof_taskstate :: u32 where "sizeof_taskstate \<equiv> 104"

section \<open>Gates\<close>

record gatedesc =
  gd_off_15_0 :: "16 word"
  gd_cs :: "16 word"
  gd_args :: "5 word"
  gd_rsv1 :: "3 word"
  gd_type :: "4 word"
  gd_s :: "1 word"
  gd_dpl :: "2 word"
  gd_p :: "1 word"
  gd_off_31_16 :: "16 word"

definition SETGATE :: "gatedesc \<Rightarrow> bool \<Rightarrow> 16 word \<Rightarrow> u32 \<Rightarrow> 2 word \<Rightarrow> gatedesc" where
  "SETGATE gate istrap sel off d =
     gate\<lparr>gd_off_15_0 := ucast (off AND 0xFFFF), gd_cs := sel, gd_args := 0, gd_rsv1 := 0,
          gd_type := (if istrap then STS_TG32 else STS_IG32), gd_s := 0, gd_dpl := d, gd_p := 1,
          gd_off_31_16 := ucast (drop_bit 16 off)\<rparr>"

section \<open>What the processor reads\<close>

definition seg_base :: "segdesc \<Rightarrow> u32" where
  "seg_base d = ucast (sd_base_15_0 d) OR push_bit 16 (ucast (sd_base_23_16 d))
     OR push_bit 24 (ucast (sd_base_31_24 d))"

text \<open>With the granularity bit the limit counts pages, and the low twelve bits read as ones.\<close>

definition seg_limit :: "segdesc \<Rightarrow> u32" where
  "seg_limit d =
     (let l = ucast (sd_lim_15_0 d) OR push_bit 16 (ucast (sd_lim_19_16 d)) in
      if sd_g d = 1 then push_bit 12 l OR 0xFFF else l)"

definition gate_offset :: "gatedesc \<Rightarrow> u32" where
  "gate_offset g = ucast (gd_off_15_0 g) OR push_bit 16 (ucast (gd_off_31_16 g))"

lemma masks: "(0xFFFF :: u32) = mask 16" "(0xFF :: u32) = mask 8" "(0xFFF :: u32) = mask 12"
  by (simp_all add: mask_eq_exp_minus_1)

lemma bits_beyond:
  "16 \<le> n \<Longrightarrow> \<not> bit (b :: 16 word) n" "8 \<le> n \<Longrightarrow> \<not> bit (c :: 8 word) n"
  "4 \<le> n \<Longrightarrow> \<not> bit (d :: 4 word) n"
  using bit_imp_le_length [of b n] bit_imp_le_length [of c n] bit_imp_le_length [of d n] by auto

lemma seg_base_SEG: "seg_base (SEG ty base lim dpl) = base"
  unfolding seg_base_def SEG_def masks
  apply (rule bit_word_eqI)
  subgoal for n by (cases "n < 24") (auto simp: bit_simps)
  done

lemma seg_base_SEG16: "seg_base (SEG16 ty base lim dpl) = base"
  unfolding seg_base_def SEG16_def masks
  apply (rule bit_word_eqI)
  subgoal for n by (cases "n < 24") (auto simp: bit_simps)
  done

lemma seg_limit_SEG: "seg_limit (SEG ty base lim dpl) = lim OR 0xFFF"
  unfolding seg_limit_def SEG_def masks Let_def
  apply (simp, rule bit_word_eqI)
  subgoal for n by (cases "n < 28") (auto simp: bit_simps)
  done

lemma seg_limit_SEG16: "seg_limit (SEG16 ty base lim dpl) = lim AND mask 20"
  unfolding seg_limit_def SEG16_def masks Let_def
  by (simp, rule bit_word_eqI) (auto simp: bit_simps)

lemma gate_offset_SETGATE: "gate_offset (SETGATE g istrap sel off d) = off"
  unfolding gate_offset_def SETGATE_def masks
  by (rule bit_word_eqI) (auto simp: bit_simps)

section \<open>Properties\<close>

text \<open>
  C23: The bit fields of a descriptor give back what the macros were called with: \<open>SEG\<close> and \<open>SEG16\<close>
  keep the base, \<open>SEG\<close> the limit rounded up to its pages and \<open>SEG16\<close> the low 20 bits of the limit,
  and \<open>SETGATE\<close> the offset of the handler.
\<close>

theorem descriptor_fields:
  "seg_base (SEG ty base lim dpl) = base \<and> seg_base (SEG16 ty base lim dpl) = base
   \<and> seg_limit (SEG ty base lim dpl) = lim OR 0xFFF \<and> seg_limit (SEG16 ty base lim dpl) = lim AND mask 20
   \<and> gate_offset (SETGATE g istrap sel off d) = off"
  by (simp add: seg_base_SEG seg_base_SEG16 seg_limit_SEG seg_limit_SEG16 gate_offset_SETGATE)

end
