(* ===== verification/Vm.thy ===== *)
theory Vm
  imports Kalloc Cprintf Segments
begin

unbundle bit_operations_syntax

text \<open>
  vm.c: page directories and page tables in memory, and the operations that build, grow, shrink,
  copy and free address spaces. The loops over addresses carry a bound on the number of rounds and
  are \<open>Diverges\<close> when it is used up; each bound covers every address of the 32-bit space, and the
  lemmas show where it is enough. Dereferencing the null pointer is \<open>Fault 0\<close>.
\<close>

section \<open>State\<close>

text \<open>
  \<open>cr3\<close> is the page-table register of the executing CPU; \<open>gdt c\<close> and \<open>ts c\<close> are fields of
  \<open>cpus[c]\<close>, and \<open>ts_addr c\<close> is the address of the latter. \<open>gdtr\<close> is the descriptor table a CPU
  has loaded (\<open>lgdt\<close>), \<open>tr\<close> its task register.
\<close>

record vmstate = physmem +
  kpgdir :: u32
  cr3 :: u32
  gdt :: "nat \<Rightarrow> nat \<Rightarrow> segdesc"
  ts :: "nat \<Rightarrow> taskstate"
  ts_addr :: "nat \<Rightarrow> u32"
  gdtr :: "nat \<Rightarrow> (nat \<Rightarrow> segdesc) option"
  tr :: "nat \<Rightarrow> u32"

section \<open>Segments of a CPU\<close>

definition seginit :: "'a vmstate_scheme \<Rightarrow> 'a vmstate_scheme" where
  "seginit s =
     (let c = cpu s;
          g = (gdt s c)(SEG_KCODE := SEG (STA_X OR STA_R) 0 0xFFFFFFFF 0,
                        SEG_KDATA := SEG STA_W 0 0xFFFFFFFF 0,
                        SEG_UCODE := SEG (STA_X OR STA_R) 0 0xFFFFFFFF DPL_USER,
                        SEG_UDATA := SEG STA_W 0 0xFFFFFFFF DPL_USER) in
      s\<lparr>gdt := (gdt s)(c := g), gdtr := (gdtr s)(c := Some g)\<rparr>)"

section \<open>Walking and mapping\<close>

definition walkpgdir :: "u32 \<Rightarrow> u32 \<Rightarrow> bool \<Rightarrow> 'a vmstate_scheme \<Rightarrow> ('a vmstate_scheme, u32) kres" where
  "walkpgdir pgdir va alloc s =
     (let pde = pgdir + 4 * PDX va in
      if load32 (mem s) pde AND PTE_P \<noteq> 0
      then Done (P2V (PTE_ADDR (load32 (mem s) pde)) + 4 * PTX va) s
      else if \<not> alloc then Done 0 s
      else bindK (kalloc s)
        (\<lambda>pgtab s. if pgtab = 0 then Done 0 s
           else let m = memset (mem s) pgtab 0 PGSIZE in
                Done (pgtab + 4 * PTX va)
                  (s\<lparr>mem := store32 m pde (V2P pgtab OR PTE_P OR PTE_W OR PTE_U)\<rparr>)))"

fun mappages_loop :: "nat \<Rightarrow> u32 \<Rightarrow> u32 \<Rightarrow> u32 \<Rightarrow> u32 \<Rightarrow> u32 \<Rightarrow> 'a vmstate_scheme
    \<Rightarrow> ('a vmstate_scheme, int) kres" where
  "mappages_loop 0 pgdir a lst pa perm s = Diverges"
| "mappages_loop (Suc n) pgdir a lst pa perm s =
     bindK (walkpgdir pgdir a True s)
       (\<lambda>pte s. if pte = 0 then Done (- 1) s
          else if load32 (mem s) pte AND PTE_P \<noteq> 0 then Panic ''remap''
          else let s = s\<lparr>mem := store32 (mem s) pte (pa OR perm OR PTE_P)\<rparr> in
               if a = lst then Done 0 s
               else mappages_loop n pgdir (a + PGSIZE) lst (pa + PGSIZE) perm s)"

text \<open>From any page to any other there are at most \<open>2 ^ 20\<close> steps, around the end of memory if need be.\<close>

definition mappages :: "u32 \<Rightarrow> u32 \<Rightarrow> u32 \<Rightarrow> u32 \<Rightarrow> u32 \<Rightarrow> 'a vmstate_scheme
    \<Rightarrow> ('a vmstate_scheme, int) kres" where
  "mappages pgdir va sz pa perm s =
     mappages_loop 1048576 pgdir (PGROUNDDOWN va) (PGROUNDDOWN (va + sz - 1)) pa perm s"

section \<open>Shrinking and freeing\<close>

fun deallocuvm_loop :: "nat \<Rightarrow> u32 \<Rightarrow> u32 \<Rightarrow> u32 \<Rightarrow> 'a vmstate_scheme
    \<Rightarrow> ('a vmstate_scheme, unit) kres" where
  "deallocuvm_loop 0 pgdir a oldsz s = Diverges"
| "deallocuvm_loop (Suc n) pgdir a oldsz s =
     (if a < oldsz
      then bindK (walkpgdir pgdir a False s)
        (\<lambda>pte s. if pte = 0
           then deallocuvm_loop n pgdir (PGADDR (PDX a + 1) 0 0 - PGSIZE + PGSIZE) oldsz s
           else if load32 (mem s) pte AND PTE_P \<noteq> 0
           then let pa = PTE_ADDR (load32 (mem s) pte) in
                if pa = 0 then Panic ''kfree''
                else bindK (kfree (P2V pa) s)
                  (\<lambda>_ s. deallocuvm_loop n pgdir (a + PGSIZE) oldsz (s\<lparr>mem := store32 (mem s) pte 0\<rparr>))
           else deallocuvm_loop n pgdir (a + PGSIZE) oldsz s)
      else Done () s)"

definition deallocuvm :: "u32 \<Rightarrow> u32 \<Rightarrow> u32 \<Rightarrow> 'a vmstate_scheme \<Rightarrow> ('a vmstate_scheme, u32) kres" where
  "deallocuvm pgdir oldsz newsz s =
     (if newsz \<ge> oldsz then Done oldsz s
      else bindK (deallocuvm_loop 1048577 pgdir (PGROUNDUP newsz) oldsz s) (\<lambda>_ s. Done newsz s))"

definition freevm :: "u32 \<Rightarrow> 'a vmstate_scheme \<Rightarrow> ('a vmstate_scheme, unit) kres" where
  "freevm pgdir s =
     (if pgdir = 0 then Panic ''freevm: no pgdir''
      else bindK (deallocuvm pgdir KERNBASE 0 s)
        (\<lambda>_ s. bindK (forK [0..<NPDENTRIES]
                  (\<lambda>i s. let e = load32 (mem s) (pgdir + 4 * of_nat i) in
                         if e AND PTE_P \<noteq> 0 then kfree (P2V (PTE_ADDR e)) s else Done () s) s)
          (\<lambda>_ s. kfree pgdir s)))"

section \<open>The kernel's part of a page table\<close>

record kmap_entry =
  km_virt :: u32
  km_phys_start :: u32
  km_phys_end :: u32
  km_perm :: u32

definition kmap :: "'a vmstate_scheme \<Rightarrow> kmap_entry list" where
  "kmap s =
     [\<lparr>km_virt = KERNBASE, km_phys_start = 0, km_phys_end = EXTMEM, km_perm = PTE_W\<rparr>,
      \<lparr>km_virt = KERNLINK, km_phys_start = V2P KERNLINK, km_phys_end = V2P (sym_data s), km_perm = 0\<rparr>,
      \<lparr>km_virt = sym_data s, km_phys_start = V2P (sym_data s), km_phys_end = PHYSTOP, km_perm = PTE_W\<rparr>,
      \<lparr>km_virt = DEVSPACE, km_phys_start = DEVSPACE, km_phys_end = 0, km_perm = PTE_W\<rparr>]"

primrec setupkvm_loop :: "kmap_entry list \<Rightarrow> u32 \<Rightarrow> 'a vmstate_scheme \<Rightarrow> ('a vmstate_scheme, u32) kres" where
  "setupkvm_loop [] pgdir s = Done pgdir s"
| "setupkvm_loop (k # ks) pgdir s =
     bindK (mappages pgdir (km_virt k) (km_phys_end k - km_phys_start k) (km_phys_start k) (km_perm k) s)
       (\<lambda>r s. if r < 0 then bindK (freevm pgdir s) (\<lambda>_ s. Done 0 s)
              else setupkvm_loop ks pgdir s)"

definition setupkvm :: "'a vmstate_scheme \<Rightarrow> ('a vmstate_scheme, u32) kres" where
  "setupkvm s =
     bindK (kalloc s)
       (\<lambda>pgdir s. if pgdir = 0 then Done 0 s
          else let s = s\<lparr>mem := memset (mem s) pgdir 0 PGSIZE\<rparr> in
               if P2V PHYSTOP > DEVSPACE then Panic ''PHYSTOP too high''
               else setupkvm_loop (kmap s) pgdir s)"

definition switchkvm :: "'a vmstate_scheme \<Rightarrow> 'a vmstate_scheme" where
  "switchkvm s = s\<lparr>cr3 := V2P (kpgdir s)\<rparr>"

definition kvmalloc :: "'a vmstate_scheme \<Rightarrow> ('a vmstate_scheme, unit) kres" where
  "kvmalloc s = bindK (setupkvm s) (\<lambda>d s. Done () (switchkvm (s\<lparr>kpgdir := d\<rparr>)))"

text \<open>\<open>pushcli\<close> and \<open>popcli\<close>, which come in a pair here, are those of theory \<open>Spinlock\<close>.\<close>

definition switchuvm :: "nat option \<Rightarrow> 'a vmstate_scheme \<Rightarrow> ('a vmstate_scheme, unit) kres" where
  "switchuvm p s =
     (case p of
        None \<Rightarrow> Panic ''switchuvm: no process''
      | Some i \<Rightarrow>
          if p_kstack (proc_at s i) = 0 then Panic ''switchuvm: no kstack''
          else if p_pgdir (proc_at s i) = 0 then Panic ''switchuvm: no pgdir''
          else
            let c = cpu s;
                d = (SEG16 STS_T32A (ts_addr s c) (sizeof_taskstate - 1) 0)\<lparr>sd_s := 0\<rparr> in
            Done ()
              (s\<lparr>gdt := (gdt s)(c := (gdt s c)(SEG_TSS := d)),
                 ts := (ts s)(c := (ts s c)\<lparr>ts_ss0 := of_nat SEG_KDATA * 8,
                                            ts_esp0 := p_kstack (proc_at s i) + KSTACKSIZE,
                                            ts_iomb := 0xFFFF\<rparr>),
                 tr := (tr s)(c := of_nat SEG_TSS * 8),
                 cr3 := V2P (p_pgdir (proc_at s i))\<rparr>))"

section \<open>User memory\<close>

text \<open>A list of bytes written to memory, as \<open>memmove\<close> does from a buffer of the kernel.\<close>

definition put_bytes :: "memory \<Rightarrow> u32 \<Rightarrow> u8 list \<Rightarrow> memory" where
  "put_bytes m a bs = (\<lambda>x. if unat (x - a) < length bs then bs ! unat (x - a) else m x)"

definition get_bytes :: "memory \<Rightarrow> u32 \<Rightarrow> nat \<Rightarrow> u8 list" where
  "get_bytes m a n = map (\<lambda>i. m (a + of_nat i)) [0..<n]"

definition inituvm :: "u32 \<Rightarrow> u8 list \<Rightarrow> 'a vmstate_scheme \<Rightarrow> ('a vmstate_scheme, unit) kres" where
  "inituvm pgdir init s =
     (if length init \<ge> 4096 then Panic ''inituvm: more than a page''
      else bindK (kalloc s)
        (\<lambda>m s. if m = 0 then Fault 0 s
           else let s = s\<lparr>mem := memset (mem s) m 0 PGSIZE\<rparr> in
                bindK (mappages pgdir 0 PGSIZE (V2P m) (PTE_W OR PTE_U) s)
                  (\<lambda>_ s. Done () (s\<lparr>mem := put_bytes (mem s) m init\<rparr>))))"

fun allocuvm_loop :: "nat \<Rightarrow> u32 \<Rightarrow> u32 \<Rightarrow> u32 \<Rightarrow> u32 \<Rightarrow> 'a vmstate_scheme
    \<Rightarrow> ('a vmstate_scheme, u32) kres" where
  "allocuvm_loop 0 pgdir a oldsz newsz s = Diverges"
| "allocuvm_loop (Suc n) pgdir a oldsz newsz s =
     (if a < newsz
      then bindK (kalloc s)
        (\<lambda>m s. if m = 0
           then bindK (cprintf (''allocuvm out of memory'' @ [CHR 0x0A]) [] s)
             (\<lambda>_ s. case myproc s of
                 None \<Rightarrow> Fault 0 s
               | Some p \<Rightarrow>
                   bindK (cprintf (''Stack Size: %d'' @ [CHR 0x0A]) [Num (p_stackSize (proc_at s p))] s)
                     (\<lambda>_ s. bindK (deallocuvm pgdir newsz oldsz s) (\<lambda>_ s. Done 0 s)))
           else
             let s = s\<lparr>mem := memset (mem s) m 0 PGSIZE\<rparr> in
             bindK (mappages pgdir a PGSIZE (V2P m) (PTE_W OR PTE_U) s)
               (\<lambda>r s. if r < 0
                  then bindK (cprintf (''allocuvm out of memory (2)'' @ [CHR 0x0A]) [] s)
                    (\<lambda>_ s. bindK (deallocuvm pgdir newsz oldsz s)
                      (\<lambda>_ s. bindK (kfree m s) (\<lambda>_ s. Done 0 s)))
                  else allocuvm_loop n pgdir (a + PGSIZE) oldsz newsz s))
      else Done newsz s)"

definition allocuvm :: "u32 \<Rightarrow> u32 \<Rightarrow> u32 \<Rightarrow> 'a vmstate_scheme \<Rightarrow> ('a vmstate_scheme, u32) kres" where
  "allocuvm pgdir oldsz newsz s =
     (if newsz \<ge> KERNBASE then Done 0 s
      else if newsz < oldsz then Done oldsz s
      else allocuvm_loop 1048577 pgdir (PGROUNDUP oldsz) oldsz newsz s)"

definition clearpteu :: "u32 \<Rightarrow> u32 \<Rightarrow> 'a vmstate_scheme \<Rightarrow> ('a vmstate_scheme, unit) kres" where
  "clearpteu pgdir uva s =
     bindK (walkpgdir pgdir uva False s)
       (\<lambda>pte s. if pte = 0 then Panic ''clearpteu''
          else Done () (s\<lparr>mem := store32 (mem s) pte (load32 (mem s) pte AND NOT PTE_U)\<rparr>))"

text \<open>
  The body of both loops of \<open>copyuvm\<close>: copies the page at \<open>i\<close> of \<open>pgdir\<close> and maps the copy at
  \<open>va\<close> in \<open>d\<close>; \<open>False\<close> is the jump to \<open>bad\<close>.
\<close>

definition copyuvm_page :: "u32 \<Rightarrow> u32 \<Rightarrow> u32 \<Rightarrow> u32 \<Rightarrow> 'a vmstate_scheme \<Rightarrow> ('a vmstate_scheme, bool) kres" where
  "copyuvm_page pgdir d i va s =
     bindK (walkpgdir pgdir i False s)
       (\<lambda>pte s. if pte = 0 then Panic ''copyuvm: pte should exist''
          else if load32 (mem s) pte AND PTE_P = 0 then Panic ''copyuvm: page not present''
          else
            let pa = PTE_ADDR (load32 (mem s) pte); flags = PTE_FLAGS (load32 (mem s) pte) in
            bindK (kalloc s)
              (\<lambda>m s. if m = 0 then Done False s
                 else let s = s\<lparr>mem := memmove (mem s) m (P2V pa) PGSIZE\<rparr> in
                      bindK (mappages d va PGSIZE (V2P m) flags s)
                        (\<lambda>r s. Done (\<not> r < 0) s)))"

fun copyuvm_loop :: "nat \<Rightarrow> u32 \<Rightarrow> u32 \<Rightarrow> u32 \<Rightarrow> u32 \<Rightarrow> 'a vmstate_scheme
    \<Rightarrow> ('a vmstate_scheme, bool) kres" where
  "copyuvm_loop 0 pgdir d i sz s = Diverges"
| "copyuvm_loop (Suc n) pgdir d i sz s =
     (if i < sz
      then bindK (copyuvm_page pgdir d i i s)
        (\<lambda>ok s. if ok then copyuvm_loop n pgdir d (i + PGSIZE) sz s else Done False s)
      else Done True s)"

text \<open>The stack loop reads \<open>myproc()->stackSize\<close> anew in every round.\<close>

fun copyuvm_stack_loop :: "nat \<Rightarrow> u32 \<Rightarrow> u32 \<Rightarrow> u32 \<Rightarrow> 'a vmstate_scheme
    \<Rightarrow> ('a vmstate_scheme, bool) kres" where
  "copyuvm_stack_loop 0 pgdir d i s = Diverges"
| "copyuvm_stack_loop (Suc n) pgdir d i s =
     (case myproc s of
        None \<Rightarrow> Fault 0 s
      | Some p \<Rightarrow>
          if i > STACK_TOP - p_stackSize (proc_at s p) * PGSIZE
          then bindK (copyuvm_page pgdir d i (PGROUNDDOWN i) s)
            (\<lambda>ok s. if ok then copyuvm_stack_loop n pgdir d (i - PGSIZE) s else Done False s)
          else Done True s)"

definition copyuvm :: "u32 \<Rightarrow> u32 \<Rightarrow> 'a vmstate_scheme \<Rightarrow> ('a vmstate_scheme, u32) kres" where
  "copyuvm pgdir sz s =
     bindK (setupkvm s)
       (\<lambda>d s. if d = 0 then Done 0 s
          else bindK (copyuvm_loop 1048577 pgdir d 0 sz s)
            (\<lambda>ok s. bindK (if ok then copyuvm_stack_loop 1048577 pgdir d STACK_TOP s else Done False s)
              (\<lambda>ok s. if ok then Done d s
                 else bindK (freevm d s) (\<lambda>_ s. Done 0 s))))"

definition uva2ka :: "u32 \<Rightarrow> u32 \<Rightarrow> 'a vmstate_scheme \<Rightarrow> ('a vmstate_scheme, u32) kres" where
  "uva2ka pgdir uva s =
     bindK (walkpgdir pgdir uva False s)
       (\<lambda>pte s. if pte = 0 then Fault 0 s
          else let e = load32 (mem s) pte in
               if e AND PTE_P = 0 then Done 0 s
               else if e AND PTE_U = 0 then Done 0 s
               else Done (P2V (PTE_ADDR e)) s)"

text \<open>
  The number of bytes \<open>copyout\<close> moves in one round: up to the end of the page, and no more than
  are left.
\<close>

definition copyout_chunk :: "u32 \<Rightarrow> u8 list \<Rightarrow> nat" where
  "copyout_chunk va bs = min (length bs) (4096 - unat (va - PGROUNDDOWN va))"

lemma in_page_offset: "unat (va - PGROUNDDOWN va) = unat va mod 4096"
proof -
  have "PGROUNDDOWN va \<le> va" by (simp add: word_le_nat_alt page_simps)
  then show ?thesis
    by (simp add: unat_sub32 page_simps minus_mult_div_eq_mod)
qed

function copyout :: "u32 \<Rightarrow> u32 \<Rightarrow> u8 list \<Rightarrow> 'a vmstate_scheme \<Rightarrow> ('a vmstate_scheme, int) kres" where
  "copyout pgdir va bs s =
     (if bs = [] then Done 0 s
      else
        let va0 = PGROUNDDOWN va in
        bindK (uva2ka pgdir va0 s)
          (\<lambda>pa0 s. if pa0 = 0 then Done (- 1) s
             else let n = copyout_chunk va bs in
                  copyout pgdir (va0 + PGSIZE) (drop n bs)
                    (s\<lparr>mem := put_bytes (mem s) (pa0 + (va - va0)) (take n bs)\<rparr>)))"
  by pat_completeness auto
termination
  by (relation "measure (\<lambda>(pgdir, va, bs, s). length bs)")
    (auto simp: copyout_chunk_def in_page_offset)

declare copyout.simps [simp del]

end
