(* ===== verification/Sleeplock.thy ===== *)
theory Sleeplock
  imports Kernel
begin

text \<open>
  sleeplock.c. A sleep lock lives inside a buffer or an inode; a reference to one says how to read
  and write it in the state, which spin lock protects it and which channel its waiters sleep on.
  A process that finds the lock taken sleeps (outcome \<open>Asleep\<close>) and continues from
  \<open>acquiresleep_resume\<close>.
\<close>

record sleeplock =
  sl_locked :: bool
  sl_pid :: int

record 's sleepref =
  sl_get :: "'s \<Rightarrow> sleeplock"
  sl_put :: "sleeplock \<Rightarrow> 's \<Rightarrow> 's"
  sl_lk :: lockid
  sl_ch :: chan

definition initsleeplock :: "'a machine_scheme sleepref \<Rightarrow> 'a machine_scheme \<Rightarrow> 'a machine_scheme" where
  "initsleeplock r s = sl_put r \<lparr>sl_locked = False, sl_pid = 0\<rparr> (initlockK (sl_lk r) s)"

text \<open>The loop of \<open>acquiresleep\<close> and what follows it, with the spin lock held.\<close>

definition acquiresleep_loop :: "'a machine_scheme sleepref \<Rightarrow> 'a machine_scheme
    \<Rightarrow> ('a machine_scheme, unit) kres" where
  "acquiresleep_loop r s =
     (if sl_locked (sl_get r s) then sleep (sl_ch r) (Some (sl_lk r)) s
      else case myproc s of
        None \<Rightarrow> Fault 0 s
      | Some p \<Rightarrow> releaseK (sl_lk r) (sl_put r \<lparr>sl_locked = True, sl_pid = p_pid (proc_at s p)\<rparr> s))"

definition acquiresleep :: "'a machine_scheme sleepref \<Rightarrow> 'a machine_scheme
    \<Rightarrow> ('a machine_scheme, unit) kres" where
  "acquiresleep r s = bindK (acquireK (sl_lk r) s) (\<lambda>_ s. acquiresleep_loop r s)"

definition acquiresleep_resume :: "'a machine_scheme sleepref \<Rightarrow> nat \<Rightarrow> 'a machine_scheme
    \<Rightarrow> ('a machine_scheme, unit) kres" where
  "acquiresleep_resume r p s = bindK (sleep_resume (sl_lk r) p s) (\<lambda>_ s. acquiresleep_loop r s)"

definition releasesleep :: "'a machine_scheme sleepref \<Rightarrow> 'a machine_scheme
    \<Rightarrow> ('a machine_scheme, unit) kres" where
  "releasesleep r s =
     bindK (acquireK (sl_lk r) s)
       (\<lambda>_ s. bindK (wakeup (sl_ch r) (sl_put r \<lparr>sl_locked = False, sl_pid = 0\<rparr> s))
         (\<lambda>_ s. releaseK (sl_lk r) s))"

definition holdingsleep :: "'a machine_scheme sleepref \<Rightarrow> 'a machine_scheme
    \<Rightarrow> ('a machine_scheme, bool) kres" where
  "holdingsleep r s =
     bindK (acquireK (sl_lk r) s)
       (\<lambda>_ s. let b = sl_locked (sl_get r s) in bindK (releaseK (sl_lk r) s) (\<lambda>_ s. Done b s))"

section \<open>Laws\<close>

text \<open>A call of \<open>sleep\<close> gives the CPU away; it does not return to its caller directly.\<close>

lemma bindK_not_Done: "(\<And>a t. f a t \<noteq> Done x u) \<Longrightarrow> bindK m f \<noteq> Done x u"
  by (cases m) auto

lemma sleep_not_Done: "sleep ch lk s \<noteq> Done x t"
  by (auto simp: sleep_def split: option.splits intro!: bindK_not_Done)

text \<open>
  A proper reference: what was written is read back, and reading and writing it does not interfere
  with the spin locks or the running process.
\<close>

locale sleepref =
  fixes r :: "'a machine_scheme sleepref" and ok :: "'a machine_scheme \<Rightarrow> bool"
  assumes get_put: "ok s \<Longrightarrow> sl_get r (sl_put r l s) = l"
    and put_held: "sl_put r l (s\<lparr>held := h\<rparr>) = (sl_put r l s)\<lparr>held := h\<rparr>"
    and held_put: "held (sl_put r l s) = held s"
    and get_held: "sl_get r (s\<lparr>held := h\<rparr>) = sl_get r s"
    and ok_held: "ok (s\<lparr>held := h\<rparr>) = ok s"
begin

lemma acquiresleep_free:
  assumes "sl_lk r \<notin> set (held s)" "\<not> sl_locked (sl_get r s)" "myproc s = Some p"
  shows "acquiresleep r s = Done () (sl_put r \<lparr>sl_locked = True, sl_pid = p_pid (proc_at s p)\<rparr> s)"
proof -
  let ?l = "\<lparr>sl_locked = True, sl_pid = p_pid (proc_at s p)\<rparr>"
  have "myproc (s\<lparr>held := h\<rparr>) = Some p" "proc_at (s\<lparr>held := h\<rparr>) p = proc_at s p" for h
    using assms(3) by (simp_all add: myproc_def proc_at_def)
  then have "acquiresleep r s = releaseK (sl_lk r) (sl_put r ?l (s\<lparr>held := sl_lk r # held s\<rparr>))"
    using assms by (simp add: acquiresleep_def acquiresleep_loop_def acquireK_free get_held)
  also have "\<dots> = Done () ((sl_put r ?l s)\<lparr>held := held s\<rparr>)"
    by (simp add: put_held releaseK_top)
  also have "(sl_put r ?l s)\<lparr>held := held s\<rparr> = sl_put r ?l s"
    by (metis held_put held_restore)
  finally show ?thesis .
qed

lemma acquiresleep_DoneD:
  assumes "acquiresleep r s = Done u t"
  obtains p where "sl_lk r \<notin> set (held s)" "\<not> sl_locked (sl_get r s)" "myproc s = Some p"
    "t = sl_put r \<lparr>sl_locked = True, sl_pid = p_pid (proc_at s p)\<rparr> s"
proof -
  let ?s = "s\<lparr>held := sl_lk r # held s\<rparr>"
  have lk: "sl_lk r \<notin> set (held s)"
    using assms by (auto simp: acquiresleep_def acquireK_def)
  have l: "acquiresleep_loop r ?s = Done u t"
    using assms by (simp add: acquiresleep_def acquireK_free [OF lk])
  then have free: "\<not> sl_locked (sl_get r s)"
    by (auto simp: acquiresleep_loop_def get_held sleep_not_Done)
  with l obtain p where p: "myproc s = Some p"
    by (auto simp: acquiresleep_loop_def get_held myproc_def split: option.splits)
  show thesis
    using that [OF lk free p] acquiresleep_free [OF lk free p] assms by simp
qed

lemma holdingsleep_eq:
  assumes "sl_lk r \<notin> set (held s)"
  shows "holdingsleep r s = Done (sl_locked (sl_get r s)) s"
  using assms by (simp add: holdingsleep_def acquireK_free get_held releaseK_top Let_def)

lemma releasesleep_eq:
  assumes "sl_lk r \<notin> set (held s)" "LkPtable \<notin> set (held s)" "sl_lk r \<noteq> LkPtable"
  shows "releasesleep r s = Done () (wakeup1 (sl_ch r) (sl_put r \<lparr>sl_locked = False, sl_pid = 0\<rparr> s))"
proof -
  let ?t = "sl_put r \<lparr>sl_locked = False, sl_pid = 0\<rparr> s"
  have "releasesleep r s = releaseK (sl_lk r) (wakeup1 (sl_ch r) (?t\<lparr>held := sl_lk r # held s\<rparr>))"
    using assms by (simp add: releasesleep_def acquireK_free put_held wakeup_eq)
  also have "\<dots> = Done () ((wakeup1 (sl_ch r) ?t)\<lparr>held := held s\<rparr>)"
    by (simp add: wakeup1_held_commute releaseK_top)
  also have "(wakeup1 (sl_ch r) ?t)\<lparr>held := held s\<rparr> = wakeup1 (sl_ch r) ?t"
    by (metis held_put held_restore held_wakeup1)
  finally show ?thesis .
qed

end

end
