(* ===== verification/Bio.thy ===== *)
theory Bio
  imports Vm Sleeplock
begin

unbundle bit_operations_syntax

text \<open>
  The buffer cache (bio.c) over the in-memory disk (memide.c). Buffers are numbered; number NBUF
  is the list head \<open>bcache.head\<close>. The doubly linked list of buffers is kept by its pointers, as in
  C; theory \<open>Lru\<close> shows what list they make.
\<close>

section \<open>State\<close>

abbreviation (input) BSIZE :: nat where "BSIZE \<equiv> 512"

abbreviation (input) B_VALID :: u32 where "B_VALID \<equiv> 2"
abbreviation (input) B_DIRTY :: u32 where "B_DIRTY \<equiv> 4"

record buf =
  b_flags :: u32
  b_dev :: u32
  b_blockno :: u32
  b_lock :: sleeplock
  b_refcnt :: u32
  b_prev :: nat
  b_next :: nat
  b_qnext :: "nat option"
  b_data :: "u8 list"

text \<open>
  \<open>disk\<close> is the array \<open>memdisk\<close>, by blocks, and \<open>disksize\<close> its size in blocks. \<open>disk_trace\<close> lists
  the block writes the disk has performed, the oldest first: it is what a crash cuts short.
\<close>

record bstate = vmstate +
  bufs :: "buf list"
  disk :: "u32 \<Rightarrow> u8 list"
  disksize :: u32
  disk_trace :: "(u32 \<times> u8 list) list"

abbreviation (input) bhead :: nat where "bhead \<equiv> NBUF"

definition buf_at :: "'a bstate_scheme \<Rightarrow> nat \<Rightarrow> buf" where
  "buf_at s i = bufs s ! i"

definition upd_buf :: "nat \<Rightarrow> (buf \<Rightarrow> buf) \<Rightarrow> 'a bstate_scheme \<Rightarrow> 'a bstate_scheme" where
  "upd_buf i f s = s\<lparr>bufs := (bufs s)[i := f (bufs s ! i)]\<rparr>"

definition buf_lock :: "nat \<Rightarrow> 'a bstate_scheme sleepref" where
  "buf_lock i =
     \<lparr>sl_get = \<lambda>s. b_lock (buf_at s i), sl_put = \<lambda>l. upd_buf i (\<lambda>b. b\<lparr>b_lock := l\<rparr>),
      sl_lk = LkBufLock i, sl_ch = ChBufLock i\<rparr>"

section \<open>memide.c\<close>

text \<open>The disk image is what the linker embedded: \<open>img\<close> its blocks, \<open>n\<close> its size in bytes.\<close>

definition ideinit_mem :: "(u32 \<Rightarrow> u8 list) \<Rightarrow> u32 \<Rightarrow> 'a bstate_scheme \<Rightarrow> 'a bstate_scheme" where
  "ideinit_mem img n s = s\<lparr>disk := img, disksize := n div of_nat BSIZE\<rparr>"

definition iderw :: "nat \<Rightarrow> 'a bstate_scheme \<Rightarrow> ('a bstate_scheme, unit) kres" where
  "iderw b s =
     bindK (holdingsleep (buf_lock b) s)
       (\<lambda>h s. if \<not> h then Panic ''iderw: buf not locked''
          else if b_flags (buf_at s b) AND (B_VALID OR B_DIRTY) = B_VALID then Panic ''iderw: nothing to do''
          else if b_dev (buf_at s b) \<noteq> 1 then Panic ''iderw: request not for disk 1''
          else if b_blockno (buf_at s b) \<ge> disksize s then Panic ''iderw: block out of range''
          else
            let p = b_blockno (buf_at s b);
                s = (if b_flags (buf_at s b) AND B_DIRTY \<noteq> 0
                     then let s = upd_buf b (\<lambda>x. x\<lparr>b_flags := b_flags x AND NOT B_DIRTY\<rparr>) s in
                          s\<lparr>disk := (disk s)(p := b_data (buf_at s b)),
                            disk_trace := disk_trace s @ [(p, b_data (buf_at s b))]\<rparr>
                     else upd_buf b (\<lambda>x. x\<lparr>b_data := disk s p\<rparr>) s) in
            Done () (upd_buf b (\<lambda>x. x\<lparr>b_flags := b_flags x OR B_VALID\<rparr>) s))"

section \<open>bio.c\<close>

text \<open>The body of the loop of \<open>binit\<close>.\<close>

definition binit_link :: "nat \<Rightarrow> 'a bstate_scheme \<Rightarrow> 'a bstate_scheme" where
  "binit_link b s =
     (let s = upd_buf b (\<lambda>x. x\<lparr>b_next := b_next (buf_at s bhead)\<rparr>) s;
          s = upd_buf b (\<lambda>x. x\<lparr>b_prev := bhead\<rparr>) s;
          s = initsleeplock (buf_lock b) s;
          s = upd_buf (b_next (buf_at s bhead)) (\<lambda>x. x\<lparr>b_prev := b\<rparr>) s in
      upd_buf bhead (\<lambda>x. x\<lparr>b_next := b\<rparr>) s)"

definition binit :: "'a bstate_scheme \<Rightarrow> 'a bstate_scheme" where
  "binit s =
     (let s = initlockK LkBcache s;
          s = upd_buf bhead (\<lambda>x. x\<lparr>b_prev := bhead\<rparr>) s;
          s = upd_buf bhead (\<lambda>x. x\<lparr>b_next := bhead\<rparr>) s in
      fold binit_link [0..<NBUF] s)"

text \<open>
  The two searches of \<open>bget\<close>, along \<open>next\<close> and along \<open>prev\<close>, from buffer \<open>b\<close> on to the head:
  \<open>Some (Some b)\<close> is the buffer found, \<open>Some None\<close> means that the loop ended without one, and
  \<open>None\<close> that the bound of \<open>n\<close> rounds was too low.
\<close>

fun bget_cached :: "nat \<Rightarrow> nat \<Rightarrow> u32 \<Rightarrow> u32 \<Rightarrow> buf list \<Rightarrow> nat option option" where
  "bget_cached 0 b dev blockno bs = None"
| "bget_cached (Suc n) b dev blockno bs =
     (if b = bhead then Some None
      else if b_dev (bs ! b) = dev \<and> b_blockno (bs ! b) = blockno then Some (Some b)
      else bget_cached n (b_next (bs ! b)) dev blockno bs)"

fun bget_unused :: "nat \<Rightarrow> nat \<Rightarrow> buf list \<Rightarrow> nat option option" where
  "bget_unused 0 b bs = None"
| "bget_unused (Suc n) b bs =
     (if b = bhead then Some None
      else if b_refcnt (bs ! b) = 0 \<and> b_flags (bs ! b) AND B_DIRTY = 0 then Some (Some b)
      else bget_unused n (b_prev (bs ! b)) bs)"

text \<open>The list has NBUF buffers, so NBUF + 1 rounds reach the head again.\<close>

definition bget :: "u32 \<Rightarrow> u32 \<Rightarrow> 'a bstate_scheme \<Rightarrow> ('a bstate_scheme, nat) kres" where
  "bget dev blockno s =
     bindK (acquireK LkBcache s)
       (\<lambda>_ s. case bget_cached (NBUF + 1) (b_next (buf_at s bhead)) dev blockno (bufs s) of
           None \<Rightarrow> Diverges
         | Some (Some b) \<Rightarrow>
             let s = upd_buf b (\<lambda>x. x\<lparr>b_refcnt := b_refcnt x + 1\<rparr>) s in
             bindK (releaseK LkBcache s)
               (\<lambda>_ s. bindK (acquiresleep (buf_lock b) s) (\<lambda>_ s. Done b s))
         | Some None \<Rightarrow>
             (case bget_unused (NBUF + 1) (b_prev (buf_at s bhead)) (bufs s) of
                None \<Rightarrow> Diverges
              | Some None \<Rightarrow> Panic ''bget: no buffers''
              | Some (Some b) \<Rightarrow>
                  let s = upd_buf b (\<lambda>x. x\<lparr>b_dev := dev, b_blockno := blockno, b_flags := 0, b_refcnt := 1\<rparr>) s in
                  bindK (releaseK LkBcache s)
                    (\<lambda>_ s. bindK (acquiresleep (buf_lock b) s) (\<lambda>_ s. Done b s))))"

definition bread :: "u32 \<Rightarrow> u32 \<Rightarrow> 'a bstate_scheme \<Rightarrow> ('a bstate_scheme, nat) kres" where
  "bread dev blockno s =
     bindK (bget dev blockno s)
       (\<lambda>b s. if b_flags (buf_at s b) AND B_VALID = 0
              then bindK (iderw b s) (\<lambda>_ s. Done b s) else Done b s)"

definition bwrite :: "nat \<Rightarrow> 'a bstate_scheme \<Rightarrow> ('a bstate_scheme, unit) kres" where
  "bwrite b s =
     bindK (holdingsleep (buf_lock b) s)
       (\<lambda>h s. if \<not> h then Panic ''bwrite''
          else iderw b (upd_buf b (\<lambda>x. x\<lparr>b_flags := b_flags x OR B_DIRTY\<rparr>) s))"

text \<open>The six assignments of \<open>brelse\<close> that move a buffer to the front of the list.\<close>

definition brelse_move :: "nat \<Rightarrow> 'a bstate_scheme \<Rightarrow> 'a bstate_scheme" where
  "brelse_move b s =
     (let s = upd_buf (b_next (buf_at s b)) (\<lambda>x. x\<lparr>b_prev := b_prev (buf_at s b)\<rparr>) s;
          s = upd_buf (b_prev (buf_at s b)) (\<lambda>x. x\<lparr>b_next := b_next (buf_at s b)\<rparr>) s;
          s = upd_buf b (\<lambda>x. x\<lparr>b_next := b_next (buf_at s bhead)\<rparr>) s;
          s = upd_buf b (\<lambda>x. x\<lparr>b_prev := bhead\<rparr>) s;
          s = upd_buf (b_next (buf_at s bhead)) (\<lambda>x. x\<lparr>b_prev := b\<rparr>) s in
      upd_buf bhead (\<lambda>x. x\<lparr>b_next := b\<rparr>) s)"

definition brelse :: "nat \<Rightarrow> 'a bstate_scheme \<Rightarrow> ('a bstate_scheme, unit) kres" where
  "brelse b s =
     bindK (holdingsleep (buf_lock b) s)
       (\<lambda>h s. if \<not> h then Panic ''brelse''
          else bindK (releasesleep (buf_lock b) s)
            (\<lambda>_ s. bindK (acquireK LkBcache s)
              (\<lambda>_ s. let s = upd_buf b (\<lambda>x. x\<lparr>b_refcnt := b_refcnt x - 1\<rparr>) s;
                         s = (if b_refcnt (buf_at s b) = 0 then brelse_move b s else s) in
                     releaseK LkBcache s)))"

section \<open>The locks of the buffers\<close>

interpretation bl: sleepref "buf_lock i" "\<lambda>s. i < length (bufs s)" for i
  by unfold_locales (simp_all add: buf_lock_def buf_at_def upd_buf_def)

lemma buf_lock_sel [simp]:
  "sl_lk (buf_lock i) = LkBufLock i" "sl_ch (buf_lock i) = ChBufLock i"
  "sl_get (buf_lock i) s = b_lock (buf_at s i)"
  "sl_put (buf_lock i) l s = upd_buf i (\<lambda>b. b\<lparr>b_lock := l\<rparr>) s"
  by (simp_all add: buf_lock_def)

end
