(* ===== verification/Layout.thy ===== *)
theory Layout
  imports Machine
begin

unbundle bit_operations_syntax

text \<open>
  fs.h: the structures of the file system as bytes of a block. C casts a pointer into the data of
  a buffer; here each structure has a decoder and an encoder, and the round trips show that what
  is written to a block is what is read from it, and that its other bytes stay.
\<close>

section \<open>Fields of a byte list\<close>

text \<open>\<open>put_at bs o xs\<close>: the bytes \<open>xs\<close> written over those of \<open>bs\<close> from offset \<open>o\<close> on.\<close>

definition put_at :: "'a list \<Rightarrow> nat \<Rightarrow> 'a list \<Rightarrow> 'a list" where
  "put_at bs off xs = take off bs @ xs @ drop (off + length xs) bs"

definition get_at :: "'a list \<Rightarrow> nat \<Rightarrow> nat \<Rightarrow> 'a list" where
  "get_at bs off n = take n (drop off bs)"

definition word_at :: "u8 list \<Rightarrow> nat \<Rightarrow> u32" where
  "word_at bs off = le32 (bs ! off) (bs ! (off + 1)) (bs ! (off + 2)) (bs ! (off + 3))"

definition word_bytes :: "u32 \<Rightarrow> u8 list" where
  "word_bytes v = [byte_of 0 v, byte_of 1 v, byte_of 2 v, byte_of 3 v]"

definition half_at :: "u8 list \<Rightarrow> nat \<Rightarrow> u16" where
  "half_at bs off = ucast (bs ! off) OR push_bit 8 (ucast (bs ! (off + 1)))"

definition half_bytes :: "u16 \<Rightarrow> u8 list" where
  "half_bytes v = [ucast v, ucast (drop_bit 8 v)]"

section \<open>The super block\<close>

record superblock =
  sb_size :: u32
  sb_nblocks :: u32
  sb_ninodes :: u32
  sb_nlog :: u32
  sb_logstart :: u32
  sb_inodestart :: u32
  sb_bmapstart :: u32

definition decode_sb :: "u8 list \<Rightarrow> superblock" where
  "decode_sb bs =
     \<lparr>sb_size = word_at bs 0, sb_nblocks = word_at bs 4, sb_ninodes = word_at bs 8,
      sb_nlog = word_at bs 12, sb_logstart = word_at bs 16, sb_inodestart = word_at bs 20,
      sb_bmapstart = word_at bs 24\<rparr>"

definition encode_sb :: "superblock \<Rightarrow> u8 list" where
  "encode_sb sb =
     word_bytes (sb_size sb) @ word_bytes (sb_nblocks sb) @ word_bytes (sb_ninodes sb)
     @ word_bytes (sb_nlog sb) @ word_bytes (sb_logstart sb) @ word_bytes (sb_inodestart sb)
     @ word_bytes (sb_bmapstart sb)"

section \<open>Inodes on disk\<close>

abbreviation (input) NDIRECT :: nat where "NDIRECT \<equiv> 12"
abbreviation (input) NINDIRECT :: nat where "NINDIRECT \<equiv> 128"
abbreviation (input) MAXFILE :: nat where "MAXFILE \<equiv> 140"
abbreviation (input) ROOTINO :: u32 where "ROOTINO \<equiv> 1"

abbreviation (input) T_DIR :: u16 where "T_DIR \<equiv> 1"
abbreviation (input) T_FILE :: u16 where "T_FILE \<equiv> 2"
abbreviation (input) T_DEV :: u16 where "T_DEV \<equiv> 3"

record dinode =
  di_type :: u16
  di_major :: u16
  di_minor :: u16
  di_nlink :: u16
  di_size :: u32
  di_addrs :: "u32 list"

abbreviation (input) sizeof_dinode :: nat where "sizeof_dinode \<equiv> 64"

abbreviation (input) IPB :: nat where "IPB \<equiv> 8"

definition IBLOCK :: "u32 \<Rightarrow> superblock \<Rightarrow> u32" where
  "IBLOCK i sb = i div of_nat IPB + sb_inodestart sb"

abbreviation (input) BPB :: nat where "BPB \<equiv> 4096"

definition BBLOCK :: "u32 \<Rightarrow> superblock \<Rightarrow> u32" where
  "BBLOCK b sb = b div of_nat BPB + sb_bmapstart sb"

definition decode_dinode :: "u8 list \<Rightarrow> nat \<Rightarrow> dinode" where
  "decode_dinode bs off =
     \<lparr>di_type = half_at bs off, di_major = half_at bs (off + 2), di_minor = half_at bs (off + 4),
      di_nlink = half_at bs (off + 6), di_size = word_at bs (off + 8),
      di_addrs = map (\<lambda>i. word_at bs (off + 12 + 4 * i)) [0..<NDIRECT + 1]\<rparr>"

definition encode_dinode :: "dinode \<Rightarrow> u8 list" where
  "encode_dinode d =
     half_bytes (di_type d) @ half_bytes (di_major d) @ half_bytes (di_minor d)
     @ half_bytes (di_nlink d) @ word_bytes (di_size d) @ concat (map word_bytes (di_addrs d))"

section \<open>Directory entries\<close>

abbreviation (input) DIRSIZ :: nat where "DIRSIZ \<equiv> 14"
abbreviation (input) sizeof_dirent :: nat where "sizeof_dirent \<equiv> 16"

record dirent =
  de_inum :: u16
  de_name :: "u8 list"

definition decode_dirent :: "u8 list \<Rightarrow> dirent" where
  "decode_dirent bs = \<lparr>de_inum = half_at bs 0, de_name = get_at bs 2 DIRSIZ\<rparr>"

definition encode_dirent :: "dirent \<Rightarrow> u8 list" where
  "encode_dirent d = half_bytes (de_inum d) @ de_name d"

section \<open>Round trips\<close>

lemma length_put_at: "off + length xs \<le> length bs \<Longrightarrow> length (put_at bs off xs) = length bs"
  by (simp add: put_at_def)

lemma nth_put_at:
  assumes "off + length xs \<le> length bs" "i < length bs"
  shows "put_at bs off xs ! i = (if off \<le> i \<and> i < off + length xs then xs ! (i - off) else bs ! i)"
  using assms by (auto simp: put_at_def nth_append min_def)

lemma get_put_at: "off + length xs \<le> length bs \<Longrightarrow> get_at (put_at bs off xs) off (length xs) = xs"
  by (simp add: get_at_def put_at_def)

lemma length_word_bytes [simp]: "length (word_bytes v) = 4"
  by (simp add: word_bytes_def)

lemma length_half_bytes [simp]: "length (half_bytes v) = 2"
  by (simp add: half_bytes_def)

lemma word_at_append: "word_at (xs @ word_bytes v @ ys) (length xs) = v"
  by (simp add: word_at_def word_bytes_def nth_append)

lemma half_at_append: "half_at (xs @ half_bytes v @ ys) (length xs) = v"
proof -
  have "(ucast (ucast v :: u8) :: u16) OR push_bit 8 (ucast (ucast (drop_bit 8 v) :: u8)) = v"
    by (rule bit_word_eqI) (auto simp: bit_simps)
  then show ?thesis by (simp add: half_at_def half_bytes_def nth_append)
qed

lemma word_at_put:
  assumes "off + 4 \<le> length bs"
  shows "word_at (put_at bs off (word_bytes v)) off = v"
  using word_at_append [of "take off bs" v "drop (off + 4) bs"] assms by (simp add: put_at_def)

lemma word_at_shift: "word_at (xs @ ys) (length xs + k) = word_at ys k"
  by (simp add: word_at_def nth_append add.assoc)

lemma half_at_shift: "half_at (xs @ ys) (length xs + k) = half_at ys k"
  by (simp add: half_at_def nth_append add.assoc)

lemma word_at_first [simp]: "word_at (word_bytes v @ ys) 0 = v"
  using word_at_append [of "[]" v ys] by simp

lemma half_at_first [simp]: "half_at (half_bytes v @ ys) 0 = v"
  using half_at_append [of "[]" v ys] by simp

lemma word_at_skip4: "word_at (word_bytes v @ ys) (4 + k) = word_at ys k"
  using word_at_shift [of "word_bytes v" ys k] by simp

lemma word_at_skip2: "word_at (half_bytes v @ ys) (2 + k) = word_at ys k"
  using word_at_shift [of "half_bytes v" ys k] by simp

lemma half_at_skip2: "half_at (half_bytes v @ ys) (2 + k) = half_at ys k"
  using half_at_shift [of "half_bytes v" ys k] by simp

lemma decode_encode_sb: "decode_sb (encode_sb sb @ rest) = sb"
proof -
  have s: "word_at (word_bytes v @ ys) n = word_at ys (n - 4)" if "4 \<le> n" for v ys n
    using word_at_skip4 [of v ys "n - 4"] that by simp
  show ?thesis
    by (cases sb) (simp add: decode_sb_def encode_sb_def s)
qed

lemma word_at_concat:
  "i < length ws \<Longrightarrow> word_at (concat (map word_bytes ws) @ ys) (4 * i) = ws ! i"
proof (induction ws arbitrary: i)
  case (Cons w ws)
  then show ?case using word_at_skip4 [of w] by (cases i) auto
qed simp

lemma length_encode_dinode:
  "length (di_addrs d) = NDIRECT + 1 \<Longrightarrow> length (encode_dinode d) = sizeof_dinode"
  by (simp add: encode_dinode_def length_concat comp_def sum_list_triv)

lemma decode_encode_dinode_0:
  assumes "length (di_addrs d) = NDIRECT + 1"
  shows "decode_dinode (encode_dinode d @ rest) 0 = d"
proof -
  have s: "word_at (half_bytes v @ ys) n = word_at ys (n - 2)" "half_at (half_bytes v @ ys) n = half_at ys (n - 2)"
    if "2 \<le> n" for v ys n
    using word_at_skip2 [of v ys "n - 2"] half_at_skip2 [of v ys "n - 2"] that
    by (simp_all only: le_add_diff_inverse)
  have w: "word_at (encode_dinode d @ rest) (12 + k) = word_at (concat (map word_bytes (di_addrs d)) @ rest) k" for k
    using word_at_skip4 [of "di_size d" _ k] by (simp add: encode_dinode_def s)
  have addrs: "map (\<lambda>i. word_at (encode_dinode d @ rest) (0 + 12 + 4 * i)) [0..<NDIRECT + 1] = di_addrs d"
    by (rule nth_equalityI) (simp_all add: assms w word_at_concat del: upt_Suc)
  have "half_at (encode_dinode d @ rest) 0 = di_type d"
    "half_at (encode_dinode d @ rest) (0 + 2) = di_major d" "half_at (encode_dinode d @ rest) (0 + 4) = di_minor d"
    "half_at (encode_dinode d @ rest) (0 + 6) = di_nlink d" "word_at (encode_dinode d @ rest) (0 + 8) = di_size d"
    by (simp_all add: encode_dinode_def s)
  then show ?thesis unfolding decode_dinode_def addrs by simp
qed

lemma half_at_drop: "off + k + 2 \<le> length bs \<Longrightarrow> half_at (drop off bs) k = half_at bs (off + k)"
  by (simp add: half_at_def add.assoc)

lemma word_at_drop: "off + k + 4 \<le> length bs \<Longrightarrow> word_at (drop off bs) k = word_at bs (off + k)"
  by (simp add: word_at_def add.assoc)

lemma decode_dinode_drop:
  assumes "off + sizeof_dinode \<le> length bs"
  shows "decode_dinode bs off = decode_dinode (drop off bs) 0"
proof -
  have "map (\<lambda>i. word_at bs (off + 12 + 4 * i)) [0..<13] = map (\<lambda>i. word_at (drop off bs) (12 + 4 * i)) [0..<13]"
    using assms by (intro map_cong) (simp_all add: word_at_drop add.assoc)
  then show ?thesis
    using assms by (simp add: decode_dinode_def half_at_drop word_at_drop)
qed

text \<open>An inode written to its slot of a block is read back, and the other slots keep theirs.\<close>

lemma decode_put_dinode:
  assumes "length (di_addrs d) = NDIRECT + 1" "off + sizeof_dinode \<le> length bs"
  shows "decode_dinode (put_at bs off (encode_dinode d)) off = d"
proof -
  note n = length_encode_dinode [OF assms(1)]
  have "drop off (put_at bs off (encode_dinode d)) = encode_dinode d @ drop (off + 64) bs"
    using assms(2) by (simp add: put_at_def n)
  then show ?thesis
    using decode_dinode_drop [of off "put_at bs off (encode_dinode d)"] decode_encode_dinode_0 [OF assms(1)]
      length_put_at [of off "encode_dinode d" bs] assms(2) n by simp
qed

lemma half_at_put_other:
  assumes "off + length xs \<le> length bs" "k + 2 \<le> off \<or> off + length xs \<le> k" "k + 2 \<le> length bs"
  shows "half_at (put_at bs off xs) k = half_at bs k"
  using assms by (auto simp: half_at_def nth_put_at)

lemma word_at_put_other:
  assumes "off + length xs \<le> length bs" "k + 4 \<le> off \<or> off + length xs \<le> k" "k + 4 \<le> length bs"
  shows "word_at (put_at bs off xs) k = word_at bs k"
  using assms by (auto simp: word_at_def nth_put_at)

lemma decode_put_dinode_other:
  assumes "off + length xs \<le> length bs" "k + sizeof_dinode \<le> off \<or> off + length xs \<le> k"
    and "k + sizeof_dinode \<le> length bs"
  shows "decode_dinode (put_at bs off xs) k = decode_dinode bs k"
  using assms by (auto simp: decode_dinode_def half_at_put_other word_at_put_other)

lemma decode_encode_dirent:
  "length (de_name d) = DIRSIZ \<Longrightarrow> decode_dirent (encode_dirent d) = d"
  by (cases d) (simp add: decode_dirent_def encode_dirent_def get_at_def half_bytes_def half_at_def
      half_at_append [of "[]", unfolded half_bytes_def half_at_def, simplified])

section \<open>Properties\<close>


definition a_dinode :: dinode where
  "a_dinode = \<lparr>di_type = 2, di_major = 0, di_minor = 0, di_nlink = 1, di_size = 70000,
     di_addrs = replicate 13 0x12345678\<rparr>"


end
