(* ===== verification/Log.thy ===== *)
theory Log
  imports Bio Layout
begin

unbundle bit_operations_syntax

text \<open>
  log.c: the redo log. The header and the log blocks live on disk; the in-memory header
  \<open>log.lh\<close> collects the block numbers of the running transaction. \<open>readsb\<close> of fs.c, which
  \<open>initlog\<close> needs, is here as well. Theory \<open>LogCrash\<close> has the crash-safety of \<open>commit\<close>.
\<close>

record logstate = bstate +
  log_start :: u32
  log_size :: int
  log_outstanding :: int
  log_committing :: bool
  log_dev :: u32
  lh_n :: int
  lh_block :: "u32 list"

section \<open>Blocks\<close>

definition readsb :: "u32 \<Rightarrow> 'a bstate_scheme \<Rightarrow> ('a bstate_scheme, superblock) kres" where
  "readsb dev s =
     bindK (bread dev 1 s)
       (\<lambda>bp s. let sb = decode_sb (b_data (buf_at s bp)) in bindK (brelse bp s) (\<lambda>_ s. Done sb s))"

section \<open>Installing and recovering\<close>

definition install_trans_block :: "nat \<Rightarrow> 'a logstate_scheme \<Rightarrow> ('a logstate_scheme, unit) kres" where
  "install_trans_block tail s =
     bindK (bread (log_dev s) (log_start s + of_nat tail + 1) s)
       (\<lambda>lbuf s. bindK (bread (log_dev s) (lh_block s ! tail) s)
         (\<lambda>dbuf s. let s = upd_buf dbuf (\<lambda>b. b\<lparr>b_data := b_data (buf_at s lbuf)\<rparr>) s in
            bindK (bwrite dbuf s)
              (\<lambda>_ s. bindK (brelse lbuf s) (\<lambda>_ s. brelse dbuf s))))"

definition install_trans :: "'a logstate_scheme \<Rightarrow> ('a logstate_scheme, unit) kres" where
  "install_trans s = forK [0..<nat (lh_n s)] install_trans_block s"

text \<open>The header block: the count, then the block numbers.\<close>

definition head_n :: "u8 list \<Rightarrow> int" where
  "head_n bs = sint (word_at bs 0)"

definition head_block :: "u8 list \<Rightarrow> nat \<Rightarrow> u32" where
  "head_block bs i = word_at bs (4 + 4 * i)"

text \<open>
  \<open>read_head\<close> stores as many block numbers as the count on disk says; with more than LOGSIZE it
  runs past the end of \<open>log.lh.block\<close>, which is \<open>Fault 0\<close> here.
\<close>

definition read_head :: "'a logstate_scheme \<Rightarrow> ('a logstate_scheme, unit) kres" where
  "read_head s =
     bindK (bread (log_dev s) (log_start s) s)
       (\<lambda>b s. let hb = b_data (buf_at s b); n = head_n hb in
          if n > LOGSIZE then Fault 0 s
          else
            let s = s\<lparr>lh_n := n,
                      lh_block := map (head_block hb) [0..<nat n] @ drop (nat n) (lh_block s)\<rparr> in
            brelse b s)"

text \<open>The words of the header as \<open>write_head\<close> stores them over the old contents of the block.\<close>

definition put_head :: "int \<Rightarrow> u32 list \<Rightarrow> u8 list \<Rightarrow> u8 list" where
  "put_head n blocks bs =
     put_at bs 0 (word_bytes (of_int n) @ concat (map word_bytes (take (nat n) blocks)))"

definition write_head :: "'a logstate_scheme \<Rightarrow> ('a logstate_scheme, unit) kres" where
  "write_head s =
     bindK (bread (log_dev s) (log_start s) s)
       (\<lambda>b s. let s = upd_buf b (\<lambda>x. x\<lparr>b_data := put_head (lh_n s) (lh_block s) (b_data x)\<rparr>) s in
          bindK (bwrite b s) (\<lambda>_ s. brelse b s))"

definition recover_from_log :: "'a logstate_scheme \<Rightarrow> ('a logstate_scheme, unit) kres" where
  "recover_from_log s =
     bindK (read_head s)
       (\<lambda>_ s. bindK (install_trans s)
         (\<lambda>_ s. write_head (s\<lparr>lh_n := 0\<rparr>)))"

text \<open>\<open>struct logheader\<close> has 4 * (1 + LOGSIZE) bytes.\<close>

definition initlog :: "u32 \<Rightarrow> 'a logstate_scheme \<Rightarrow> ('a logstate_scheme, unit) kres" where
  "initlog dev s =
     (if 4 * (1 + LOGSIZE) \<ge> int BSIZE then Panic ''initlog: too big logheader''
      else
        bindK (readsb dev (initlockK LkLog s))
          (\<lambda>sb s. recover_from_log
             (s\<lparr>log_start := sb_logstart sb, log_size := sint (sb_nlog sb), log_dev := dev\<rparr>)))"

section \<open>Transactions\<close>

text \<open>The loop of \<open>begin_op\<close>, with \<open>log.lock\<close> held.\<close>

definition begin_op_loop :: "'a logstate_scheme \<Rightarrow> ('a logstate_scheme, unit) kres" where
  "begin_op_loop s =
     (if log_committing s then sleep ChLog (Some LkLog) s
      else if lh_n s + (log_outstanding s + 1) * MAXOPBLOCKS > LOGSIZE then sleep ChLog (Some LkLog) s
      else releaseK LkLog (s\<lparr>log_outstanding := log_outstanding s + 1\<rparr>))"

definition begin_op :: "'a logstate_scheme \<Rightarrow> ('a logstate_scheme, unit) kres" where
  "begin_op s = bindK (acquireK LkLog s) (\<lambda>_ s. begin_op_loop s)"

definition begin_op_resume :: "nat \<Rightarrow> 'a logstate_scheme \<Rightarrow> ('a logstate_scheme, unit) kres" where
  "begin_op_resume p s = bindK (sleep_resume LkLog p s) (\<lambda>_ s. begin_op_loop s)"

definition write_log_block :: "nat \<Rightarrow> 'a logstate_scheme \<Rightarrow> ('a logstate_scheme, unit) kres" where
  "write_log_block tail s =
     bindK (bread (log_dev s) (log_start s + of_nat tail + 1) s)
       (\<lambda>to s. bindK (bread (log_dev s) (lh_block s ! tail) s)
         (\<lambda>fr s. let s = upd_buf to (\<lambda>b. b\<lparr>b_data := b_data (buf_at s fr)\<rparr>) s in
            bindK (bwrite to s)
              (\<lambda>_ s. bindK (brelse fr s) (\<lambda>_ s. brelse to s))))"

definition write_log :: "'a logstate_scheme \<Rightarrow> ('a logstate_scheme, unit) kres" where
  "write_log s = forK [0..<nat (lh_n s)] write_log_block s"

definition commit :: "'a logstate_scheme \<Rightarrow> ('a logstate_scheme, unit) kres" where
  "commit s =
     (if lh_n s > 0
      then bindK (write_log s)
        (\<lambda>_ s. bindK (write_head s)
          (\<lambda>_ s. bindK (install_trans s)
            (\<lambda>_ s. write_head (s\<lparr>lh_n := 0\<rparr>))))
      else Done () s)"

definition end_op :: "'a logstate_scheme \<Rightarrow> ('a logstate_scheme, unit) kres" where
  "end_op s =
     bindK (acquireK LkLog s)
       (\<lambda>_ s. let s = s\<lparr>log_outstanding := log_outstanding s - 1\<rparr> in
          if log_committing s then Panic ''log.committing''
          else if log_outstanding s = 0
          then bindK (releaseK LkLog (s\<lparr>log_committing := True\<rparr>))
            (\<lambda>_ s. bindK (commit s)
              (\<lambda>_ s. bindK (acquireK LkLog s)
                (\<lambda>_ s. bindK (wakeup ChLog (s\<lparr>log_committing := False\<rparr>))
                  (\<lambda>_ s. releaseK LkLog s))))
          else bindK (wakeup ChLog s) (\<lambda>_ s. releaseK LkLog s))"

text \<open>The first index at which the block is already logged, or the count.\<close>

definition log_index :: "u32 \<Rightarrow> 'a logstate_scheme \<Rightarrow> nat" where
  "log_index blockno s = length (takeWhile (\<lambda>b. b \<noteq> blockno) (take (nat (lh_n s)) (lh_block s)))"

definition log_write :: "nat \<Rightarrow> 'a logstate_scheme \<Rightarrow> ('a logstate_scheme, unit) kres" where
  "log_write b s =
     (if lh_n s \<ge> LOGSIZE \<or> lh_n s \<ge> log_size s - 1 then Panic ''too big a transaction''
      else if log_outstanding s < 1 then Panic ''log_write outside of trans''
      else bindK (acquireK LkLog s)
        (\<lambda>_ s. let blockno = b_blockno (buf_at s b); i = log_index blockno s;
                   s = s\<lparr>lh_block := (lh_block s)[i := blockno]\<rparr>;
                   s = (if int i = lh_n s then s\<lparr>lh_n := lh_n s + 1\<rparr> else s);
                   s = upd_buf b (\<lambda>x. x\<lparr>b_flags := b_flags x OR B_DIRTY\<rparr>) s in
               releaseK LkLog s))"

end
