(* ===== verification/Fs.thy ===== *)
theory Fs
  imports Log Strings
begin

unbundle bit_operations_syntax

text \<open>
  fs.c: block allocation, the inode cache, and the contents of files. An inode pointer is an index
  into \<open>icache.inode\<close>, \<open>None\<close> the null pointer. The device switch \<open>devsw\<close>, a table of function
  pointers, is an argument of the operations that call through it. Buffers that C passes by
  address are byte lists: \<open>readi\<close> returns the bytes it stored, \<open>writei\<close> takes those it reads.
\<close>

section \<open>State\<close>

record inode =
  i_dev :: u32
  i_inum :: u32
  i_ref :: int
  i_lock :: sleeplock
  i_valid :: bool
  i_type :: u16
  i_major :: u16
  i_minor :: u16
  i_nlink :: u16
  i_size :: u32
  i_addrs :: "u32 list"

record fsstate = logstate +
  icache :: "inode list"
  sb :: superblock

record 's devsw_entry =
  dev_read :: "(nat \<Rightarrow> u32 \<Rightarrow> 's \<Rightarrow> ('s, int \<times> u8 list) kres) option"
  dev_write :: "(nat \<Rightarrow> u8 list \<Rightarrow> 's \<Rightarrow> ('s, int) kres) option"

type_synonym 's devsw = "nat \<Rightarrow> 's devsw_entry"

definition inode_at :: "'a fsstate_scheme \<Rightarrow> nat \<Rightarrow> inode" where
  "inode_at s i = icache s ! i"

definition upd_inode :: "nat \<Rightarrow> (inode \<Rightarrow> inode) \<Rightarrow> 'a fsstate_scheme \<Rightarrow> 'a fsstate_scheme" where
  "upd_inode i f s = s\<lparr>icache := (icache s)[i := f (icache s ! i)]\<rparr>"

definition inode_lock :: "nat \<Rightarrow> 'a fsstate_scheme sleepref" where
  "inode_lock i =
     \<lparr>sl_get = \<lambda>s. i_lock (inode_at s i), sl_put = \<lambda>l. upd_inode i (\<lambda>x. x\<lparr>i_lock := l\<rparr>),
      sl_lk = LkInodeLock i, sl_ch = ChInodeLock i\<rparr>"

section \<open>Blocks\<close>

definition bzero :: "u32 \<Rightarrow> u32 \<Rightarrow> 'a logstate_scheme \<Rightarrow> ('a logstate_scheme, unit) kres" where
  "bzero dev bno s =
     bindK (bread dev bno s)
       (\<lambda>bp s. bindK (log_write bp (upd_buf bp (\<lambda>x. x\<lparr>b_data := replicate BSIZE 0\<rparr>) s))
         (\<lambda>_ s. brelse bp s))"

text \<open>Bit \<open>bi\<close> of a bitmap block, and setting or clearing it.\<close>

definition bit_mask :: "nat \<Rightarrow> u8" where
  "bit_mask bi = push_bit (bi mod 8) 1"

definition bit_set :: "u8 list \<Rightarrow> nat \<Rightarrow> bool" where
  "bit_set bs bi \<longleftrightarrow> bs ! (bi div 8) AND bit_mask bi \<noteq> 0"

definition set_bit_in :: "u8 list \<Rightarrow> nat \<Rightarrow> u8 list" where
  "set_bit_in bs bi = bs[bi div 8 := bs ! (bi div 8) OR bit_mask bi]"

definition clear_bit_in :: "u8 list \<Rightarrow> nat \<Rightarrow> u8 list" where
  "clear_bit_in bs bi = bs[bi div 8 := bs ! (bi div 8) AND NOT (bit_mask bi)]"

text \<open>The inner loop of \<open>balloc\<close>: the first clear bit of the block among the \<open>n\<close> that count.\<close>

definition balloc_scan :: "u8 list \<Rightarrow> nat \<Rightarrow> nat option" where
  "balloc_scan bs n = find (\<lambda>bi. \<not> bit_set bs bi) [0..<n]"

fun balloc_loop :: "u32 \<Rightarrow> nat list \<Rightarrow> 'a fsstate_scheme \<Rightarrow> ('a fsstate_scheme, u32) kres" where
  "balloc_loop dev [] s = Panic ''balloc: out of blocks''"
| "balloc_loop dev (b # bs) s =
     bindK (bread dev (BBLOCK (of_nat b) (sb s)) s)
       (\<lambda>bp s. case balloc_scan (b_data (buf_at s bp)) (min BPB (unat (sb_size (sb s)) - b)) of
           Some bi \<Rightarrow>
             bindK (log_write bp (upd_buf bp (\<lambda>x. x\<lparr>b_data := set_bit_in (b_data x) bi\<rparr>) s))
               (\<lambda>_ s. bindK (brelse bp s)
                 (\<lambda>_ s. bindK (bzero dev (of_nat (b + bi)) s) (\<lambda>_ s. Done (of_nat (b + bi)) s)))
         | None \<Rightarrow> bindK (brelse bp s) (\<lambda>_ s. balloc_loop dev bs s))"

text \<open>The outer loop runs over the multiples of BPB below \<open>sb.size\<close>.\<close>

definition balloc :: "u32 \<Rightarrow> 'a fsstate_scheme \<Rightarrow> ('a fsstate_scheme, u32) kres" where
  "balloc dev s =
     balloc_loop dev (map (\<lambda>k. k * BPB) [0..<(unat (sb_size (sb s)) + BPB - 1) div BPB]) s"

definition bfree :: "u32 \<Rightarrow> u32 \<Rightarrow> 'a fsstate_scheme \<Rightarrow> ('a fsstate_scheme, unit) kres" where
  "bfree dev b s =
     bindK (readsb dev s)
       (\<lambda>x s. let s = s\<lparr>sb := x\<rparr> in
          bindK (bread dev (BBLOCK b (sb s)) s)
            (\<lambda>bp s. let bi = unat b mod BPB in
               if \<not> bit_set (b_data (buf_at s bp)) bi then Panic ''freeing free block''
               else bindK (log_write bp (upd_buf bp (\<lambda>x. x\<lparr>b_data := clear_bit_in (b_data x) bi\<rparr>) s))
                 (\<lambda>_ s. brelse bp s)))"

section \<open>The inode cache\<close>

definition iinit :: "u32 \<Rightarrow> 'a fsstate_scheme \<Rightarrow> ('a fsstate_scheme, unit) kres" where
  "iinit dev s =
     (let s = fold (\<lambda>i. initsleeplock (inode_lock i)) [0..<NINODE] (initlockK LkIcache s) in
      bindK (readsb dev s)
        (\<lambda>x s. cprintf (''sb: size %d nblocks %d ninodes %d nlog %d logstart %d'' @
                        '' inodestart %d bmap start %d'' @ [CHR 0x0A])
                 [Num (sb_size x), Num (sb_nblocks x), Num (sb_ninodes x), Num (sb_nlog x),
                  Num (sb_logstart x), Num (sb_inodestart x), Num (sb_bmapstart x)] (s\<lparr>sb := x\<rparr>)))"

text \<open>
  The loop of \<open>iget\<close>: \<open>Inl ip\<close> is the entry that already caches the inode, \<open>Inr emp\<close> the first
  empty slot seen, if any.
\<close>

fun iget_scan :: "inode list \<Rightarrow> nat \<Rightarrow> u32 \<Rightarrow> u32 \<Rightarrow> nat option \<Rightarrow> nat + nat option" where
  "iget_scan [] i dev inum emp = Inr emp"
| "iget_scan (x # xs) i dev inum emp =
     (if i_ref x > 0 \<and> i_dev x = dev \<and> i_inum x = inum then Inl i
      else iget_scan xs (Suc i) dev inum (if emp = None \<and> i_ref x = 0 then Some i else emp))"

definition iget :: "u32 \<Rightarrow> u32 \<Rightarrow> 'a fsstate_scheme \<Rightarrow> ('a fsstate_scheme, nat) kres" where
  "iget dev inum s =
     bindK (acquireK LkIcache s)
       (\<lambda>_ s. case iget_scan (icache s) 0 dev inum None of
           Inl ip \<Rightarrow>
             bindK (releaseK LkIcache (upd_inode ip (\<lambda>x. x\<lparr>i_ref := i_ref x + 1\<rparr>) s)) (\<lambda>_ s. Done ip s)
         | Inr None \<Rightarrow> Panic ''iget: no inodes''
         | Inr (Some ip) \<Rightarrow>
             bindK (releaseK LkIcache
                 (upd_inode ip (\<lambda>x. x\<lparr>i_dev := dev, i_inum := inum, i_ref := 1, i_valid := False\<rparr>) s))
               (\<lambda>_ s. Done ip s))"

definition idup :: "nat \<Rightarrow> 'a fsstate_scheme \<Rightarrow> ('a fsstate_scheme, nat) kres" where
  "idup ip s =
     bindK (acquireK LkIcache s)
       (\<lambda>_ s. bindK (releaseK LkIcache (upd_inode ip (\<lambda>x. x\<lparr>i_ref := i_ref x + 1\<rparr>) s)) (\<lambda>_ s. Done ip s))"

text \<open>Offset of an inode in its block.\<close>

definition dinode_off :: "u32 \<Rightarrow> nat" where
  "dinode_off inum = (unat inum mod IPB) * sizeof_dinode"

fun ialloc_loop :: "u32 \<Rightarrow> u16 \<Rightarrow> nat list \<Rightarrow> 'a fsstate_scheme \<Rightarrow> ('a fsstate_scheme, nat) kres" where
  "ialloc_loop dev ty [] s = Panic ''ialloc: no inodes''"
| "ialloc_loop dev ty (inum # is) s =
     bindK (bread dev (IBLOCK (of_nat inum) (sb s)) s)
       (\<lambda>bp s. let off = dinode_off (of_nat inum) in
          if di_type (decode_dinode (b_data (buf_at s bp)) off) = 0
          then let d = \<lparr>di_type = ty, di_major = 0, di_minor = 0, di_nlink = 0, di_size = 0,
                        di_addrs = replicate (NDIRECT + 1) 0\<rparr> in
               bindK (log_write bp (upd_buf bp (\<lambda>x. x\<lparr>b_data := put_at (b_data x) off (encode_dinode d)\<rparr>) s))
                 (\<lambda>_ s. bindK (brelse bp s) (\<lambda>_ s. iget dev (of_nat inum) s))
          else bindK (brelse bp s) (\<lambda>_ s. ialloc_loop dev ty is s))"

definition ialloc :: "u32 \<Rightarrow> u16 \<Rightarrow> 'a fsstate_scheme \<Rightarrow> ('a fsstate_scheme, nat) kres" where
  "ialloc dev ty s = ialloc_loop dev ty [1..<unat (sb_ninodes (sb s))] s"

text \<open>The part of an inode that is kept on disk.\<close>

definition dinode_of :: "inode \<Rightarrow> dinode" where
  "dinode_of x = \<lparr>di_type = i_type x, di_major = i_major x, di_minor = i_minor x, di_nlink = i_nlink x,
                  di_size = i_size x, di_addrs = i_addrs x\<rparr>"

definition iupdate :: "nat \<Rightarrow> 'a fsstate_scheme \<Rightarrow> ('a fsstate_scheme, unit) kres" where
  "iupdate ip s =
     bindK (bread (i_dev (inode_at s ip)) (IBLOCK (i_inum (inode_at s ip)) (sb s)) s)
       (\<lambda>bp s. bindK (log_write bp
            (upd_buf bp (\<lambda>x. x\<lparr>b_data := put_at (b_data x) (dinode_off (i_inum (inode_at s ip)))
                                              (encode_dinode (dinode_of (inode_at s ip)))\<rparr>) s))
         (\<lambda>_ s. brelse bp s))"

definition ilock :: "nat option \<Rightarrow> 'a fsstate_scheme \<Rightarrow> ('a fsstate_scheme, unit) kres" where
  "ilock ipo s =
     (case ipo of
        None \<Rightarrow> Panic ''ilock''
      | Some ip \<Rightarrow>
          if i_ref (inode_at s ip) < 1 then Panic ''ilock''
          else bindK (acquiresleep (inode_lock ip) s)
            (\<lambda>_ s. if \<not> i_valid (inode_at s ip)
               then bindK (bread (i_dev (inode_at s ip)) (IBLOCK (i_inum (inode_at s ip)) (sb s)) s)
                 (\<lambda>bp s. let d = decode_dinode (b_data (buf_at s bp)) (dinode_off (i_inum (inode_at s ip)));
                             s = upd_inode ip (\<lambda>x. x\<lparr>i_type := di_type d, i_major := di_major d,
                                   i_minor := di_minor d, i_nlink := di_nlink d, i_size := di_size d,
                                   i_addrs := di_addrs d\<rparr>) s in
                    bindK (brelse bp s)
                      (\<lambda>_ s. let s = upd_inode ip (\<lambda>x. x\<lparr>i_valid := True\<rparr>) s in
                         if i_type (inode_at s ip) = 0 then Panic ''ilock: no type'' else Done () s))
               else Done () s))"

definition iunlock :: "nat option \<Rightarrow> 'a fsstate_scheme \<Rightarrow> ('a fsstate_scheme, unit) kres" where
  "iunlock ipo s =
     (case ipo of
        None \<Rightarrow> Panic ''iunlock''
      | Some ip \<Rightarrow>
          bindK (holdingsleep (inode_lock ip) s)
            (\<lambda>h s. if \<not> h \<or> i_ref (inode_at s ip) < 1 then Panic ''iunlock''
                   else releasesleep (inode_lock ip) s))"

section \<open>Contents of inodes\<close>

definition bmap :: "nat \<Rightarrow> u32 \<Rightarrow> 'a fsstate_scheme \<Rightarrow> ('a fsstate_scheme, u32) kres" where
  "bmap ip bn s =
     (let slot = (\<lambda>i s. let addr = i_addrs (inode_at s ip) ! i in
            if addr = 0
            then bindK (balloc (i_dev (inode_at s ip)) s)
              (\<lambda>a s. Done a (upd_inode ip (\<lambda>x. x\<lparr>i_addrs := (i_addrs x)[i := a]\<rparr>) s))
            else Done addr s) in
      if unat bn < NDIRECT then slot (unat bn) s
      else
        let k = unat bn - NDIRECT in
        if k < NINDIRECT
        then bindK (slot NDIRECT s)
          (\<lambda>addr s. bindK (bread (i_dev (inode_at s ip)) addr s)
            (\<lambda>bp s. let a = word_at (b_data (buf_at s bp)) (4 * k) in
               if a = 0
               then bindK (balloc (i_dev (inode_at s ip)) s)
                 (\<lambda>a s. bindK (log_write bp
                        (upd_buf bp (\<lambda>x. x\<lparr>b_data := put_at (b_data x) (4 * k) (word_bytes a)\<rparr>) s))
                   (\<lambda>_ s. bindK (brelse bp s) (\<lambda>_ s. Done a s)))
               else bindK (brelse bp s) (\<lambda>_ s. Done a s)))
        else Panic ''bmap: out of range'')"

definition itrunc :: "nat \<Rightarrow> 'a fsstate_scheme \<Rightarrow> ('a fsstate_scheme, unit) kres" where
  "itrunc ip s =
     bindK (forK [0..<NDIRECT]
         (\<lambda>i s. let a = i_addrs (inode_at s ip) ! i in
            if a \<noteq> 0
            then bindK (bfree (i_dev (inode_at s ip)) a s)
              (\<lambda>_ s. Done () (upd_inode ip (\<lambda>x. x\<lparr>i_addrs := (i_addrs x)[i := 0]\<rparr>) s))
            else Done () s) s)
       (\<lambda>_ s. bindK
         (let a = i_addrs (inode_at s ip) ! NDIRECT in
          if a \<noteq> 0
          then bindK (bread (i_dev (inode_at s ip)) a s)
            (\<lambda>bp s. bindK (forK [0..<NINDIRECT]
                 (\<lambda>j s. let e = word_at (b_data (buf_at s bp)) (4 * j) in
                    if e \<noteq> 0 then bfree (i_dev (inode_at s ip)) e s else Done () s) s)
              (\<lambda>_ s. bindK (brelse bp s)
                (\<lambda>_ s. bindK (bfree (i_dev (inode_at s ip)) (i_addrs (inode_at s ip) ! NDIRECT) s)
                  (\<lambda>_ s. Done () (upd_inode ip (\<lambda>x. x\<lparr>i_addrs := (i_addrs x)[NDIRECT := 0]\<rparr>) s)))))
          else Done () s)
         (\<lambda>_ s. iupdate ip (upd_inode ip (\<lambda>x. x\<lparr>i_size := 0\<rparr>) s)))"

definition iput :: "nat \<Rightarrow> 'a fsstate_scheme \<Rightarrow> ('a fsstate_scheme, unit) kres" where
  "iput ip s =
     bindK (acquiresleep (inode_lock ip) s)
       (\<lambda>_ s. bindK
         (if i_valid (inode_at s ip) \<and> i_nlink (inode_at s ip) = 0
          then bindK (acquireK LkIcache s)
            (\<lambda>_ s. let r = i_ref (inode_at s ip) in
               bindK (releaseK LkIcache s)
                 (\<lambda>_ s. if r = 1
                    then bindK (itrunc ip s)
                      (\<lambda>_ s. bindK (iupdate ip (upd_inode ip (\<lambda>x. x\<lparr>i_type := 0\<rparr>) s))
                        (\<lambda>_ s. Done () (upd_inode ip (\<lambda>x. x\<lparr>i_valid := False\<rparr>) s)))
                    else Done () s))
          else Done () s)
         (\<lambda>_ s. bindK (releasesleep (inode_lock ip) s)
           (\<lambda>_ s. bindK (acquireK LkIcache s)
             (\<lambda>_ s. releaseK LkIcache (upd_inode ip (\<lambda>x. x\<lparr>i_ref := i_ref x - 1\<rparr>) s)))))"

definition iunlockput :: "nat \<Rightarrow> 'a fsstate_scheme \<Rightarrow> ('a fsstate_scheme, unit) kres" where
  "iunlockput ip s = bindK (iunlock (Some ip) s) (\<lambda>_ s. iput ip s)"

record stat =
  st_type :: u16
  st_dev :: u32
  st_ino :: u32
  st_nlink :: u16
  st_size :: u32

definition stati :: "nat \<Rightarrow> 'a fsstate_scheme \<Rightarrow> stat" where
  "stati ip s =
     (let x = inode_at s ip in
      \<lparr>st_type = i_type x, st_dev = i_dev x, st_ino = i_inum x, st_nlink = i_nlink x, st_size = i_size x\<rparr>)"

text \<open>
  The bytes one round of \<open>readi\<close> or \<open>writei\<close> moves: \<open>min(n - tot, BSIZE - off%BSIZE)\<close>, with \<open>r\<close> for
  \<open>n - tot\<close>.
\<close>

definition chunk :: "nat \<Rightarrow> u32 \<Rightarrow> nat" where
  "chunk r off = min r (BSIZE - unat off mod BSIZE)"

lemma chunk_progress: "r \<noteq> 0 \<Longrightarrow> r - chunk r off < r"
  by (simp add: chunk_def)

function readi_loop :: "nat \<Rightarrow> u32 \<Rightarrow> nat \<Rightarrow> u8 list \<Rightarrow> 'a fsstate_scheme
    \<Rightarrow> ('a fsstate_scheme, u8 list) kres" where
  "readi_loop ip off r dst s =
     (if r = 0 then Done dst s
      else bindK (bmap ip (off div of_nat BSIZE) s)
        (\<lambda>addr s. bindK (bread (i_dev (inode_at s ip)) addr s)
          (\<lambda>bp s. let m = chunk r off; d = get_at (b_data (buf_at s bp)) (unat off mod BSIZE) m in
             bindK (brelse bp s)
               (\<lambda>_ s. readi_loop ip (off + of_nat m) (r - m) (dst @ d) s))))"
  by pat_completeness auto
termination
  by (relation "measure (\<lambda>(ip, off, r, dst, s). r)") (auto simp: chunk_def)

declare readi_loop.simps [simp del]

text \<open>The entry of the device switch for an inode's major number; \<open>short\<close> is signed.\<close>

definition dev_entry :: "'s devsw \<Rightarrow> u16 \<Rightarrow> 's devsw_entry option" where
  "dev_entry dsw major =
     (if sint major < 0 \<or> sint major \<ge> NDEV then None else Some (dsw (nat (sint major))))"

definition readi :: "'a fsstate_scheme devsw \<Rightarrow> nat \<Rightarrow> u32 \<Rightarrow> u32 \<Rightarrow> 'a fsstate_scheme
    \<Rightarrow> ('a fsstate_scheme, int \<times> u8 list) kres" where
  "readi dsw ip off n s =
     (if i_type (inode_at s ip) = T_DEV
      then (case dev_entry dsw (i_major (inode_at s ip)) of
              None \<Rightarrow> Done (- 1, []) s
            | Some e \<Rightarrow> (case dev_read e of None \<Rightarrow> Done (- 1, []) s | Some f \<Rightarrow> f ip n s))
      else if off > i_size (inode_at s ip) \<or> off + n < off then Done (- 1, []) s
      else
        let n = (if off + n > i_size (inode_at s ip) then i_size (inode_at s ip) - off else n) in
        bindK (readi_loop ip off (unat n) [] s) (\<lambda>d s. Done (sint n, d) s))"

function writei_loop :: "nat \<Rightarrow> u32 \<Rightarrow> u8 list \<Rightarrow> 'a fsstate_scheme \<Rightarrow> ('a fsstate_scheme, u32) kres" where
  "writei_loop ip off src s =
     (if src = [] then Done off s
      else bindK (bmap ip (off div of_nat BSIZE) s)
        (\<lambda>addr s. bindK (bread (i_dev (inode_at s ip)) addr s)
          (\<lambda>bp s. let m = chunk (length src) off in
             bindK (log_write bp
                 (upd_buf bp (\<lambda>x. x\<lparr>b_data := put_at (b_data x) (unat off mod BSIZE) (take m src)\<rparr>) s))
               (\<lambda>_ s. bindK (brelse bp s)
                 (\<lambda>_ s. writei_loop ip (off + of_nat m) (drop m src) s)))))"
  by pat_completeness auto
termination
  by (relation "measure (\<lambda>(ip, off, src, s). length src)") (auto simp: chunk_def)

declare writei_loop.simps [simp del]

text \<open>\<open>src\<close> holds the \<open>n\<close> bytes to write.\<close>

definition writei :: "'a fsstate_scheme devsw \<Rightarrow> nat \<Rightarrow> u8 list \<Rightarrow> u32 \<Rightarrow> 'a fsstate_scheme
    \<Rightarrow> ('a fsstate_scheme, int) kres" where
  "writei dsw ip src off s =
     (if i_type (inode_at s ip) = T_DEV
      then (case dev_entry dsw (i_major (inode_at s ip)) of
              None \<Rightarrow> Done (- 1) s
            | Some e \<Rightarrow> (case dev_write e of None \<Rightarrow> Done (- 1) s | Some f \<Rightarrow> f ip src s))
      else
        let n = of_nat (length src) in
        if off > i_size (inode_at s ip) \<or> off + n < off then Done (- 1) s
        else if off + n > of_nat (MAXFILE * BSIZE) then Done (- 1) s
        else bindK (writei_loop ip off src s)
          (\<lambda>off s. bindK
             (if n > 0 \<and> off > i_size (inode_at s ip)
              then iupdate ip (upd_inode ip (\<lambda>x. x\<lparr>i_size := off\<rparr>) s) else Done () s)
             (\<lambda>_ s. Done (sint n) s)))"

section \<open>The locks of the inodes\<close>

interpretation il: sleepref "inode_lock i" "\<lambda>s. i < length (icache s)" for i
  by unfold_locales (simp_all add: inode_lock_def inode_at_def upd_inode_def)

end
