(* ===== verification/Dir.thy ===== *)
theory Dir
  imports Fs
begin

text \<open>
  fs.c: directories and path names. A path is the list of its bytes up to the terminating zero; a
  name buffer has DIRSIZ bytes, of which the bytes up to the first zero are the name.
\<close>

section \<open>Directories\<close>

definition namecmp :: "u8 list \<Rightarrow> u8 list \<Rightarrow> int" where
  "namecmp s t = strncmp (buf_of s) (buf_of t) DIRSIZ"

text \<open>The offsets the loops over a directory visit: the multiples of the entry size below \<open>dp->size\<close>.\<close>

definition dir_offsets :: "u32 \<Rightarrow> u32 list" where
  "dir_offsets sz = map (\<lambda>k. of_nat (k * sizeof_dirent)) [0..<(unat sz + sizeof_dirent - 1) div sizeof_dirent]"

primrec dirlookup_loop :: "'a fsstate_scheme devsw \<Rightarrow> nat \<Rightarrow> u8 list \<Rightarrow> u32 list \<Rightarrow> 'a fsstate_scheme
    \<Rightarrow> ('a fsstate_scheme, (nat \<times> u32) option) kres" where
  "dirlookup_loop dsw dp name [] s = Done None s"
| "dirlookup_loop dsw dp name (off # offs) s =
     bindK (readi dsw dp off (of_nat sizeof_dirent) s)
       (\<lambda>(n, d) s. if n \<noteq> int sizeof_dirent then Panic ''dirlookup read''
          else let de = decode_dirent d in
               if de_inum de = 0 then dirlookup_loop dsw dp name offs s
               else if namecmp name (de_name de) = 0
               then bindK (iget (i_dev (inode_at s dp)) (ucast (de_inum de)) s) (\<lambda>ip s. Done (Some (ip, off)) s)
               else dirlookup_loop dsw dp name offs s)"

definition dirlookup :: "'a fsstate_scheme devsw \<Rightarrow> nat \<Rightarrow> u8 list \<Rightarrow> 'a fsstate_scheme
    \<Rightarrow> ('a fsstate_scheme, (nat \<times> u32) option) kres" where
  "dirlookup dsw dp name s =
     (if i_type (inode_at s dp) \<noteq> T_DIR then Panic ''dirlookup not DIR''
      else dirlookup_loop dsw dp name (dir_offsets (i_size (inode_at s dp))) s)"

text \<open>
  The search of \<open>dirlink\<close> for an empty entry: its offset, or the offset one past the entries.
\<close>

primrec dirlink_loop :: "'a fsstate_scheme devsw \<Rightarrow> nat \<Rightarrow> u32 list \<Rightarrow> u32 \<Rightarrow> 'a fsstate_scheme
    \<Rightarrow> ('a fsstate_scheme, u32) kres" where
  "dirlink_loop dsw dp [] next s = Done next s"
| "dirlink_loop dsw dp (off # offs) next s =
     bindK (readi dsw dp off (of_nat sizeof_dirent) s)
       (\<lambda>(n, d) s. if n \<noteq> int sizeof_dirent then Panic ''dirlink read''
          else if de_inum (decode_dirent d) = 0 then Done off s
          else dirlink_loop dsw dp offs (off + of_nat sizeof_dirent) s)"

definition dirlink :: "'a fsstate_scheme devsw \<Rightarrow> nat \<Rightarrow> u8 list \<Rightarrow> u32 \<Rightarrow> 'a fsstate_scheme
    \<Rightarrow> ('a fsstate_scheme, int) kres" where
  "dirlink dsw dp name inum s =
     bindK (dirlookup dsw dp name s)
       (\<lambda>r s. case r of
           Some (ip, _) \<Rightarrow> bindK (iput ip s) (\<lambda>_ s. Done (- 1) s)
         | None \<Rightarrow>
             bindK (dirlink_loop dsw dp (dir_offsets (i_size (inode_at s dp))) 0 s)
               (\<lambda>off s.
                  let de = \<lparr>de_inum = ucast inum,
                            de_name = map (strncpy (\<lambda>_. 0) (buf_of name) (int DIRSIZ)) [0..<DIRSIZ]\<rparr> in
                  bindK (writei dsw dp (encode_dirent de) off s)
                    (\<lambda>n s. if n \<noteq> int sizeof_dirent then Panic ''dirlink'' else Done 0 s)))"

section \<open>Paths\<close>

abbreviation (input) slash :: u8 where "slash \<equiv> 47"

text \<open>The name buffer after \<open>skipelem\<close> copied an element into it.\<close>

definition put_name :: "u8 list \<Rightarrow> u8 list \<Rightarrow> u8 list" where
  "put_name e name =
     (if length e \<ge> DIRSIZ then take DIRSIZ e else put_at name 0 (e @ [0]))"

definition skipelem :: "u8 list \<Rightarrow> u8 list \<Rightarrow> (u8 list \<times> u8 list) option" where
  "skipelem path name =
     (let path = dropWhile (\<lambda>c. c = slash) path in
      if path = [] then None
      else let e = takeWhile (\<lambda>c. c \<noteq> slash) path;
               path = dropWhile (\<lambda>c. c \<noteq> slash) path in
           Some (dropWhile (\<lambda>c. c = slash) path, put_name e name))"

lemma skipelem_shorter: "skipelem path name = Some (path', name') \<Longrightarrow> length path' < length path"
proof -
  assume a: "skipelem path name = Some (path', name')"
  let ?p = "dropWhile (\<lambda>c. c = slash) path"
  have ne: "?p \<noteq> []" and p': "path' = dropWhile (\<lambda>c. c = slash) (dropWhile (\<lambda>c. c \<noteq> slash) ?p)"
    using a by (auto simp: skipelem_def Let_def split: if_splits)
  have "hd ?p \<noteq> slash" using hd_dropWhile [OF ne] by simp
  then have "length (dropWhile (\<lambda>c. c \<noteq> slash) ?p) < length ?p"
    using ne by (cases ?p) (auto simp: less_Suc_eq_le length_dropWhile_le)
  then show ?thesis
    unfolding p' using length_dropWhile_le [of "\<lambda>c. c = slash" path]
      length_dropWhile_le [of "\<lambda>c. c = slash" "dropWhile (\<lambda>c. c \<noteq> slash) ?p"] by linarith
qed

text \<open>
  The loop of \<open>namex\<close>; \<open>parent\<close> is its argument \<open>nameiparent\<close>. The result is the inode, if any, and
  the contents of the name buffer.
\<close>

function namex_loop :: "'a fsstate_scheme devsw \<Rightarrow> u8 list \<Rightarrow> bool \<Rightarrow> u8 list \<Rightarrow> nat \<Rightarrow> 'a fsstate_scheme
    \<Rightarrow> ('a fsstate_scheme, nat option \<times> u8 list) kres" where
  "namex_loop dsw path parent name ip s =
     (case skipelem path name of
        None \<Rightarrow>
          if parent then bindK (iput ip s) (\<lambda>_ s. Done (None, name) s)
          else Done (Some ip, name) s
      | Some (path, name) \<Rightarrow>
          bindK (ilock (Some ip) s)
            (\<lambda>_ s. if i_type (inode_at s ip) \<noteq> T_DIR
               then bindK (iunlockput ip s) (\<lambda>_ s. Done (None, name) s)
               else if parent \<and> path = []
               then bindK (iunlock (Some ip) s) (\<lambda>_ s. Done (Some ip, name) s)
               else bindK (dirlookup dsw ip name s)
                 (\<lambda>r s. case r of
                     None \<Rightarrow> bindK (iunlockput ip s) (\<lambda>_ s. Done (None, name) s)
                   | Some (next, _) \<Rightarrow>
                       bindK (iunlockput ip s) (\<lambda>_ s. namex_loop dsw path parent name next s))))"
  by pat_completeness auto
termination
  by (relation "measure (\<lambda>(dsw, path, parent, name, ip, s). length path)")
    (auto dest!: skipelem_shorter)

declare namex_loop.simps [simp del]

definition namex :: "'a fsstate_scheme devsw \<Rightarrow> u8 list \<Rightarrow> bool \<Rightarrow> u8 list \<Rightarrow> 'a fsstate_scheme
    \<Rightarrow> ('a fsstate_scheme, nat option \<times> u8 list) kres" where
  "namex dsw path parent name s =
     bindK
       (if path \<noteq> [] \<and> hd path = slash then iget ROOTDEV ROOTINO s
        else case myproc s of
            None \<Rightarrow> Fault 0 s
          | Some p \<Rightarrow> (case p_cwd (proc_at s p) of None \<Rightarrow> Fault 0 s | Some d \<Rightarrow> idup d s))
       (\<lambda>ip s. namex_loop dsw path parent name ip s)"

text \<open>\<open>namei\<close> passes a name buffer of its own, whose contents nobody reads.\<close>

definition namei :: "'a fsstate_scheme devsw \<Rightarrow> u8 list \<Rightarrow> 'a fsstate_scheme
    \<Rightarrow> ('a fsstate_scheme, nat option) kres" where
  "namei dsw path s = bindK (namex dsw path False (replicate DIRSIZ 0) s) (\<lambda>(ip, _) s. Done ip s)"

definition nameiparent :: "'a fsstate_scheme devsw \<Rightarrow> u8 list \<Rightarrow> u8 list \<Rightarrow> 'a fsstate_scheme
    \<Rightarrow> ('a fsstate_scheme, nat option \<times> u8 list) kres" where
  "nameiparent dsw path name s = namex dsw path True name s"

section \<open>Path elements\<close>

text \<open>The elements of a path.\<close>

function path_elems :: "u8 list \<Rightarrow> u8 list list" where
  "path_elems path =
     (let p = dropWhile (\<lambda>c. c = slash) path in
      if p = [] then [] else takeWhile (\<lambda>c. c \<noteq> slash) p # path_elems (dropWhile (\<lambda>c. c \<noteq> slash) p))"
  by pat_completeness auto
termination
proof (relation "measure length", simp)
  fix path p :: "u8 list"
  assume p: "p = dropWhile (\<lambda>c. c = slash) path" "p \<noteq> []"
  then have "hd p \<noteq> slash" using hd_dropWhile [of "\<lambda>c. c = slash" path] by simp
  then have "length (dropWhile (\<lambda>c. c \<noteq> slash) p) < length p"
    using p(2) by (cases p) (auto simp: less_Suc_eq_le length_dropWhile_le)
  then show "(dropWhile (\<lambda>c. c \<noteq> slash) p, path) \<in> measure length"
    using length_dropWhile_le [of "\<lambda>c. c = slash" path] p(1) by simp
qed

declare path_elems.simps [simp del]

end
