(* ===== verification/File.thy ===== *)
theory File
  imports Dir
begin

text \<open>
  pipe.c and file.c: pipes, the file table and the operations on open files. A pipe is a page from
  \<open>kalloc\<close>; its fields are kept by its address. A file pointer is an index into \<open>ftable.file\<close>.
  Where a pipe operation sleeps its caller's loop continues from the \<open>_resume\<close> function, which is
  given the locals of the C function: the bytes still to be written.
\<close>

section \<open>State\<close>

abbreviation (input) PIPESIZE :: nat where "PIPESIZE \<equiv> 512"

record pipe =
  pi_data :: "u8 list"
  pi_nread :: u32
  pi_nwrite :: u32
  pi_readopen :: bool
  pi_writeopen :: bool

datatype fdtype = FD_NONE | FD_PIPE | FD_INODE

record kfile =
  f_type :: fdtype
  f_ref :: int
  f_readable :: bool
  f_writable :: bool
  f_pipe :: u32
  f_ip :: "nat option"
  f_off :: u32

record fstate = fsstate +
  ftable :: "kfile list"
  pipes :: "u32 \<Rightarrow> pipe"

definition file_at :: "'a fstate_scheme \<Rightarrow> nat \<Rightarrow> kfile" where
  "file_at s f = ftable s ! f"

definition upd_file :: "nat \<Rightarrow> (kfile \<Rightarrow> kfile) \<Rightarrow> 'a fstate_scheme \<Rightarrow> 'a fstate_scheme" where
  "upd_file f g s = s\<lparr>ftable := (ftable s)[f := g (ftable s ! f)]\<rparr>"

definition upd_pipe :: "u32 \<Rightarrow> (pipe \<Rightarrow> pipe) \<Rightarrow> 'a fstate_scheme \<Rightarrow> 'a fstate_scheme" where
  "upd_pipe p g s = s\<lparr>pipes := (pipes s)(p := g (pipes s p))\<rparr>"

section \<open>The file table\<close>

definition fileinit :: "'a fstate_scheme \<Rightarrow> 'a fstate_scheme" where
  "fileinit s = initlockK LkFtable s"

definition filealloc :: "'a fstate_scheme \<Rightarrow> ('a fstate_scheme, nat option) kres" where
  "filealloc s =
     bindK (acquireK LkFtable s)
       (\<lambda>_ s. case find (\<lambda>f. f_ref (file_at s f) = 0) [0..<length (ftable s)] of
           Some f \<Rightarrow>
             bindK (releaseK LkFtable (upd_file f (\<lambda>x. x\<lparr>f_ref := 1\<rparr>) s)) (\<lambda>_ s. Done (Some f) s)
         | None \<Rightarrow> bindK (releaseK LkFtable s) (\<lambda>_ s. Done None s))"

definition filedup :: "nat \<Rightarrow> 'a fstate_scheme \<Rightarrow> ('a fstate_scheme, nat) kres" where
  "filedup f s =
     bindK (acquireK LkFtable s)
       (\<lambda>_ s. if f_ref (file_at s f) < 1 then Panic ''filedup''
          else bindK (releaseK LkFtable (upd_file f (\<lambda>x. x\<lparr>f_ref := f_ref x + 1\<rparr>) s)) (\<lambda>_ s. Done f s))"

section \<open>Pipes\<close>

definition pipeclose :: "u32 \<Rightarrow> bool \<Rightarrow> 'a fstate_scheme \<Rightarrow> ('a fstate_scheme, unit) kres" where
  "pipeclose p writable s =
     bindK (acquireK (LkPipe p) s)
       (\<lambda>_ s. bindK
         (if writable then wakeup (ChPipeRead p) (upd_pipe p (\<lambda>x. x\<lparr>pi_writeopen := False\<rparr>) s)
          else wakeup (ChPipeWrite p) (upd_pipe p (\<lambda>x. x\<lparr>pi_readopen := False\<rparr>) s))
         (\<lambda>_ s. if \<not> pi_readopen (pipes s p) \<and> \<not> pi_writeopen (pipes s p)
            then bindK (releaseK (LkPipe p) s) (\<lambda>_ s. kfree p s)
            else releaseK (LkPipe p) s))"

definition fileclose :: "nat \<Rightarrow> 'a fstate_scheme \<Rightarrow> ('a fstate_scheme, unit) kres" where
  "fileclose f s =
     bindK (acquireK LkFtable s)
       (\<lambda>_ s. if f_ref (file_at s f) < 1 then Panic ''fileclose''
          else
            let s = upd_file f (\<lambda>x. x\<lparr>f_ref := f_ref x - 1\<rparr>) s in
            if f_ref (file_at s f) > 0 then releaseK LkFtable s
            else
              let ff = file_at s f in
              bindK (releaseK LkFtable (upd_file f (\<lambda>x. x\<lparr>f_ref := 0, f_type := FD_NONE\<rparr>) s))
                (\<lambda>_ s. case f_type ff of
                    FD_PIPE \<Rightarrow> pipeclose (f_pipe ff) (f_writable ff) s
                  | FD_INODE \<Rightarrow>
                      bindK (begin_op s)
                        (\<lambda>_ s. bindK (case f_ip ff of None \<Rightarrow> Fault 0 s | Some ip \<Rightarrow> iput ip s)
                          (\<lambda>_ s. end_op s))
                  | FD_NONE \<Rightarrow> Done () s))"

text \<open>The result of \<open>pipealloc\<close>: the two files, or \<open>None\<close> for -1.\<close>

definition pipealloc :: "'a fstate_scheme \<Rightarrow> ('a fstate_scheme, (nat \<times> nat) option) kres" where
  "pipealloc s =
     (let bad = (\<lambda>f0 f1 s.
          bindK (case f0 of None \<Rightarrow> Done () s | Some f \<Rightarrow> fileclose f s)
            (\<lambda>_ s. bindK (case f1 of None \<Rightarrow> Done () s | Some f \<Rightarrow> fileclose f s)
              (\<lambda>_ s. Done None s))) in
      bindK (filealloc s)
        (\<lambda>f0 s. case f0 of
            None \<Rightarrow> bad None None s
          | Some a \<Rightarrow>
              bindK (filealloc s)
                (\<lambda>f1 s. case f1 of
                    None \<Rightarrow> bad f0 None s
                  | Some b \<Rightarrow>
                      bindK (kalloc s)
                        (\<lambda>p s. if p = 0 then bad f0 f1 s
                           else
                             let s = upd_pipe p (\<lambda>x. x\<lparr>pi_readopen := True, pi_writeopen := True,
                                                       pi_nwrite := 0, pi_nread := 0\<rparr>) s;
                                 s = initlockK (LkPipe p) s;
                                 s = upd_file a (\<lambda>x. x\<lparr>f_type := FD_PIPE, f_readable := True,
                                                       f_writable := False, f_pipe := p\<rparr>) s;
                                 s = upd_file b (\<lambda>x. x\<lparr>f_type := FD_PIPE, f_readable := False,
                                                       f_writable := True, f_pipe := p\<rparr>) s in
                             Done (Some (a, b)) s))))"

text \<open>Storing one byte into the ring, and taking one out.\<close>

definition pipe_put :: "u8 \<Rightarrow> pipe \<Rightarrow> pipe" where
  "pipe_put c x =
     x\<lparr>pi_data := (pi_data x)[unat (pi_nwrite x) mod PIPESIZE := c], pi_nwrite := pi_nwrite x + 1\<rparr>"

definition pipe_get :: "pipe \<Rightarrow> u8 \<times> pipe" where
  "pipe_get x = (pi_data x ! (unat (pi_nread x) mod PIPESIZE), x\<lparr>pi_nread := pi_nread x + 1\<rparr>)"

fun pipewrite_loop :: "u32 \<Rightarrow> u8 list \<Rightarrow> int \<Rightarrow> 'a fstate_scheme \<Rightarrow> ('a fstate_scheme, int) kres" where
  "pipewrite_loop p [] n s =
     bindK (wakeup (ChPipeRead p) s) (\<lambda>_ s. bindK (releaseK (LkPipe p) s) (\<lambda>_ s. Done n s))"
| "pipewrite_loop p (c # cs) n s =
     (if pi_nwrite (pipes s p) = pi_nread (pipes s p) + of_nat PIPESIZE
      then (case myproc s of
              None \<Rightarrow> if \<not> pi_readopen (pipes s p) then bindK (releaseK (LkPipe p) s) (\<lambda>_ s. Done (- 1) s)
                      else Fault 0 s
            | Some q \<Rightarrow>
                if \<not> pi_readopen (pipes s p) \<or> p_killed (proc_at s q)
                then bindK (releaseK (LkPipe p) s) (\<lambda>_ s. Done (- 1) s)
                else bindK (wakeup (ChPipeRead p) s)
                  (\<lambda>_ s. sleep (ChPipeWrite p) (Some (LkPipe p)) s))
      else pipewrite_loop p cs n (upd_pipe p (pipe_put c) s))"

definition pipewrite :: "u32 \<Rightarrow> u8 list \<Rightarrow> 'a fstate_scheme \<Rightarrow> ('a fstate_scheme, int) kres" where
  "pipewrite p src s =
     bindK (acquireK (LkPipe p) s) (\<lambda>_ s. pipewrite_loop p src (int (length src)) s)"

definition pipewrite_resume :: "u32 \<Rightarrow> u8 list \<Rightarrow> int \<Rightarrow> nat \<Rightarrow> 'a fstate_scheme
    \<Rightarrow> ('a fstate_scheme, int) kres" where
  "pipewrite_resume p rest n q s = bindK (sleep_resume (LkPipe p) q s) (\<lambda>_ s. pipewrite_loop p rest n s)"

text \<open>The copying loop of \<open>piperead\<close>.\<close>

fun piperead_copy :: "nat \<Rightarrow> pipe \<Rightarrow> u8 list \<times> pipe" where
  "piperead_copy 0 x = ([], x)"
| "piperead_copy (Suc n) x =
     (if pi_nread x = pi_nwrite x then ([], x)
      else let (c, x) = pipe_get x; (cs, x) = piperead_copy n x in (c # cs, x))"

definition piperead_loop :: "u32 \<Rightarrow> int \<Rightarrow> 'a fstate_scheme \<Rightarrow> ('a fstate_scheme, int \<times> u8 list) kres" where
  "piperead_loop p n s =
     (if pi_nread (pipes s p) = pi_nwrite (pipes s p) \<and> pi_writeopen (pipes s p)
      then (case myproc s of
              None \<Rightarrow> Fault 0 s
            | Some q \<Rightarrow>
                if p_killed (proc_at s q) then bindK (releaseK (LkPipe p) s) (\<lambda>_ s. Done (- 1, []) s)
                else sleep (ChPipeRead p) (Some (LkPipe p)) s)
      else
        let (cs, x) = piperead_copy (nat n) (pipes s p) in
        bindK (wakeup (ChPipeWrite p) (upd_pipe p (\<lambda>_. x) s))
          (\<lambda>_ s. bindK (releaseK (LkPipe p) s) (\<lambda>_ s. Done (int (length cs), cs) s)))"

definition piperead :: "u32 \<Rightarrow> int \<Rightarrow> 'a fstate_scheme \<Rightarrow> ('a fstate_scheme, int \<times> u8 list) kres" where
  "piperead p n s = bindK (acquireK (LkPipe p) s) (\<lambda>_ s. piperead_loop p n s)"

definition piperead_resume :: "u32 \<Rightarrow> int \<Rightarrow> nat \<Rightarrow> 'a fstate_scheme
    \<Rightarrow> ('a fstate_scheme, int \<times> u8 list) kres" where
  "piperead_resume p n q s = bindK (sleep_resume (LkPipe p) q s) (\<lambda>_ s. piperead_loop p n s)"

section \<open>Open files\<close>

definition filestat :: "nat \<Rightarrow> 'a fstate_scheme \<Rightarrow> ('a fstate_scheme, stat option) kres" where
  "filestat f s =
     (if f_type (file_at s f) = FD_INODE
      then bindK (ilock (f_ip (file_at s f)) s)
        (\<lambda>_ s. case f_ip (file_at s f) of
            None \<Rightarrow> Fault 0 s
          | Some ip \<Rightarrow> let st = stati ip s in
                       bindK (iunlock (f_ip (file_at s f)) s) (\<lambda>_ s. Done (Some st) s))
      else Done None s)"

definition fileread :: "'a fstate_scheme devsw \<Rightarrow> nat \<Rightarrow> int \<Rightarrow> 'a fstate_scheme
    \<Rightarrow> ('a fstate_scheme, int \<times> u8 list) kres" where
  "fileread dsw f n s =
     (if \<not> f_readable (file_at s f) then Done (- 1, []) s
      else case f_type (file_at s f) of
        FD_PIPE \<Rightarrow> piperead (f_pipe (file_at s f)) n s
      | FD_INODE \<Rightarrow>
          bindK (ilock (f_ip (file_at s f)) s)
            (\<lambda>_ s. case f_ip (file_at s f) of
                None \<Rightarrow> Fault 0 s
              | Some ip \<Rightarrow>
                  bindK (readi dsw ip (f_off (file_at s f)) (of_int n) s)
                    (\<lambda>(r, d) s.
                       let s = (if r > 0 then upd_file f (\<lambda>x. x\<lparr>f_off := f_off x + of_int r\<rparr>) s else s) in
                       bindK (iunlock (f_ip (file_at s f)) s) (\<lambda>_ s. Done (r, d) s)))
      | FD_NONE \<Rightarrow> Panic ''fileread'')"

definition filewrite_max :: nat where
  "filewrite_max = nat ((LOGSIZE - 1 - 1 - 2) div 2) * 512"

lemma filewrite_max_eq: "filewrite_max = 6656"
  by (simp add: filewrite_max_def)

text \<open>The loop over an inode's writes: \<open>True\<close> if all of \<open>src\<close> was written.\<close>

function filewrite_loop :: "'a fstate_scheme devsw \<Rightarrow> nat \<Rightarrow> u8 list \<Rightarrow> 'a fstate_scheme
    \<Rightarrow> ('a fstate_scheme, bool) kres" where
  "filewrite_loop dsw f src s =
     (if src = [] then Done True s
      else
        let n1 = min (length src) filewrite_max in
        bindK (begin_op s)
          (\<lambda>_ s. bindK (ilock (f_ip (file_at s f)) s)
            (\<lambda>_ s. case f_ip (file_at s f) of
                None \<Rightarrow> Fault 0 s
              | Some ip \<Rightarrow>
                  bindK (writei dsw ip (take n1 src) (f_off (file_at s f)) s)
                    (\<lambda>r s.
                       let s = (if r > 0 then upd_file f (\<lambda>x. x\<lparr>f_off := f_off x + of_int r\<rparr>) s else s) in
                       bindK (iunlock (f_ip (file_at s f)) s)
                         (\<lambda>_ s. bindK (end_op s)
                           (\<lambda>_ s. if r < 0 then Done False s
                              else if r \<noteq> int n1 then Panic ''short filewrite''
                              else filewrite_loop dsw f (drop n1 src) s))))))"
  by pat_completeness auto
termination
  by (relation "measure (\<lambda>(dsw, f, src, s). length src)") (auto simp: filewrite_max_eq)

declare filewrite_loop.simps [simp del]

definition filewrite :: "'a fstate_scheme devsw \<Rightarrow> nat \<Rightarrow> u8 list \<Rightarrow> 'a fstate_scheme
    \<Rightarrow> ('a fstate_scheme, int) kres" where
  "filewrite dsw f src s =
     (if \<not> f_writable (file_at s f) then Done (- 1) s
      else case f_type (file_at s f) of
        FD_PIPE \<Rightarrow> pipewrite (f_pipe (file_at s f)) src s
      | FD_INODE \<Rightarrow>
          bindK (filewrite_loop dsw f src s)
            (\<lambda>ok s. Done (if ok then int (length src) else - 1) s)
      | FD_NONE \<Rightarrow> Panic ''filewrite'')"

end
