(* ===== verification/Proc.thy ===== *)
theory Proc
  imports File
begin

unbundle bit_operations_syntax

text \<open>
  proc.c: creation, scheduling and death of processes. \<open>sched\<close> switches to the scheduler's stack;
  the outcome of a process that did so is \<open>Asleep\<close>, and it continues (if ever) from the \<open>_resume\<close>
  function. The scheduler's loop is cut at its \<open>swtch\<close>: \<open>scheduler_run\<close> is the part before,
  \<open>scheduler_back\<close> the part after.
\<close>

section \<open>State\<close>

text \<open>\<open>sym_forkret\<close> and \<open>sym_trapret\<close> are addresses of code; \<open>forkret_first\<close> is the static variable.\<close>

record kstate = fstate +
  sym_forkret :: u32
  sym_trapret :: u32
  forkret_first :: bool

definition pinit :: "'a machine_scheme \<Rightarrow> 'a machine_scheme" where
  "pinit s = initlockK LkPtable s"

abbreviation (input) sizeof_trapframe :: u32 where "sizeof_trapframe \<equiv> 76"
abbreviation (input) sizeof_context :: u32 where "sizeof_context \<equiv> 20"

section \<open>Creating processes\<close>

definition find_unused :: "'a machine_scheme \<Rightarrow> nat option" where
  "find_unused s = find (\<lambda>i. p_state (proc_at s i) = UNUSED) [0..<length (ptable s)]"

definition allocproc :: "'a kstate_scheme \<Rightarrow> ('a kstate_scheme, nat option) kres" where
  "allocproc s =
     bindK (acquireK LkPtable s)
       (\<lambda>_ s. case find_unused s of
           None \<Rightarrow> bindK (releaseK LkPtable s) (\<lambda>_ s. Done None s)
         | Some p \<Rightarrow>
             let s = upd_proc p (\<lambda>x. x\<lparr>p_state := EMBRYO, p_pid := nextpid s\<rparr>) s;
                 s = s\<lparr>nextpid := nextpid s + 1\<rparr> in
             bindK (releaseK LkPtable s)
               (\<lambda>_ s. bindK (kalloc s)
                 (\<lambda>k s. let s = upd_proc p (\<lambda>x. x\<lparr>p_kstack := k\<rparr>) s in
                    if k = 0 then Done None (upd_proc p (\<lambda>x. x\<lparr>p_state := UNUSED\<rparr>) s)
                    else
                      let sp = k + KSTACKSIZE - sizeof_trapframe - 4;
                          s = s\<lparr>mem := store32 (mem s) sp (sym_trapret s)\<rparr>;
                          s = upd_proc p (\<lambda>x. x\<lparr>p_context :=
                                \<lparr>cx_edi = 0, cx_esi = 0, cx_ebx = 0, cx_ebp = 0, cx_eip = sym_forkret s\<rparr>\<rparr>) s in
                      Done (Some p) s)))"

abbreviation (input) FL_IF :: u32 where "FL_IF \<equiv> 0x200"

text \<open>The bytes of a string literal, and the name field after \<open>safestrcpy\<close>.\<close>

definition str_bytes :: "string \<Rightarrow> u8 list" where
  "str_bytes t = map (\<lambda>c. of_nat (of_char c)) t"

definition set_name :: "u8 list \<Rightarrow> proc \<Rightarrow> proc" where
  "set_name t x = x\<lparr>p_name := map (safestrcpy (buf_of (p_name x)) (buf_of t) 16) [0..<16]\<rparr>"

text \<open>\<open>initcode\<close>: the bytes the linker embedded at \<open>_binary_initcode_start\<close>.\<close>

definition userinit :: "'a kstate_scheme devsw \<Rightarrow> u8 list \<Rightarrow> 'a kstate_scheme
    \<Rightarrow> ('a kstate_scheme, unit) kres" where
  "userinit dsw initcode s =
     bindK (allocproc s)
       (\<lambda>po s. let s = s\<lparr>initproc := po\<rparr> in
          case po of
            None \<Rightarrow> Fault 0 s
          | Some p \<Rightarrow>
              bindK (setupkvm s)
                (\<lambda>d s. let s = upd_proc p (\<lambda>x. x\<lparr>p_pgdir := d\<rparr>) s in
                   if d = 0 then Panic ''userinit: out of memory?''
                   else bindK (inituvm d initcode s)
                     (\<lambda>_ s.
                        let uds = of_nat (SEG_UDATA * 8) OR 3;
                            s = upd_proc p (\<lambda>x. x\<lparr>p_sz := PGSIZE,
                              p_tf := zero_tf\<lparr>tf_cs := of_nat (SEG_UCODE * 8) OR 3, tf_ds := uds, tf_es := uds,
                                              tf_ss := uds, tf_eflags := FL_IF, tf_esp := PGSIZE, tf_eip := 0\<rparr>\<rparr>) s;
                            s = upd_proc p (set_name (str_bytes ''initcode'')) s in
                        bindK (namei dsw (str_bytes ''/'') s)
                          (\<lambda>ip s. let s = upd_proc p (\<lambda>x. x\<lparr>p_cwd := ip\<rparr>) s in
                             bindK (acquireK LkPtable s)
                               (\<lambda>_ s. releaseK LkPtable (upd_proc p (\<lambda>x. x\<lparr>p_state := RUNNABLE\<rparr>) s))))))"

definition growproc :: "int \<Rightarrow> 'a kstate_scheme \<Rightarrow> ('a kstate_scheme, int) kres" where
  "growproc n s =
     (case myproc s of
        None \<Rightarrow> Fault 0 s
      | Some p \<Rightarrow>
          let sz = p_sz (proc_at s p); pgdir = p_pgdir (proc_at s p);
              finish = (\<lambda>sz s. let s = upd_proc p (\<lambda>x. x\<lparr>p_sz := sz\<rparr>) s in
                          bindK (switchuvm (Some p) s) (\<lambda>_ s. Done 0 s)) in
          if n > 0
          then bindK (allocuvm pgdir sz (sz + of_int n) s)
            (\<lambda>sz s. if sz = 0 then Done (- 1) s else finish sz s)
          else if n < 0
          then bindK (deallocuvm pgdir sz (sz + of_int n) s)
            (\<lambda>sz s. if sz = 0 then Done (- 1) s else finish sz s)
          else finish sz s)"

text \<open>The loop of \<open>fork\<close> over the open files.\<close>

definition fork_files :: "nat \<Rightarrow> nat \<Rightarrow> 'a kstate_scheme \<Rightarrow> ('a kstate_scheme, unit) kres" where
  "fork_files cur np s =
     forK [0..<NOFILE]
       (\<lambda>i s. case p_ofile (proc_at s cur) ! i of
           None \<Rightarrow> Done () s
         | Some f \<Rightarrow> bindK (filedup f s)
             (\<lambda>f s. Done () (upd_proc np (\<lambda>x. x\<lparr>p_ofile := (p_ofile x)[i := Some f]\<rparr>) s))) s"

definition fork :: "'a kstate_scheme \<Rightarrow> ('a kstate_scheme, int) kres" where
  "fork s =
     (case myproc s of
        None \<Rightarrow> Fault 0 s
      | Some cur \<Rightarrow>
          bindK (allocproc s)
            (\<lambda>npo s. case npo of
                None \<Rightarrow> Done (- 1) s
              | Some np \<Rightarrow>
                  bindK (copyuvm (p_pgdir (proc_at s cur)) (p_sz (proc_at s cur)) s)
                    (\<lambda>d s. let s = upd_proc np (\<lambda>x. x\<lparr>p_pgdir := d\<rparr>) s in
                       if d = 0
                       then bindK (kfree (p_kstack (proc_at s np)) s)
                         (\<lambda>_ s. Done (- 1) (upd_proc np (\<lambda>x. x\<lparr>p_kstack := 0, p_state := UNUSED\<rparr>) s))
                       else
                         let c = proc_at s cur;
                             s = upd_proc np (\<lambda>x. x\<lparr>p_sz := p_sz c, p_stackSize := p_stackSize c,
                                   p_parent := Some cur, p_tf := (p_tf c)\<lparr>tf_eax := 0\<rparr>\<rparr>) s in
                         bindK (fork_files cur np s)
                           (\<lambda>_ s. bindK (case p_cwd (proc_at s cur) of None \<Rightarrow> Fault 0 s | Some ip \<Rightarrow> idup ip s)
                             (\<lambda>ip s.
                                let s = upd_proc np (\<lambda>x. x\<lparr>p_cwd := Some ip\<rparr>) s;
                                    s = upd_proc np (set_name (p_name (proc_at s cur))) s;
                                    pid = p_pid (proc_at s np) in
                                bindK (acquireK LkPtable s)
                                  (\<lambda>_ s. bindK (releaseK LkPtable (upd_proc np (\<lambda>x. x\<lparr>p_state := RUNNABLE\<rparr>) s))
                                    (\<lambda>_ s. Done pid s)))))))"

section \<open>Scheduling\<close>

definition sched :: "'a machine_scheme \<Rightarrow> ('a machine_scheme, 'r) kres" where
  "sched s = bindK (sched_check s) (\<lambda>_ s. Asleep NoChan s)"

definition yield :: "'a machine_scheme \<Rightarrow> ('a machine_scheme, unit) kres" where
  "yield s =
     bindK (acquireK LkPtable s)
       (\<lambda>_ s. case myproc s of
           None \<Rightarrow> Fault 0 s
         | Some p \<Rightarrow> sched (upd_proc p (\<lambda>x. x\<lparr>p_state := RUNNABLE\<rparr>) s))"

definition yield_resume :: "'a machine_scheme \<Rightarrow> ('a machine_scheme, unit) kres" where
  "yield_resume s = releaseK LkPtable s"

text \<open>
  One round of the scheduler's inner loop for the process \<open>p\<close>, up to the switch to it; \<open>None\<close> if it
  is passed over.
\<close>

definition scheduler_run :: "nat \<Rightarrow> 'a vmstate_scheme \<Rightarrow> ('a vmstate_scheme, bool) kres" where
  "scheduler_run p s =
     (if p_state (proc_at s p) \<noteq> RUNNABLE then Done False s
      else
        let s = s\<lparr>cpu_proc := (cpu_proc s)(cpu s := Some p)\<rparr> in
        bindK (switchuvm (Some p) s)
          (\<lambda>_ s. Done True (upd_proc p (\<lambda>x. x\<lparr>p_state := RUNNING\<rparr>) s)))"

definition scheduler_back :: "'a vmstate_scheme \<Rightarrow> 'a vmstate_scheme" where
  "scheduler_back s = (switchkvm s)\<lparr>cpu_proc := (cpu_proc s)(cpu s := None)\<rparr>"

definition forkret :: "'a kstate_scheme \<Rightarrow> ('a kstate_scheme, unit) kres" where
  "forkret s =
     bindK (releaseK LkPtable s)
       (\<lambda>_ s. if forkret_first s
          then bindK (iinit ROOTDEV (s\<lparr>forkret_first := False\<rparr>)) (\<lambda>_ s. initlog ROOTDEV s)
          else Done () s)"

section \<open>Exit, wait and kill\<close>

text \<open>The address of a process as a channel.\<close>

definition proc_chan :: "nat option \<Rightarrow> chan" where
  "proc_chan p = (case p of None \<Rightarrow> NoChan | Some i \<Rightarrow> ChProc i)"

definition exit_files :: "nat \<Rightarrow> 'a kstate_scheme \<Rightarrow> ('a kstate_scheme, unit) kres" where
  "exit_files cur s =
     forK [0..<NOFILE]
       (\<lambda>fd s. case p_ofile (proc_at s cur) ! fd of
           None \<Rightarrow> Done () s
         | Some f \<Rightarrow> bindK (fileclose f s)
             (\<lambda>_ s. Done () (upd_proc cur (\<lambda>x. x\<lparr>p_ofile := (p_ofile x)[fd := None]\<rparr>) s))) s"

text \<open>Passing the children of \<open>cur\<close> to init.\<close>

definition reparent1 :: "nat \<Rightarrow> nat \<Rightarrow> 'a machine_scheme \<Rightarrow> 'a machine_scheme" where
  "reparent1 cur i s =
     (if p_parent (proc_at s i) = Some cur
      then let s = upd_proc i (\<lambda>x. x\<lparr>p_parent := initproc s\<rparr>) s in
           if p_state (proc_at s i) = ZOMBIE then wakeup1 (proc_chan (initproc s)) s else s
      else s)"

definition reparent :: "nat \<Rightarrow> 'a machine_scheme \<Rightarrow> 'a machine_scheme" where
  "reparent cur s = fold (reparent1 cur) [0..<length (ptable s)] s"

definition exit :: "'a kstate_scheme \<Rightarrow> ('a kstate_scheme, 'r) kres" where
  "exit s =
     (let curo = myproc s in
      if curo = initproc s then Panic ''init exiting''
      else case curo of
        None \<Rightarrow> Fault 0 s
      | Some cur \<Rightarrow>
          bindK (exit_files cur s)
            (\<lambda>_ s. bindK (begin_op s)
              (\<lambda>_ s. bindK (case p_cwd (proc_at s cur) of None \<Rightarrow> Fault 0 s | Some ip \<Rightarrow> iput ip s)
                (\<lambda>_ s. bindK (end_op s)
                  (\<lambda>_ s. let s = upd_proc cur (\<lambda>x. x\<lparr>p_cwd := None\<rparr>) s in
                     bindK (acquireK LkPtable s)
                       (\<lambda>_ s.
                          let s = wakeup1 (proc_chan (p_parent (proc_at s cur))) s;
                              s = reparent cur s;
                              s = upd_proc cur (\<lambda>x. x\<lparr>p_state := ZOMBIE\<rparr>) s in
                          sched s))))))"

text \<open>The scan of the process table in \<open>wait\<close>, with \<open>ptable.lock\<close> held.\<close>

definition find_zombie :: "nat \<Rightarrow> 'a machine_scheme \<Rightarrow> nat option" where
  "find_zombie cur s =
     find (\<lambda>i. p_parent (proc_at s i) = Some cur \<and> p_state (proc_at s i) = ZOMBIE) [0..<length (ptable s)]"

definition have_kids :: "nat \<Rightarrow> 'a machine_scheme \<Rightarrow> bool" where
  "have_kids cur s \<longleftrightarrow> (\<exists>i \<in> set [0..<length (ptable s)]. p_parent (proc_at s i) = Some cur)"

definition reap :: "nat \<Rightarrow> 'a kstate_scheme \<Rightarrow> ('a kstate_scheme, int) kres" where
  "reap i s =
     (let pid = p_pid (proc_at s i) in
      bindK (kfree (p_kstack (proc_at s i)) s)
        (\<lambda>_ s. let s = upd_proc i (\<lambda>x. x\<lparr>p_kstack := 0\<rparr>) s in
           bindK (freevm (p_pgdir (proc_at s i)) s)
             (\<lambda>_ s. let s = upd_proc i (\<lambda>x. x\<lparr>p_pid := 0, p_parent := None,
                              p_name := (p_name x)[0 := 0], p_killed := False, p_state := UNUSED\<rparr>) s in
                bindK (releaseK LkPtable s) (\<lambda>_ s. Done pid s))))"

definition wait_loop :: "nat \<Rightarrow> 'a kstate_scheme \<Rightarrow> ('a kstate_scheme, int) kres" where
  "wait_loop cur s =
     (case find_zombie cur s of
        Some i \<Rightarrow> reap i s
      | None \<Rightarrow>
          if \<not> have_kids cur s \<or> p_killed (proc_at s cur)
          then bindK (releaseK LkPtable s) (\<lambda>_ s. Done (- 1) s)
          else sleep (ChProc cur) (Some LkPtable) s)"

definition wait :: "'a kstate_scheme \<Rightarrow> ('a kstate_scheme, int) kres" where
  "wait s =
     bindK (acquireK LkPtable s)
       (\<lambda>_ s. case myproc s of
           None \<Rightarrow> if \<not> (\<exists>i \<in> set [0..<length (ptable s)]. p_parent (proc_at s i) = None)
                   then bindK (releaseK LkPtable s) (\<lambda>_ s. Done (- 1) s) else Fault 0 s
         | Some cur \<Rightarrow> wait_loop cur s)"

definition wait_resume :: "nat \<Rightarrow> 'a kstate_scheme \<Rightarrow> ('a kstate_scheme, int) kres" where
  "wait_resume cur s = bindK (sleep_resume LkPtable cur s) (\<lambda>_ s. wait_loop cur s)"

definition find_pid :: "int \<Rightarrow> 'a machine_scheme \<Rightarrow> nat option" where
  "find_pid pid s = find (\<lambda>i. p_pid (proc_at s i) = pid) [0..<length (ptable s)]"

definition kill :: "int \<Rightarrow> 'a machine_scheme \<Rightarrow> ('a machine_scheme, int) kres" where
  "kill pid s =
     bindK (acquireK LkPtable s)
       (\<lambda>_ s. case find_pid pid s of
           Some i \<Rightarrow>
             let s = upd_proc i (\<lambda>x. x\<lparr>p_killed := True\<rparr>) s;
                 s = (if p_state (proc_at s i) = SLEEPING
                      then upd_proc i (\<lambda>x. x\<lparr>p_state := RUNNABLE\<rparr>) s else s) in
             bindK (releaseK LkPtable s) (\<lambda>_ s. Done 0 s)
         | None \<Rightarrow> bindK (releaseK LkPtable s) (\<lambda>_ s. Done (- 1) s))"

section \<open>procdump\<close>

text \<open>\<open>getcallerpcs\<close> of spinlock.c: the return addresses along the chain of saved frame pointers.\<close>

fun callerpcs :: "memory \<Rightarrow> nat \<Rightarrow> u32 \<Rightarrow> u32 list" where
  "callerpcs m 0 ebp = []"
| "callerpcs m (Suc n) ebp =
     (if ebp = 0 \<or> ebp < KERNBASE \<or> ebp = 0xFFFFFFFF then replicate (Suc n) 0
      else load32 m (ebp + 4) # callerpcs m n (load32 m ebp))"

definition getcallerpcs :: "u32 \<Rightarrow> 'a machine_scheme \<Rightarrow> u32 list" where
  "getcallerpcs v s = callerpcs (mem s) 10 (v - 8)"

fun state_name :: "procstate \<Rightarrow> string" where
  "state_name UNUSED = ''unused''"
| "state_name EMBRYO = ''embryo''"
| "state_name SLEEPING = ''sleep ''"
| "state_name RUNNABLE = ''runble''"
| "state_name RUNNING = ''run   ''"
| "state_name ZOMBIE = ''zombie''"

definition name_string :: "u8 list \<Rightarrow> string" where
  "name_string bs = map (\<lambda>b. char_of (unat b)) (takeWhile (\<lambda>b. b \<noteq> 0) bs)"

definition procdump :: "'a machine_scheme \<Rightarrow> ('a machine_scheme, unit) kres" where
  "procdump s =
     forK [0..<length (ptable s)]
       (\<lambda>i s. if p_state (proc_at s i) = UNUSED then Done () s
          else bindK (cprintf ''%d %s %s''
                 [Num (of_int (p_pid (proc_at s i))), Str (Some (state_name (p_state (proc_at s i)))),
                  Str (Some (name_string (p_name (proc_at s i))))] s)
            (\<lambda>_ s. bindK
               (if p_state (proc_at s i) = SLEEPING
                then forK (takeWhile (\<lambda>pc. pc \<noteq> 0) (getcallerpcs (cx_ebp (p_context (proc_at s i)) + 8) s))
                       (\<lambda>pc s. cprintf '' %p'' [Num pc] s) s
                else Done () s)
               (\<lambda>_ s. cprintf [CHR 0x0A] [] s))) s"

end
