(* ===== verification/Syscall.thy ===== *)
theory Syscall
  imports Proc
begin

unbundle bit_operations_syntax

text \<open>
  syscall.c and sysproc.c: fetching the arguments of a system call from user memory, and the
  system calls on processes. The kernel runs on the page table of the calling process and reads
  user addresses directly, so the access goes through the paging hardware: \<open>mmu\<close> is the page walk
  from \<open>cr3\<close>, and an access it does not resolve is the outcome \<open>Fault\<close> with the address. -1 is
  \<open>None\<close> where a function also returns something through a pointer.
\<close>

section \<open>User memory\<close>

text \<open>The kernel address of the byte at \<open>va\<close>; \<open>w\<close> for a write.\<close>

definition mmu :: "bool \<Rightarrow> 'a vmstate_scheme \<Rightarrow> u32 \<Rightarrow> u32 option" where
  "mmu w s va =
     (let need = (if w then PTE_P OR PTE_W else PTE_P);
          e = load32 (mem s) (P2V (cr3 s) + 4 * PDX va) in
      if e AND need \<noteq> need then None
      else let t = load32 (mem s) (P2V (PTE_ADDR e) + 4 * PTX va) in
           if t AND need \<noteq> need then None else Some (P2V (PTE_ADDR t) + PTE_FLAGS va))"

definition uload8 :: "u32 \<Rightarrow> 'a vmstate_scheme \<Rightarrow> ('a vmstate_scheme, u8) kres" where
  "uload8 va s = (case mmu False s va of None \<Rightarrow> Fault va s | Some a \<Rightarrow> Done (mem s a) s)"

fun uload :: "u32 \<Rightarrow> nat \<Rightarrow> 'a vmstate_scheme \<Rightarrow> ('a vmstate_scheme, u8 list) kres" where
  "uload va 0 s = Done [] s"
| "uload va (Suc n) s =
     bindK (uload8 va s) (\<lambda>b s. bindK (uload (va + 1) n s) (\<lambda>bs s. Done (b # bs) s))"

definition uload32 :: "u32 \<Rightarrow> 'a vmstate_scheme \<Rightarrow> ('a vmstate_scheme, u32) kres" where
  "uload32 va s = bindK (uload va 4 s) (\<lambda>bs s. Done (word_at bs 0) s)"

fun ustore :: "u32 \<Rightarrow> u8 list \<Rightarrow> 'a vmstate_scheme \<Rightarrow> ('a vmstate_scheme, unit) kres" where
  "ustore va [] s = Done () s"
| "ustore va (b # bs) s =
     (case mmu True s va of
        None \<Rightarrow> Fault va s
      | Some a \<Rightarrow> ustore (va + 1) bs (s\<lparr>mem := (mem s)(a := b)\<rparr>))"

section \<open>Arguments\<close>

definition fetchint :: "u32 \<Rightarrow> 'a vmstate_scheme \<Rightarrow> ('a vmstate_scheme, u32 option) kres" where
  "fetchint addr s =
     (if addr \<ge> STACK_TOP \<or> addr + 4 > STACK_TOP then Done None s
      else bindK (uload32 addr s) (\<lambda>v s. Done (Some v) s))"

text \<open>The loop of \<open>fetchstr\<close> from \<open>p\<close> on; the result is the string without its terminator.\<close>

function fetchstr_loop :: "u32 \<Rightarrow> 'a vmstate_scheme \<Rightarrow> ('a vmstate_scheme, u8 list option) kres" where
  "fetchstr_loop p s =
     (if p < STACK_TOP
      then bindK (uload8 p s)
        (\<lambda>b s. if b = 0 then Done (Some []) s
           else bindK (fetchstr_loop (p + 1) s) (\<lambda>r s. Done (map_option (\<lambda>bs. b # bs) r) s))
      else Done None s)"
  by pat_completeness auto
termination
proof (relation "measure (\<lambda>(p, s). 4294967296 - unat p)", simp)
  fix p :: u32 and s t :: "'a vmstate_scheme" and b
  assume "p < STACK_TOP"
  then have "unat p < 2147483644" by (simp add: word_less_nat_alt)
  then have "unat (p + 1) = unat p + 1" by (subst unat_add32) simp_all
  with \<open>unat p < 2147483644\<close> show "((p + 1, t), p, s) \<in> measure (\<lambda>(p, s). 4294967296 - unat p)" by simp
qed

declare fetchstr_loop.simps [simp del]

text \<open>\<open>fetchstr\<close> sets the pointer and returns the length: here, the string itself.\<close>

definition fetchstr :: "u32 \<Rightarrow> 'a vmstate_scheme \<Rightarrow> ('a vmstate_scheme, u8 list option) kres" where
  "fetchstr addr s = (if addr \<ge> STACK_TOP then Done None s else fetchstr_loop addr s)"

definition argint :: "nat \<Rightarrow> 'a vmstate_scheme \<Rightarrow> ('a vmstate_scheme, u32 option) kres" where
  "argint n s =
     (case myproc s of
        None \<Rightarrow> Fault 0 s
      | Some p \<Rightarrow> fetchint (tf_esp (p_tf (proc_at s p)) + 4 + 4 * of_nat n) s)"

definition argptr :: "nat \<Rightarrow> int \<Rightarrow> 'a vmstate_scheme \<Rightarrow> ('a vmstate_scheme, u32 option) kres" where
  "argptr n sz s =
     bindK (argint n s)
       (\<lambda>r s. case r of
           None \<Rightarrow> Done None s
         | Some i \<Rightarrow>
             if sz < 0 \<or> i \<ge> STACK_TOP \<or> i + of_int sz > STACK_TOP then Done None s else Done (Some i) s)"

definition argstr :: "nat \<Rightarrow> 'a vmstate_scheme \<Rightarrow> ('a vmstate_scheme, u8 list option) kres" where
  "argstr n s =
     bindK (argint n s) (\<lambda>r s. case r of None \<Rightarrow> Done None s | Some addr \<Rightarrow> fetchstr addr s)"

section \<open>sysproc.c\<close>

text \<open>shm.c: the two operations are stubs in this repository.\<close>

definition shm_open :: "u32 \<Rightarrow> u32 \<Rightarrow> 'a kstate_scheme \<Rightarrow> ('a kstate_scheme, int) kres" where
  "shm_open i pointer s = Done 0 s"

definition shm_close :: "u32 \<Rightarrow> 'a kstate_scheme \<Rightarrow> ('a kstate_scheme, int) kres" where
  "shm_close i s = Done 0 s"

definition sys_shm_open :: "'a kstate_scheme \<Rightarrow> ('a kstate_scheme, int) kres" where
  "sys_shm_open s =
     bindK (argint 0 s)
       (\<lambda>r s. case r of
           None \<Rightarrow> Done (- 1) s
         | Some i \<Rightarrow>
             bindK (argptr 1 4 s)
               (\<lambda>r s. case r of None \<Rightarrow> Done (- 1) s | Some p \<Rightarrow> shm_open i p s))"

definition sys_shm_close :: "'a kstate_scheme \<Rightarrow> ('a kstate_scheme, int) kres" where
  "sys_shm_close s =
     bindK (argint 0 s) (\<lambda>r s. case r of None \<Rightarrow> Done (- 1) s | Some i \<Rightarrow> shm_close i s)"

definition sys_fork :: "'a kstate_scheme \<Rightarrow> ('a kstate_scheme, int) kres" where
  "sys_fork s = fork s"

definition sys_exit :: "'a kstate_scheme \<Rightarrow> ('a kstate_scheme, int) kres" where
  "sys_exit s = exit s"

definition sys_wait :: "'a kstate_scheme \<Rightarrow> ('a kstate_scheme, int) kres" where
  "sys_wait s = wait s"

definition sys_kill :: "'a kstate_scheme \<Rightarrow> ('a kstate_scheme, int) kres" where
  "sys_kill s =
     bindK (argint 0 s) (\<lambda>r s. case r of None \<Rightarrow> Done (- 1) s | Some pid \<Rightarrow> kill (sint pid) s)"

definition sys_getpid :: "'a kstate_scheme \<Rightarrow> ('a kstate_scheme, int) kres" where
  "sys_getpid s = (case myproc s of None \<Rightarrow> Fault 0 s | Some p \<Rightarrow> Done (p_pid (proc_at s p)) s)"

definition sys_sbrk :: "'a kstate_scheme \<Rightarrow> ('a kstate_scheme, int) kres" where
  "sys_sbrk s =
     bindK (argint 0 s)
       (\<lambda>r s. case r of
           None \<Rightarrow> Done (- 1) s
         | Some n \<Rightarrow>
             (case myproc s of
                None \<Rightarrow> Fault 0 s
              | Some p \<Rightarrow>
                  let addr = p_sz (proc_at s p) in
                  bindK (growproc (sint n) s)
                    (\<lambda>r s. if r < 0 then Done (- 1) s else Done (sint addr) s)))"

text \<open>
  The loop of \<open>sys_sleep\<close>, with \<open>tickslock\<close> held: \<open>ticks - ticks0 < n\<close> compares an unsigned and a
  signed integer, that is, both as unsigned.
\<close>

definition sys_sleep_loop :: "u32 \<Rightarrow> u32 \<Rightarrow> 'a kstate_scheme \<Rightarrow> ('a kstate_scheme, int) kres" where
  "sys_sleep_loop ticks0 n s =
     (if ticks s - ticks0 < n
      then (case myproc s of
              None \<Rightarrow> Fault 0 s
            | Some p \<Rightarrow>
                if p_killed (proc_at s p) then bindK (releaseK LkTicks s) (\<lambda>_ s. Done (- 1) s)
                else sleep ChTicks (Some LkTicks) s)
      else bindK (releaseK LkTicks s) (\<lambda>_ s. Done 0 s))"

definition sys_sleep :: "'a kstate_scheme \<Rightarrow> ('a kstate_scheme, int) kres" where
  "sys_sleep s =
     bindK (argint 0 s)
       (\<lambda>r s. case r of
           None \<Rightarrow> Done (- 1) s
         | Some n \<Rightarrow> bindK (acquireK LkTicks s) (\<lambda>_ s. sys_sleep_loop (ticks s) n s))"

definition sys_sleep_resume :: "u32 \<Rightarrow> u32 \<Rightarrow> nat \<Rightarrow> 'a kstate_scheme \<Rightarrow> ('a kstate_scheme, int) kres" where
  "sys_sleep_resume ticks0 n p s = bindK (sleep_resume LkTicks p s) (\<lambda>_ s. sys_sleep_loop ticks0 n s)"

definition sys_uptime :: "'a kstate_scheme \<Rightarrow> ('a kstate_scheme, int) kres" where
  "sys_uptime s =
     bindK (acquireK LkTicks s)
       (\<lambda>_ s. let xticks = ticks s in bindK (releaseK LkTicks s) (\<lambda>_ s. Done (sint xticks) s))"

end
