(* ===== verification/Sysfile.thy ===== *)
theory Sysfile
  imports Syscall
begin

unbundle bit_operations_syntax

text \<open>
  sysfile.c: the system calls on files. The bytes that \<open>read\<close> stores into the user's buffer are
  stored after the file operation returned them, and those \<open>write\<close> takes are read before it.
\<close>

abbreviation (input) O_RDONLY :: u32 where "O_RDONLY \<equiv> 0x000"
abbreviation (input) O_WRONLY :: u32 where "O_WRONLY \<equiv> 0x001"
abbreviation (input) O_RDWR :: u32 where "O_RDWR \<equiv> 0x002"
abbreviation (input) O_CREATE :: u32 where "O_CREATE \<equiv> 0x200"

section \<open>Descriptors\<close>

definition argfd :: "nat \<Rightarrow> 'a kstate_scheme \<Rightarrow> ('a kstate_scheme, (nat \<times> nat) option) kres" where
  "argfd n s =
     bindK (argint n s)
       (\<lambda>r s. case r of
           None \<Rightarrow> Done None s
         | Some v \<Rightarrow>
             let fd = sint v in
             if fd < 0 \<or> fd \<ge> int NOFILE then Done None s
             else case myproc s of
               None \<Rightarrow> Fault 0 s
             | Some p \<Rightarrow>
                 (case p_ofile (proc_at s p) ! nat fd of
                    None \<Rightarrow> Done None s
                  | Some f \<Rightarrow> Done (Some (nat fd, f)) s))"

definition fdalloc :: "nat \<Rightarrow> 'a kstate_scheme \<Rightarrow> ('a kstate_scheme, nat option) kres" where
  "fdalloc f s =
     (case myproc s of
        None \<Rightarrow> Fault 0 s
      | Some p \<Rightarrow>
          (case find (\<lambda>fd. p_ofile (proc_at s p) ! fd = None) [0..<NOFILE] of
             Some fd \<Rightarrow> Done (Some fd) (upd_proc p (\<lambda>x. x\<lparr>p_ofile := (p_ofile x)[fd := Some f]\<rparr>) s)
           | None \<Rightarrow> Done None s))"

definition sys_dup :: "'a kstate_scheme \<Rightarrow> ('a kstate_scheme, int) kres" where
  "sys_dup s =
     bindK (argfd 0 s)
       (\<lambda>r s. case r of
           None \<Rightarrow> Done (- 1) s
         | Some (_, f) \<Rightarrow>
             bindK (fdalloc f s)
               (\<lambda>r s. case r of
                   None \<Rightarrow> Done (- 1) s
                 | Some fd \<Rightarrow> bindK (filedup f s) (\<lambda>_ s. Done (int fd) s)))"

definition sys_read :: "'a kstate_scheme devsw \<Rightarrow> 'a kstate_scheme \<Rightarrow> ('a kstate_scheme, int) kres" where
  "sys_read dsw s =
     bindK (argfd 0 s)
       (\<lambda>r s. case r of
           None \<Rightarrow> Done (- 1) s
         | Some (_, f) \<Rightarrow>
             bindK (argint 2 s)
               (\<lambda>r s. case r of
                   None \<Rightarrow> Done (- 1) s
                 | Some n \<Rightarrow>
                     bindK (argptr 1 (sint n) s)
                       (\<lambda>r s. case r of
                           None \<Rightarrow> Done (- 1) s
                         | Some p \<Rightarrow>
                             bindK (fileread dsw f (sint n) s)
                               (\<lambda>(r, d) s. bindK (ustore p d s) (\<lambda>_ s. Done r s)))))"

definition sys_write :: "'a kstate_scheme devsw \<Rightarrow> 'a kstate_scheme \<Rightarrow> ('a kstate_scheme, int) kres" where
  "sys_write dsw s =
     bindK (argfd 0 s)
       (\<lambda>r s. case r of
           None \<Rightarrow> Done (- 1) s
         | Some (_, f) \<Rightarrow>
             bindK (argint 2 s)
               (\<lambda>r s. case r of
                   None \<Rightarrow> Done (- 1) s
                 | Some n \<Rightarrow>
                     bindK (argptr 1 (sint n) s)
                       (\<lambda>r s. case r of
                           None \<Rightarrow> Done (- 1) s
                         | Some p \<Rightarrow>
                             if \<not> f_writable (file_at s f) then Done (- 1) s
                             else bindK (uload p (unat n) s) (\<lambda>src s. filewrite dsw f src s))))"

definition sys_close :: "'a kstate_scheme \<Rightarrow> ('a kstate_scheme, int) kres" where
  "sys_close s =
     bindK (argfd 0 s)
       (\<lambda>r s. case r of
           None \<Rightarrow> Done (- 1) s
         | Some (fd, f) \<Rightarrow>
             (case myproc s of
                None \<Rightarrow> Fault 0 s
              | Some p \<Rightarrow>
                  bindK (fileclose f (upd_proc p (\<lambda>x. x\<lparr>p_ofile := (p_ofile x)[fd := None]\<rparr>) s))
                    (\<lambda>_ s. Done 0 s)))"

text \<open>\<open>struct stat\<close> in memory: 20 bytes, with two bytes of padding after \<open>type\<close> and \<open>nlink\<close> as they are.\<close>

definition stat_bytes :: "stat \<Rightarrow> (nat \<times> u8 list) list" where
  "stat_bytes st =
     [(0, half_bytes (st_type st)), (4, word_bytes (st_dev st)), (8, word_bytes (st_ino st)),
      (12, half_bytes (st_nlink st)), (16, word_bytes (st_size st))]"

definition sys_fstat :: "'a kstate_scheme \<Rightarrow> ('a kstate_scheme, int) kres" where
  "sys_fstat s =
     bindK (argfd 0 s)
       (\<lambda>r s. case r of
           None \<Rightarrow> Done (- 1) s
         | Some (_, f) \<Rightarrow>
             bindK (argptr 1 20 s)
               (\<lambda>r s. case r of
                   None \<Rightarrow> Done (- 1) s
                 | Some p \<Rightarrow>
                     bindK (filestat f s)
                       (\<lambda>r s. case r of
                           None \<Rightarrow> Done (- 1) s
                         | Some st \<Rightarrow>
                             bindK (forK (stat_bytes st) (\<lambda>(o', bs) s. ustore (p + of_nat o') bs s) s)
                               (\<lambda>_ s. Done 0 s))))"

section \<open>Links\<close>

text \<open>The end of \<open>sys_link\<close> when it fails after the link count was raised.\<close>

definition link_bad :: "nat \<Rightarrow> 'a kstate_scheme \<Rightarrow> ('a kstate_scheme, int) kres" where
  "link_bad ip s =
     bindK (ilock (Some ip) s)
       (\<lambda>_ s. bindK (iupdate ip (upd_inode ip (\<lambda>x. x\<lparr>i_nlink := i_nlink x - 1\<rparr>) s))
         (\<lambda>_ s. bindK (iunlockput ip s)
           (\<lambda>_ s. bindK (end_op s) (\<lambda>_ s. Done (- 1) s))))"

definition link :: "'a kstate_scheme devsw \<Rightarrow> u8 list \<Rightarrow> u8 list \<Rightarrow> 'a kstate_scheme
    \<Rightarrow> ('a kstate_scheme, int) kres" where
  "link dsw old new s =
     bindK (begin_op s)
       (\<lambda>_ s. bindK (namei dsw old s)
         (\<lambda>r s. case r of
             None \<Rightarrow> bindK (end_op s) (\<lambda>_ s. Done (- 1) s)
           | Some ip \<Rightarrow>
               bindK (ilock (Some ip) s)
                 (\<lambda>_ s. if i_type (inode_at s ip) = T_DIR
                    then bindK (iunlockput ip s) (\<lambda>_ s. bindK (end_op s) (\<lambda>_ s. Done (- 1) s))
                    else bindK (iupdate ip (upd_inode ip (\<lambda>x. x\<lparr>i_nlink := i_nlink x + 1\<rparr>) s))
                      (\<lambda>_ s. bindK (iunlock (Some ip) s)
                        (\<lambda>_ s. bindK (nameiparent dsw new (replicate DIRSIZ 0) s)
                          (\<lambda>(r, name) s. case r of
                              None \<Rightarrow> link_bad ip s
                            | Some dp \<Rightarrow>
                                bindK (ilock (Some dp) s)
                                  (\<lambda>_ s. bindK (if i_dev (inode_at s dp) \<noteq> i_dev (inode_at s ip) then Done (- 1) s
                                                else dirlink dsw dp name (i_inum (inode_at s ip)) s)
                                    (\<lambda>r s. if r < 0 then bindK (iunlockput dp s) (\<lambda>_ s. link_bad ip s)
                                       else bindK (iunlockput dp s)
                                         (\<lambda>_ s. bindK (iput ip s)
                                           (\<lambda>_ s. bindK (end_op s) (\<lambda>_ s. Done 0 s)))))))))))"

definition sys_link :: "'a kstate_scheme devsw \<Rightarrow> 'a kstate_scheme \<Rightarrow> ('a kstate_scheme, int) kres" where
  "sys_link dsw s =
     bindK (argstr 0 s)
       (\<lambda>r s. case r of
           None \<Rightarrow> Done (- 1) s
         | Some old \<Rightarrow>
             bindK (argstr 1 s)
               (\<lambda>r s. case r of None \<Rightarrow> Done (- 1) s | Some new \<Rightarrow> link dsw old new s))"

primrec isdirempty_loop :: "'a kstate_scheme devsw \<Rightarrow> nat \<Rightarrow> u32 list \<Rightarrow> 'a kstate_scheme
    \<Rightarrow> ('a kstate_scheme, bool) kres" where
  "isdirempty_loop dsw dp [] s = Done True s"
| "isdirempty_loop dsw dp (off # offs) s =
     bindK (readi dsw dp off (of_nat sizeof_dirent) s)
       (\<lambda>(n, d) s. if n \<noteq> int sizeof_dirent then Panic ''isdirempty: readi''
          else if de_inum (decode_dirent d) \<noteq> 0 then Done False s
          else isdirempty_loop dsw dp offs s)"

text \<open>The loop starts at the third entry.\<close>

definition isdirempty :: "'a kstate_scheme devsw \<Rightarrow> nat \<Rightarrow> 'a kstate_scheme \<Rightarrow> ('a kstate_scheme, bool) kres" where
  "isdirempty dsw dp s = isdirempty_loop dsw dp (drop 2 (dir_offsets (i_size (inode_at s dp)))) s"

definition unlink_bad :: "nat \<Rightarrow> 'a kstate_scheme \<Rightarrow> ('a kstate_scheme, int) kres" where
  "unlink_bad dp s = bindK (iunlockput dp s) (\<lambda>_ s. bindK (end_op s) (\<lambda>_ s. Done (- 1) s))"

text \<open>The rest of \<open>sys_unlink\<close> once the entry at \<open>off\<close> of \<open>dp\<close> is known to go.\<close>

definition unlink_entry :: "'a kstate_scheme devsw \<Rightarrow> nat \<Rightarrow> nat \<Rightarrow> u32 \<Rightarrow> 'a kstate_scheme
    \<Rightarrow> ('a kstate_scheme, int) kres" where
  "unlink_entry dsw dp ip off s =
     bindK (writei dsw dp (replicate sizeof_dirent 0) off s)
       (\<lambda>n s. if n \<noteq> int sizeof_dirent then Panic ''unlink: writei''
          else bindK (if i_type (inode_at s ip) = T_DIR
                      then iupdate dp (upd_inode dp (\<lambda>x. x\<lparr>i_nlink := i_nlink x - 1\<rparr>) s)
                      else Done () s)
            (\<lambda>_ s. bindK (iunlockput dp s)
              (\<lambda>_ s. bindK (iupdate ip (upd_inode ip (\<lambda>x. x\<lparr>i_nlink := i_nlink x - 1\<rparr>) s))
                (\<lambda>_ s. bindK (iunlockput ip s)
                  (\<lambda>_ s. bindK (end_op s) (\<lambda>_ s. Done 0 s))))))"

definition unlink :: "'a kstate_scheme devsw \<Rightarrow> u8 list \<Rightarrow> 'a kstate_scheme \<Rightarrow> ('a kstate_scheme, int) kres" where
  "unlink dsw path s =
     bindK (begin_op s)
       (\<lambda>_ s. bindK (nameiparent dsw path (replicate DIRSIZ 0) s)
         (\<lambda>(r, name) s. case r of
             None \<Rightarrow> bindK (end_op s) (\<lambda>_ s. Done (- 1) s)
           | Some dp \<Rightarrow>
               bindK (ilock (Some dp) s)
                 (\<lambda>_ s. if namecmp name (str_bytes ''.'') = 0 \<or> namecmp name (str_bytes ''..'') = 0
                    then unlink_bad dp s
                    else bindK (dirlookup dsw dp name s)
                      (\<lambda>r s. case r of
                          None \<Rightarrow> unlink_bad dp s
                        | Some (ip, off) \<Rightarrow>
                            bindK (ilock (Some ip) s)
                              (\<lambda>_ s. if sint (i_nlink (inode_at s ip)) < 1 then Panic ''unlink: nlink < 1''
                                 else bindK (if i_type (inode_at s ip) = T_DIR then isdirempty dsw ip s
                                             else Done True s)
                                   (\<lambda>e s. if \<not> e then bindK (iunlockput ip s) (\<lambda>_ s. unlink_bad dp s)
                                      else unlink_entry dsw dp ip off s))))))"

definition sys_unlink :: "'a kstate_scheme devsw \<Rightarrow> 'a kstate_scheme \<Rightarrow> ('a kstate_scheme, int) kres" where
  "sys_unlink dsw s =
     bindK (argstr 0 s) (\<lambda>r s. case r of None \<Rightarrow> Done (- 1) s | Some path \<Rightarrow> unlink dsw path s)"

section \<open>Creating and opening\<close>

text \<open>The part of \<open>create\<close> that makes a new inode in the locked directory \<open>dp\<close>.\<close>

definition create_new :: "'a kstate_scheme devsw \<Rightarrow> nat \<Rightarrow> u8 list \<Rightarrow> u16 \<Rightarrow> u16 \<Rightarrow> u16 \<Rightarrow> 'a kstate_scheme
    \<Rightarrow> ('a kstate_scheme, nat option) kres" where
  "create_new dsw dp name ty major minor s =
     bindK (ialloc (i_dev (inode_at s dp)) ty s)
       (\<lambda>ip s. bindK (ilock (Some ip) s)
         (\<lambda>_ s. bindK (iupdate ip (upd_inode ip (\<lambda>x. x\<lparr>i_major := major, i_minor := minor, i_nlink := 1\<rparr>) s))
           (\<lambda>_ s. bindK
             (if ty = T_DIR
              then bindK (iupdate dp (upd_inode dp (\<lambda>x. x\<lparr>i_nlink := i_nlink x + 1\<rparr>) s))
                (\<lambda>_ s. bindK (dirlink dsw ip (str_bytes ''.'') (i_inum (inode_at s ip)) s)
                  (\<lambda>r s. if r < 0 then Panic ''create dots''
                     else bindK (dirlink dsw ip (str_bytes ''..'') (i_inum (inode_at s dp)) s)
                       (\<lambda>r s. if r < 0 then Panic ''create dots'' else Done () s)))
              else Done () s)
             (\<lambda>_ s. bindK (dirlink dsw dp name (i_inum (inode_at s ip)) s)
               (\<lambda>r s. if r < 0 then Panic ''create: dirlink''
                  else bindK (iunlockput dp s) (\<lambda>_ s. Done (Some ip) s))))))"

definition create :: "'a kstate_scheme devsw \<Rightarrow> u8 list \<Rightarrow> u16 \<Rightarrow> u16 \<Rightarrow> u16 \<Rightarrow> 'a kstate_scheme
    \<Rightarrow> ('a kstate_scheme, nat option) kres" where
  "create dsw path ty major minor s =
     bindK (nameiparent dsw path (replicate DIRSIZ 0) s)
       (\<lambda>(r, name) s. case r of
           None \<Rightarrow> Done None s
         | Some dp \<Rightarrow>
             bindK (ilock (Some dp) s)
               (\<lambda>_ s. bindK (dirlookup dsw dp name s)
                 (\<lambda>r s. case r of
                     Some (ip, _) \<Rightarrow>
                       bindK (iunlockput dp s)
                         (\<lambda>_ s. bindK (ilock (Some ip) s)
                           (\<lambda>_ s. if ty = T_FILE \<and> i_type (inode_at s ip) = T_FILE then Done (Some ip) s
                              else bindK (iunlockput ip s) (\<lambda>_ s. Done None s)))
                   | None \<Rightarrow> create_new dsw dp name ty major minor s)))"

definition open_file :: "'a kstate_scheme devsw \<Rightarrow> u8 list \<Rightarrow> u32 \<Rightarrow> 'a kstate_scheme
    \<Rightarrow> ('a kstate_scheme, int) kres" where
  "open_file dsw path omode s =
     bindK (begin_op s)
       (\<lambda>_ s. bindK
         (if omode AND O_CREATE \<noteq> 0 then create dsw path T_FILE 0 0 s
          else bindK (namei dsw path s)
            (\<lambda>r s. case r of
                None \<Rightarrow> Done None s
              | Some ip \<Rightarrow>
                  bindK (ilock (Some ip) s)
                    (\<lambda>_ s. if i_type (inode_at s ip) = T_DIR \<and> omode \<noteq> O_RDONLY
                       then bindK (iunlockput ip s) (\<lambda>_ s. Done None s) else Done (Some ip) s)))
         (\<lambda>r s. case r of
             None \<Rightarrow> bindK (end_op s) (\<lambda>_ s. Done (- 1) s)
           | Some ip \<Rightarrow>
               let bad = (\<lambda>s. bindK (iunlockput ip s) (\<lambda>_ s. bindK (end_op s) (\<lambda>_ s. Done (- 1) s))) in
               bindK (filealloc s)
                 (\<lambda>fo s. case fo of
                     None \<Rightarrow> bad s
                   | Some f \<Rightarrow>
                       bindK (fdalloc f s)
                         (\<lambda>r s. case r of
                             None \<Rightarrow> bindK (fileclose f s) (\<lambda>_ s. bad s)
                           | Some fd \<Rightarrow>
                               bindK (iunlock (Some ip) s)
                                 (\<lambda>_ s. bindK (end_op s)
                                   (\<lambda>_ s. Done (int fd)
                                      (upd_file f (\<lambda>x. x\<lparr>f_type := FD_INODE, f_ip := Some ip, f_off := 0,
                                         f_readable := (omode AND O_WRONLY = 0),
                                         f_writable := (omode AND O_WRONLY \<noteq> 0 \<or> omode AND O_RDWR \<noteq> 0)\<rparr>) s)))))))"

definition sys_open :: "'a kstate_scheme devsw \<Rightarrow> 'a kstate_scheme \<Rightarrow> ('a kstate_scheme, int) kres" where
  "sys_open dsw s =
     bindK (argstr 0 s)
       (\<lambda>r s. case r of
           None \<Rightarrow> Done (- 1) s
         | Some path \<Rightarrow>
             bindK (argint 1 s)
               (\<lambda>r s. case r of None \<Rightarrow> Done (- 1) s | Some omode \<Rightarrow> open_file dsw path omode s))"

text \<open>The common tail of \<open>sys_mkdir\<close> and \<open>sys_mknod\<close>.\<close>

definition finish_create :: "nat option \<Rightarrow> 'a kstate_scheme \<Rightarrow> ('a kstate_scheme, int) kres" where
  "finish_create r s =
     (case r of
        None \<Rightarrow> bindK (end_op s) (\<lambda>_ s. Done (- 1) s)
      | Some ip \<Rightarrow> bindK (iunlockput ip s) (\<lambda>_ s. bindK (end_op s) (\<lambda>_ s. Done 0 s)))"

definition sys_mkdir :: "'a kstate_scheme devsw \<Rightarrow> 'a kstate_scheme \<Rightarrow> ('a kstate_scheme, int) kres" where
  "sys_mkdir dsw s =
     bindK (begin_op s)
       (\<lambda>_ s. bindK (argstr 0 s)
         (\<lambda>r s. bindK (case r of None \<Rightarrow> Done None s | Some path \<Rightarrow> create dsw path T_DIR 0 0 s)
           (\<lambda>r s. finish_create r s)))"

definition sys_mknod :: "'a kstate_scheme devsw \<Rightarrow> 'a kstate_scheme \<Rightarrow> ('a kstate_scheme, int) kres" where
  "sys_mknod dsw s =
     bindK (begin_op s)
       (\<lambda>_ s. bindK (argstr 0 s)
         (\<lambda>r s. bindK
           (case r of
              None \<Rightarrow> Done None s
            | Some path \<Rightarrow>
                bindK (argint 1 s)
                  (\<lambda>r s. case r of
                      None \<Rightarrow> Done None s
                    | Some major \<Rightarrow>
                        bindK (argint 2 s)
                          (\<lambda>r s. case r of
                              None \<Rightarrow> Done None s
                            | Some minor \<Rightarrow> create dsw path T_DEV (ucast major) (ucast minor) s)))
           (\<lambda>r s. finish_create r s)))"

definition sys_chdir :: "'a kstate_scheme devsw \<Rightarrow> 'a kstate_scheme \<Rightarrow> ('a kstate_scheme, int) kres" where
  "sys_chdir dsw s =
     (case myproc s of
        None \<Rightarrow> Fault 0 s
      | Some p \<Rightarrow>
          bindK (begin_op s)
            (\<lambda>_ s. bindK (argstr 0 s)
              (\<lambda>r s. bindK (case r of None \<Rightarrow> Done None s | Some path \<Rightarrow> namei dsw path s)
                (\<lambda>r s. case r of
                    None \<Rightarrow> bindK (end_op s) (\<lambda>_ s. Done (- 1) s)
                  | Some ip \<Rightarrow>
                      bindK (ilock (Some ip) s)
                        (\<lambda>_ s. if i_type (inode_at s ip) \<noteq> T_DIR
                           then bindK (iunlockput ip s) (\<lambda>_ s. bindK (end_op s) (\<lambda>_ s. Done (- 1) s))
                           else bindK (iunlock (Some ip) s)
                             (\<lambda>_ s. bindK (case p_cwd (proc_at s p) of None \<Rightarrow> Fault 0 s | Some d \<Rightarrow> iput d s)
                               (\<lambda>_ s. bindK (end_op s)
                                 (\<lambda>_ s. Done 0 (upd_proc p (\<lambda>x. x\<lparr>p_cwd := Some ip\<rparr>) s)))))))))"

definition sys_pipe :: "'a kstate_scheme \<Rightarrow> ('a kstate_scheme, int) kres" where
  "sys_pipe s =
     bindK (argptr 0 8 s)
       (\<lambda>r s. case r of
           None \<Rightarrow> Done (- 1) s
         | Some fd \<Rightarrow>
             bindK (pipealloc s)
               (\<lambda>r s. case r of
                   None \<Rightarrow> Done (- 1) s
                 | Some (rfile, wfile) \<Rightarrow>
                     let bad = (\<lambda>s. bindK (fileclose rfile s) (\<lambda>_ s. bindK (fileclose wfile s) (\<lambda>_ s. Done (- 1) s))) in
                     bindK (fdalloc rfile s)
                       (\<lambda>r s. case r of
                           None \<Rightarrow> bad s
                         | Some fd0 \<Rightarrow>
                             bindK (fdalloc wfile s)
                               (\<lambda>r s. case r of
                                   None \<Rightarrow>
                                     (case myproc s of
                                        None \<Rightarrow> Fault 0 s
                                      | Some p \<Rightarrow> bad (upd_proc p (\<lambda>x. x\<lparr>p_ofile := (p_ofile x)[fd0 := None]\<rparr>) s))
                                 | Some fd1 \<Rightarrow>
                                     bindK (ustore fd (word_bytes (of_nat fd0)) s)
                                       (\<lambda>_ s. bindK (ustore (fd + 4) (word_bytes (of_nat fd1)) s)
                                         (\<lambda>_ s. Done 0 s))))))"

end
