(* ===== verification/Exec.thy ===== *)
theory Exec
  imports Sysfile
begin

unbundle bit_operations_syntax

text \<open>
  exec.c and \<open>loaduvm\<close> of vm.c: replacing the image of a process by an ELF file. The argument
  strings, which C reaches through user pointers, are byte lists here.
\<close>

section \<open>ELF headers\<close>

abbreviation (input) ELF_MAGIC :: u32 where "ELF_MAGIC \<equiv> 0x464C457F"
abbreviation (input) ELF_PROG_LOAD :: u32 where "ELF_PROG_LOAD \<equiv> 1"
abbreviation (input) sizeof_elfhdr :: nat where "sizeof_elfhdr \<equiv> 52"
abbreviation (input) sizeof_proghdr :: nat where "sizeof_proghdr \<equiv> 32"

record elfhdr =
  elf_magic :: u32
  elf_entry :: u32
  elf_phoff :: u32
  elf_phnum :: u16

definition decode_elfhdr :: "u8 list \<Rightarrow> elfhdr" where
  "decode_elfhdr bs =
     \<lparr>elf_magic = word_at bs 0, elf_entry = word_at bs 24, elf_phoff = word_at bs 28,
      elf_phnum = half_at bs 44\<rparr>"

record proghdr =
  ph_type :: u32
  ph_off :: u32
  ph_vaddr :: u32
  ph_paddr :: u32
  ph_filesz :: u32
  ph_memsz :: u32
  ph_flags :: u32
  ph_align :: u32

definition decode_proghdr :: "u8 list \<Rightarrow> proghdr" where
  "decode_proghdr bs =
     \<lparr>ph_type = word_at bs 0, ph_off = word_at bs 4, ph_vaddr = word_at bs 8, ph_paddr = word_at bs 12,
      ph_filesz = word_at bs 16, ph_memsz = word_at bs 20, ph_flags = word_at bs 24, ph_align = word_at bs 28\<rparr>"

section \<open>Loading a segment\<close>

primrec loaduvm_loop :: "'a kstate_scheme devsw \<Rightarrow> u32 \<Rightarrow> u32 \<Rightarrow> nat \<Rightarrow> u32 \<Rightarrow> u32 \<Rightarrow> u32 list
    \<Rightarrow> 'a kstate_scheme \<Rightarrow> ('a kstate_scheme, int) kres" where
  "loaduvm_loop dsw pgdir addr ip offset sz [] s = Done 0 s"
| "loaduvm_loop dsw pgdir addr ip offset sz (i # is) s =
     bindK (walkpgdir pgdir (addr + i) False s)
       (\<lambda>pte s. if pte = 0 then Panic ''loaduvm: address should exist''
          else
            let pa = PTE_ADDR (load32 (mem s) pte);
                n = (if sz - i < PGSIZE then sz - i else PGSIZE) in
            bindK (readi dsw ip (offset + i) n s)
              (\<lambda>(r, d) s. let s = s\<lparr>mem := put_bytes (mem s) (P2V pa) d\<rparr> in
                 if of_int r \<noteq> n then Done (- 1) s
                 else loaduvm_loop dsw pgdir addr ip offset sz is s))"

definition loaduvm :: "'a kstate_scheme devsw \<Rightarrow> u32 \<Rightarrow> u32 \<Rightarrow> nat \<Rightarrow> u32 \<Rightarrow> u32 \<Rightarrow> 'a kstate_scheme
    \<Rightarrow> ('a kstate_scheme, int) kres" where
  "loaduvm dsw pgdir addr ip offset sz s =
     (if addr mod PGSIZE \<noteq> 0 then Panic ''loaduvm: addr must be page aligned''
      else loaduvm_loop dsw pgdir addr ip offset sz
        (map (\<lambda>k. of_nat (k * 4096)) [0..<(unat sz + 4095) div 4096]) s)"

section \<open>exec\<close>

text \<open>The label \<open>bad\<close>: what is left to undo is the new page table and the locked inode.\<close>

definition exec_bad :: "u32 \<Rightarrow> nat option \<Rightarrow> 'a kstate_scheme \<Rightarrow> ('a kstate_scheme, int) kres" where
  "exec_bad pgdir ipo s =
     bindK (if pgdir \<noteq> 0 then freevm pgdir s else Done () s)
       (\<lambda>_ s. bindK (case ipo of None \<Rightarrow> Done () s
                      | Some ip \<Rightarrow> bindK (iunlockput ip s) (\<lambda>_ s. end_op s))
         (\<lambda>_ s. Done (- 1) s))"

text \<open>The loop over the program headers: the new size, or \<open>None\<close> for a jump to \<open>bad\<close>.\<close>

fun exec_load :: "'a kstate_scheme devsw \<Rightarrow> u32 \<Rightarrow> nat \<Rightarrow> nat \<Rightarrow> u32 \<Rightarrow> u32 \<Rightarrow> 'a kstate_scheme
    \<Rightarrow> ('a kstate_scheme, u32 option) kres" where
  "exec_load dsw pgdir ip 0 off sz s = Done (Some sz) s"
| "exec_load dsw pgdir ip (Suc n) off sz s =
     bindK (readi dsw ip off (of_nat sizeof_proghdr) s)
       (\<lambda>(r, d) s. if r \<noteq> int sizeof_proghdr then Done None s
          else
            let ph = decode_proghdr d in
            if ph_type ph \<noteq> ELF_PROG_LOAD
            then exec_load dsw pgdir ip n (off + of_nat sizeof_proghdr) sz s
            else if ph_memsz ph < ph_filesz ph then Done None s
            else if ph_vaddr ph + ph_memsz ph < ph_vaddr ph then Done None s
            else bindK (allocuvm pgdir sz (ph_vaddr ph + ph_memsz ph) s)
              (\<lambda>sz s. if sz = 0 then Done None s
                 else if ph_vaddr ph mod PGSIZE \<noteq> 0 then Done None s
                 else bindK (loaduvm dsw pgdir (ph_vaddr ph) ip (ph_off ph) (ph_filesz ph) s)
                   (\<lambda>r s. if r < 0 then Done None s
                      else exec_load dsw pgdir ip n (off + of_nat sizeof_proghdr) sz s)))"

text \<open>
  Pushing the argument strings: the stack pointer and the addresses pushed so far, or \<open>None\<close> for a
  jump to \<open>bad\<close>.
\<close>

fun exec_args :: "u32 \<Rightarrow> u8 list list \<Rightarrow> u32 \<Rightarrow> u32 list \<Rightarrow> 'a kstate_scheme
    \<Rightarrow> ('a kstate_scheme, (u32 \<times> u32 list) option) kres" where
  "exec_args pgdir [] sp ptrs s = Done (Some (sp, ptrs)) s"
| "exec_args pgdir (arg # argv) sp ptrs s =
     (if length ptrs \<ge> MAXARG then Done None s
      else
        let sp = (sp - (of_nat (length arg) + 1)) AND NOT 3 in
        bindK (copyout pgdir sp (arg @ [0]) s)
          (\<lambda>r s. if r < 0 then Done None s else exec_args pgdir argv sp (ptrs @ [sp]) s))"

text \<open>The words below the strings: return address, argc, argv and the pointers with a final zero.\<close>

definition exec_ustack :: "u32 \<Rightarrow> u32 list \<Rightarrow> u32 list" where
  "exec_ustack sp ptrs =
     (let argc = of_nat (length ptrs) in [0xFFFFFFFF, argc, sp - (argc + 1) * 4] @ ptrs @ [0])"

definition path_last :: "u8 list \<Rightarrow> u8 list" where
  "path_last path = rev (takeWhile (\<lambda>c. c \<noteq> slash) (rev path))"

definition exec_commit :: "u8 list \<Rightarrow> u32 \<Rightarrow> u32 \<Rightarrow> u32 \<Rightarrow> u32 \<Rightarrow> 'a kstate_scheme
    \<Rightarrow> ('a kstate_scheme, int) kres" where
  "exec_commit path pgdir sz entry sp s =
     (case myproc s of
        None \<Rightarrow> Fault 0 s
      | Some cur \<Rightarrow>
          let s = upd_proc cur (set_name (path_last path)) s;
              oldpgdir = p_pgdir (proc_at s cur);
              s = upd_proc cur (\<lambda>x. x\<lparr>p_pgdir := pgdir, p_sz := sz,
                    p_tf := (p_tf x)\<lparr>tf_eip := entry, tf_esp := sp\<rparr>,
                    p_stacktop := STACK_TOP, p_stackSize := 1\<rparr>) s in
          bindK (switchuvm (Some cur) s)
            (\<lambda>_ s. bindK (freevm oldpgdir s) (\<lambda>_ s. Done 0 s)))"

text \<open>From \<open>sz = PGROUNDUP(sz)\<close> on, when the inode is already released.\<close>

definition exec_stack :: "u8 list \<Rightarrow> u8 list list \<Rightarrow> u32 \<Rightarrow> u32 \<Rightarrow> u32 \<Rightarrow> 'a kstate_scheme
    \<Rightarrow> ('a kstate_scheme, int) kres" where
  "exec_stack path argv pgdir sz entry s =
     (let sz = PGROUNDUP sz in
      bindK (allocuvm pgdir (STACK_TOP - PGSIZE) STACK_TOP s)
        (\<lambda>r s. if r = 0 then exec_bad pgdir None s
           else bindK (exec_args pgdir argv STACK_TOP [] s)
             (\<lambda>r s. case r of
                 None \<Rightarrow> exec_bad pgdir None s
               | Some (sp, ptrs) \<Rightarrow>
                   let ustack = exec_ustack sp ptrs;
                       sp = sp - of_nat (length ustack) * 4 in
                   bindK (copyout pgdir sp (concat (map word_bytes ustack)) s)
                     (\<lambda>r s. if r < 0 then exec_bad pgdir None s
                        else exec_commit path pgdir sz entry sp s))))"

definition exec :: "'a kstate_scheme devsw \<Rightarrow> u8 list \<Rightarrow> u8 list list \<Rightarrow> 'a kstate_scheme
    \<Rightarrow> ('a kstate_scheme, int) kres" where
  "exec dsw path argv s =
     bindK (begin_op s)
       (\<lambda>_ s. bindK (namei dsw path s)
         (\<lambda>r s. case r of
             None \<Rightarrow>
               bindK (end_op s)
                 (\<lambda>_ s. bindK (cprintf (''exec: fail'' @ [CHR 0x0A]) [] s) (\<lambda>_ s. Done (- 1) s))
           | Some ip \<Rightarrow>
               bindK (ilock (Some ip) s)
                 (\<lambda>_ s. bindK (readi dsw ip 0 (of_nat sizeof_elfhdr) s)
                   (\<lambda>(r, d) s. if r \<noteq> int sizeof_elfhdr then exec_bad 0 (Some ip) s
                      else
                        let elf = decode_elfhdr d in
                        if elf_magic elf \<noteq> ELF_MAGIC then exec_bad 0 (Some ip) s
                        else bindK (setupkvm s)
                          (\<lambda>pgdir s. if pgdir = 0 then exec_bad 0 (Some ip) s
                             else bindK (exec_load dsw pgdir ip (unat (elf_phnum elf)) (elf_phoff elf) 0 s)
                               (\<lambda>r s. case r of
                                   None \<Rightarrow> exec_bad pgdir (Some ip) s
                                 | Some sz \<Rightarrow>
                                     bindK (iunlockput ip s)
                                       (\<lambda>_ s. bindK (end_op s)
                                         (\<lambda>_ s. exec_stack path argv pgdir sz (elf_entry elf) s))))))))"

text \<open>The loop of \<open>sys_exec\<close> that collects the argument strings; \<open>None\<close> is -1.\<close>

fun exec_argv :: "nat \<Rightarrow> u32 \<Rightarrow> 'a kstate_scheme \<Rightarrow> ('a kstate_scheme, u8 list list option) kres" where
  "exec_argv 0 uargv s = Done None s"
| "exec_argv (Suc n) uargv s =
     bindK (fetchint uargv s)
       (\<lambda>r s. case r of
           None \<Rightarrow> Done None s
         | Some uarg \<Rightarrow>
             if uarg = 0 then Done (Some []) s
             else bindK (fetchstr uarg s)
               (\<lambda>r s. case r of
                   None \<Rightarrow> Done None s
                 | Some a \<Rightarrow> bindK (exec_argv n (uargv + 4) s) (\<lambda>r s. Done (map_option (\<lambda>as. a # as) r) s)))"

definition sys_exec :: "'a kstate_scheme devsw \<Rightarrow> 'a kstate_scheme \<Rightarrow> ('a kstate_scheme, int) kres" where
  "sys_exec dsw s =
     bindK (argstr 0 s)
       (\<lambda>r s. case r of
           None \<Rightarrow> Done (- 1) s
         | Some path \<Rightarrow>
             bindK (argint 1 s)
               (\<lambda>r s. case r of
                   None \<Rightarrow> Done (- 1) s
                 | Some uargv \<Rightarrow>
                     bindK (exec_argv MAXARG uargv s)
                       (\<lambda>r s. case r of None \<Rightarrow> Done (- 1) s | Some argv \<Rightarrow> exec dsw path argv s)))"

end
