(* ===== verification/Console.thy ===== *)
theory Console
  imports Exec
begin

unbundle bit_operations_syntax

text \<open>
  console.c: input editing and the console device, with the CGA screen as a component of its own.
  \<open>getc\<close>, the argument of \<open>consoleintr\<close>, is the list of values it returns before the first negative
  one. What \<open>consputc\<close> sends to the serial line is the field \<open>console\<close>.
\<close>

section \<open>The screen\<close>

text \<open>The 2000 cells of the CGA memory and the cursor position the controller holds.\<close>

record cga =
  crt :: "u16 list"
  cga_pos :: int

abbreviation (input) BACKSPACE :: int where "BACKSPACE \<equiv> 0x100"

text \<open>\<open>None\<close> is the call of \<open>panic\<close>.\<close>

definition cga_move :: "int \<Rightarrow> cga \<Rightarrow> cga" where
  "cga_move c g =
     (let pos = cga_pos g in
      if c = 10 then g\<lparr>cga_pos := pos + (80 - pos mod 80)\<rparr>
      else if c = BACKSPACE then (if pos > 0 then g\<lparr>cga_pos := pos - 1\<rparr> else g)
      else g\<lparr>crt := (crt g)[nat pos := (of_int c AND 0xFF) OR 0x0700], cga_pos := pos + 1\<rparr>)"

definition cga_scroll :: "cga \<Rightarrow> cga" where
  "cga_scroll g =
     (if cga_pos g div 80 \<ge> 24
      then let cells = put_at (crt g) 0 (get_at (crt g) 80 (23 * 80)); pos = cga_pos g - 80 in
           g\<lparr>crt := put_at cells (nat pos) (replicate (nat (24 * 80 - pos)) 0), cga_pos := pos\<rparr>
      else g)"

definition cgaputc :: "int \<Rightarrow> cga \<Rightarrow> cga option" where
  "cgaputc c g =
     (let g = cga_move c g in
      if cga_pos g < 0 \<or> cga_pos g > 25 * 80 then None
      else let g = cga_scroll g in
           Some (g\<lparr>crt := (crt g)[nat (cga_pos g) := 0x0720]\<rparr>))"

section \<open>State\<close>

abbreviation (input) INPUT_BUF :: nat where "INPUT_BUF \<equiv> 128"

record kernel = kstate +
  in_buf :: "u8 list"
  in_r :: u32
  in_w :: u32
  in_e :: u32

definition consputc :: "int \<Rightarrow> 'a machine_scheme \<Rightarrow> 'a machine_scheme" where
  "consputc c s =
     (if c = BACKSPACE then s\<lparr>console := console s @ [CHR 0x08, CHR '' '', CHR 0x08]\<rparr>
      else s\<lparr>console := console s @ [char_of (nat (c mod 256))]\<rparr>)"

section \<open>Input\<close>

text \<open>The loop of control-U: at most as many rounds as there are bytes between \<open>w\<close> and \<open>e\<close>.\<close>

fun kill_line :: "nat \<Rightarrow> 'a kernel_scheme \<Rightarrow> 'a kernel_scheme" where
  "kill_line 0 s = s"
| "kill_line (Suc n) s =
     (if in_e s \<noteq> in_w s \<and> in_buf s ! (unat (in_e s - 1) mod INPUT_BUF) \<noteq> 10
      then kill_line n (consputc BACKSPACE (s\<lparr>in_e := in_e s - 1\<rparr>)) else s)"

definition console_key :: "int \<Rightarrow> 'a kernel_scheme \<Rightarrow> ('a kernel_scheme, bool) kres" where
  "console_key c s =
     (if c = 16 then Done True s
      else if c = 21 then Done False (kill_line (unat (in_e s - in_w s)) s)
      else if c = 8 \<or> c = 127
      then Done False (if in_e s \<noteq> in_w s then consputc BACKSPACE (s\<lparr>in_e := in_e s - 1\<rparr>) else s)
      else if c \<noteq> 0 \<and> in_e s - in_r s < of_nat INPUT_BUF
      then
        let c = (if c = 13 then 10 else c);
            s = s\<lparr>in_buf := (in_buf s)[unat (in_e s) mod INPUT_BUF := of_int c], in_e := in_e s + 1\<rparr>;
            s = consputc c s in
        if c = 10 \<or> c = 4 \<or> in_e s = in_r s + of_nat INPUT_BUF
        then bindK (wakeup ChInput (s\<lparr>in_w := in_e s\<rparr>)) (\<lambda>_ s. Done False s)
        else Done False s
      else Done False s)"

fun consoleintr_loop :: "int list \<Rightarrow> bool \<Rightarrow> 'a kernel_scheme \<Rightarrow> ('a kernel_scheme, bool) kres" where
  "consoleintr_loop [] doprocdump s = Done doprocdump s"
| "consoleintr_loop (c # cs) doprocdump s =
     bindK (console_key c s) (\<lambda>b s. consoleintr_loop cs (doprocdump \<or> b) s)"

definition consoleintr :: "int list \<Rightarrow> 'a kernel_scheme \<Rightarrow> ('a kernel_scheme, unit) kres" where
  "consoleintr cs s =
     bindK (acquireK LkCons s)
       (\<lambda>_ s. bindK (consoleintr_loop cs False s)
         (\<lambda>d s. bindK (releaseK LkCons s)
           (\<lambda>_ s. if d then procdump s else Done () s)))"

section \<open>The console device\<close>

text \<open>The end of \<open>consoleread\<close>: release the lock, take the inode's again, return the count.\<close>

definition consoleread_end :: "nat \<Rightarrow> u8 list \<Rightarrow> 'a kernel_scheme \<Rightarrow> ('a kernel_scheme, int \<times> u8 list) kres" where
  "consoleread_end ip dst s =
     bindK (releaseK LkCons s)
       (\<lambda>_ s. bindK (ilock (Some ip) s) (\<lambda>_ s. Done (int (length dst), dst) s))"

text \<open>\<open>n\<close> bytes are still wanted; \<open>dst\<close> holds those already stored.\<close>

fun consoleread_loop :: "nat \<Rightarrow> nat \<Rightarrow> u8 list \<Rightarrow> 'a kernel_scheme \<Rightarrow> ('a kernel_scheme, int \<times> u8 list) kres" where
  "consoleread_loop ip 0 dst s = consoleread_end ip dst s"
| "consoleread_loop ip (Suc n) dst s =
     (if in_r s = in_w s
      then (case myproc s of
              None \<Rightarrow> Fault 0 s
            | Some p \<Rightarrow>
                if p_killed (proc_at s p)
                then bindK (releaseK LkCons s) (\<lambda>_ s. bindK (ilock (Some ip) s) (\<lambda>_ s. Done (- 1, dst) s))
                else sleep ChInput (Some LkCons) s)
      else
        let c = in_buf s ! (unat (in_r s) mod INPUT_BUF); s = s\<lparr>in_r := in_r s + 1\<rparr> in
        if c = 4
        then consoleread_end ip dst (if dst \<noteq> [] then s\<lparr>in_r := in_r s - 1\<rparr> else s)
        else if c = 10 then consoleread_end ip (dst @ [c]) s
        else consoleread_loop ip n (dst @ [c]) s)"

definition consoleread :: "nat \<Rightarrow> u32 \<Rightarrow> 'a kernel_scheme \<Rightarrow> ('a kernel_scheme, int \<times> u8 list) kres" where
  "consoleread ip n s =
     bindK (iunlock (Some ip) s)
       (\<lambda>_ s. bindK (acquireK LkCons s) (\<lambda>_ s. consoleread_loop ip (nat (sint n)) [] s))"

definition consolewrite :: "nat \<Rightarrow> u8 list \<Rightarrow> 'a kernel_scheme \<Rightarrow> ('a kernel_scheme, int) kres" where
  "consolewrite ip buf s =
     bindK (iunlock (Some ip) s)
       (\<lambda>_ s. bindK (acquireK LkCons s)
         (\<lambda>_ s. bindK (releaseK LkCons (fold (\<lambda>b. consputc (int (unat b))) buf s))
           (\<lambda>_ s. bindK (ilock (Some ip) s) (\<lambda>_ s. Done (int (length buf)) s))))"

text \<open>
  The device switch after \<open>consoleinit\<close>: entry CONSOLE is the console, the others are null.
\<close>

definition console_devsw :: "'a kernel_scheme devsw" where
  "console_devsw major =
     (if major = 1 then \<lparr>dev_read = Some consoleread, dev_write = Some consolewrite\<rparr>
      else \<lparr>dev_read = None, dev_write = None\<rparr>)"

definition consoleinit :: "'a machine_scheme \<Rightarrow> 'a machine_scheme" where
  "consoleinit s = (initlockK LkCons s)\<lparr>cons_locking := True\<rparr>"

section \<open>The cursor stays on the screen\<close>

definition cga_ok :: "cga \<Rightarrow> bool" where
  "cga_ok g \<longleftrightarrow> length (crt g) = 2000 \<and> 0 \<le> cga_pos g \<and> cga_pos g < 24 * 80"

lemma cgaputc_ok:
  assumes "cga_ok g"
  shows "\<exists>g'. cgaputc c g = Some g' \<and> cga_ok g'"
proof -
  let ?m = "cga_move c g"
  have pos: "0 \<le> cga_pos g" "cga_pos g < 1920" "length (crt g) = 2000" using assms by (simp_all add: cga_ok_def)
  have "0 \<le> cga_pos g mod 80" "cga_pos g mod 80 < 80" by simp_all
  moreover have "cga_pos g + (80 - cga_pos g mod 80) = 80 * (cga_pos g div 80 + 1)"
    by (simp add: algebra_simps minus_mod_eq_mult_div [symmetric])
  moreover have "cga_pos g div 80 < 24" using pos by (simp add: div_less_iff_less_mult)
  ultimately have m: "0 \<le> cga_pos ?m" "cga_pos ?m \<le> 1920" "length (crt ?m) = 2000"
    using pos by (auto simp: cga_move_def Let_def)
  have "cga_ok (cga_scroll ?m)"
  proof (cases "cga_pos ?m div 80 \<ge> 24")
    case True
    then have "1920 \<le> cga_pos ?m" by linarith
    with m have "cga_pos ?m = 1920" by simp
    with m(3) show ?thesis
      by (simp add: cga_ok_def cga_scroll_def Let_def put_at_def get_at_def)
  next
    case False
    then have "cga_pos ?m < 1920" by linarith
    with m False show ?thesis by (simp add: cga_ok_def cga_scroll_def)
  qed
  then show ?thesis using m by (auto simp: cgaputc_def Let_def cga_ok_def)
qed

end
