(* ===== verification/Trap.thy ===== *)
theory Trap
  imports Console
begin

unbundle bit_operations_syntax

text \<open>
  The dispatch of system calls (syscall.c) and of traps (trap.c), with the page-fault handler that
  grows the user stack. The interrupt controller (\<open>lapiceoi\<close>) has no effect on the state; \<open>keys\<close> is
  what the keyboard or the serial line delivers, \<open>cr2\<close> the faulting address. The disk of this build
  (memide.c) raises no interrupts, and its handler does nothing.
\<close>

section \<open>System calls\<close>

definition syscall_entry :: "nat \<Rightarrow> ('a kernel_scheme \<Rightarrow> ('a kernel_scheme, int) kres) option" where
  "syscall_entry n =
     (if n = 1 then Some sys_fork
      else if n = 2 then Some sys_exit
      else if n = 3 then Some sys_wait
      else if n = 4 then Some sys_pipe
      else if n = 5 then Some (sys_read console_devsw)
      else if n = 6 then Some sys_kill
      else if n = 7 then Some (sys_exec console_devsw)
      else if n = 8 then Some sys_fstat
      else if n = 9 then Some (sys_chdir console_devsw)
      else if n = 10 then Some sys_dup
      else if n = 11 then Some sys_getpid
      else if n = 12 then Some sys_sbrk
      else if n = 13 then Some sys_sleep
      else if n = 14 then Some sys_uptime
      else if n = 15 then Some (sys_open console_devsw)
      else if n = 16 then Some (sys_write console_devsw)
      else if n = 17 then Some (sys_mknod console_devsw)
      else if n = 18 then Some (sys_unlink console_devsw)
      else if n = 19 then Some (sys_link console_devsw)
      else if n = 20 then Some (sys_mkdir console_devsw)
      else if n = 21 then Some sys_close
      else if n = 22 then Some sys_shm_open
      else if n = 23 then Some sys_shm_close
      else None)"

definition set_eax :: "nat \<Rightarrow> u32 \<Rightarrow> 'a machine_scheme \<Rightarrow> 'a machine_scheme" where
  "set_eax p v s = upd_proc p (\<lambda>x. x\<lparr>p_tf := (p_tf x)\<lparr>tf_eax := v\<rparr>\<rparr>) s"

definition syscall :: "'a kernel_scheme \<Rightarrow> ('a kernel_scheme, unit) kres" where
  "syscall s =
     (case myproc s of
        None \<Rightarrow> Fault 0 s
      | Some p \<Rightarrow>
          let num = sint (tf_eax (p_tf (proc_at s p))) in
          case (if num > 0 then syscall_entry (nat num) else None) of
            Some f \<Rightarrow> bindK (f s) (\<lambda>r s. Done () (set_eax p (of_int r) s))
          | None \<Rightarrow>
              bindK (cprintf (''%d %s: unknown sys call %d'' @ [CHR 0x0A])
                  [Num (of_int (p_pid (proc_at s p))), Str (Some (name_string (p_name (proc_at s p)))),
                   Num (of_int num)] s)
                (\<lambda>_ s. Done () (set_eax p (- 1) s)))"

section \<open>Interrupt gates\<close>

text \<open>\<open>vectors\<close>: the entry points the build generates.\<close>

definition tvinit :: "(nat \<Rightarrow> u32) \<Rightarrow> (nat \<Rightarrow> gatedesc) \<Rightarrow> 'a machine_scheme
    \<Rightarrow> (nat \<Rightarrow> gatedesc) \<times> 'a machine_scheme" where
  "tvinit vectors idt s =
     (let idt = fold (\<lambda>i idt. idt(i := SETGATE (idt i) False (of_nat SEG_KCODE * 8) (vectors i) 0)) [0..<256] idt;
          idt = idt(64 := SETGATE (idt 64) True (of_nat SEG_KCODE * 8) (vectors 64) DPL_USER) in
      (idt, initlockK LkTicks s))"

section \<open>Traps\<close>

abbreviation (input) T_SYSCALL :: u32 where "T_SYSCALL \<equiv> 64"
abbreviation (input) T_PGFLT :: u32 where "T_PGFLT \<equiv> 14"
abbreviation (input) IRQ_TIMER_TRAP :: u32 where "IRQ_TIMER_TRAP \<equiv> 32"
abbreviation (input) IRQ_KBD_TRAP :: u32 where "IRQ_KBD_TRAP \<equiv> 33"
abbreviation (input) IRQ_COM1_TRAP :: u32 where "IRQ_COM1_TRAP \<equiv> 36"
abbreviation (input) IRQ_7_TRAP :: u32 where "IRQ_7_TRAP \<equiv> 39"
abbreviation (input) IRQ_IDE_TRAP :: u32 where "IRQ_IDE_TRAP \<equiv> 46"
abbreviation (input) IRQ_IDE1_TRAP :: u32 where "IRQ_IDE1_TRAP \<equiv> 47"
abbreviation (input) IRQ_SPURIOUS_TRAP :: u32 where "IRQ_SPURIOUS_TRAP \<equiv> 63"

definition timer_tick :: "'a machine_scheme \<Rightarrow> ('a machine_scheme, unit) kres" where
  "timer_tick s =
     (if cpu s = 0
      then bindK (acquireK LkTicks s)
        (\<lambda>_ s. bindK (wakeup ChTicks (s\<lparr>ticks := ticks s + 1\<rparr>)) (\<lambda>_ s. releaseK LkTicks s))
      else Done () s)"

definition pgflt :: "u32 \<Rightarrow> 'a vmstate_scheme \<Rightarrow> ('a vmstate_scheme, unit) kres" where
  "pgflt addr s =
     (case myproc s of
        None \<Rightarrow> Fault 0 s
      | Some p \<Rightarrow>
          let stack_addr = STACK_TOP - p_stackSize (proc_at s p) * PGSIZE in
          if PGROUNDDOWN addr \<le> stack_addr
          then bindK (allocuvm (p_pgdir (proc_at s p)) (PGROUNDDOWN addr) stack_addr s)
            (\<lambda>r s. if r = 0 then Panic (''Messed Up'' @ [CHR 0x0A])
               else Done () (upd_proc p (\<lambda>x. x\<lparr>p_stackSize := p_stackSize x + 1\<rparr>) s))
          else Done () s)"

definition user_mode :: "trapframe \<Rightarrow> bool" where
  "user_mode tf \<longleftrightarrow> tf_cs tf AND 3 = 3"

definition trap_other :: "u32 \<Rightarrow> trapframe \<Rightarrow> 'a kernel_scheme \<Rightarrow> ('a kernel_scheme, unit) kres" where
  "trap_other cr2 tf s =
     (case myproc s of
        Some p \<Rightarrow>
          if tf_cs tf AND 3 = 0
          then bindK (cprintf (''unexpected trap %d from cpu %d eip %x (cr2=0x%x)'' @ [CHR 0x0A])
              [Num (tf_trapno tf), Num (of_nat (cpu s)), Num (tf_eip tf), Num cr2] s)
            (\<lambda>_ s. Panic ''trap'')
          else bindK (cprintf (''pid %d %s: trap %d err %d on cpu %d '' @ ''eip 0x%x addr 0x%x--kill proc'' @ [CHR 0x0A])
              [Num (of_int (p_pid (proc_at s p))), Str (Some (name_string (p_name (proc_at s p)))),
               Num (tf_trapno tf), Num (tf_err tf), Num (of_nat (cpu s)), Num (tf_eip tf), Num cr2] s)
            (\<lambda>_ s. Done () (upd_proc p (\<lambda>x. x\<lparr>p_killed := True\<rparr>) s))
      | None \<Rightarrow>
          bindK (cprintf (''unexpected trap %d from cpu %d eip %x (cr2=0x%x)'' @ [CHR 0x0A])
              [Num (tf_trapno tf), Num (of_nat (cpu s)), Num (tf_eip tf), Num cr2] s)
            (\<lambda>_ s. Panic ''trap''))"

text \<open>The checks after the switch: exit when killed, yield on a clock tick, and again after that.\<close>

definition trap_exit_check :: "trapframe \<Rightarrow> 'a kernel_scheme \<Rightarrow> ('a kernel_scheme, unit) kres" where
  "trap_exit_check tf s =
     (case myproc s of
        None \<Rightarrow> Done () s
      | Some p \<Rightarrow> if p_killed (proc_at s p) \<and> user_mode tf then exit s else Done () s)"

definition trap_end :: "trapframe \<Rightarrow> 'a kernel_scheme \<Rightarrow> ('a kernel_scheme, unit) kres" where
  "trap_end tf s =
     bindK (trap_exit_check tf s)
       (\<lambda>_ s. bindK
          (case myproc s of
             None \<Rightarrow> Done () s
           | Some p \<Rightarrow>
               if p_state (proc_at s p) = RUNNING \<and> tf_trapno tf = IRQ_TIMER_TRAP then yield s else Done () s)
          (\<lambda>_ s. trap_exit_check tf s))"

text \<open>When \<open>yield\<close> came back.\<close>

definition trap_resume :: "trapframe \<Rightarrow> 'a kernel_scheme \<Rightarrow> ('a kernel_scheme, unit) kres" where
  "trap_resume tf s = bindK (yield_resume s) (\<lambda>_ s. trap_exit_check tf s)"

definition trap_syscall :: "trapframe \<Rightarrow> 'a kernel_scheme \<Rightarrow> ('a kernel_scheme, unit) kres" where
  "trap_syscall tf s =
     (case myproc s of
        None \<Rightarrow> Fault 0 s
      | Some p \<Rightarrow>
          if p_killed (proc_at s p) then exit s
          else bindK (syscall (upd_proc p (\<lambda>x. x\<lparr>p_tf := tf\<rparr>) s))
            (\<lambda>_ s. if p_killed (proc_at s p) then exit s else Done () s))"

definition trap :: "int list \<Rightarrow> u32 \<Rightarrow> trapframe \<Rightarrow> 'a kernel_scheme \<Rightarrow> ('a kernel_scheme, unit) kres" where
  "trap keys cr2 tf s =
     (if tf_trapno tf = T_SYSCALL then trap_syscall tf s
      else bindK
        (if tf_trapno tf = IRQ_TIMER_TRAP then timer_tick s
         else if tf_trapno tf = IRQ_IDE_TRAP then Done () s
         else if tf_trapno tf = IRQ_IDE1_TRAP then Done () s
         else if tf_trapno tf = IRQ_KBD_TRAP then consoleintr keys s
         else if tf_trapno tf = IRQ_COM1_TRAP then consoleintr keys s
         else if tf_trapno tf = IRQ_7_TRAP \<or> tf_trapno tf = IRQ_SPURIOUS_TRAP
         then cprintf (''cpu%d: spurious interrupt at %x:%x'' @ [CHR 0x0A])
                [Num (of_nat (cpu s)), Num (ucast (tf_cs tf)), Num (tf_eip tf)] s
         else if tf_trapno tf = T_PGFLT then pgflt cr2 s
         else trap_other cr2 tf s)
        (\<lambda>_ s. trap_end tf s))"

end
