(* ===== verification/PageTables.thy ===== *)
theory PageTables
  imports Vm
begin

unbundle bit_operations_syntax

text \<open>
  What the page tables of vm.c mean: the entry a page directory holds for a virtual address, read
  through the tables in memory, and the well-formedness of an address space (directory and tables
  are distinct pages outside the free list). \<open>walkpgdir\<close> and \<open>mappages\<close> are described by their
  effect on this view.
\<close>

section \<open>The entry for an address\<close>

definition pde :: "memory \<Rightarrow> u32 \<Rightarrow> u32 \<Rightarrow> u32" where
  "pde m pgdir va = load32 m (pgdir + 4 * PDX va)"

definition has_table :: "memory \<Rightarrow> u32 \<Rightarrow> u32 \<Rightarrow> bool" where
  "has_table m pgdir va \<longleftrightarrow> pde m pgdir va AND PTE_P \<noteq> 0"

definition table :: "memory \<Rightarrow> u32 \<Rightarrow> u32 \<Rightarrow> u32" where
  "table m pgdir va = P2V (PTE_ADDR (pde m pgdir va))"

definition pte :: "memory \<Rightarrow> u32 \<Rightarrow> u32 \<Rightarrow> u32" where
  "pte m pgdir va = (if has_table m pgdir va then load32 m (table m pgdir va + 4 * PTX va) else 0)"

text \<open>
  The directory and its tables are pages of the allocator's range, all different, and none is on
  the free list \<open>xs\<close>.
\<close>

definition pt_ok :: "'a vmstate_scheme \<Rightarrow> u32 \<Rightarrow> u32 list \<Rightarrow> bool" where
  "pt_ok s pgdir xs \<longleftrightarrow>
     kpage s pgdir \<and> pgdir \<notin> set xs \<and>
     (\<forall>va. has_table (mem s) pgdir va \<longrightarrow>
        kpage s (table (mem s) pgdir va) \<and> table (mem s) pgdir va \<noteq> pgdir \<and>
        table (mem s) pgdir va \<notin> set xs) \<and>
     (\<forall>va vb. has_table (mem s) pgdir va \<longrightarrow> has_table (mem s) pgdir vb \<longrightarrow>
        table (mem s) pgdir va = table (mem s) pgdir vb \<longrightarrow> PDX va = PDX vb)"

lemma pt_ok_dir: "pt_ok s pgdir xs \<Longrightarrow> kpage s pgdir" "pt_ok s pgdir xs \<Longrightarrow> pgdir \<notin> set xs"
  unfolding pt_ok_def by blast+

lemma pt_ok_table:
  assumes "pt_ok s pgdir xs" and "has_table (mem s) pgdir va"
  shows "kpage s (table (mem s) pgdir va)" "table (mem s) pgdir va \<noteq> pgdir" "table (mem s) pgdir va \<notin> set xs"
  using assms unfolding pt_ok_def by blast+

lemma pt_ok_inj:
  assumes "pt_ok s pgdir xs" and "has_table (mem s) pgdir va" "has_table (mem s) pgdir vb"
  shows "table (mem s) pgdir va = table (mem s) pgdir vb \<longleftrightarrow> PDX va = PDX vb"
proof
  show "PDX va = PDX vb" if "table (mem s) pgdir va = table (mem s) pgdir vb"
    using assms that unfolding pt_ok_def by blast
qed (simp add: table_def pde_def)

lemma kpage_mod: "kpage s v \<Longrightarrow> unat v mod 4096 = 0"
  by (simp add: kpage_def)

section \<open>Slots of a page\<close>

text \<open>The 1024 words of a page.\<close>

lemma four_times_eq: "unat x < 1024 \<Longrightarrow> unat y < 1024 \<Longrightarrow> 4 * x = 4 * y \<longleftrightarrow> x = (y :: u32)"
  by (auto simp: u32_eq_iff_unat unat_word_ariths)

lemma unat_slot:
  fixes v x :: u32
  assumes "unat v mod 4096 = 0" and "unat x < 1024"
  shows "unat (v + 4 * x) = unat v + 4 * unat x"
proof -
  obtain q where q: "unat v = 4096 * q" using assms(1) by (meson mod_0_imp_dvd dvdE)
  have x: "unat (4 * x) = 4 * unat x" using assms(2) by (simp add: unat_word_ariths)
  have "q < 1048576" using q u32_unat_less [of v] by simp
  then have "unat v + unat (4 * x) < 4294967296" using q x assms(2) by linarith
  then show ?thesis by (simp add: unat_add32 x)
qed

lemma slot_aligned4:
  fixes v x :: u32
  assumes "unat v mod 4096 = 0" and "unat x < 1024"
  shows "aligned4 (v + 4 * x)"
proof -
  obtain q where "unat v = 4096 * q" using assms(1) by (meson mod_0_imp_dvd dvdE)
  then have "unat (v + 4 * x) = 4 * (1024 * q + unat x)" using unat_slot [OF assms] by simp
  then show ?thesis by simp
qed

lemma slot_in_page: "unat (x :: u32) < 1024 \<Longrightarrow> in_page v (v + 4 * x)"
  by (simp add: unat_word_ariths)

lemma slot_nonzero: "kpage s v \<Longrightarrow> unat x < 1024 \<Longrightarrow> v + 4 * x \<noteq> 0"
  using unat_slot [of v x] kpage_range [of s v] by (auto simp: kpage_mod u32_eq_iff_unat)

lemma slot_eq_iff:
  "unat x < 1024 \<Longrightarrow> unat y < 1024 \<Longrightarrow> v + 4 * x = v + 4 * y \<longleftrightarrow> x = (y :: u32)"
  by (simp add: four_times_eq)

lemma PDX_less [simp]: "unat (PDX va) < 1024"
  using u32_unat_less [of va] by (simp add: page_simps less_mult_imp_div_less)

lemma PTX_less [simp]: "unat (PTX va) < 1024"
  by (simp add: page_simps)

lemma four_PDX_PTX [simp]: "unat (4 * PDX va) < 4096" "unat (4 * PTX va) < 4096"
  using slot_in_page [OF PDX_less, of 0 va] slot_in_page [OF PTX_less, of 0 va] by simp_all

lemma same_page_iff: "PDX va = PDX vb \<and> PTX va = PTX vb \<longleftrightarrow> unat va div 4096 = unat vb div 4096"
proof -
  have d: "unat x div 4194304 = unat x div 4096 div 1024" for x :: u32
    by (simp add: div_mult2_eq [symmetric])
  show ?thesis
    unfolding u32_eq_iff_unat page_simps d
    by (metis div_mult_mod_eq)
qed

lemma load32_slot_store32_slot:
  assumes "kpage s v" "kpage s w" "unat x < 1024" "unat y < 1024"
  shows "load32 (store32 m (w + 4 * y) e) (v + 4 * x) = (if v = w \<and> x = y then e else load32 m (v + 4 * x))"
proof (cases "v + 4 * x = w + 4 * y")
  case True
  have "v = w"
    using page_disjoint [of v w "v + 4 * x"] slot_in_page [OF assms(3), of v]
      slot_in_page [OF assms(4), of w] assms(1,2) True by (auto simp: kpage_mod)
  with True assms show ?thesis by (simp add: four_times_eq)
next
  case False
  then show ?thesis using assms by (auto simp: slot_aligned4 kpage_mod)
qed

lemma store32_slot_outside:
  assumes "kpage s v" "unat x < 1024" "\<not> in_page v a"
  shows "store32 m (v + 4 * x) e a = m a"
proof -
  have "a \<noteq> v + 4 * x + of_nat k" if "k < 4" for k
    using in_page_word [OF kpage_mod [OF assms(1)] slot_aligned4 [OF kpage_mod [OF assms(1)] assms(2)] that]
      slot_in_page [OF assms(2), of v] assms(3) by auto
  from this [of 0] this [of 1] this [of 2] this [of 3] show ?thesis by (simp add: store32_def)
qed

lemma load32_slot_fill:
  assumes "kpage s v" "kpage s w" "unat x < 1024"
  shows "load32 (fill m w c 4096) (v + 4 * x) = (if v = w then le32 c c c c else load32 m (v + 4 * x))"
proof (cases "v = w")
  case True
  have "in_page v (v + 4 * x + of_nat k)" if "k < 4" for k
    using in_page_word [OF kpage_mod [OF assms(1)] slot_aligned4 [OF kpage_mod [OF assms(1)] assms(3)] that]
      slot_in_page [OF assms(3), of v] by auto
  from this [of 0] this [of 1] this [of 2] this [of 3] True show ?thesis
    by (simp add: load32_def fill_def)
next
  case False
  have "\<not> in_page w (v + 4 * x)"
    using page_disjoint [of v w] slot_in_page [OF assms(3), of v] assms False by (auto simp: kpage_mod)
  then have "load32 (fill m w c 4096) (v + 4 * x) = load32 m (v + 4 * x)"
    using assms by (intro load32_outside [of w]) (auto simp: kpage_mod slot_aligned4 fill_def)
  with False show ?thesis by simp
qed

lemma le32_zero [simp]: "le32 0 0 0 0 = 0"
  by (simp add: le32_def)

section \<open>Entries\<close>

lemma entry_parts:
  fixes p f :: u32
  assumes "unat p mod 4096 = 0" and "unat f < 4096"
  shows "PTE_ADDR (p OR f) = p" and "PTE_FLAGS (p OR f) = f"
proof -
  have p: "p AND - 4096 = p" using page_aligned_iff [of p] assms(1) by (simp add: PGROUNDDOWN_def)
  have f: "f AND - 4096 = 0" using assms(2) unat_and_minus_4096 [of f] by (simp add: u32_eq_iff_unat)
  have "(p OR f) AND - 4096 = (p AND - 4096) OR (f AND - 4096)" by (rule bit.conj_disj_distrib2)
  then show "PTE_ADDR (p OR f) = p" by (simp add: PTE_ADDR_def p f)
  have p': "p AND 0xFFF = 0"
    using assms(1) unat_PTE_FLAGS [of p] by (simp add: PTE_FLAGS_def u32_eq_iff_unat)
  have f': "f AND 0xFFF = f"
    using assms(2) unat_PTE_FLAGS [of f] by (simp add: PTE_FLAGS_def u32_eq_iff_unat)
  have "(p OR f) AND 0xFFF = (p AND 0xFFF) OR (f AND 0xFFF)" by (rule bit.conj_disj_distrib2)
  then show "PTE_FLAGS (p OR f) = f" by (simp add: PTE_FLAGS_def p' f')
qed

lemma V2P_kpage: "kpage s x \<Longrightarrow> unat (V2P x) = unat x - 2147483648"
  using kpage_range [of s x] unfolding V2P_def by (subst unat_sub32) (auto simp: word_le_nat_alt)

lemma V2P_aligned: "kpage s x \<Longrightarrow> unat (V2P x) mod 4096 = 0"
proof -
  assume x: "kpage s x"
  obtain q where q: "unat x = 4096 * q" using kpage_mod [OF x] by (meson mod_0_imp_dvd dvdE)
  then have "unat (V2P x) = 4096 * (q - 524288)" using V2P_kpage [OF x] by simp
  then show ?thesis by simp
qed

lemma P2V_V2P [simp]: "P2V (V2P x) = x"
  by (simp add: P2V_def V2P_def)

lemma V2P_P2V [simp]: "V2P (P2V x) = x"
  by (simp add: P2V_def V2P_def)

lemma V2P_eq_iff [simp]: "V2P x = V2P y \<longleftrightarrow> x = y"
  by (simp add: V2P_def)

lemma P2V_eq_iff [simp]: "P2V x = P2V y \<longleftrightarrow> x = y"
  by (simp add: P2V_def)

lemma present_or: "(x OR y OR 1) AND 1 \<noteq> (0 :: u32)"
  by (simp add: and_one_eq mod_2_eq_odd even_or_iff)

lemma table_entry:
  assumes "kpage s x"
  shows "PTE_ADDR (V2P x OR 1 OR 2 OR 4) = V2P x" and "(V2P x OR 1 OR 2 OR 4) AND 1 \<noteq> 0"
  using entry_parts(1) [OF V2P_aligned [OF assms], of "7"] present_or [of "V2P x" 6]
  by (simp_all add: or.assoc)

section \<open>Reading through the tables\<close>

text \<open>The entries depend on the directory and its tables only.\<close>

lemma pde_frame:
  assumes "kpage s pgdir" and "\<And>a. in_page pgdir a \<Longrightarrow> m' a = m a"
  shows "pde m' pgdir va = pde m pgdir va"
  unfolding pde_def using assms
  by (intro load32_page [of pgdir]) (auto simp: kpage_mod slot_aligned4 slot_in_page)

lemma pt_frame:
  assumes ok: "pt_ok s pgdir xs" and dir: "\<And>a. in_page pgdir a \<Longrightarrow> m' a = mem s a"
    and tab: "\<And>va a. has_table (mem s) pgdir va \<Longrightarrow> in_page (table (mem s) pgdir va) a \<Longrightarrow> m' a = mem s a"
  shows "pde m' pgdir = pde (mem s) pgdir" "has_table m' pgdir = has_table (mem s) pgdir"
    "table m' pgdir = table (mem s) pgdir" "pte m' pgdir = pte (mem s) pgdir"
proof -
  have k: "kpage s pgdir" using ok by (rule pt_ok_dir)
  show d: "pde m' pgdir = pde (mem s) pgdir" using pde_frame [OF k] dir by (intro ext) blast
  show h: "has_table m' pgdir = has_table (mem s) pgdir" by (simp add: has_table_def d fun_eq_iff)
  show t: "table m' pgdir = table (mem s) pgdir" by (simp add: table_def d fun_eq_iff)
  have "load32 m' (table (mem s) pgdir va + 4 * PTX va) = load32 (mem s) (table (mem s) pgdir va + 4 * PTX va)"
    if "has_table (mem s) pgdir va" for va
  proof -
    have "kpage s (table (mem s) pgdir va)" using ok that by (rule pt_ok_table)
    with tab [OF that] show ?thesis
      by (intro load32_page [of "table (mem s) pgdir va"]) (auto simp: kpage_mod slot_aligned4 slot_in_page)
  qed
  then show "pte m' pgdir = pte (mem s) pgdir" by (simp add: pte_def h t fun_eq_iff)
qed

lemma pt_ok_cong:
  assumes "pt_ok s pgdir xs" and "has_table (mem t) pgdir = has_table (mem s) pgdir"
    and "table (mem t) pgdir = table (mem s) pgdir" and "kpage t = kpage s"
    and "pgdir \<notin> set ys" and "\<And>va. has_table (mem s) pgdir va \<Longrightarrow> table (mem s) pgdir va \<notin> set ys"
  shows "pt_ok t pgdir ys"
proof -
  note ok = assms(1) [unfolded pt_ok_def]
  show ?thesis
    unfolding pt_ok_def assms(2-4) using ok assms(5,6) by blast
qed

text \<open>Writing the entry of an address changes that page's entry only.\<close>

definition set_pte :: "memory \<Rightarrow> u32 \<Rightarrow> u32 \<Rightarrow> u32 \<Rightarrow> memory" where
  "set_pte m pgdir va e = store32 m (table m pgdir va + 4 * PTX va) e"

lemma set_pte_outside:
  assumes "pt_ok s pgdir xs" "has_table (mem s) pgdir va"
    and "kpage s w" "w \<noteq> table (mem s) pgdir va" "in_page w a"
  shows "set_pte (mem s) pgdir va e a = mem s a"
proof -
  have T: "kpage s (table (mem s) pgdir va)" using pt_ok_table [OF assms(1,2)] by simp
  have "\<not> in_page (table (mem s) pgdir va) a"
    using assms(3-5) T by (intro page_disjoint [of w]) (auto simp: kpage_mod)
  then show ?thesis unfolding set_pte_def by (rule store32_slot_outside [OF T PTX_less])
qed

lemma set_pte_directory:
  assumes "pt_ok s pgdir xs" "has_table (mem s) pgdir va"
  shows "pde (set_pte (mem s) pgdir va e) pgdir = pde (mem s) pgdir"
    "has_table (set_pte (mem s) pgdir va e) pgdir = has_table (mem s) pgdir"
    "table (set_pte (mem s) pgdir va e) pgdir = table (mem s) pgdir"
proof -
  note dir = pt_ok_dir [OF assms(1)] and T = pt_ok_table [OF assms]
  have "set_pte (mem s) pgdir va e a = mem s a" if "in_page pgdir a" for a
    using set_pte_outside [OF assms dir(1) T(2) [symmetric] that] .
  then show d: "pde (set_pte (mem s) pgdir va e) pgdir = pde (mem s) pgdir"
    by (intro ext pde_frame [OF dir(1)])
  show "has_table (set_pte (mem s) pgdir va e) pgdir = has_table (mem s) pgdir"
    "table (set_pte (mem s) pgdir va e) pgdir = table (mem s) pgdir"
    by (simp_all add: fun_eq_iff has_table_def table_def d)
qed

lemma set_pte_ok:
  assumes "kpool s xs" "pt_ok s pgdir xs" "has_table (mem s) pgdir va"
  shows "kpool (s\<lparr>mem := set_pte (mem s) pgdir va e\<rparr>) xs"
    and "pt_ok (s\<lparr>mem := set_pte (mem s) pgdir va e\<rparr>) pgdir xs"
proof -
  show "kpool (s\<lparr>mem := set_pte (mem s) pgdir va e\<rparr>) xs"
  proof (rule kpool_mem [OF assms(1)])
    fix x a
    assume x: "x \<in> set xs" and a: "in_page x a"
    have "x \<noteq> table (mem s) pgdir va" using pt_ok_table(3) [OF assms(2,3)] x by auto
    from set_pte_outside [OF assms(2,3) kpool_kpage [OF assms(1) x] this a]
    show "set_pte (mem s) pgdir va e a = mem s a" .
  qed
  show "pt_ok (s\<lparr>mem := set_pte (mem s) pgdir va e\<rparr>) pgdir xs"
    using set_pte_directory [OF assms(2,3)] pt_ok_dir [OF assms(2)] pt_ok_table [OF assms(2)]
    by (intro pt_ok_cong [OF assms(2)]) simp_all
qed

lemma pte_set_pte:
  assumes "pt_ok s pgdir xs" "has_table (mem s) pgdir va"
  shows "pte (set_pte (mem s) pgdir va e) pgdir vb =
    (if unat vb div 4096 = unat va div 4096 then e else pte (mem s) pgdir vb)"
proof (cases "has_table (mem s) pgdir vb")
  case True
  note T = pt_ok_table(1) [OF assms] and U = pt_ok_table(1) [OF assms(1) True]
  have "pte (set_pte (mem s) pgdir va e) pgdir vb =
      load32 (set_pte (mem s) pgdir va e) (table (mem s) pgdir vb + 4 * PTX vb)"
    using True by (simp add: pte_def set_pte_directory [OF assms])
  also have "\<dots> = (if table (mem s) pgdir vb = table (mem s) pgdir va \<and> PTX vb = PTX va then e
      else pte (mem s) pgdir vb)"
    unfolding set_pte_def load32_slot_store32_slot [OF U T PTX_less PTX_less] pte_def using True by simp
  finally show ?thesis unfolding pt_ok_inj [OF assms(1) True assms(2)] same_page_iff .
next
  case False
  then have "PDX vb \<noteq> PDX va" using assms(2) by (auto simp: has_table_def pde_def)
  then have "unat vb div 4096 \<noteq> unat va div 4096" using same_page_iff [of vb va] by auto
  with False show ?thesis by (simp add: pte_def set_pte_directory [OF assms])
qed

section \<open>walkpgdir\<close>

text \<open>Memory after \<open>walkpgdir\<close> made the page \<open>x\<close> the page table for \<open>va\<close>.\<close>

definition new_table :: "memory \<Rightarrow> u32 \<Rightarrow> u32 \<Rightarrow> u32 \<Rightarrow> memory" where
  "new_table m pgdir va x = store32 (fill m x 0 4096) (pgdir + 4 * PDX va) (V2P x OR PTE_P OR PTE_W OR PTE_U)"

lemma new_table_outside:
  assumes "kpage s pgdir" "\<not> in_page pgdir a" "\<not> in_page x a"
  shows "new_table m pgdir va x a = m a"
  unfolding new_table_def store32_slot_outside [OF assms(1) PDX_less assms(2)]
  using assms(3) by (simp add: fill_def)

lemma new_table_pde:
  assumes "kpage s pgdir" "kpage s x" "pgdir \<noteq> x"
  shows "pde (new_table m pgdir va x) pgdir vb =
    (if PDX vb = PDX va then V2P x OR PTE_P OR PTE_W OR PTE_U else pde m pgdir vb)"
  unfolding pde_def new_table_def load32_slot_store32_slot [OF assms(1,1) PDX_less PDX_less]
    load32_slot_fill [OF assms(1,2) PDX_less] using assms(3) by simp

lemma new_table_table:
  assumes "kpage s pgdir" "kpage s x" "pgdir \<noteq> x"
  shows "has_table (new_table m pgdir va x) pgdir vb \<longleftrightarrow> PDX vb = PDX va \<or> has_table m pgdir vb"
    and "table (new_table m pgdir va x) pgdir vb = (if PDX vb = PDX va then x else table m pgdir vb)"
  using table_entry [OF assms(2)]
  by (simp_all add: has_table_def table_def new_table_pde [OF assms])

lemma new_table_pte:
  assumes ok: "pt_ok s pgdir (x # xs)" and x: "kpage s x" and none: "\<not> has_table (mem s) pgdir va"
  shows "pte (new_table (mem s) pgdir va x) pgdir vb = pte (mem s) pgdir vb"
proof -
  have dir: "kpage s pgdir" "pgdir \<noteq> x" using pt_ok_dir [OF ok] by auto
  note tab = new_table_table [OF dir(1) x dir(2)]
  show ?thesis
  proof (cases "PDX vb = PDX va")
    case True
    have "\<not> has_table (mem s) pgdir vb" using none True by (simp add: has_table_def pde_def)
    moreover have "load32 (new_table (mem s) pgdir va x) (x + 4 * PTX vb) = 0"
      unfolding new_table_def load32_slot_store32_slot [OF x dir(1) PTX_less PDX_less]
        load32_slot_fill [OF x x PTX_less] using dir(2) by simp
    ultimately show ?thesis using True by (simp add: pte_def tab)
  next
    case False
    have "load32 (new_table (mem s) pgdir va x) (table (mem s) pgdir vb + 4 * PTX vb)
        = load32 (mem s) (table (mem s) pgdir vb + 4 * PTX vb)" if "has_table (mem s) pgdir vb"
    proof -
      note T = pt_ok_table [OF ok that]
      show ?thesis
        unfolding new_table_def load32_slot_store32_slot [OF T(1) dir(1) PTX_less PDX_less]
          load32_slot_fill [OF T(1) x PTX_less] using T(2,3) by simp
    qed
    with False show ?thesis by (simp add: pte_def tab)
  qed
qed

lemma new_table_ok:
  assumes pool: "kpool s (x # xs)" and ok: "pt_ok s pgdir (x # xs)" and none: "\<not> has_table (mem s) pgdir va"
  shows "kpool (s\<lparr>kmem_freelist := load32 (mem s) x, mem := new_table (mem s) pgdir va x\<rparr>) xs"
    and "pt_ok (s\<lparr>kmem_freelist := load32 (mem s) x, mem := new_table (mem s) pgdir va x\<rparr>) pgdir xs"
proof -
  have x: "kpage s x" "x \<notin> set xs" using pool kpool_kpage kpool_distinct by fastforce+
  have dir: "kpage s pgdir" "pgdir \<noteq> x" "pgdir \<notin> set xs" using pt_ok_dir [OF ok] by auto
  note tab = new_table_table [OF dir(1) x(1) dir(2)]
  have pool': "kpool (s\<lparr>kmem_freelist := load32 (mem s) x\<rparr>) xs" using kalloc_pool(2) [OF pool] by simp
  have "kpool (s\<lparr>kmem_freelist := load32 (mem s) x\<rparr>\<lparr>mem := new_table (mem s) pgdir va x\<rparr>) xs"
  proof (rule kpool_mem [OF pool'])
    fix y a
    assume y: "y \<in> set xs" and a: "in_page y a"
    have ky: "kpage s y" "y \<noteq> pgdir" "y \<noteq> x" using y pool kpool_kpage x dir by fastforce+
    have "\<not> in_page pgdir a" "\<not> in_page x a"
      using page_disjoint [OF _ _ ky(2) a] page_disjoint [OF _ _ ky(3) a] ky(1) x(1) dir(1)
      by (simp_all add: kpage_mod)
    then show "new_table (mem s) pgdir va x a = mem (s\<lparr>kmem_freelist := load32 (mem s) x\<rparr>) a"
      using new_table_outside [OF dir(1)] by simp
  qed
  then show "kpool (s\<lparr>kmem_freelist := load32 (mem s) x, mem := new_table (mem s) pgdir va x\<rparr>) xs" .
  show "pt_ok (s\<lparr>kmem_freelist := load32 (mem s) x, mem := new_table (mem s) pgdir va x\<rparr>) pgdir xs"
    unfolding pt_ok_def using dir x pt_ok_table [OF ok] pt_ok_inj [OF ok]
    by (simp add: tab) (metis list.set_intros)
qed

lemma walkpgdir_present:
  "has_table (mem s) pgdir va \<Longrightarrow> walkpgdir pgdir va alloc s = Done (table (mem s) pgdir va + 4 * PTX va) s"
  by (simp add: walkpgdir_def has_table_def table_def pde_def Let_def)

lemma walkpgdir_absent:
  "\<not> has_table (mem s) pgdir va \<Longrightarrow> walkpgdir pgdir va False s = Done 0 s"
  by (simp add: walkpgdir_def has_table_def pde_def Let_def)

lemma walkpgdir_new:
  assumes pool: "kpool s (x # xs)" and none: "\<not> has_table (mem s) pgdir va"
  shows "walkpgdir pgdir va True s = Done (x + 4 * PTX va)
    (s\<lparr>kmem_freelist := load32 (mem s) x, mem := new_table (mem s) pgdir va x\<rparr>)"
proof -
  have "x \<noteq> 0" using kpool_kpage [OF pool] kpage_nonzero by fastforce
  then show ?thesis
    using none kalloc_pool(1) [OF pool]
    by (simp add: walkpgdir_def has_table_def pde_def Let_def memset_fill new_table_def)
qed

lemma walkpgdir_full:
  "kpool s [] \<Longrightarrow> \<not> has_table (mem s) pgdir va \<Longrightarrow> walkpgdir pgdir va True s = Done 0 s"
  by (simp add: walkpgdir_def has_table_def pde_def Let_def ka.alloc_nil)

section \<open>Steps that may allocate page tables\<close>

text \<open>A page that belongs neither to the allocator nor to the page tables of \<open>pgdir\<close>.\<close>

definition foreign :: "'a vmstate_scheme \<Rightarrow> u32 \<Rightarrow> u32 list \<Rightarrow> u32 \<Rightarrow> bool" where
  "foreign s pgdir xs v \<longleftrightarrow> kpage s v \<and> v \<noteq> pgdir \<and> v \<notin> set xs
     \<and> (\<forall>va. has_table (mem s) pgdir va \<longrightarrow> table (mem s) pgdir va \<noteq> v)"

text \<open>
  From \<open>s\<close> to \<open>t\<close> the free list lost a prefix (to new tables), the address space stays well
  formed, foreign pages keep their contents and nothing but memory changes.
\<close>

definition pt_step :: "u32 \<Rightarrow> 'a vmstate_scheme \<Rightarrow> u32 list \<Rightarrow> 'a vmstate_scheme \<Rightarrow> u32 list \<Rightarrow> bool" where
  "pt_step pgdir s xs t ys \<longleftrightarrow>
     kpool t ys \<and> pt_ok t pgdir ys \<and> (\<exists>zs. xs = zs @ ys)
     \<and> (\<exists>f m. t = s\<lparr>kmem_freelist := f, mem := m\<rparr>)
     \<and> (\<forall>v. foreign s pgdir xs v \<longrightarrow> foreign t pgdir ys v \<and> (\<forall>a. in_page v a \<longrightarrow> mem t a = mem s a))"

lemma mem_only_refl: "\<exists>f m. (s :: 'a vmstate_scheme) = s\<lparr>kmem_freelist := f, mem := m\<rparr>"
proof -
  have "s = s\<lparr>kmem_freelist := kmem_freelist s, mem := mem s\<rparr>" by simp
  then show ?thesis by blast
qed

lemma mem_only_trans:
  assumes "\<exists>f m. t = (s :: 'a vmstate_scheme)\<lparr>kmem_freelist := f, mem := m\<rparr>"
    and "\<exists>f m. u = t\<lparr>kmem_freelist := f, mem := m\<rparr>"
  shows "\<exists>f m. u = s\<lparr>kmem_freelist := f, mem := m\<rparr>"
proof -
  obtain f m f' m' where "t = s\<lparr>kmem_freelist := f, mem := m\<rparr>" "u = t\<lparr>kmem_freelist := f', mem := m'\<rparr>"
    using assms by blast
  then have "u = s\<lparr>kmem_freelist := f', mem := m'\<rparr>" by simp
  then show ?thesis by blast
qed

lemma pt_stepD:
  assumes "pt_step pgdir s xs t ys"
  shows "kpool t ys" "pt_ok t pgdir ys" "\<exists>zs. xs = zs @ ys" "\<exists>f m. t = s\<lparr>kmem_freelist := f, mem := m\<rparr>"
    and "foreign s pgdir xs v \<Longrightarrow> foreign t pgdir ys v"
    and "foreign s pgdir xs v \<Longrightarrow> in_page v a \<Longrightarrow> mem t a = mem s a"
  using assms unfolding pt_step_def by auto

lemma pt_step_refl: "kpool s xs \<Longrightarrow> pt_ok s pgdir xs \<Longrightarrow> pt_step pgdir s xs s xs"
  using mem_only_refl [of s] unfolding pt_step_def by simp

lemma pt_step_trans:
  assumes "pt_step pgdir s xs t ys" "pt_step pgdir t ys u zs"
  shows "pt_step pgdir s xs u zs"
proof -
  have "\<exists>ws. xs = ws @ zs"
    using pt_stepD(3) [OF assms(1)] pt_stepD(3) [OF assms(2)] by (metis append.assoc)
  then show ?thesis
    using pt_stepD [OF assms(1)] pt_stepD [OF assms(2)]
      mem_only_trans [OF pt_stepD(4) [OF assms(1)] pt_stepD(4) [OF assms(2)]]
    unfolding pt_step_def by metis
qed

lemma pt_step_kpage: "pt_step pgdir s xs t ys \<Longrightarrow> kpage t = kpage s"
  using pt_stepD(4) by fastforce

lemma set_pte_step:
  assumes pool: "kpool s xs" and ok: "pt_ok s pgdir xs" and tab: "has_table (mem s) pgdir va"
  shows "pt_step pgdir s xs (s\<lparr>mem := set_pte (mem s) pgdir va e\<rparr>) xs"
proof -
  have "\<exists>f m. s\<lparr>mem := set_pte (mem s) pgdir va e\<rparr> = s\<lparr>kmem_freelist := f, mem := m\<rparr>"
    by (rule exI [of _ "kmem_freelist s"]) auto
  moreover have "foreign (s\<lparr>mem := set_pte (mem s) pgdir va e\<rparr>) pgdir xs v"
    and "in_page v a \<Longrightarrow> set_pte (mem s) pgdir va e a = mem s a" if "foreign s pgdir xs v" for v a
  proof -
    show "foreign (s\<lparr>mem := set_pte (mem s) pgdir va e\<rparr>) pgdir xs v"
      using that by (simp add: foreign_def set_pte_directory [OF ok tab])
    show "in_page v a \<Longrightarrow> set_pte (mem s) pgdir va e a = mem s a"
      using that tab by (intro set_pte_outside [OF ok tab]) (auto simp: foreign_def)
  qed
  ultimately show ?thesis using set_pte_ok [OF assms] unfolding pt_step_def by simp
qed

lemma new_table_step:
  assumes pool: "kpool s (x # xs)" and ok: "pt_ok s pgdir (x # xs)" and none: "\<not> has_table (mem s) pgdir va"
  shows "pt_step pgdir s (x # xs)
    (s\<lparr>kmem_freelist := load32 (mem s) x, mem := new_table (mem s) pgdir va x\<rparr>) xs"
proof -
  have x: "kpage s x" using pool kpool_kpage by fastforce
  have dir: "kpage s pgdir" "pgdir \<noteq> x" using pt_ok_dir [OF ok] by auto
  note tab = new_table_table [OF dir(1) x dir(2)]
  have "foreign (s\<lparr>kmem_freelist := load32 (mem s) x, mem := new_table (mem s) pgdir va x\<rparr>) pgdir xs v"
    and "in_page v a \<Longrightarrow> new_table (mem s) pgdir va x a = mem s a" if "foreign s pgdir (x # xs) v" for v a
  proof -
    have v: "kpage s v" "v \<noteq> pgdir" "v \<noteq> x" using that by (simp_all add: foreign_def)
    show "foreign (s\<lparr>kmem_freelist := load32 (mem s) x, mem := new_table (mem s) pgdir va x\<rparr>) pgdir xs v"
      using that by (auto simp: foreign_def tab)
    show "new_table (mem s) pgdir va x a = mem s a" if a: "in_page v a"
      using page_disjoint [OF _ _ v(2) a] page_disjoint [OF _ _ v(3) a] v(1) x dir(1)
      by (intro new_table_outside [OF dir(1)]) (simp_all add: kpage_mod)
  qed
  then show ?thesis using new_table_ok [OF assms] unfolding pt_step_def by auto
qed

lemma walkpgdir_alloc:
  assumes pool: "kpool s xs" and ok: "pt_ok s pgdir xs"
  obtains (full) "xs = []" "walkpgdir pgdir va True s = Done 0 s"
    | (slot) t ys where "walkpgdir pgdir va True s = Done (table (mem t) pgdir va + 4 * PTX va) t"
        "pt_step pgdir s xs t ys" "has_table (mem t) pgdir va"
        "\<And>vb. pte (mem t) pgdir vb = pte (mem s) pgdir vb"
proof (cases "has_table (mem s) pgdir va")
  case True
  with walkpgdir_present [OF True] pt_step_refl [OF pool ok] slot show ?thesis by blast
next
  case False
  show ?thesis
  proof (cases xs)
    case Nil
    with full walkpgdir_full [OF _ False] pool show ?thesis by blast
  next
    case (Cons x xs')
    have x: "kpage s x" and dir: "kpage s pgdir" "pgdir \<noteq> x"
      using pool ok Cons kpool_kpage pt_ok_dir by fastforce+
    let ?t = "s\<lparr>kmem_freelist := load32 (mem s) x, mem := new_table (mem s) pgdir va x\<rparr>"
    show ?thesis
    proof (rule slot [of ?t xs'])
      show "pt_step pgdir s xs ?t xs'" using new_table_step pool ok False Cons by blast
      show "walkpgdir pgdir va True s = Done (table (mem ?t) pgdir va + 4 * PTX va) ?t"
        using walkpgdir_new [OF _ False] pool Cons by (simp add: new_table_table [OF dir(1) x dir(2)])
      show "has_table (mem ?t) pgdir va" by (simp add: new_table_table [OF dir(1) x dir(2)])
      show "pte (mem ?t) pgdir vb = pte (mem s) pgdir vb" for vb
        using new_table_pte [of s pgdir x xs' va vb] ok x False Cons by simp
    qed
  qed
qed

section \<open>mappages\<close>

text \<open>Page numbers.\<close>

abbreviation page_no :: "u32 \<Rightarrow> nat" where
  "page_no va \<equiv> unat va div 4096"

text \<open>
  The outcome of mapping the pages from number \<open>A\<close> to number \<open>L\<close> to the frames from \<open>pa\<close> on: all
  are mapped, or the allocator ran dry after some of them; page \<open>k\<close> is the first not reached.
\<close>

definition mapped :: "u32 \<Rightarrow> nat \<Rightarrow> nat \<Rightarrow> u32 \<Rightarrow> u32 \<Rightarrow> 'a vmstate_scheme \<Rightarrow> u32 list
    \<Rightarrow> int \<Rightarrow> 'a vmstate_scheme \<Rightarrow> u32 list \<Rightarrow> bool" where
  "mapped pgdir A L pa perm s xs r t ys \<longleftrightarrow>
     pt_step pgdir s xs t ys \<and>
     (\<exists>k. (r = 0 \<and> k = Suc L \<or> r = - 1 \<and> A \<le> k \<and> k \<le> L \<and> ys = []) \<and>
        (\<forall>vb. pte (mem t) pgdir vb =
          (if A \<le> page_no vb \<and> page_no vb < k
           then (pa + of_nat (4096 * (page_no vb - A))) OR perm OR PTE_P else pte (mem s) pgdir vb)))"

lemma next_page:
  fixes a :: u32
  assumes "unat a mod 4096 = 0" "unat l mod 4096 = 0" "unat a < unat (l :: u32)"
  shows "unat (a + 4096) = unat a + 4096" "unat a + 4096 \<le> unat l" "unat (a + 4096) mod 4096 = 0"
    "page_no (a + 4096) = Suc (page_no a)"
proof -
  obtain p q where pq: "unat a = 4096 * p" "unat l = 4096 * q"
    using assms(1,2) by (meson mod_0_imp_dvd dvdE)
  then have "p < q" using assms(3) by simp
  then show le: "unat a + 4096 \<le> unat l" using pq by simp
  then have "unat a + unat (4096 :: u32) < 4294967296" using u32_unat_less [of l] pq by simp
  then show u: "unat (a + 4096) = unat a + 4096" by (simp add: unat_add32)
  show "unat (a + 4096) mod 4096 = 0" "page_no (a + 4096) = Suc (page_no a)"
    using u assms(1) by simp_all
qed

lemma mapped_Cons:
  assumes step: "pt_step pgdir s xs t ys" and A: "page_no a = A" "A < L"
    and first: "\<And>vb. pte (mem t) pgdir vb = (if page_no vb = A then pa OR perm OR PTE_P else pte (mem s) pgdir vb)"
    and rest: "mapped pgdir (Suc A) L (pa + PGSIZE) perm t ys r u zs"
  shows "mapped pgdir A L pa perm s xs r u zs"
proof -
  obtain k where u: "pt_step pgdir t ys u zs"
    and k: "r = 0 \<and> k = Suc L \<or> r = - 1 \<and> Suc A \<le> k \<and> k \<le> L \<and> zs = []"
    and z: "\<And>vb. pte (mem u) pgdir vb = (if Suc A \<le> page_no vb \<and> page_no vb < k
      then (pa + PGSIZE + of_nat (4096 * (page_no vb - Suc A))) OR perm OR PTE_P else pte (mem t) pgdir vb)"
    using rest unfolding mapped_def by blast
  have frame: "(pa + PGSIZE) + of_nat (4096 * (n - Suc A)) = pa + of_nat (4096 * (n - A))" if "A < n" for n
  proof -
    have "4096 * (n - A) = 4096 + 4096 * (n - Suc A)" using that by simp
    then have "(of_nat (4096 * (n - A)) :: u32) = 4096 + of_nat (4096 * (n - Suc A))"
      by (simp only: of_nat_add of_nat_numeral)
    then show ?thesis by (simp only: add.assoc)
  qed
  have kA: "A < k" using k A(2) by linarith
  have "pte (mem u) pgdir vb = (if A \<le> page_no vb \<and> page_no vb < k
      then (pa + of_nat (4096 * (page_no vb - A))) OR perm OR PTE_P else pte (mem s) pgdir vb)" for vb
  proof -
    consider "page_no vb < A" | "page_no vb = A" | "A < page_no vb" by linarith
    then show ?thesis
    proof cases
      case 3
      then show ?thesis unfolding z [of vb] frame [OF 3] using first [of vb] by auto
    qed (use z [of vb] first [of vb] kA in simp_all)
  qed
  moreover have "r = 0 \<and> k = Suc L \<or> r = - 1 \<and> A \<le> k \<and> k \<le> L \<and> zs = []" using k by linarith
  ultimately show ?thesis
    using pt_step_trans [OF step u] unfolding mapped_def by blast
qed

lemma mappages_loop_spec:
  assumes "kpool s xs" "pt_ok s pgdir xs"
    and "unat a mod 4096 = 0" "unat l mod 4096 = 0" "unat a \<le> unat l" "page_no l - page_no a < n"
    and "\<And>vb. page_no a \<le> page_no vb \<Longrightarrow> page_no vb \<le> page_no l \<Longrightarrow> pte (mem s) pgdir vb AND PTE_P = 0"
  shows "\<exists>r t ys. mappages_loop n pgdir a l pa perm s = Done r t \<and>
    mapped pgdir (page_no a) (page_no l) pa perm s xs r t ys"
  using assms
proof (induction n arbitrary: a pa s xs)
  case 0
  then show ?case by simp
next
  case (Suc n)
  show ?case
  proof (rule walkpgdir_alloc [OF Suc.prems(1,2), of a])
    assume "xs = []" "walkpgdir pgdir a True s = Done 0 s"
    then have "mappages_loop (Suc n) pgdir a l pa perm s = Done (- 1) s" by simp
    moreover have "mapped pgdir (page_no a) (page_no l) pa perm s xs (- 1) s xs"
      unfolding mapped_def using pt_step_refl [OF Suc.prems(1,2)] \<open>xs = []\<close> Suc.prems(5)
      by (intro conjI exI [of _ "page_no a"]) (simp_all add: div_le_mono not_le [symmetric])
    ultimately show ?thesis by blast
  next
    fix t ys
    assume w: "walkpgdir pgdir a True s = Done (table (mem t) pgdir a + 4 * PTX a) t"
      and step: "pt_step pgdir s xs t ys" and tab: "has_table (mem t) pgdir a"
      and same: "\<And>vb. pte (mem t) pgdir vb = pte (mem s) pgdir vb"
    note t = pt_stepD(1,2) [OF step]
    let ?u = "t\<lparr>mem := set_pte (mem t) pgdir a (pa OR perm OR PTE_P)\<rparr>"
    have nz: "table (mem t) pgdir a + 4 * PTX a \<noteq> 0"
      by (rule slot_nonzero [OF pt_ok_table(1) [OF t(2) tab] PTX_less])
    have free: "load32 (mem t) (table (mem t) pgdir a + 4 * PTX a) AND PTE_P = 0"
      using Suc.prems(5) Suc.prems(7) [of a] same [of a] tab by (simp add: pte_def div_le_mono)
    have step': "pt_step pgdir s xs ?u ys" using pt_step_trans [OF step set_pte_step [OF t tab]] .
    have ptes: "pte (mem ?u) pgdir vb =
        (if page_no vb = page_no a then pa OR perm OR PTE_P else pte (mem s) pgdir vb)" for vb
      using pte_set_pte [OF t(2) tab] same by simp
    have loop: "mappages_loop (Suc n) pgdir a l pa perm s =
        (if a = l then Done 0 ?u else mappages_loop n pgdir (a + PGSIZE) l (pa + PGSIZE) perm ?u)"
      using w nz free by (simp add: Let_def set_pte_def)
    show ?thesis
    proof (cases "a = l")
      case True
      then have "mapped pgdir (page_no a) (page_no l) pa perm s xs 0 ?u ys"
        unfolding mapped_def using step' ptes
        by (intro conjI exI [of _ "Suc (page_no l)"]) (auto simp: less_Suc_eq_le le_antisym)
      with loop True show ?thesis by auto
    next
      case False
      then have lt: "unat a < unat l" using Suc.prems(5) by (auto simp: u32_eq_iff_unat)
      note np = next_page [OF Suc.prems(3,4) lt]
      have pages: "page_no a < page_no l"
        using np div_le_mono [of "unat (a + 4096)" "unat l" 4096] by simp
      have "\<exists>r v zs. mappages_loop n pgdir (a + 4096) l (pa + 4096) perm ?u = Done r v \<and>
          mapped pgdir (page_no (a + 4096)) (page_no l) (pa + 4096) perm ?u ys r v zs"
      proof (rule Suc.IH)
        show "kpool ?u ys" "pt_ok ?u pgdir ys" using pt_stepD [OF step'] by simp_all
        show "pte (mem ?u) pgdir vb AND PTE_P = 0"
          if "page_no (a + 4096) \<le> page_no vb" "page_no vb \<le> page_no l" for vb
          using that np(4) Suc.prems(7) [of vb] ptes [of vb] by auto
        show "page_no l - page_no (a + 4096) < n" using Suc.prems(6) pages unfolding np(4) by linarith
      qed (use Suc.prems np in auto)
      then obtain r v zs where "mappages_loop n pgdir (a + 4096) l (pa + 4096) perm ?u = Done r v"
        "mapped pgdir (Suc (page_no a)) (page_no l) (pa + 4096) perm ?u ys r v zs"
        using np(4) by auto
      then show ?thesis
        using mapped_Cons [OF step' refl pages ptes] False unfolding loop by auto
    qed
  qed
qed

lemma mappages_spec:
  assumes "kpool s xs" "pt_ok s pgdir xs" and sz: "0 < sz" "unat va + unat sz \<le> 4294967296"
    and "\<And>vb. page_no va \<le> page_no vb \<Longrightarrow> page_no vb \<le> page_no (va + sz - 1) \<Longrightarrow>
      pte (mem s) pgdir vb AND PTE_P = 0"
  shows "\<exists>r t ys. mappages pgdir va sz pa perm s = Done r t \<and>
    mapped pgdir (page_no va) (page_no (va + sz - 1)) pa perm s xs r t ys"
proof -
  have "1 \<le> sz" using sz(1) by (simp add: word_le_nat_alt word_less_nat_alt)
  then have s1: "unat (sz - 1) = unat sz - 1" by (simp add: unat_sub32)
  have "unat va + unat (sz - 1) < 4294967296"
    using sz s1 by (simp add: word_less_nat_alt)
  from unat_add32 [OF this] have le: "unat va \<le> unat (va + sz - 1)" by (simp add: add_diff_eq)
  have p: "page_no (PGROUNDDOWN a) = page_no a" "unat (PGROUNDDOWN a) mod 4096 = 0" for a
    by (simp_all add: page_simps)
  have "page_no (va + sz - 1) < 1048576" using u32_unat_less [of "va + sz - 1"] by (simp add: less_mult_imp_div_less)
  then have "page_no (PGROUNDDOWN (va + sz - 1)) - page_no (PGROUNDDOWN va) < 1048576" unfolding p by linarith
  moreover have "unat (PGROUNDDOWN va) \<le> unat (PGROUNDDOWN (va + sz - 1))"
    using le by (simp add: page_simps div_le_mono)
  ultimately show ?thesis
    unfolding mappages_def
    using mappages_loop_spec [OF assms(1,2) p(2) p(2), of va "va + sz - 1" 1048576 pa perm] assms(5)
    unfolding p by blast
qed

end
