(* ===== verification/UserMemory.thy ===== *)
theory UserMemory
  imports PageTables
begin

unbundle bit_operations_syntax

text \<open>
  The user part of an address space: every page mapped below KERNBASE has a frame of its own,
  which is neither free nor part of the page tables. \<open>deallocuvm\<close> unmaps exactly the pages of the
  range and gives their frames back; \<open>allocuvm\<close> maps fresh zeroed frames, or rolls back.
\<close>

definition frame :: "memory \<Rightarrow> u32 \<Rightarrow> u32 \<Rightarrow> u32" where
  "frame m pgdir va = P2V (PTE_ADDR (pte m pgdir va))"

text \<open>A user address whose page is present.\<close>

definition user_page :: "memory \<Rightarrow> u32 \<Rightarrow> u32 \<Rightarrow> bool" where
  "user_page m pgdir va \<longleftrightarrow> va < KERNBASE \<and> pte m pgdir va AND PTE_P \<noteq> 0"

text \<open>The kernel image is linked above KERNBASE, so that the frame at physical address 0 is never used.\<close>

definition uvm_ok :: "'a vmstate_scheme \<Rightarrow> u32 \<Rightarrow> u32 list \<Rightarrow> bool" where
  "uvm_ok s pgdir xs \<longleftrightarrow>
     kpool s xs \<and> pt_ok s pgdir xs \<and> KERNBASE < sym_end s \<and>
     (\<forall>va. user_page (mem s) pgdir va \<longrightarrow> foreign s pgdir xs (frame (mem s) pgdir va)) \<and>
     (\<forall>va vb. user_page (mem s) pgdir va \<longrightarrow> user_page (mem s) pgdir vb \<longrightarrow>
        frame (mem s) pgdir va = frame (mem s) pgdir vb \<longrightarrow> page_no va = page_no vb)"

lemma uvm_okD:
  assumes "uvm_ok s pgdir xs"
  shows "kpool s xs" "pt_ok s pgdir xs"
    and "user_page (mem s) pgdir va \<Longrightarrow> foreign s pgdir xs (frame (mem s) pgdir va)"
    and "user_page (mem s) pgdir va \<Longrightarrow> user_page (mem s) pgdir vb \<Longrightarrow>
      frame (mem s) pgdir va = frame (mem s) pgdir vb \<Longrightarrow> page_no va = page_no vb"
    and "KERNBASE < sym_end s"
  using assms unfolding uvm_ok_def by blast+

lemma pte_page: "page_no va = page_no vb \<Longrightarrow> pte m pgdir va = pte m pgdir vb"
  using same_page_iff [of va vb] by (simp add: pte_def has_table_def table_def pde_def)

lemma user_page_table: "user_page m pgdir va \<Longrightarrow> has_table m pgdir va"
  by (auto simp: user_page_def pte_def split: if_splits)

lemma KERNBASE_page: "va < KERNBASE \<longleftrightarrow> page_no va < 524288"
  unfolding word_less_nat_alt by (simp add: less_mult_imp_div_less div_less_iff_less_mult)

section \<open>Giving a page back\<close>

text \<open>The state after \<open>kfree\<close> of the page \<open>F\<close>.\<close>

definition free_page :: "u32 \<Rightarrow> 'a vmstate_scheme \<Rightarrow> 'a vmstate_scheme" where
  "free_page F s = s\<lparr>kmem_freelist := F, mem := freed_mem (mem s) F (kmem_freelist s)\<rparr>"

lemma kfree_free_page:
  assumes "kpool s xs" "kpage s F" "F \<notin> set xs"
  shows "kfree F s = Done () (free_page F s)" "kpool (free_page F s) (F # xs)"
proof -
  have eq: "free_page F s = s\<lparr>mem := freed_mem (mem s) F (kmem_freelist s), kmem_freelist := F\<rparr>"
    unfolding free_page_def by simp
  show "kfree F s = Done () (free_page F s)" "kpool (free_page F s) (F # xs)"
    unfolding eq using kfree_pool [OF assms] by blast+
qed

lemma kpage_free_page [simp]: "kpage (free_page F s) = kpage s"
  by (simp add: free_page_def)

lemma free_page_outside:
  assumes "kpage s F" "kpage s v" "v \<noteq> F" "in_page v a"
  shows "mem (free_page F s) a = mem s a"
proof -
  have "\<not> in_page F a" using page_disjoint [OF _ _ assms(3,4)] assms(1,2) by (simp add: kpage_mod)
  then show ?thesis using freed_mem_outside [OF assms(1)] by (simp add: free_page_def)
qed

text \<open>Freeing a foreign page leaves the address space alone.\<close>

lemma free_page_entries:
  assumes ok: "pt_ok s pgdir xs" and F: "foreign s pgdir xs F"
  shows "has_table (mem (free_page F s)) pgdir = has_table (mem s) pgdir"
    "table (mem (free_page F s)) pgdir = table (mem s) pgdir"
    "pte (mem (free_page F s)) pgdir = pte (mem s) pgdir"
proof -
  have k: "kpage s F" "F \<noteq> pgdir" using F by (simp_all add: foreign_def)
  have dir: "mem (free_page F s) a = mem s a" if "in_page pgdir a" for a
    using free_page_outside [OF k(1) pt_ok_dir(1) [OF ok] k(2) [symmetric] that] .
  have tab: "mem (free_page F s) a = mem s a"
    if "has_table (mem s) pgdir va" "in_page (table (mem s) pgdir va) a" for va a
    using that F by (intro free_page_outside [OF k(1) pt_ok_table(1) [OF ok that(1)]]) (auto simp: foreign_def)
  show "has_table (mem (free_page F s)) pgdir = has_table (mem s) pgdir"
    by (rule pt_frame(2) [OF ok], erule dir, erule (1) tab)
  show "table (mem (free_page F s)) pgdir = table (mem s) pgdir"
    by (rule pt_frame(3) [OF ok], erule dir, erule (1) tab)
  show "pte (mem (free_page F s)) pgdir = pte (mem s) pgdir"
    by (rule pt_frame(4) [OF ok], erule dir, erule (1) tab)
qed

lemma free_page_pt_ok:
  assumes ok: "pt_ok s pgdir xs" and F: "foreign s pgdir xs F"
  shows "pt_ok (free_page F s) pgdir (F # xs)"
proof (rule pt_ok_cong [OF ok free_page_entries(1,2) [OF assms]])
  show "pgdir \<notin> set (F # xs)" using pt_ok_dir(2) [OF ok] F by (auto simp: foreign_def)
  show "table (mem s) pgdir va \<notin> set (F # xs)" if "has_table (mem s) pgdir va" for va
    using pt_ok_table(3) [OF ok that] F that by (auto simp: foreign_def)
qed simp

section \<open>Unmapping one page\<close>

text \<open>The state after the frame of \<open>va\<close> was freed and its entry cleared.\<close>

definition unmap_page :: "u32 \<Rightarrow> u32 \<Rightarrow> 'a vmstate_scheme \<Rightarrow> 'a vmstate_scheme" where
  "unmap_page pgdir va s =
     (let t = free_page (frame (mem s) pgdir va) s in t\<lparr>mem := set_pte (mem t) pgdir va 0\<rparr>)"

lemma unmap_page_state: "\<exists>f m. unmap_page pgdir va s = s\<lparr>kmem_freelist := f, mem := m\<rparr>"
proof -
  let ?t = "free_page (frame (mem s) pgdir va) s"
  have "unmap_page pgdir va s = s\<lparr>kmem_freelist := frame (mem s) pgdir va, mem := set_pte (mem ?t) pgdir va 0\<rparr>"
    unfolding unmap_page_def Let_def free_page_def by simp
  then show ?thesis by blast
qed

lemma unmap_page_entries:
  assumes ok: "uvm_ok s pgdir xs" and va: "user_page (mem s) pgdir va"
  shows "has_table (mem (unmap_page pgdir va s)) pgdir = has_table (mem s) pgdir"
    "table (mem (unmap_page pgdir va s)) pgdir = table (mem s) pgdir"
    "pte (mem (unmap_page pgdir va s)) pgdir vb = (if page_no vb = page_no va then 0 else pte (mem s) pgdir vb)"
    "kpool (unmap_page pgdir va s) (frame (mem s) pgdir va # xs)"
    "pt_ok (unmap_page pgdir va s) pgdir (frame (mem s) pgdir va # xs)"
proof -
  let ?F = "frame (mem s) pgdir va"
  let ?t = "free_page ?F s"
  have F: "foreign s pgdir xs ?F" using uvm_okD(3) [OF ok va] .
  note pt = uvm_okD(2) [OF ok] and e = free_page_entries [OF uvm_okD(2) [OF ok] F]
  have t: "kpool ?t (?F # xs)" "pt_ok ?t pgdir (?F # xs)"
    using kfree_free_page(2) [OF uvm_okD(1) [OF ok]] F free_page_pt_ok [OF pt F] by (auto simp: foreign_def)
  have tab: "has_table (mem ?t) pgdir va" using user_page_table [OF va] by (simp add: e)
  have u: "unmap_page pgdir va s = ?t\<lparr>mem := set_pte (mem ?t) pgdir va 0\<rparr>"
    by (simp add: unmap_page_def Let_def)
  have mu: "mem (unmap_page pgdir va s) = set_pte (mem ?t) pgdir va 0" by (simp add: u)
  show "has_table (mem (unmap_page pgdir va s)) pgdir = has_table (mem s) pgdir"
    "table (mem (unmap_page pgdir va s)) pgdir = table (mem s) pgdir"
    unfolding mu by (simp_all add: set_pte_directory [OF t(2) tab] e)
  show "pte (mem (unmap_page pgdir va s)) pgdir vb = (if page_no vb = page_no va then 0 else pte (mem s) pgdir vb)"
    unfolding mu by (simp add: pte_set_pte [OF t(2) tab] e)
  show "kpool (unmap_page pgdir va s) (?F # xs)" "pt_ok (unmap_page pgdir va s) pgdir (?F # xs)"
    unfolding u using set_pte_ok [OF t tab] by blast+
qed

lemma unmap_page_foreign:
  assumes ok: "uvm_ok s pgdir xs" and va: "user_page (mem s) pgdir va"
    and v: "foreign s pgdir xs v" "v \<noteq> frame (mem s) pgdir va"
  shows "foreign (unmap_page pgdir va s) pgdir (frame (mem s) pgdir va # xs) v"
    and "in_page v a \<Longrightarrow> mem (unmap_page pgdir va s) a = mem s a"
proof -
  let ?F = "frame (mem s) pgdir va"
  let ?t = "free_page ?F s"
  have F: "foreign s pgdir xs ?F" using uvm_okD(3) [OF ok va] .
  note pt = uvm_okD(2) [OF ok] and e = free_page_entries [OF uvm_okD(2) [OF ok] F]
  have k: "kpage (unmap_page pgdir va s) = kpage s" by (simp add: unmap_page_def Let_def)
  show "foreign (unmap_page pgdir va s) pgdir (?F # xs) v"
    using v unfolding foreign_def unmap_page_entries(1,2) [OF ok va] k by simp
  have tab: "has_table (mem ?t) pgdir va" using user_page_table [OF va] by (simp add: e)
  have pt': "pt_ok ?t pgdir (?F # xs)" by (rule free_page_pt_ok [OF pt F])
  show "mem (unmap_page pgdir va s) a = mem s a" if a: "in_page v a"
  proof -
    have "mem (unmap_page pgdir va s) a = set_pte (mem ?t) pgdir va 0 a"
      by (simp add: unmap_page_def Let_def)
    also have "\<dots> = mem ?t a"
      using v user_page_table [OF va] a by (intro set_pte_outside [OF pt' tab, of v]) (auto simp: foreign_def e)
    also have "\<dots> = mem s a"
      using v F a by (intro free_page_outside) (auto simp: foreign_def)
    finally show ?thesis .
  qed
qed

lemma user_page_unmap:
  assumes ok: "uvm_ok s pgdir xs" and va: "user_page (mem s) pgdir va"
  shows "user_page (mem (unmap_page pgdir va s)) pgdir vb \<longleftrightarrow>
      user_page (mem s) pgdir vb \<and> page_no vb \<noteq> page_no va"
    and "page_no vb \<noteq> page_no va \<Longrightarrow>
      frame (mem (unmap_page pgdir va s)) pgdir vb = frame (mem s) pgdir vb"
  by (simp_all add: user_page_def frame_def unmap_page_entries(3) [OF assms])

lemma unmap_page_ok:
  assumes ok: "uvm_ok s pgdir xs" and va: "user_page (mem s) pgdir va"
  shows "uvm_ok (unmap_page pgdir va s) pgdir (frame (mem s) pgdir va # xs)"
proof -
  let ?u = "unmap_page pgdir va s" and ?F = "frame (mem s) pgdir va"
  have "foreign ?u pgdir (?F # xs) (frame (mem ?u) pgdir vb)" if "user_page (mem ?u) pgdir vb" for vb
  proof -
    have vb: "user_page (mem s) pgdir vb" "page_no vb \<noteq> page_no va"
      using that user_page_unmap(1) [OF assms] by blast+
    have "frame (mem s) pgdir vb \<noteq> ?F" using uvm_okD(4) [OF ok vb(1) va] vb(2) by blast
    then show ?thesis
      unfolding user_page_unmap(2) [OF assms vb(2)]
      by (rule unmap_page_foreign(1) [OF assms uvm_okD(3) [OF ok vb(1)]])
  qed
  moreover have "page_no vb = page_no vc"
    if "user_page (mem ?u) pgdir vb" "user_page (mem ?u) pgdir vc"
      "frame (mem ?u) pgdir vb = frame (mem ?u) pgdir vc" for vb vc
    using that user_page_unmap [OF assms] uvm_okD(4) [OF ok] by metis
  moreover have "KERNBASE < sym_end ?u"
    using uvm_okD(5) [OF ok] by (simp add: unmap_page_def Let_def free_page_def)
  ultimately show ?thesis
    using unmap_page_entries(4,5) [OF assms] unfolding uvm_ok_def by blast
qed

section \<open>deallocuvm\<close>

text \<open>
  The user pages numbered \<open>A\<close> up to \<open>B\<close> (exclusive) were unmapped and their frames freed; other
  entries, and pages outside, are as before.
\<close>

definition frames_in :: "memory \<Rightarrow> u32 \<Rightarrow> nat \<Rightarrow> nat \<Rightarrow> u32 set" where
  "frames_in m pgdir A B =
     frame m pgdir ` {vb. user_page m pgdir vb \<and> A \<le> page_no vb \<and> page_no vb < B}"

definition unmapped :: "u32 \<Rightarrow> nat \<Rightarrow> nat \<Rightarrow> 'a vmstate_scheme \<Rightarrow> u32 list
    \<Rightarrow> 'a vmstate_scheme \<Rightarrow> u32 list \<Rightarrow> bool" where
  "unmapped pgdir A B s xs t ys \<longleftrightarrow>
     uvm_ok t pgdir ys
     \<and> (\<exists>fs. ys = fs @ xs \<and> set fs = frames_in (mem s) pgdir A B)
     \<and> (\<forall>vb. pte (mem t) pgdir vb =
          (if user_page (mem s) pgdir vb \<and> A \<le> page_no vb \<and> page_no vb < B then 0 else pte (mem s) pgdir vb))
     \<and> (\<exists>f m. t = s\<lparr>kmem_freelist := f, mem := m\<rparr>)
     \<and> (\<forall>v. foreign s pgdir xs v \<longrightarrow> v \<notin> frames_in (mem s) pgdir A B \<longrightarrow>
          foreign t pgdir ys v \<and> (\<forall>a. in_page v a \<longrightarrow> mem t a = mem s a))"

lemma unmapped_empty:
  assumes ok: "uvm_ok s pgdir xs"
    and none: "\<And>vb. \<not> (user_page (mem s) pgdir vb \<and> A \<le> page_no vb \<and> page_no vb < B)"
  shows "unmapped pgdir A B s xs s xs"
proof -
  have no: "(user_page (mem s) pgdir vb \<and> A \<le> page_no vb \<and> page_no vb < B) = False" for vb
    using none by blast
  have "frames_in (mem s) pgdir A B = {}" unfolding frames_in_def no by simp
  then show ?thesis unfolding unmapped_def no using ok mem_only_refl [of s] by simp
qed

lemma unmapped_skip:
  assumes "unmapped pgdir A' B s xs t ys" and "A \<le> A'"
    and "\<And>vb. \<not> (user_page (mem s) pgdir vb \<and> A \<le> page_no vb \<and> page_no vb < A' \<and> page_no vb < B)"
  shows "unmapped pgdir A B s xs t ys"
proof -
  have iff: "user_page (mem s) pgdir vb \<and> A \<le> page_no vb \<and> page_no vb < B \<longleftrightarrow>
      user_page (mem s) pgdir vb \<and> A' \<le> page_no vb \<and> page_no vb < B" for vb
    using assms(2,3) by (meson le_trans not_le)
  then have "frames_in (mem s) pgdir A B = frames_in (mem s) pgdir A' B" by (simp add: frames_in_def)
  with assms(1) show ?thesis unfolding unmapped_def iff by simp
qed

lemma frames_in_first:
  assumes "uvm_ok s pgdir xs" "user_page (mem s) pgdir va" "page_no va = A" "A < B"
  shows "frames_in (mem s) pgdir A B =
    insert (frame (mem s) pgdir va) (frames_in (mem (unmap_page pgdir va s)) pgdir (Suc A) B)"
proof (intro set_eqI iffI)
  fix x
  assume "x \<in> frames_in (mem s) pgdir A B"
  then obtain vb where vb: "x = frame (mem s) pgdir vb" "user_page (mem s) pgdir vb" "A \<le> page_no vb" "page_no vb < B"
    unfolding frames_in_def by blast
  show "x \<in> insert (frame (mem s) pgdir va) (frames_in (mem (unmap_page pgdir va s)) pgdir (Suc A) B)"
  proof (cases "page_no vb = A")
    case True
    then have "x = frame (mem s) pgdir va"
      using pte_page [of vb va] assms(3) vb(1) by (simp add: frame_def)
    then show ?thesis by simp
  next
    case False
    then have "page_no vb \<noteq> page_no va" "Suc A \<le> page_no vb" using assms(3) vb(3) by linarith+
    then show ?thesis
      using vb user_page_unmap [OF assms(1,2), of vb] unfolding frames_in_def by (metis (no_types, lifting) imageI insertI2 mem_Collect_eq)
  qed
next
  fix x
  assume "x \<in> insert (frame (mem s) pgdir va) (frames_in (mem (unmap_page pgdir va s)) pgdir (Suc A) B)"
  then consider "x = frame (mem s) pgdir va"
    | vb where "x = frame (mem (unmap_page pgdir va s)) pgdir vb"
        "user_page (mem (unmap_page pgdir va s)) pgdir vb" "Suc A \<le> page_no vb" "page_no vb < B"
    unfolding frames_in_def by blast
  then show "x \<in> frames_in (mem s) pgdir A B"
  proof cases
    case 1
    with assms(2-4) show ?thesis unfolding frames_in_def by blast
  next
    case 2
    then have "user_page (mem s) pgdir vb" "x = frame (mem s) pgdir vb" "A \<le> page_no vb"
      using user_page_unmap [OF assms(1,2), of vb] by simp_all
    with 2(4) show ?thesis unfolding frames_in_def by blast
  qed
qed

lemma unmapped_unmap:
  assumes ok: "uvm_ok s pgdir xs" and va: "user_page (mem s) pgdir va" "page_no va = A" "A < B"
    and rest: "unmapped pgdir (Suc A) B (unmap_page pgdir va s) (frame (mem s) pgdir va # xs) t ys"
  shows "unmapped pgdir A B s xs t ys"
proof -
  let ?u = "unmap_page pgdir va s" and ?F = "frame (mem s) pgdir va"
  note fr = frames_in_first [OF ok va]
  obtain fs where fs: "ys = fs @ ?F # xs" "set fs = frames_in (mem ?u) pgdir (Suc A) B"
    using rest unfolding unmapped_def by blast
  have "\<exists>fs. ys = fs @ xs \<and> set fs = frames_in (mem s) pgdir A B"
    using fs by (intro exI [of _ "fs @ [?F]"]) (simp add: fr)
  moreover have "pte (mem t) pgdir vb =
      (if user_page (mem s) pgdir vb \<and> A \<le> page_no vb \<and> page_no vb < B then 0 else pte (mem s) pgdir vb)" for vb
  proof -
    have "pte (mem t) pgdir vb = (if user_page (mem ?u) pgdir vb \<and> Suc A \<le> page_no vb \<and> page_no vb < B
        then 0 else pte (mem ?u) pgdir vb)" using rest unfolding unmapped_def by blast
    moreover have "user_page (mem s) pgdir vb" if "page_no vb = A"
      using that va pte_page [of vb va] by (simp add: user_page_def KERNBASE_page)
    ultimately show ?thesis
      unfolding user_page_unmap(1) [OF ok va(1)] unmap_page_entries(3) [OF ok va(1)] va(2)
      using va(3) by (cases "page_no vb = A") auto
  qed
  moreover have "\<exists>f m. t = s\<lparr>kmem_freelist := f, mem := m\<rparr>"
    using rest unfolding unmapped_def by (intro mem_only_trans [OF unmap_page_state]) blast
  moreover have "foreign t pgdir ys v \<and> (\<forall>a. in_page v a \<longrightarrow> mem t a = mem s a)"
    if v: "foreign s pgdir xs v" "v \<notin> frames_in (mem s) pgdir A B" for v
  proof -
    have v': "v \<noteq> ?F" "v \<notin> frames_in (mem ?u) pgdir (Suc A) B" using v(2) by (auto simp: fr)
    note uv = unmap_page_foreign [OF ok va(1) v(1) v'(1)]
    have "foreign t pgdir ys v \<and> (\<forall>a. in_page v a \<longrightarrow> mem t a = mem ?u a)"
      using rest uv(1) v'(2) unfolding unmapped_def by blast
    then show ?thesis using uv(2) by simp
  qed
  ultimately show ?thesis
    using rest unfolding unmapped_def by blast
qed

lemma PGADDR_next_directory:
  assumes "a < KERNBASE"
  shows "unat (PGADDR (PDX a + 1) 0 0) = 4194304 * (unat a div 4194304 + 1)"
proof -
  have "unat a div 4194304 < 512" using assms by (simp add: word_less_nat_alt div_less_iff_less_mult)
  then have "unat (PDX a + 1) = unat a div 4194304 + 1" by (subst unat_add32) (simp_all add: page_simps)
  moreover from this \<open>unat a div 4194304 < 512\<close> have "unat (PDX a + 1) < 1024" by simp
  ultimately show ?thesis by (simp add: PGADDR_directory)
qed

lemma no_table_no_pages:
  assumes "\<not> has_table m pgdir a" "page_no a \<le> page_no vb" "page_no vb < 1024 * (page_no a div 1024 + 1)"
  shows "\<not> user_page m pgdir vb"
proof
  assume "user_page m pgdir vb"
  then have "has_table m pgdir vb" by (rule user_page_table)
  moreover have "page_no vb div 1024 = page_no a div 1024"
    using assms(2,3) div_le_mono [OF assms(2), of 1024] less_mult_imp_div_less [of "page_no vb" "page_no a div 1024 + 1" 1024]
    by (simp add: mult.commute)
  then have "PDX vb = PDX a"
    by (simp add: u32_eq_iff_unat page_simps div_mult2_eq [symmetric])
  ultimately show False using assms(1) by (simp add: has_table_def pde_def)
qed

lemma page_below: "unat a mod 4096 = 0 \<Longrightarrow> a < b \<longleftrightarrow> page_no a < (unat b + 4095) div 4096"
proof -
  assume "unat a mod 4096 = 0"
  then obtain q where "unat a = 4096 * q" by (meson mod_0_imp_dvd dvdE)
  then show ?thesis unfolding word_less_nat_alt by (simp add: less_eq_Suc_le less_eq_div_iff_mult_less_eq) linarith
qed

lemma deallocuvm_loop_absent:
  "a < oldsz \<Longrightarrow> \<not> has_table (mem s) pgdir a \<Longrightarrow>
    deallocuvm_loop (Suc n) pgdir a oldsz s = deallocuvm_loop n pgdir (PGADDR (PDX a + 1) 0 0) oldsz s"
  by (simp add: walkpgdir_absent)

lemma deallocuvm_loop_clear:
  assumes "pt_ok s pgdir xs" "a < oldsz" "has_table (mem s) pgdir a" "pte (mem s) pgdir a AND PTE_P = 0"
  shows "deallocuvm_loop (Suc n) pgdir a oldsz s = deallocuvm_loop n pgdir (a + PGSIZE) oldsz s"
proof -
  have "table (mem s) pgdir a + 4 * PTX a \<noteq> 0"
    by (rule slot_nonzero [OF pt_ok_table(1) [OF assms(1,3)] PTX_less])
  with assms(2-4) show ?thesis by (simp add: walkpgdir_present pte_def)
qed

lemma deallocuvm_loop_present:
  assumes ok: "uvm_ok s pgdir xs" and lt: "a < oldsz" and a: "user_page (mem s) pgdir a"
  shows "deallocuvm_loop (Suc n) pgdir a oldsz s = deallocuvm_loop n pgdir (a + PGSIZE) oldsz (unmap_page pgdir a s)"
proof -
  let ?F = "frame (mem s) pgdir a" and ?e = "table (mem s) pgdir a + 4 * PTX a"
  note tab = user_page_table [OF a] and pt = uvm_okD(2) [OF ok] and F = uvm_okD(3) [OF ok a]
  have nz: "?e \<noteq> 0" by (rule slot_nonzero [OF pt_ok_table(1) [OF pt tab] PTX_less])
  have e: "load32 (mem s) ?e = pte (mem s) pgdir a" using tab by (simp add: pte_def)
  have k: "kpage s ?F" "?F \<notin> set xs" using F by (simp_all add: foreign_def)
  have pa: "PTE_ADDR (pte (mem s) pgdir a) \<noteq> 0"
    using k(1) uvm_okD(5) [OF ok] by (auto simp: kpage_def frame_def P2V_def)
  have "unmap_page pgdir a s = (free_page ?F s)\<lparr>mem := store32 (mem (free_page ?F s)) ?e 0\<rparr>"
    by (simp add: unmap_page_def Let_def set_pte_def free_page_entries [OF pt F])
  then show ?thesis
    using lt nz e pa a kfree_free_page(1) [OF uvm_okD(1) [OF ok] k]
    by (simp add: walkpgdir_present [OF tab] Let_def user_page_def frame_def)
qed

lemma deallocuvm_loop_spec:
  assumes "uvm_ok s pgdir xs" "unat a mod 4096 = 0" "oldsz \<le> KERNBASE"
    and "B = (unat oldsz + 4095) div 4096" "B - page_no a < n"
  shows "\<exists>t ys. deallocuvm_loop n pgdir a oldsz s = Done () t \<and> unmapped pgdir (page_no a) B s xs t ys"
  using assms
proof (induction n arbitrary: a s xs)
  case 0
  then show ?case by simp
next
  case (Suc n)
  have BK: "B \<le> 524288" using Suc.prems(3,4) by (simp add: word_le_nat_alt)
  note below = page_below [OF Suc.prems(2), of oldsz, folded Suc.prems(4)]
  show ?case
  proof (cases "a < oldsz")
    case False
    then have "B \<le> page_no a" using below by simp
    then have "unmapped pgdir (page_no a) B s xs s xs" by (intro unmapped_empty [OF Suc.prems(1)]) linarith
    with False show ?thesis by auto
  next
    case lt: True
    then have aB: "page_no a < B" using below by simp
    then have aK: "a < KERNBASE" using BK by (simp add: KERNBASE_page)
    have "unat a < unat oldsz" using lt by (simp add: word_less_nat_alt)
    have up: "unat (a + 4096) = unat a + 4096"
      using aK by (subst unat_add32) (simp_all add: word_less_nat_alt)
    then have a': "unat (a + 4096) mod 4096 = 0" "page_no (a + 4096) = Suc (page_no a)"
      using Suc.prems(2) by simp_all
    have fuel: "B - Suc (page_no a) < n" using Suc.prems(5) aB by linarith
    show ?thesis
    proof (cases "has_table (mem s) pgdir a")
      case False
      let ?a = "PGADDR (PDX a + 1) 0 0"
      have ua: "unat ?a = 4096 * (1024 * (page_no a div 1024 + 1))"
        unfolding PGADDR_next_directory [OF aK] by (simp add: div_mult2_eq [symmetric])
      then have pa: "page_no ?a = 1024 * (page_no a div 1024 + 1)" "unat ?a mod 4096 = 0" by simp_all
      have less: "page_no a < page_no ?a" unfolding pa(1)
        using div_mult_mod_eq [of "page_no a" 1024] dividend_less_div_times [of 1024 "page_no a"] by simp
      then have "B - page_no ?a < n" using fuel by linarith
      from Suc.IH [OF Suc.prems(1) pa(2) Suc.prems(3,4) this] obtain t ys where
        t: "deallocuvm_loop n pgdir ?a oldsz s = Done () t" "unmapped pgdir (page_no ?a) B s xs t ys" by blast
      have "unmapped pgdir (page_no a) B s xs t ys"
        using no_table_no_pages [OF False] less unfolding pa(1) [symmetric]
        by (intro unmapped_skip [OF t(2)]) (simp, blast)
      then show ?thesis unfolding deallocuvm_loop_absent [OF lt False] t(1) by blast
    next
      case tab: True
      show ?thesis
      proof (cases "pte (mem s) pgdir a AND PTE_P = 0")
        case True
        from Suc.IH [OF Suc.prems(1) a'(1) Suc.prems(3,4)] fuel a'(2) obtain t ys where
          t: "deallocuvm_loop n pgdir (a + 4096) oldsz s = Done () t" "unmapped pgdir (Suc (page_no a)) B s xs t ys"
          by auto
        have "\<not> user_page (mem s) pgdir vb" if "page_no vb = page_no a" for vb
          using pte_page [OF that] True by (simp add: user_page_def)
        then have "unmapped pgdir (page_no a) B s xs t ys"
          by (intro unmapped_skip [OF t(2)]) (simp, metis le_antisym less_Suc_eq_le)
        then show ?thesis unfolding deallocuvm_loop_clear [OF uvm_okD(2) [OF Suc.prems(1)] lt tab True] t(1) by blast
      next
        case False
        then have up: "user_page (mem s) pgdir a" using aK by (simp add: user_page_def)
        from Suc.IH [OF unmap_page_ok [OF Suc.prems(1) up] a'(1) Suc.prems(3,4)] fuel a'(2) obtain t ys where
          t: "deallocuvm_loop n pgdir (a + 4096) oldsz (unmap_page pgdir a s) = Done () t"
            "unmapped pgdir (Suc (page_no a)) B (unmap_page pgdir a s) (frame (mem s) pgdir a # xs) t ys"
          by auto
        from unmapped_unmap [OF Suc.prems(1) up refl aB t(2)] show ?thesis
          unfolding deallocuvm_loop_present [OF Suc.prems(1) lt up] t(1) by blast
      qed
    qed
  qed
qed

lemma deallocuvm_spec:
  assumes ok: "uvm_ok s pgdir xs" and sz: "newsz < oldsz" "oldsz \<le> KERNBASE"
  shows "\<exists>t ys. deallocuvm pgdir oldsz newsz s = Done newsz t \<and>
    unmapped pgdir ((unat newsz + 4095) div 4096) ((unat oldsz + 4095) div 4096) s xs t ys"
proof -
  have n: "unat newsz + 4095 < 4294967296" using sz by (simp add: word_less_nat_alt word_le_nat_alt)
  note up = unat_PGROUNDUP [OF n]
  have p: "page_no (PGROUNDUP newsz) = (unat newsz + 4095) div 4096" "unat (PGROUNDUP newsz) mod 4096 = 0"
    unfolding up by simp_all
  have "(unat oldsz + 4095) div 4096 - page_no (PGROUNDUP newsz) < 1048577"
    using sz(2) div_le_mono [of "unat oldsz + 4095" "2147483648 + 4095" 4096] by (simp add: word_le_nat_alt)
  from deallocuvm_loop_spec [OF ok p(2) sz(2) refl this] show ?thesis
    using sz(1) unfolding deallocuvm_def p(1) by auto
qed

section \<open>Taking a fresh page\<close>

definition take_page :: "u32 \<Rightarrow> 'a vmstate_scheme \<Rightarrow> 'a vmstate_scheme" where
  "take_page x s = s\<lparr>kmem_freelist := load32 (mem s) x, mem := fill (mem s) x 0 4096\<rparr>"

lemma kpage_take_page [simp]: "kpage (take_page x s) = kpage s"
  by (simp add: take_page_def)

lemma take_page_outside:
  assumes "kpage s x" "kpage s v" "v \<noteq> x" "in_page v a"
  shows "mem (take_page x s) a = mem s a"
  using page_disjoint [OF _ _ assms(3,4)] assms(1,2) by (simp add: kpage_mod take_page_def fill_def)

lemma take_page_zero: "in_page x a \<Longrightarrow> mem (take_page x s) a = 0"
  by (simp add: take_page_def fill_def)

lemma take_page_entries:
  assumes x: "kpage s x" and ok: "pt_ok s pgdir (x # xs)"
  shows "has_table (mem (take_page x s)) pgdir = has_table (mem s) pgdir"
    "table (mem (take_page x s)) pgdir = table (mem s) pgdir"
    "pte (mem (take_page x s)) pgdir = pte (mem s) pgdir"
proof -
  have "pgdir \<noteq> x" using pt_ok_dir(2) [OF ok] by auto
  then have dir: "mem (take_page x s) a = mem s a" if "in_page pgdir a" for a
    using take_page_outside [OF x pt_ok_dir(1) [OF ok] _ that] by blast
  have tab: "mem (take_page x s) a = mem s a"
    if "has_table (mem s) pgdir va" "in_page (table (mem s) pgdir va) a" for va a
    using pt_ok_table(3) [OF ok that(1)]
    by (intro take_page_outside [OF x pt_ok_table(1) [OF ok that(1)] _ that(2)]) auto
  show "has_table (mem (take_page x s)) pgdir = has_table (mem s) pgdir"
    by (rule pt_frame(2) [OF ok], erule dir, erule (1) tab)
  show "table (mem (take_page x s)) pgdir = table (mem s) pgdir"
    by (rule pt_frame(3) [OF ok], erule dir, erule (1) tab)
  show "pte (mem (take_page x s)) pgdir = pte (mem s) pgdir"
    by (rule pt_frame(4) [OF ok], erule dir, erule (1) tab)
qed

lemma take_page_pool:
  assumes pool: "kpool s (x # xs)"
  shows "kpool (take_page x s) xs"
proof -
  have x: "kpage s x" "x \<notin> set xs" using kpool_kpage [OF pool] kpool_distinct [OF pool] by auto
  have "kpool (s\<lparr>kmem_freelist := load32 (mem s) x\<rparr>) xs" using kalloc_pool(2) [OF pool] by simp
  then have "kpool (s\<lparr>kmem_freelist := load32 (mem s) x\<rparr>\<lparr>mem := mem (take_page x s)\<rparr>) xs"
  proof (rule kpool_mem)
    fix y a
    assume y: "y \<in> set xs" and a: "in_page y a"
    have ky: "kpage s y" "y \<noteq> x" using y x kpool_kpage [OF pool] by auto
    show "mem (take_page x s) a = mem (s\<lparr>kmem_freelist := load32 (mem s) x\<rparr>) a"
      using take_page_outside [OF x(1) ky a] by simp
  qed
  then show ?thesis by (simp add: take_page_def)
qed

lemma take_page_pt_ok:
  assumes x: "kpage s x" and ok: "pt_ok s pgdir (x # xs)"
  shows "pt_ok (take_page x s) pgdir xs"
proof (rule pt_ok_cong [OF ok take_page_entries(1,2) [OF assms]])
  show "pgdir \<notin> set xs" using pt_ok_dir(2) [OF ok] by simp
  show "table (mem s) pgdir va \<notin> set xs" if "has_table (mem s) pgdir va" for va
    using pt_ok_table(3) [OF ok that] by simp
qed simp

lemma take_page_foreign:
  assumes x: "kpage s x" and ok: "pt_ok s pgdir (x # xs)" and v: "foreign s pgdir (x # xs) v"
  shows "foreign (take_page x s) pgdir xs v" "in_page v a \<Longrightarrow> mem (take_page x s) a = mem s a"
proof -
  show "foreign (take_page x s) pgdir xs v"
    using v by (simp add: foreign_def take_page_entries [OF x ok])
  show "in_page v a \<Longrightarrow> mem (take_page x s) a = mem s a"
    using v by (intro take_page_outside [OF x]) (auto simp: foreign_def)
qed

lemma take_page_itself:
  assumes pool: "kpool s (x # xs)" and ok: "pt_ok s pgdir (x # xs)"
  shows "foreign (take_page x s) pgdir xs x"
proof -
  have x: "kpage s x" "x \<notin> set xs" using kpool_kpage [OF pool] kpool_distinct [OF pool] by auto
  have "x \<noteq> pgdir" using pt_ok_dir(2) [OF ok] by auto
  moreover have "table (mem s) pgdir va \<noteq> x" if "has_table (mem s) pgdir va" for va
    using pt_ok_table(3) [OF ok that] by auto
  ultimately show ?thesis using x by (simp add: foreign_def take_page_entries [OF x(1) ok])
qed

lemma take_page_ok:
  assumes ok: "uvm_ok s pgdir (x # xs)"
  shows "uvm_ok (take_page x s) pgdir xs"
    and "user_page (mem (take_page x s)) pgdir = user_page (mem s) pgdir"
    and "frame (mem (take_page x s)) pgdir = frame (mem s) pgdir"
proof -
  note pool = uvm_okD(1) [OF ok] and pt = uvm_okD(2) [OF ok]
  have x: "kpage s x" using kpool_kpage [OF pool] by simp
  note e = take_page_entries [OF x pt]
  show u: "user_page (mem (take_page x s)) pgdir = user_page (mem s) pgdir"
    and f: "frame (mem (take_page x s)) pgdir = frame (mem s) pgdir"
    by (simp_all add: fun_eq_iff user_page_def frame_def e)
  have "KERNBASE < sym_end (take_page x s)" using uvm_okD(5) [OF ok] by (simp add: take_page_def)
  then show "uvm_ok (take_page x s) pgdir xs"
    using take_page_pool [OF pool] take_page_pt_ok [OF x pt] take_page_foreign(1) [OF x pt] uvm_okD(3,4) [OF ok]
    unfolding uvm_ok_def u f by blast
qed

section \<open>Mapping one fresh page\<close>

lemma user_entry:
  assumes "kpage s x"
  shows "PTE_ADDR (V2P x OR (2 OR 4) OR 1) = V2P x" "(V2P x OR (2 OR 4) OR 1) AND 1 \<noteq> 0"
  using entry_parts(1) [OF V2P_aligned [OF assms], of 7] present_or [of "V2P x" 6] by simp_all

lemma uvm_ok_extend:
  assumes ok: "uvm_ok s pgdir xs" and step: "pt_step pgdir s xs t ys"
    and x: "foreign s pgdir xs x" "\<And>vb. user_page (mem s) pgdir vb \<Longrightarrow> frame (mem s) pgdir vb \<noteq> x"
    and new: "\<And>vb. user_page (mem t) pgdir vb \<Longrightarrow> page_no vb = A \<Longrightarrow> frame (mem t) pgdir vb = x"
    and old: "\<And>vb. user_page (mem t) pgdir vb \<Longrightarrow> page_no vb \<noteq> A \<Longrightarrow>
      user_page (mem s) pgdir vb \<and> frame (mem t) pgdir vb = frame (mem s) pgdir vb"
  shows "uvm_ok t pgdir ys"
proof -
  have "foreign t pgdir ys (frame (mem t) pgdir vb)" if "user_page (mem t) pgdir vb" for vb
  proof (cases "page_no vb = A")
    case True
    with new [OF that] pt_stepD(5) [OF step x(1)] show ?thesis by simp
  next
    case False
    with old [OF that] uvm_okD(3) [OF ok, of vb] pt_stepD(5) [OF step] show ?thesis by simp
  qed
  moreover have "page_no vb = page_no vc"
    if "user_page (mem t) pgdir vb" "user_page (mem t) pgdir vc" "frame (mem t) pgdir vb = frame (mem t) pgdir vc"
    for vb vc
    using new [OF that(1)] new [OF that(2)] old [OF that(1)] old [OF that(2)] that(3) x(2) uvm_okD(4) [OF ok]
    by metis
  moreover have "KERNBASE < sym_end t" using pt_stepD(4) [OF step] uvm_okD(5) [OF ok] by auto
  ultimately show ?thesis using pt_stepD(1,2) [OF step] unfolding uvm_ok_def by blast
qed

lemma page_no_last:
  assumes "unat a mod 4096 = 0" "a < KERNBASE"
  shows "page_no (a + PGSIZE - 1) = page_no a"
proof -
  obtain q where q: "unat a = 4096 * q" using assms(1) by (meson mod_0_imp_dvd dvdE)
  have "unat (a + 4095) = unat a + 4095"
    using assms(2) by (subst unat_add32) (simp_all add: word_less_nat_alt)
  moreover have "a + PGSIZE - 1 = a + 4095" by simp
  ultimately have "page_no (a + PGSIZE - 1) = (4096 * q + 4095) div 4096" by (simp only: q)
  then show ?thesis by (simp add: q)
qed

lemma alloc_page_mapped:
  assumes ok: "uvm_ok s pgdir (x # xs)" and a: "unat a mod 4096 = 0" "a < KERNBASE"
    and none: "pte (mem s) pgdir a AND PTE_P = 0"
  shows "\<exists>r t ys. mappages pgdir a PGSIZE (V2P x) (PTE_W OR PTE_U) (take_page x s) = Done r t \<and>
    pt_step pgdir (take_page x s) xs t ys \<and> uvm_ok t pgdir ys \<and>
    (r = 0 \<and> (\<forall>vb. pte (mem t) pgdir vb =
        (if page_no vb = page_no a then V2P x OR (PTE_W OR PTE_U) OR PTE_P else pte (mem s) pgdir vb))
     \<or> r = - 1 \<and> ys = [] \<and> (\<forall>vb. pte (mem t) pgdir vb = pte (mem s) pgdir vb))"
proof -
  note pool = uvm_okD(1) [OF ok] and pt = uvm_okD(2) [OF ok]
  have x: "kpage s x" using kpool_kpage [OF pool] by simp
  note e = take_page_entries [OF x pt] and tp = take_page_ok [OF ok]
  have last: "page_no (a + PGSIZE - 1) = page_no a" by (rule page_no_last [OF a])
  have "unat a + unat PGSIZE \<le> 4294967296" using a(2) by (simp add: word_less_nat_alt)
  moreover have "pte (mem (take_page x s)) pgdir vb AND PTE_P = 0"
    if "page_no a \<le> page_no vb" "page_no vb \<le> page_no (a + PGSIZE - 1)" for vb
  proof -
    have "page_no vb = page_no a" using that unfolding last by simp
    from pte_page [OF this] show ?thesis using none unfolding e by simp
  qed
  ultimately obtain r t ys where
    m: "mappages pgdir a PGSIZE (V2P x) (PTE_W OR PTE_U) (take_page x s) = Done r t"
      "mapped pgdir (page_no a) (page_no a) (V2P x) (PTE_W OR PTE_U) (take_page x s) xs r t ys"
    using mappages_spec [OF uvm_okD(1,2) [OF tp(1)], of PGSIZE a "V2P x" "PTE_W OR PTE_U"] unfolding last
    by fastforce
  obtain k where step: "pt_step pgdir (take_page x s) xs t ys"
    and k: "r = 0 \<and> k = Suc (page_no a) \<or> r = - 1 \<and> page_no a \<le> k \<and> k \<le> page_no a \<and> ys = []"
    and p: "\<And>vb. pte (mem t) pgdir vb = (if page_no a \<le> page_no vb \<and> page_no vb < k
      then (V2P x + of_nat (4096 * (page_no vb - page_no a))) OR (PTE_W OR PTE_U) OR PTE_P else pte (mem s) pgdir vb)"
    using m(2) unfolding mapped_def e by blast
  have p': "pte (mem t) pgdir vb = (if r = 0 \<and> page_no vb = page_no a
      then V2P x OR (PTE_W OR PTE_U) OR PTE_P else pte (mem s) pgdir vb)" for vb
    using k p [of vb] by (cases "page_no vb = page_no a") auto
  have "uvm_ok t pgdir ys"
  proof (rule uvm_ok_extend [OF tp(1) step take_page_itself [OF pool pt], where A = "page_no a"])
    show "frame (mem (take_page x s)) pgdir vb \<noteq> x" if "user_page (mem (take_page x s)) pgdir vb" for vb
      using uvm_okD(3) [OF ok, of vb] that unfolding tp foreign_def by auto
    show "frame (mem t) pgdir vb = x" if "user_page (mem t) pgdir vb" "page_no vb = page_no a" for vb
      using that none pte_page [OF that(2), of "mem s" pgdir] user_entry [OF x]
      by (auto simp: user_page_def frame_def p' split: if_splits)
    show "user_page (mem (take_page x s)) pgdir vb \<and> frame (mem t) pgdir vb = frame (mem (take_page x s)) pgdir vb"
      if "user_page (mem t) pgdir vb" "page_no vb \<noteq> page_no a" for vb
      using that unfolding tp by (simp add: user_page_def frame_def p')
  qed
  moreover have "r = 0 \<and> (\<forall>vb. pte (mem t) pgdir vb =
        (if page_no vb = page_no a then V2P x OR (PTE_W OR PTE_U) OR PTE_P else pte (mem s) pgdir vb))
     \<or> r = - 1 \<and> ys = [] \<and> (\<forall>vb. pte (mem t) pgdir vb = pte (mem s) pgdir vb)"
    using k p' by auto
  ultimately show ?thesis using m(1) step by blast
qed

section \<open>allocuvm\<close>

text \<open>
  Success: the pages numbered \<open>A\<close> up to \<open>B\<close> are mapped, writable by the user, to zeroed frames
  taken from the free list; nothing else in the address space changed.
\<close>

definition allocated :: "u32 \<Rightarrow> nat \<Rightarrow> nat \<Rightarrow> 'a vmstate_scheme \<Rightarrow> u32 list
    \<Rightarrow> 'a vmstate_scheme \<Rightarrow> u32 list \<Rightarrow> bool" where
  "allocated pgdir A B s xs t ys \<longleftrightarrow>
     uvm_ok t pgdir ys
     \<and> (\<forall>vb. \<not> (A \<le> page_no vb \<and> page_no vb < B) \<longrightarrow> pte (mem t) pgdir vb = pte (mem s) pgdir vb)
     \<and> (\<forall>vb. A \<le> page_no vb \<longrightarrow> page_no vb < B \<longrightarrow>
          (\<exists>x \<in> set xs. pte (mem t) pgdir vb = V2P x OR (PTE_W OR PTE_U) OR PTE_P
             \<and> (\<forall>a. in_page x a \<longrightarrow> mem t a = 0)))
     \<and> (\<exists>zs. xs = zs @ ys)
     \<and> (\<exists>f m. t = s\<lparr>kmem_freelist := f, mem := m\<rparr>)
     \<and> (\<forall>v. foreign s pgdir xs v \<longrightarrow> foreign t pgdir ys v \<and> (\<forall>a. in_page v a \<longrightarrow> mem t a = mem s a))"

text \<open>Failure: no user page is left in the range, and nothing else changed but the console.\<close>

definition rolled_back :: "u32 \<Rightarrow> nat \<Rightarrow> nat \<Rightarrow> 'a vmstate_scheme \<Rightarrow> u32 list
    \<Rightarrow> 'a vmstate_scheme \<Rightarrow> u32 list \<Rightarrow> bool" where
  "rolled_back pgdir A B s xs t ys \<longleftrightarrow>
     uvm_ok t pgdir ys
     \<and> (\<forall>vb. pte (mem t) pgdir vb =
          (if user_page (mem s) pgdir vb \<and> A \<le> page_no vb \<and> page_no vb < B then 0 else pte (mem s) pgdir vb))
     \<and> (\<exists>f m c. t = s\<lparr>kmem_freelist := f, mem := m, console := c\<rparr>)
     \<and> (\<forall>v. foreign s pgdir xs v \<longrightarrow> v \<notin> frames_in (mem s) pgdir A B \<longrightarrow>
          foreign t pgdir ys v \<and> (\<forall>a. in_page v a \<longrightarrow> mem t a = mem s a))"

lemma console_update [simp]:
  "kpage (s\<lparr>console := c\<rparr>) = kpage s" "kpool (t\<lparr>console := c\<rparr>) xs = kpool t xs"
  by (simp_all add: fun_eq_iff kpage_def kpool_def)

lemma console_update_vm [simp]:
  "pt_ok (s\<lparr>console := c\<rparr>) pgdir xs = pt_ok s pgdir xs"
  "foreign (s\<lparr>console := c\<rparr>) pgdir xs v = foreign s pgdir xs v"
  "uvm_ok (s\<lparr>console := c\<rparr>) pgdir xs = uvm_ok s pgdir xs"
  unfolding pt_ok_def foreign_def uvm_ok_def by simp_all

lemma unmapped_console:
  assumes "unmapped pgdir A B (s\<lparr>console := c\<rparr>) xs t ys"
  shows "rolled_back pgdir A B s xs t ys"
proof -
  obtain f m where "t = s\<lparr>console := c\<rparr>\<lparr>kmem_freelist := f, mem := m\<rparr>"
    using assms unfolding unmapped_def by blast
  then have "t = s\<lparr>kmem_freelist := f, mem := m, console := c\<rparr>" by simp
  then have "\<exists>f m c. t = s\<lparr>kmem_freelist := f, mem := m, console := c\<rparr>" by blast
  with assms show ?thesis unfolding unmapped_def rolled_back_def by simp
qed

lemma allocated_empty:
  assumes "uvm_ok s pgdir xs" "B \<le> A"
  shows "allocated pgdir A B s xs s xs"
  using assms mem_only_refl [of s] unfolding allocated_def by auto

lemma take_step_state:
  assumes "pt_step pgdir (take_page x s) xs t ys"
  shows "\<exists>f m. t = s\<lparr>kmem_freelist := f, mem := m\<rparr>"
proof -
  have "\<exists>f m. take_page x s = s\<lparr>kmem_freelist := f, mem := m\<rparr>" unfolding take_page_def by blast
  from mem_only_trans [OF this pt_stepD(4) [OF assms]] show ?thesis .
qed

lemma take_step_foreign:
  assumes ok: "uvm_ok s pgdir (x # xs)" and step: "pt_step pgdir (take_page x s) xs t ys"
    and v: "foreign s pgdir (x # xs) v"
  shows "foreign t pgdir ys v" "in_page v a \<Longrightarrow> mem t a = mem s a"
proof -
  have x: "kpage s x" using kpool_kpage [OF uvm_okD(1) [OF ok]] by simp
  note tf = take_page_foreign [OF x uvm_okD(2) [OF ok] v]
  show "foreign t pgdir ys v" by (rule pt_stepD(5) [OF step tf(1)])
  show "in_page v a \<Longrightarrow> mem t a = mem s a" using pt_stepD(6) [OF step tf(1)] tf(2) by simp
qed

lemma allocated_Cons:
  assumes ok: "uvm_ok s pgdir (x # xs)" and step: "pt_step pgdir (take_page x s) xs t ys"
    and p: "\<And>vb. pte (mem t) pgdir vb =
      (if page_no vb = A then V2P x OR (PTE_W OR PTE_U) OR PTE_P else pte (mem s) pgdir vb)"
    and AB: "A < B" and rest: "allocated pgdir (Suc A) B t ys u zs"
  shows "allocated pgdir A B s (x # xs) u zs"
proof -
  note x = take_page_itself [OF uvm_okD(1,2) [OF ok]]
  have ys: "\<exists>ws. xs = ws @ ys" by (rule pt_stepD(3) [OF step])
  have same: "pte (mem u) pgdir vb = pte (mem t) pgdir vb" if "\<not> (Suc A \<le> page_no vb \<and> page_no vb < B)" for vb
    using rest that unfolding allocated_def by blast
  have fresh: "\<exists>y \<in> set ys. pte (mem u) pgdir vb = V2P y OR (PTE_W OR PTE_U) OR PTE_P \<and> (\<forall>a. in_page y a \<longrightarrow> mem u a = 0)"
    if "Suc A \<le> page_no vb" "page_no vb < B" for vb
    using rest that unfolding allocated_def by blast
  have frame: "foreign u pgdir zs v" "in_page v a \<Longrightarrow> mem u a = mem t a" if "foreign t pgdir ys v" for v a
    using rest that unfolding allocated_def by blast+
  have x0: "mem u a = 0" if "in_page x a" for a
    using frame(2) [OF pt_stepD(5) [OF step x] that] pt_stepD(6) [OF step x that] take_page_zero [OF that] by metis
  have "pte (mem u) pgdir vb = pte (mem s) pgdir vb" if "\<not> (A \<le> page_no vb \<and> page_no vb < B)" for vb
    using same [of vb] p [of vb] that AB by (cases "page_no vb = A") auto
  moreover have "\<exists>y \<in> set (x # xs). pte (mem u) pgdir vb = V2P y OR (PTE_W OR PTE_U) OR PTE_P \<and> (\<forall>a. in_page y a \<longrightarrow> mem u a = 0)"
    if "A \<le> page_no vb" "page_no vb < B" for vb
  proof (cases "page_no vb = A")
    case True
    then show ?thesis using same [of vb] p [of vb] x0 by simp
  next
    case False
    then show ?thesis using fresh [of vb] that ys by auto
  qed
  moreover have "\<exists>ws. x # xs = ws @ zs"
    using ys rest unfolding allocated_def by (metis append.assoc append_Cons)
  moreover have "\<exists>f m. u = s\<lparr>kmem_freelist := f, mem := m\<rparr>"
    using rest unfolding allocated_def by (intro mem_only_trans [OF take_step_state [OF step]]) blast
  moreover have "foreign u pgdir zs v \<and> (\<forall>a. in_page v a \<longrightarrow> mem u a = mem s a)"
    if "foreign s pgdir (x # xs) v" for v
    using take_step_foreign [OF ok step that] frame [of v] by simp
  ultimately show ?thesis using rest unfolding allocated_def by blast
qed

lemma rolled_back_Cons:
  assumes ok: "uvm_ok s pgdir (x # xs)" and step: "pt_step pgdir (take_page x s) xs t ys"
    and p: "\<And>vb. pte (mem t) pgdir vb =
      (if page_no vb = A then V2P x OR (PTE_W OR PTE_U) OR PTE_P else pte (mem s) pgdir vb)"
    and none: "\<And>vb. page_no vb = A \<Longrightarrow> pte (mem s) pgdir vb = 0"
    and A: "A0 \<le> A" "A < B" "B \<le> 524288"
    and rest: "rolled_back pgdir A0 B t ys u zs"
  shows "rolled_back pgdir A0 B s (x # xs) u zs"
proof -
  have x: "kpage s x" using kpool_kpage [OF uvm_okD(1) [OF ok]] by simp
  have up: "user_page (mem t) pgdir vb \<longleftrightarrow> page_no vb = A \<or> user_page (mem s) pgdir vb" for vb
    using user_entry(2) [OF x] A(2,3) by (auto simp: user_page_def p KERNBASE_page)
  have "pte (mem u) pgdir vb = (if user_page (mem t) pgdir vb \<and> A0 \<le> page_no vb \<and> page_no vb < B then 0
      else pte (mem t) pgdir vb)" for vb using rest unfolding rolled_back_def by blast
  then have "pte (mem u) pgdir vb = (if user_page (mem s) pgdir vb \<and> A0 \<le> page_no vb \<and> page_no vb < B then 0
      else pte (mem s) pgdir vb)" for vb
    using up [of vb] p [of vb] none [of vb] A by (cases "page_no vb = A") auto
  moreover have "\<exists>f m c. u = s\<lparr>kmem_freelist := f, mem := m, console := c\<rparr>"
  proof -
    obtain f m f' m' c where "t = s\<lparr>kmem_freelist := f, mem := m\<rparr>" "u = t\<lparr>kmem_freelist := f', mem := m', console := c\<rparr>"
      using take_step_state [OF step] rest unfolding rolled_back_def by blast
    then have "u = s\<lparr>kmem_freelist := f', mem := m', console := c\<rparr>" by simp
    then show ?thesis by blast
  qed
  moreover have "foreign u pgdir zs v \<and> (\<forall>a. in_page v a \<longrightarrow> mem u a = mem s a)"
    if v: "foreign s pgdir (x # xs) v" "v \<notin> frames_in (mem s) pgdir A0 B" for v
  proof -
    have "frame (mem t) pgdir vb = (if page_no vb = A then x else frame (mem s) pgdir vb)" for vb
      using user_entry(1) [OF x] by (simp add: frame_def p)
    then have "frames_in (mem t) pgdir A0 B \<subseteq> insert x (frames_in (mem s) pgdir A0 B)"
      unfolding frames_in_def using up by (auto split: if_splits)
    moreover have "v \<noteq> x" using v(1) by (auto simp: foreign_def)
    ultimately have "v \<notin> frames_in (mem t) pgdir A0 B" using v(2) by blast
    then have "foreign u pgdir zs v \<and> (\<forall>a. in_page v a \<longrightarrow> mem u a = mem t a)"
      using rest take_step_foreign(1) [OF ok step v(1)] unfolding rolled_back_def by blast
    then show ?thesis using take_step_foreign(2) [OF ok step v(1)] by simp
  qed
  ultimately show ?thesis using rest unfolding rolled_back_def by blast
qed

text \<open>The two ways the loop fails.\<close>

lemma allocuvm_loop_no_page:
  assumes pool: "kpool s []" and lt: "a < newsz" and c: "console_free s" and p: "myproc s = Some q"
  shows "\<exists>msg. allocuvm_loop (Suc n) pgdir a oldsz newsz s =
    bindK (deallocuvm pgdir newsz oldsz (s\<lparr>console := msg\<rparr>)) (\<lambda>_ s. Done 0 s)"
proof -
  obtain t1 where t1: "cformat (''allocuvm out of memory'' @ [CHR 0x0A]) [] = Some t1" by simp
  obtain t2 where t2: "cformat (''Stack Size: %d'' @ [CHR 0x0A]) [Num (p_stackSize (proc_at s q))] = Some t2"
    using printint_value [of 10 digits_lower "p_stackSize (proc_at s q)" True] by auto
  let ?s = "s\<lparr>console := console s @ t1\<rparr>"
  have "console_free ?s" "myproc ?s = Some q" "proc_at ?s q = proc_at s q"
    using c p by (simp_all add: console_free_def myproc_def proc_at_def)
  then have "allocuvm_loop (Suc n) pgdir a oldsz newsz s =
      bindK (deallocuvm pgdir newsz oldsz (s\<lparr>console := console s @ t1 @ t2\<rparr>)) (\<lambda>_ s. Done 0 s)"
    using lt ka.alloc_nil [OF pool] cprintf_eq [OF c t1] cprintf_eq [of ?s _ _ t2] t2 by simp
  then show ?thesis by blast
qed

lemma allocuvm_loop_no_table:
  assumes pool: "kpool s (x # xs)" and lt: "a < newsz"
    and m: "mappages pgdir a PGSIZE (V2P x) (PTE_W OR PTE_U) (take_page x s) = Done (- 1) t"
    and c: "console_free t"
  shows "\<exists>msg. allocuvm_loop (Suc n) pgdir a oldsz newsz s =
    bindK (deallocuvm pgdir newsz oldsz (t\<lparr>console := msg\<rparr>)) (\<lambda>_ s. bindK (kfree x s) (\<lambda>_ s. Done 0 s))"
proof -
  have x: "x \<noteq> 0" using kpool_kpage [OF pool] kpage_nonzero by auto
  obtain t1 where t1: "cformat (''allocuvm out of memory (2)'' @ [CHR 0x0A]) [] = Some t1" by simp
  have "kalloc s = Done x (s\<lparr>kmem_freelist := load32 (mem s) x\<rparr>)" using kalloc_pool(1) [OF pool] by simp
  then have "allocuvm_loop (Suc n) pgdir a oldsz newsz s =
      bindK (deallocuvm pgdir newsz oldsz (t\<lparr>console := console t @ t1\<rparr>)) (\<lambda>_ s. bindK (kfree x s) (\<lambda>_ s. Done 0 s))"
    using lt x m cprintf_eq [OF c t1] by (simp add: Let_def memset_fill take_page_def)
  then show ?thesis by blast
qed

lemma allocuvm_loop_next:
  assumes pool: "kpool s (x # xs)" and lt: "a < newsz"
    and m: "mappages pgdir a PGSIZE (V2P x) (PTE_W OR PTE_U) (take_page x s) = Done 0 t"
  shows "allocuvm_loop (Suc n) pgdir a oldsz newsz s = allocuvm_loop n pgdir (a + PGSIZE) oldsz newsz t"
proof -
  have x: "x \<noteq> 0" using kpool_kpage [OF pool] kpage_nonzero by auto
  have "kalloc s = Done x (s\<lparr>kmem_freelist := load32 (mem s) x\<rparr>)" using kalloc_pool(1) [OF pool] by simp
  then show ?thesis using lt x m by (simp add: Let_def memset_fill take_page_def)
qed

lemma free_page_ok:
  assumes ok: "uvm_ok s pgdir xs" and F: "foreign s pgdir xs F"
    and no: "\<And>vb. user_page (mem s) pgdir vb \<Longrightarrow> frame (mem s) pgdir vb \<noteq> F"
  shows "uvm_ok (free_page F s) pgdir (F # xs)"
    and "foreign s pgdir xs v \<Longrightarrow> v \<noteq> F \<Longrightarrow> foreign (free_page F s) pgdir (F # xs) v"
proof -
  note pt = uvm_okD(2) [OF ok]
  note e = free_page_entries [OF pt F]
  show fv: "foreign (free_page F s) pgdir (F # xs) v" if "foreign s pgdir xs v" "v \<noteq> F" for v
    using that by (simp add: foreign_def e)
  have u: "user_page (mem (free_page F s)) pgdir = user_page (mem s) pgdir"
    and f: "frame (mem (free_page F s)) pgdir = frame (mem s) pgdir"
    by (simp_all add: fun_eq_iff user_page_def frame_def e)
  have "kpool (free_page F s) (F # xs)"
    using F by (intro kfree_free_page(2) [OF uvm_okD(1) [OF ok]]) (simp_all add: foreign_def)
  moreover have "KERNBASE < sym_end (free_page F s)" using uvm_okD(5) [OF ok] by (simp add: free_page_def)
  ultimately show "uvm_ok (free_page F s) pgdir (F # xs)"
    using free_page_pt_ok [OF pt F] fv uvm_okD(3) [OF ok] no uvm_okD(4) [OF ok]
    unfolding uvm_ok_def u f by blast
qed

lemma rolled_back_no_table:
  assumes ok: "uvm_ok s pgdir (x # xs)" and step: "pt_step pgdir (take_page x s) xs t ys"
    and okt: "uvm_ok t pgdir ys" and p: "\<And>vb. pte (mem t) pgdir vb = pte (mem s) pgdir vb"
    and un: "unmapped pgdir A0 B (t\<lparr>console := msg\<rparr>) ys u zs"
  shows "kfree x u = Done () (free_page x u)" "rolled_back pgdir A0 B s (x # xs) (free_page x u) (x # zs)"
proof -
  note rb = unmapped_console [OF un]
  have up: "user_page (mem t) pgdir vb = user_page (mem s) pgdir vb"
    and fr: "frame (mem t) pgdir vb = frame (mem s) pgdir vb" for vb
    by (simp_all add: user_page_def frame_def p)
  then have fin: "frames_in (mem t) pgdir A0 B = frames_in (mem s) pgdir A0 B" by (simp add: frames_in_def)
  have nox: "frame (mem s) pgdir vb \<noteq> x" if "user_page (mem s) pgdir vb" for vb
    using uvm_okD(3) [OF ok that] by (auto simp: foreign_def)
  then have "x \<notin> frames_in (mem t) pgdir A0 B" unfolding fin by (auto simp: frames_in_def)
  moreover have "foreign t pgdir ys x" by (rule pt_stepD(5) [OF step take_page_itself [OF uvm_okD(1,2) [OF ok]]])
  ultimately have x: "foreign u pgdir zs x" using rb unfolding rolled_back_def by blast
  have oku: "uvm_ok u pgdir zs" using rb unfolding rolled_back_def by blast
  have pu: "pte (mem u) pgdir vb = (if user_page (mem s) pgdir vb \<and> A0 \<le> page_no vb \<and> page_no vb < B then 0
      else pte (mem s) pgdir vb)" for vb
    using rb unfolding rolled_back_def up p by blast
  have "frame (mem u) pgdir vb \<noteq> x" if "user_page (mem u) pgdir vb" for vb
    using that nox [of vb] pu [of vb] by (auto simp: user_page_def frame_def split: if_splits)
  note fp = free_page_ok [OF oku x this]
  show "kfree x u = Done () (free_page x u)"
    using x by (intro kfree_free_page(1) [OF uvm_okD(1) [OF oku]]) (simp_all add: foreign_def)
  have "pte (mem (free_page x u)) pgdir vb = pte (mem u) pgdir vb" for vb
    by (simp add: free_page_entries [OF uvm_okD(2) [OF oku] x])
  moreover have "\<exists>f m c. free_page x u = s\<lparr>kmem_freelist := f, mem := m, console := c\<rparr>"
  proof -
    obtain f m f' m' c where "t = s\<lparr>kmem_freelist := f, mem := m\<rparr>" "u = t\<lparr>kmem_freelist := f', mem := m', console := c\<rparr>"
      using take_step_state [OF step] rb unfolding rolled_back_def by blast
    then have "free_page x u = s\<lparr>kmem_freelist := x, mem := mem (free_page x u), console := c\<rparr>"
      unfolding free_page_def by simp
    then show ?thesis by blast
  qed
  moreover have "foreign (free_page x u) pgdir (x # zs) v \<and> (\<forall>a. in_page v a \<longrightarrow> mem (free_page x u) a = mem s a)"
    if v: "foreign s pgdir (x # xs) v" "v \<notin> frames_in (mem s) pgdir A0 B" for v
  proof -
    have vx: "v \<noteq> x" using v(1) by (auto simp: foreign_def)
    note tv = take_step_foreign [OF ok step v(1)]
    have uv: "foreign u pgdir zs v" "\<And>a. in_page v a \<Longrightarrow> mem u a = mem t a"
      using rb tv(1) v(2) unfolding rolled_back_def fin by blast+
    have "mem (free_page x u) a = mem u a" if "in_page v a" for a
      using uv(1) x vx that by (intro free_page_outside) (auto simp: foreign_def)
    then show ?thesis using fp(2) [OF _ uv(1) vx] uv(2) tv(2) by simp
  qed
  ultimately show "rolled_back pgdir A0 B s (x # xs) (free_page x u) (x # zs)"
    using fp(1) pu unfolding rolled_back_def by simp
qed

text \<open>What the loop needs of the rest of the kernel: a running process and a console not locked.\<close>

definition can_report :: "'a machine_scheme \<Rightarrow> bool" where
  "can_report s \<longleftrightarrow> console_free s \<and> myproc s \<noteq> None"

lemma can_report_step: "\<exists>f m. t = s\<lparr>kmem_freelist := f, mem := m\<rparr> \<Longrightarrow> can_report t = can_report s"
  by (auto simp: can_report_def console_free_def myproc_def)

lemma allocuvm_loop_spec:
  assumes "uvm_ok s pgdir xs" "unat a mod 4096 = 0" "newsz < KERNBASE"
    and "B = (unat newsz + 4095) div 4096" "A = (unat oldsz + 4095) div 4096"
    and "A \<le> page_no a" "B - page_no a < n" "can_report s"
    and "\<And>vb. page_no a \<le> page_no vb \<Longrightarrow> page_no vb < B \<Longrightarrow> pte (mem s) pgdir vb = 0"
  shows "\<exists>r t ys. allocuvm_loop n pgdir a oldsz newsz s = Done r t \<and>
    (r = newsz \<and> allocated pgdir (page_no a) B s xs t ys \<or> r = 0 \<and> rolled_back pgdir A B s xs t ys)"
  using assms
proof (induction n arbitrary: a s xs)
  case 0
  then show ?case by simp
next
  case (Suc n)
  note below = page_below [OF Suc.prems(2), of newsz, folded Suc.prems(4)]
  show ?case
  proof (cases "a < newsz")
    case False
    then have "B \<le> page_no a" using below by simp
    from allocated_empty [OF Suc.prems(1) this] False show ?thesis by auto
  next
    case lt: True
    then have aB: "page_no a < B" using below by simp
    have aK: "a < KERNBASE" using lt Suc.prems(3) by (rule less_trans)
    have BK: "B \<le> 524288" using Suc.prems(3,4) by (simp add: word_less_nat_alt)
    have on: "oldsz < newsz"
    proof -
      have "unat oldsz \<le> 4096 * A" using Suc.prems(5) by simp
      also have "\<dots> \<le> 4096 * page_no a" using Suc.prems(6) by simp
      also have "\<dots> < unat newsz" using lt Suc.prems(2) by (simp add: word_less_nat_alt mult_div_mod_eq [symmetric])
      finally show ?thesis by (simp add: word_less_nat_alt)
    qed
    note dealloc = deallocuvm_spec [OF _ on less_imp_le [OF Suc.prems(3)], folded Suc.prems(4,5)]
    obtain q where q: "console_free s" "myproc s = Some q" using Suc.prems(8) by (auto simp: can_report_def)
    show ?thesis
    proof (cases xs)
      case Nil
      with uvm_okD(1) [OF Suc.prems(1)] have "kpool s []" by simp
      from allocuvm_loop_no_page [OF this lt q] obtain msg where
        eq: "allocuvm_loop (Suc n) pgdir a oldsz newsz s =
          bindK (deallocuvm pgdir newsz oldsz (s\<lparr>console := msg\<rparr>)) (\<lambda>_ s. Done 0 s)" by blast
      obtain t ys where t: "deallocuvm pgdir newsz oldsz (s\<lparr>console := msg\<rparr>) = Done oldsz t"
        "unmapped pgdir A B (s\<lparr>console := msg\<rparr>) xs t ys"
        using dealloc [of "s\<lparr>console := msg\<rparr>" pgdir xs] Suc.prems(1) by auto
      have "allocuvm_loop (Suc n) pgdir a oldsz newsz s = Done 0 t" unfolding eq t(1) by simp
      with unmapped_console [OF t(2)] show ?thesis by blast
    next
      case (Cons x xs')
      have ok: "uvm_ok s pgdir (x # xs')" using Suc.prems(1) Cons by simp
      note pool = uvm_okD(1) [OF ok]
      have a0: "pte (mem s) pgdir vb = 0" if "page_no vb = page_no a" for vb
        using Suc.prems(9) [of vb] that aB by simp
      from alloc_page_mapped [OF ok Suc.prems(2) aK] a0 [of a] obtain r t ys where
        m: "mappages pgdir a PGSIZE (V2P x) (PTE_W OR PTE_U) (take_page x s) = Done r t"
        and step: "pt_step pgdir (take_page x s) xs' t ys" and okt: "uvm_ok t pgdir ys"
        and r: "r = 0 \<and> (\<forall>vb. pte (mem t) pgdir vb =
            (if page_no vb = page_no a then V2P x OR (PTE_W OR PTE_U) OR PTE_P else pte (mem s) pgdir vb))
          \<or> r = - 1 \<and> ys = [] \<and> (\<forall>vb. pte (mem t) pgdir vb = pte (mem s) pgdir vb)" by auto
      have rep: "can_report t" using can_report_step [OF take_step_state [OF step]] Suc.prems(8) by simp
      from r show ?thesis
      proof (elim disjE conjE)
        assume r0: "r = 0" and p: "\<forall>vb. pte (mem t) pgdir vb =
            (if page_no vb = page_no a then V2P x OR (PTE_W OR PTE_U) OR PTE_P else pte (mem s) pgdir vb)"
        have "unat (a + 4096) = unat a + 4096" using aK by (subst unat_add32) (simp_all add: word_less_nat_alt)
        then have a': "unat (a + 4096) mod 4096 = 0" "page_no (a + 4096) = Suc (page_no a)"
          using Suc.prems(2) by simp_all
        have "\<exists>r u zs. allocuvm_loop n pgdir (a + 4096) oldsz newsz t = Done r u \<and>
          (r = newsz \<and> allocated pgdir (page_no (a + 4096)) B t ys u zs \<or> r = 0 \<and> rolled_back pgdir A B t ys u zs)"
        proof (rule Suc.IH [OF okt a'(1) Suc.prems(3-5) _ _ rep])
          show "pte (mem t) pgdir vb = 0" if "page_no (a + 4096) \<le> page_no vb" "page_no vb < B" for vb
            using that p Suc.prems(9) [of vb] unfolding a'(2) by simp
        qed (use Suc.prems(6,7) aB a'(2) in auto)
        then obtain r u zs where u: "allocuvm_loop n pgdir (a + 4096) oldsz newsz t = Done r u"
          "r = newsz \<and> allocated pgdir (Suc (page_no a)) B t ys u zs \<or> r = 0 \<and> rolled_back pgdir A B t ys u zs"
          unfolding a'(2) by blast
        have "r = newsz \<and> allocated pgdir (page_no a) B s xs u zs \<or> r = 0 \<and> rolled_back pgdir A B s xs u zs"
          using u(2) allocated_Cons [OF ok step p [rule_format] aB]
            rolled_back_Cons [OF ok step p [rule_format] a0 Suc.prems(6) aB BK] unfolding Cons by blast
        with u(1) show ?thesis unfolding allocuvm_loop_next [OF pool lt m [unfolded r0]] by blast
      next
        assume r1: "r = - 1" and p: "\<forall>vb. pte (mem t) pgdir vb = pte (mem s) pgdir vb"
        from rep have "console_free t" by (simp add: can_report_def)
        from allocuvm_loop_no_table [OF pool lt m [unfolded r1] this] obtain msg where
          eq: "allocuvm_loop (Suc n) pgdir a oldsz newsz s =
            bindK (deallocuvm pgdir newsz oldsz (t\<lparr>console := msg\<rparr>)) (\<lambda>_ s. bindK (kfree x s) (\<lambda>_ s. Done 0 s))"
          by blast
        obtain u zs where u: "deallocuvm pgdir newsz oldsz (t\<lparr>console := msg\<rparr>) = Done oldsz u"
          "unmapped pgdir A B (t\<lparr>console := msg\<rparr>) ys u zs"
          using dealloc [of "t\<lparr>console := msg\<rparr>" pgdir ys] okt by auto
        note nt = rolled_back_no_table [OF ok step okt p [rule_format] u(2)]
        then have "allocuvm_loop (Suc n) pgdir a oldsz newsz s = Done 0 (free_page x u)" unfolding eq using u(1) by simp
        then show ?thesis using nt(2) Cons by blast
      qed
    qed
  qed
qed

lemma allocuvm_spec:
  assumes "uvm_ok s pgdir xs" "oldsz \<le> newsz" "newsz < KERNBASE" "can_report s"
    and "A = (unat oldsz + 4095) div 4096" "B = (unat newsz + 4095) div 4096"
    and "\<And>vb. A \<le> page_no vb \<Longrightarrow> page_no vb < B \<Longrightarrow> pte (mem s) pgdir vb = 0"
  shows "\<exists>r t ys. allocuvm pgdir oldsz newsz s = Done r t \<and>
    (r = newsz \<and> allocated pgdir A B s xs t ys \<or> r = 0 \<and> rolled_back pgdir A B s xs t ys)"
proof -
  have n: "unat oldsz + 4095 < 4294967296" using assms(2,3) by (simp add: word_less_nat_alt word_le_nat_alt)
  note up = unat_PGROUNDUP [OF n]
  have p: "page_no (PGROUNDUP oldsz) = A" "unat (PGROUNDUP oldsz) mod 4096 = 0"
    unfolding up assms(5) by simp_all
  have "B - page_no (PGROUNDUP oldsz) < 1048577"
    using assms(3,6) div_le_mono [of "unat newsz + 4095" "2147483648 + 4095" 4096] by (simp add: word_less_nat_alt)
  moreover have "A \<le> page_no (PGROUNDUP oldsz)" using p(1) by simp
  moreover have "allocuvm pgdir oldsz newsz s = allocuvm_loop 1048577 pgdir (PGROUNDUP oldsz) oldsz newsz s"
    using assms(2,3) by (auto simp: allocuvm_def)
  ultimately show ?thesis
    using allocuvm_loop_spec [OF assms(1) p(2) assms(3,6,5), of 1048577] assms(4,7) unfolding p(1) by metis
qed

text \<open>A present entry is not overwritten.\<close>

lemma mappages_present:
  assumes "pt_ok s pgdir xs" and "pte (mem s) pgdir va AND PTE_P \<noteq> 0"
  shows "mappages pgdir va sz pa perm s = Panic ''remap''"
proof -
  let ?a = "PGROUNDDOWN va"
  have pg: "page_no ?a = page_no va" by (simp add: unat_PGROUNDDOWN)
  have e: "pte (mem s) pgdir ?a AND PTE_P \<noteq> 0" using assms pte_page [OF pg] by simp
  then have t: "has_table (mem s) pgdir ?a" by (auto simp: pte_def split: if_splits)
  have nz: "table (mem s) pgdir ?a + 4 * PTX ?a \<noteq> 0"
    by (rule slot_nonzero [OF pt_ok_table(1) [OF assms(1) t] PTX_less])
  have "mappages_loop (Suc n) pgdir ?a l pa perm s = Panic ''remap''" for n l
    using e t nz by (simp add: walkpgdir_present pte_def)
  from this [of 1048575] show ?thesis unfolding mappages_def Let_def by simp
qed

section \<open>Properties\<close>

text \<open>A machine with an empty address space and three free pages, for examples.\<close>

definition small_vm :: vmstate where
  "small_vm =
     \<lparr>mem = store32 (store32 (\<lambda>_. 0) 0x80401000 0x80402000) 0x80402000 0x80403000,
      sym_end = 0x80110000, sym_data = 0x80108000,
      held = [], ptable = [blank_proc\<lparr>p_state := RUNNING, p_pid := 1\<rparr>], initproc = Some 0, nextpid = 2,
      cpu = 0, cpu_proc = \<lambda>_. Some 0, ticks = 0, cons_locking = True, console = [],
      kmem_use_lock = True, kmem_freelist = 0x80401000,
      kpgdir = 0, cr3 = 0, gdt = \<lambda>_ _. SEG 0 0 0 0, ts = \<lambda>_. zero_ts, ts_addr = \<lambda>_. 0, gdtr = \<lambda>_. None,
      tr = \<lambda>_. 0\<rparr>"

abbreviation small_pages :: "u32 list" where
  "small_pages \<equiv> [0x80401000, 0x80402000, 0x80403000]"

lemma small_vm_pde: "pde (mem small_vm) 0x80400000 va = 0"
proof -
  have k: "kpage small_vm 0x80400000" "kpage small_vm 0x80401000" "kpage small_vm 0x80402000"
    by (simp_all add: small_vm_def kpage_def V2P_def)
  have "load32 (store32 m (0x80401000 + 4 * 0) e) (0x80400000 + 4 * PDX va) = load32 m (0x80400000 + 4 * PDX va)"
    "load32 (store32 m (0x80402000 + 4 * 0) e) (0x80400000 + 4 * PDX va) = load32 m (0x80400000 + 4 * PDX va)" for m e
    by (subst load32_slot_store32_slot [OF k(1) k(2) PDX_less], simp, simp)
      (subst load32_slot_store32_slot [OF k(1) k(3) PDX_less], simp, simp)
  then show ?thesis by (simp add: pde_def small_vm_def load32_zero)
qed

lemma small_vm_ok: "uvm_ok small_vm 0x80400000 small_pages"
proof -
  have none: "\<not> has_table (mem small_vm) 0x80400000 va" for va
    by (simp add: has_table_def small_vm_pde)
  have "pt_ok small_vm 0x80400000 small_pages"
    unfolding pt_ok_def using none by (simp add: small_vm_def kpage_def V2P_def)
  moreover have "kpool small_vm small_pages"
    by (simp add: small_vm_def kpool_def kpage_def V2P_def load32_zero)
  moreover have "\<not> user_page (mem small_vm) 0x80400000 va" for va
    using none user_page_table by blast
  ultimately show ?thesis
    unfolding uvm_ok_def by (simp add: small_vm_def)
qed

lemma small_vm_pte: "pte (mem small_vm) 0x80400000 va = 0"
  by (simp add: pte_def has_table_def small_vm_pde)



text \<open>
  C9: \<open>deallocuvm\<close> unmaps exactly the user pages of the range, gives exactly their frames back to the
  allocator, leaves every other entry and page alone and returns the new size.
\<close>

theorem deallocuvm_correct:
  assumes "uvm_ok s pgdir xs" "newsz < oldsz" "oldsz \<le> KERNBASE"
  shows "\<exists>t ys. deallocuvm pgdir oldsz newsz s = Done newsz t \<and>
    unmapped pgdir ((unat newsz + 4095) div 4096) ((unat oldsz + 4095) div 4096) s xs t ys"
  by (rule deallocuvm_spec [OF assms])

theorem deallocuvm_correct_witness:
  "\<exists>t ys. deallocuvm 0x80400000 KERNBASE 4096 small_vm = Done 4096 t \<and>
    unmapped 0x80400000 1 524288 small_vm small_pages t ys"
  using deallocuvm_correct [OF small_vm_ok, of 4096 KERNBASE] by simp

text \<open>
  C12: \<open>mappages\<close> on a range of pages that are not present enters, for each page, the physical page at
  the same distance from \<open>pa\<close> with the permissions asked for and returns 0; or memory for a page
  table ran out, and it returns -1 having mapped a proper prefix of the range. Everything else
  stays mapped as it was.
\<close>

theorem mappages_correct:
  assumes "kpool s xs" "pt_ok s pgdir xs" "0 < sz" "unat va + unat sz \<le> 4294967296"
    and "\<And>vb. page_no va \<le> page_no vb \<Longrightarrow> page_no vb \<le> page_no (va + sz - 1) \<Longrightarrow>
      pte (mem s) pgdir vb AND PTE_P = 0"
  shows "\<exists>r t ys. mappages pgdir va sz pa perm s = Done r t \<and>
    mapped pgdir (page_no va) (page_no (va + sz - 1)) pa perm s xs r t ys"
  by (rule mappages_spec [OF assms])

theorem mappages_correct_witness:
  "\<exists>r t ys. mappages 0x80400000 0x7000 0x1800 0x5000 PTE_W small_vm = Done r t \<and>
    mapped 0x80400000 7 8 0x5000 PTE_W small_vm small_pages r t ys"
  using mappages_correct [OF uvm_okD(1,2) [OF small_vm_ok], of "0x1800" "0x7000" "0x5000" PTE_W]
  by (simp add: small_vm_pte)

text \<open>
  \<open>mappages\<close> panics rather than overwrite a present entry.
\<close>

theorem mappages_remap:
  assumes "pt_ok s pgdir xs" and "pte (mem s) pgdir va AND PTE_P \<noteq> 0"
  shows "mappages pgdir va sz pa perm s = Panic ''remap''"
  by (rule mappages_present [OF assms])

text \<open>An address space with one page table, whose entry for address 0 is present.\<close>

definition one_table :: vmstate where
  "one_table = small_vm\<lparr>kmem_freelist := 0,
     mem := store32 (store32 (\<lambda>_. 0) 0x80400000 (0x00401000 OR 7)) 0x80401000 (0x00402000 OR 7)\<rparr>"

lemma one_table_pde: "pde (mem one_table) 0x80400000 va = (if PDX va = 0 then 0x00401000 OR 7 else 0)"
proof -
  have k: "kpage one_table 0x80400000" "kpage one_table 0x80401000"
    by (simp_all add: one_table_def small_vm_def kpage_def V2P_def)
  have "load32 (store32 m (0x80401000 + 4 * 0) e) (0x80400000 + 4 * PDX va) = load32 m (0x80400000 + 4 * PDX va)"
    "load32 (store32 m (0x80400000 + 4 * 0) e) (0x80400000 + 4 * PDX va)
      = (if PDX va = 0 then e else load32 m (0x80400000 + 4 * PDX va))" for m e
    by (subst load32_slot_store32_slot [OF k(1) k(2) PDX_less], simp, simp)
      (subst load32_slot_store32_slot [OF k(1) k(1) PDX_less], simp, simp)
  then show ?thesis by (simp add: pde_def one_table_def load32_zero)
qed

lemma one_table_ok: "pt_ok one_table 0x80400000 []"
proof -
  have h: "has_table (mem one_table) 0x80400000 va \<longleftrightarrow> PDX va = 0" for va
    by (simp add: has_table_def one_table_pde)
  have "PDX va = 0 \<Longrightarrow> table (mem one_table) 0x80400000 va = 0x80401000" for va
    by (simp add: table_def one_table_pde PTE_ADDR_def P2V_def)
  then show ?thesis
    unfolding pt_ok_def h by (simp add: one_table_def small_vm_def kpage_def V2P_def)
qed

theorem mappages_remap_witness: "mappages 0x80400000 0 4096 0x5000 PTE_W one_table = Panic ''remap''"
proof (rule mappages_remap [OF one_table_ok])
  show "pte (mem one_table) 0x80400000 0 AND PTE_P \<noteq> 0"
    by (simp add: pte_def has_table_def table_def one_table_pde PDX_def PTX_def PTE_ADDR_def P2V_def)
      (simp add: one_table_def)
qed

end
