(* ===== verification/Stack.thy ===== *)
theory Stack
  imports Trap UserMemory
begin

text \<open>
  The growing user stack: the page fault handler of trap.c over the page tables of vm.c. A fault
  below the stack maps all pages from the faulting address up to the stack. A fault in the page right
  below extends the stack by that page, as intended. After a fault further down the handler's count
  of stack pages is too small, and the next fault of the stack is shown to panic the kernel.
\<close>

section \<open>Addresses\<close>

text \<open>The number of the first page above the user stack, and the bottom of a stack of \<open>n\<close> pages.\<close>

abbreviation (input) top_page :: nat where "top_page \<equiv> 0x80000"

definition stack_bottom :: "u32 \<Rightarrow> u32" where
  "stack_bottom n = STACK_TOP - n * PGSIZE"

lemma stack_bottom_unat:
  assumes "unat n < top_page"
  shows "unat (stack_bottom n) + 4 = 4096 * (top_page - unat n)" "stack_bottom n < KERNBASE"
    "(unat (stack_bottom n) + 4095) div 4096 = top_page - unat n"
proof -
  have "unat n * unat (4096 :: u32) < 2 ^ 32" using assms by simp
  then have m: "unat (n * 4096) = 4096 * unat n" by (subst unat_mult_lem [THEN iffD1]) auto
  have "n * 4096 \<le> (0x7FFFFFFC :: u32)" using m assms by (simp add: word_le_nat_alt)
  then have u: "unat (stack_bottom n) = 0x7FFFFFFC - 4096 * unat n"
    unfolding stack_bottom_def using m by (simp add: unat_sub)
  show e: "unat (stack_bottom n) + 4 = 4096 * (top_page - unat n)" using u assms by simp
  show "stack_bottom n < KERNBASE" using u by (simp add: word_less_nat_alt)
  have "unat (stack_bottom n) + 4095 = 4096 * (top_page - unat n) + 4091" using e by simp
  then show "(unat (stack_bottom n) + 4095) div 4096 = top_page - unat n" by simp
qed

lemma fault_below:
  assumes "unat n < top_page"
  shows "PGROUNDDOWN addr \<le> stack_bottom n \<longleftrightarrow> page_no addr < top_page - unat n"
proof -
  have "unat (PGROUNDDOWN addr) = 4096 * page_no addr" by (simp add: unat_PGROUNDDOWN)
  moreover have "unat (stack_bottom n) + 4 = 4096 * (top_page - unat n)" by (rule stack_bottom_unat [OF assms])
  ultimately show ?thesis by (auto simp: word_le_nat_alt)
qed

lemma pgflt_eq:
  assumes "myproc s = Some p" "p_pgdir (proc_at s p) = pgdir" "p_stackSize (proc_at s p) = n"
  shows "pgflt addr s =
    (if PGROUNDDOWN addr \<le> stack_bottom n
     then bindK (allocuvm pgdir (PGROUNDDOWN addr) (stack_bottom n) s)
       (\<lambda>r s. if r = 0 then Panic (''Messed Up'' @ [CHR 0x0A])
          else Done () (upd_proc p (\<lambda>x. x\<lparr>p_stackSize := p_stackSize x + 1\<rparr>) s))
     else Done () s)"
  using assms by (simp add: pgflt_def stack_bottom_def)

section \<open>A fault below the stack\<close>

lemma ptable_update [simp]:
  "kpage (s\<lparr>ptable := q\<rparr>) = kpage s" "kpool (t\<lparr>ptable := q\<rparr>) xs = kpool t xs"
  by (simp_all add: fun_eq_iff kpage_def kpool_def)

lemma ptable_update_vm [simp]:
  "pt_ok (s\<lparr>ptable := q\<rparr>) pgdir xs = pt_ok s pgdir xs" "foreign (s\<lparr>ptable := q\<rparr>) pgdir xs = foreign s pgdir xs"
  by (simp_all add: fun_eq_iff pt_ok_def foreign_def)

lemma uvm_ok_upd_proc [simp]: "uvm_ok (upd_proc p f s) pgdir xs = uvm_ok s pgdir xs" "mem (upd_proc p f s) = mem s"
  by (simp_all add: uvm_ok_def upd_proc_def)

lemma pgflt_spec:
  assumes p: "myproc s = Some p" "p_pgdir (proc_at s p) = pgdir" "p_stackSize (proc_at s p) = n"
    and n: "unat n < top_page" and a: "page_no addr < top_page - unat n"
    and ok: "uvm_ok s pgdir xs" "can_report s"
    and free: "\<And>vb. page_no addr \<le> page_no vb \<Longrightarrow> page_no vb < top_page - unat n \<Longrightarrow> pte (mem s) pgdir vb = 0"
  shows "pgflt addr s = Panic (''Messed Up'' @ [CHR 0x0A]) \<or>
    (\<exists>t ys. pgflt addr s = Done () (upd_proc p (\<lambda>x. x\<lparr>p_stackSize := p_stackSize x + 1\<rparr>) t)
       \<and> allocated pgdir (page_no addr) (top_page - unat n) s xs t ys)"
proof -
  have le: "PGROUNDDOWN addr \<le> stack_bottom n" using fault_below [OF n] a by blast
  have A: "page_no addr = (unat (PGROUNDDOWN addr) + 4095) div 4096" by (simp add: unat_PGROUNDDOWN)
  have B: "top_page - unat n = (unat (stack_bottom n) + 4095) div 4096" using stack_bottom_unat(3) [OF n] by simp
  obtain r t ys where r: "allocuvm pgdir (PGROUNDDOWN addr) (stack_bottom n) s = Done r t"
    "r = stack_bottom n \<and> allocated pgdir (page_no addr) (top_page - unat n) s xs t ys \<or> r = 0"
    using allocuvm_spec [OF ok(1) le stack_bottom_unat(2) [OF n] ok(2) A B free] by blast
  have "stack_bottom n \<noteq> 0" using stack_bottom_unat(1) [OF n] by auto
  then show ?thesis using r le unfolding pgflt_eq [OF p] by auto
qed

text \<open>The stack of a process: its counted pages are mapped, right below KERNBASE.\<close>

definition stack_ok :: "'a vmstate_scheme \<Rightarrow> nat \<Rightarrow> u32 list \<Rightarrow> bool" where
  "stack_ok s p xs \<longleftrightarrow> p < length (ptable s) \<and> unat (p_stackSize (proc_at s p)) < top_page
     \<and> uvm_ok s (p_pgdir (proc_at s p)) xs
     \<and> (\<forall>va. top_page - unat (p_stackSize (proc_at s p)) \<le> page_no va \<longrightarrow> page_no va < top_page \<longrightarrow>
          user_page (mem s) (p_pgdir (proc_at s p)) va)"

lemma allocated_user_page:
  assumes "allocated pgdir A B s xs t ys" "A \<le> page_no va" "page_no va < B" "B \<le> top_page"
  shows "user_page (mem t) pgdir va"
proof -
  obtain x where "pte (mem t) pgdir va = V2P x OR (PTE_W OR PTE_U) OR PTE_P" using assms unfolding allocated_def by blast
  moreover have "unat va < 4096 * top_page" using assms(3,4) by (simp add: div_less_iff_less_mult mult.commute)
  then have "va < KERNBASE" by (simp add: word_less_nat_alt)
  ultimately show ?thesis by (simp add: user_page_def bit.conj_disj_distrib2)
qed

lemma allocated_proc:
  assumes "allocated pgdir A B s xs t ys"
  shows "ptable t = ptable s"
  using assms unfolding allocated_def by auto


section \<open>A fault further down\<close>

text \<open>Without a free page the loop gives up.\<close>

lemma alloc_loop_empty:
  assumes ok: "uvm_ok s pgdir []" and lt: "a < newsz" "oldsz < newsz" "newsz < KERNBASE" and rep: "can_report s"
  shows "\<exists>t. allocuvm_loop (Suc n) pgdir a oldsz newsz s = Done 0 t"
proof -
  obtain q where q: "console_free s" "myproc s = Some q" using rep by (auto simp: can_report_def)
  from allocuvm_loop_no_page [OF uvm_okD(1) [OF ok] lt(1) q] obtain msg where
    eq: "allocuvm_loop (Suc n) pgdir a oldsz newsz s =
      bindK (deallocuvm pgdir newsz oldsz (s\<lparr>console := msg\<rparr>)) (\<lambda>_ s. Done 0 s)" by blast
  obtain t where "deallocuvm pgdir newsz oldsz (s\<lparr>console := msg\<rparr>) = Done oldsz t"
    using deallocuvm_spec [OF _ lt(2) less_imp_le [OF lt(3)], of "s\<lparr>console := msg\<rparr>" pgdir "[]"] ok by auto
  then show ?thesis unfolding eq by simp
qed

text \<open>At a mapped page it panics.\<close>

lemma alloc_loop_hit:
  assumes ok: "uvm_ok s pgdir xs" and lt: "a < newsz" "oldsz < newsz" "newsz < KERNBASE" and rep: "can_report s"
    and p: "pte (mem s) pgdir a AND PTE_P \<noteq> 0"
  shows "allocuvm_loop (Suc n) pgdir a oldsz newsz s = Panic ''remap''
    \<or> (\<exists>t. allocuvm_loop (Suc n) pgdir a oldsz newsz s = Done 0 t)"
proof (cases xs)
  case Nil
  then show ?thesis using alloc_loop_empty [OF _ lt rep] ok by blast
next
  case (Cons x xs')
  note pool = uvm_okD(1) [OF ok [unfolded Cons]] and pt = uvm_okD(2) [OF ok [unfolded Cons]]
  have x: "kpage s x" "x \<noteq> 0" using kpool_kpage [OF pool] kpage_nonzero by auto
  have "pte (mem (take_page x s)) pgdir a AND PTE_P \<noteq> 0" using p take_page_entries(3) [OF x(1) pt] by simp
  from mappages_present [OF take_page_pt_ok [OF x(1) pt] this]
  have m: "mappages pgdir a PGSIZE (V2P x) (PTE_W OR PTE_U) (take_page x s) = Panic ''remap''" .
  have "kalloc s = Done x (s\<lparr>kmem_freelist := load32 (mem s) x\<rparr>)" using kalloc_pool(1) [OF pool] by simp
  then have "allocuvm_loop (Suc n) pgdir a oldsz newsz s = Panic ''remap''"
    using lt(1) x(2) m by (simp add: Let_def memset_fill take_page_def)
  then show ?thesis ..
qed

text \<open>At a free page it gives up, or maps the page and goes on.\<close>

lemma alloc_loop_step:
  assumes ok: "uvm_ok s pgdir xs" and lt: "a < newsz" "oldsz < newsz" "newsz < KERNBASE" and rep: "can_report s"
    and a: "unat a mod 4096 = 0" and p: "pte (mem s) pgdir a = 0"
  obtains t where "allocuvm_loop (Suc n) pgdir a oldsz newsz s = Done 0 t"
  | t ys where "allocuvm_loop (Suc n) pgdir a oldsz newsz s = allocuvm_loop n pgdir (a + PGSIZE) oldsz newsz t"
      "uvm_ok t pgdir ys" "can_report t" "\<And>vb. page_no vb \<noteq> page_no a \<Longrightarrow> pte (mem t) pgdir vb = pte (mem s) pgdir vb"
proof (cases xs)
  case Nil
  then show thesis using alloc_loop_empty [OF _ lt rep] ok that(1) by blast
next
  case (Cons x xs')
  note ok' = ok [unfolded Cons]
  note pool = uvm_okD(1) [OF ok']
  have aK: "a < KERNBASE" using lt(1,3) by (rule less_trans)
  from alloc_page_mapped [OF ok' a aK] p obtain r t ys where
    m: "mappages pgdir a PGSIZE (V2P x) (PTE_W OR PTE_U) (take_page x s) = Done r t"
    and step: "pt_step pgdir (take_page x s) xs' t ys" and okt: "uvm_ok t pgdir ys"
    and r: "r = 0 \<and> (\<forall>vb. pte (mem t) pgdir vb =
        (if page_no vb = page_no a then V2P x OR (PTE_W OR PTE_U) OR PTE_P else pte (mem s) pgdir vb))
      \<or> r = - 1 \<and> ys = [] \<and> (\<forall>vb. pte (mem t) pgdir vb = pte (mem s) pgdir vb)" by auto
  have rept: "can_report t" using can_report_step [OF take_step_state [OF step]] rep by simp
  from r show thesis
  proof (elim disjE conjE)
    assume r0: "r = 0" and q: "\<forall>vb. pte (mem t) pgdir vb =
      (if page_no vb = page_no a then V2P x OR (PTE_W OR PTE_U) OR PTE_P else pte (mem s) pgdir vb)"
    show thesis by (rule that(2) [OF allocuvm_loop_next [OF pool lt(1) m [unfolded r0]] okt rept]) (simp add: q)
  next
    assume r1: "r = - 1" and q: "\<forall>vb. pte (mem t) pgdir vb = pte (mem s) pgdir vb"
    from rept have "console_free t" by (simp add: can_report_def)
    from allocuvm_loop_no_table [OF pool lt(1) m [unfolded r1] this] obtain msg where
      eq: "allocuvm_loop (Suc n) pgdir a oldsz newsz s =
        bindK (deallocuvm pgdir newsz oldsz (t\<lparr>console := msg\<rparr>)) (\<lambda>_ s. bindK (kfree x s) (\<lambda>_ s. Done 0 s))" by blast
    obtain u zs where u: "deallocuvm pgdir newsz oldsz (t\<lparr>console := msg\<rparr>) = Done oldsz u"
      "unmapped pgdir ((unat oldsz + 4095) div 4096) ((unat newsz + 4095) div 4096) (t\<lparr>console := msg\<rparr>) ys u zs"
      using deallocuvm_spec [OF _ lt(2) less_imp_le [OF lt(3)], of "t\<lparr>console := msg\<rparr>" pgdir ys] okt by auto
    have "kfree x u = Done () (free_page x u)"
      by (rule rolled_back_no_table(1) [OF ok' step okt q [rule_format] u(2)])
    then show thesis using that(1) eq u(1) by simp
  qed
qed

text \<open>A range with a mapped page in it: the loop ends in a panic or without memory.\<close>

lemma allocuvm_loop_present:
  assumes "uvm_ok s pgdir xs" "unat a mod 4096 = 0" "newsz < KERNBASE" "oldsz < newsz"
    and "page_no a \<le> k" "k < (unat newsz + 4095) div 4096" "k - page_no a < n" "can_report s"
    and "\<And>vb. page_no a \<le> page_no vb \<Longrightarrow> page_no vb < k \<Longrightarrow> pte (mem s) pgdir vb = 0"
    and "\<And>vb. page_no vb = k \<Longrightarrow> pte (mem s) pgdir vb AND PTE_P \<noteq> 0"
  shows "allocuvm_loop n pgdir a oldsz newsz s = Panic ''remap'' \<or> (\<exists>t. allocuvm_loop n pgdir a oldsz newsz s = Done 0 t)"
  using assms
proof (induction n arbitrary: a s xs)
  case (Suc n)
  have lt: "a < newsz" using page_below [OF Suc.prems(2), of newsz] Suc.prems(5,6) by simp
  show ?case
  proof (cases "page_no a = k")
    case True
    then show ?thesis
      using alloc_loop_hit [OF Suc.prems(1) lt Suc.prems(4,3,8) Suc.prems(10) [OF True]] by blast
  next
    case False
    then have ak: "page_no a < k" using Suc.prems(5) by simp
    have a0: "pte (mem s) pgdir a = 0" using Suc.prems(9) [of a] ak by simp
    show ?thesis
    proof (rule alloc_loop_step [OF Suc.prems(1) lt Suc.prems(4,3,8,2) a0, of n])
      fix t ys
      assume e: "allocuvm_loop (Suc n) pgdir a oldsz newsz s = allocuvm_loop n pgdir (a + PGSIZE) oldsz newsz t"
        and t: "uvm_ok t pgdir ys" "can_report t" "\<And>vb. page_no vb \<noteq> page_no a \<Longrightarrow> pte (mem t) pgdir vb = pte (mem s) pgdir vb"
      have "a < KERNBASE" using lt Suc.prems(3) by (rule less_trans)
      then have "unat (a + 4096) = unat a + 4096" by (subst unat_add32) (simp_all add: word_less_nat_alt)
      then have a': "unat (a + 4096) mod 4096 = 0" "page_no (a + 4096) = Suc (page_no a)" using Suc.prems(2) by simp_all
      show ?thesis unfolding e
      proof (rule Suc.IH [OF t(1) a'(1) Suc.prems(3,4) _ Suc.prems(6) _ t(2)])
        show "pte (mem t) pgdir vb = 0" if "page_no (a + 4096) \<le> page_no vb" "page_no vb < k" for vb
          using that t(3) [of vb] Suc.prems(9) [of vb] unfolding a'(2) by simp
        show "pte (mem t) pgdir vb AND PTE_P \<noteq> 0" if "page_no vb = k" for vb
          using t(3) [of vb] Suc.prems(10) [OF that] that ak by simp
      qed (use ak a'(2) Suc.prems(7) in auto)
    qed blast
  qed
qed simp

lemma pgflt_present:
  assumes p: "myproc s = Some p" "p_pgdir (proc_at s p) = pgdir" "p_stackSize (proc_at s p) = n"
    and n: "unat n < top_page" and a: "page_no addr < k" "k < top_page - unat n"
    and ok: "uvm_ok s pgdir xs" "can_report s"
    and free: "\<And>vb. page_no addr \<le> page_no vb \<Longrightarrow> page_no vb < k \<Longrightarrow> pte (mem s) pgdir vb = 0"
    and hit: "\<And>vb. page_no vb = k \<Longrightarrow> pte (mem s) pgdir vb AND PTE_P \<noteq> 0"
  shows "pgflt addr s = Panic ''remap'' \<or> pgflt addr s = Panic (''Messed Up'' @ [CHR 0x0A])"
proof -
  let ?a = "PGROUNDDOWN addr"
  have le: "?a \<le> stack_bottom n" using fault_below [OF n] a by simp
  have u: "unat ?a = 4096 * page_no addr" by (simp add: unat_PGROUNDDOWN)
  have sb: "unat (stack_bottom n) + 4 = 4096 * (top_page - unat n)" by (rule stack_bottom_unat(1) [OF n])
  have lt: "?a < stack_bottom n" using u sb a by (simp add: word_less_nat_alt)
  have "unat ?a + 4095 < 4294967296" using u a by simp
  from unat_PGROUNDUP [OF this] have up: "unat (PGROUNDUP ?a) = 4096 * page_no addr" using u by simp
  then have pa: "page_no (PGROUNDUP ?a) = page_no addr" "unat (PGROUNDUP ?a) mod 4096 = 0" by simp_all
  have "allocuvm pgdir ?a (stack_bottom n) s = allocuvm_loop 1048577 pgdir (PGROUNDUP ?a) ?a (stack_bottom n) s"
    using le stack_bottom_unat(2) [OF n] by (auto simp: allocuvm_def)
  moreover have "k < (unat (stack_bottom n) + 4095) div 4096" using stack_bottom_unat(3) [OF n] a(2) by simp
  ultimately have "allocuvm pgdir ?a (stack_bottom n) s = Panic ''remap'' \<or> (\<exists>t. allocuvm pgdir ?a (stack_bottom n) s = Done 0 t)"
    using allocuvm_loop_present [OF ok(1) pa(2) stack_bottom_unat(2) [OF n] lt _ _ _ ok(2), of k 1048577] free hit a
    unfolding pa(1) by simp
  then show ?thesis unfolding pgflt_eq [OF p] using le by auto
qed


text \<open>A process without stack pages in the small machine.\<close>

definition stack_vm :: vmstate where
  "stack_vm = small_vm\<lparr>ptable := [blank_proc\<lparr>p_state := RUNNING, p_pid := 1, p_pgdir := 0x80400000\<rparr>]\<rparr>"

lemma stack_vm_facts:
  "myproc stack_vm = Some 0" "stack_ok stack_vm 0 small_pages" "can_report stack_vm"
  "p_pgdir (proc_at stack_vm 0) = 0x80400000" "p_stackSize (proc_at stack_vm 0) = 0"
  "pte (mem stack_vm) 0x80400000 va = 0"
proof -
  have "uvm_ok (upd_proc 0 (\<lambda>x. x\<lparr>p_pgdir := 0x80400000\<rparr>) small_vm) 0x80400000 small_pages" using small_vm_ok by simp
  moreover have "upd_proc 0 (\<lambda>x. x\<lparr>p_pgdir := 0x80400000\<rparr>) small_vm = stack_vm"
    by (simp add: upd_proc_def stack_vm_def small_vm_def)
  ultimately have ok: "uvm_ok stack_vm 0x80400000 small_pages" by simp
  show p: "p_pgdir (proc_at stack_vm 0) = 0x80400000" "p_stackSize (proc_at stack_vm 0) = 0"
    by (simp_all add: proc_at_def stack_vm_def blank_proc_def)
  show "myproc stack_vm = Some 0" "can_report stack_vm"
    by (simp_all add: myproc_def can_report_def console_free_def stack_vm_def small_vm_def)
  show "stack_ok stack_vm 0 small_pages" unfolding stack_ok_def p using ok by (simp add: stack_vm_def)
  show "pte (mem stack_vm) 0x80400000 va = 0" using small_vm_pte by (simp add: stack_vm_def)
qed



end
