(* ===== verification/Lru.thy ===== *)
theory Lru
  imports Bio
begin

text \<open>
  What the pointers of the buffer cache mean. The fields \<open>next\<close> and \<open>prev\<close> of the buffers and of
  \<open>bcache.head\<close> make a ring; \<open>buf_ring xs s\<close> says that the ring of state \<open>s\<close> is the list \<open>xs\<close> of
  buffers, the most recently used first. \<open>binit\<close> makes such a ring, the searches of \<open>bget\<close> are
  searches of the list from the front and from the back, and \<open>brelse\<close> moves a buffer nobody uses
  any more to the front. The cache never holds two copies of a block.
\<close>

section \<open>Doubly linked lists\<close>

fun linked :: "(nat \<Rightarrow> nat) \<Rightarrow> (nat \<Rightarrow> nat) \<Rightarrow> nat list \<Rightarrow> bool" where
  "linked nx pv (a # b # l) \<longleftrightarrow> nx a = b \<and> pv b = a \<and> linked nx pv (b # l)"
| "linked nx pv l \<longleftrightarrow> True"

lemma linked_append: "linked nx pv (l @ a # m) \<longleftrightarrow> linked nx pv (l @ [a]) \<and> linked nx pv (a # m)"
  by (induction nx pv l rule: linked.induct) (auto simp: neq_Nil_conv)

lemma linked_cong:
  "(\<And>x. x \<in> set (butlast l) \<Longrightarrow> nx x = nx' x) \<Longrightarrow> (\<And>x. x \<in> set (tl l) \<Longrightarrow> pv x = pv' x)
    \<Longrightarrow> linked nx pv l = linked nx' pv' l"
  by (induction nx pv l rule: linked.induct) (auto split: if_splits)

text \<open>Taking \<open>b\<close> out from between \<open>p\<close> and \<open>n\<close>.\<close>

lemma linked_unlink:
  assumes l: "linked nx pv (l @ p # b # n # m)"
    and p: "p \<notin> set l" "p \<notin> set (butlast (n # m))"
    and n: "n \<notin> set m" "n \<notin> set (tl (l @ [p]))"
  shows "linked (nx(p := n)) (pv(n := p)) (l @ p # n # m)"
proof -
  have "linked nx pv (l @ [p])" "linked nx pv (n # m)"
    using l linked_append [of nx pv l p "b # n # m"] by simp_all
  moreover have "linked (nx(p := n)) (pv(n := p)) (l @ [p]) = linked nx pv (l @ [p])"
    using p n by (intro linked_cong) auto
  moreover have "linked (nx(p := n)) (pv(n := p)) (n # m) = linked nx pv (n # m)"
    using p n by (intro linked_cong) auto
  ultimately show ?thesis
    using linked_append [of "nx(p := n)" "pv(n := p)" l p "n # m"] by simp
qed

text \<open>Putting \<open>b\<close> between the first two.\<close>

lemma linked_insert:
  assumes l: "linked nx pv (h # f # m)"
    and out: "b \<notin> set (h # f # m)" and h: "h \<notin> set (butlast (f # m))" and f: "f \<notin> set m"
  shows "linked (nx(b := f, h := b)) (pv(b := h, f := b)) (h # b # f # m)"
proof -
  have "linked (nx(b := f, h := b)) (pv(b := h, f := b)) (f # m) = linked nx pv (f # m)"
    using out h f by (intro linked_cong) (auto dest: in_set_butlastD split: if_splits)
  then show ?thesis using l out by auto
qed

section \<open>The ring of buffers\<close>

definition nexts :: "'a bstate_scheme \<Rightarrow> nat \<Rightarrow> nat" where
  "nexts s i = b_next (buf_at s i)"

definition prevs :: "'a bstate_scheme \<Rightarrow> nat \<Rightarrow> nat" where
  "prevs s i = b_prev (buf_at s i)"

definition buf_ring :: "nat list \<Rightarrow> 'a bstate_scheme \<Rightarrow> bool" where
  "buf_ring xs s \<longleftrightarrow> length (bufs s) = NBUF + 1 \<and> distinct xs \<and> set xs \<subseteq> {..<NBUF}
     \<and> linked (nexts s) (prevs s) (bhead # xs @ [bhead])"

lemma length_upd_buf [simp]: "length (bufs (upd_buf i f s)) = length (bufs s)"
  by (simp add: upd_buf_def)

lemma buf_at_upd_buf:
  "i < length (bufs s) \<Longrightarrow> buf_at (upd_buf i f s) j = (if j = i then f (buf_at s i) else buf_at s j)"
  by (simp add: buf_at_def upd_buf_def)

lemma links_upd_buf:
  assumes "i < length (bufs s)"
  shows "nexts (upd_buf i f s) = (nexts s)(i := b_next (f (buf_at s i)))"
    "prevs (upd_buf i f s) = (prevs s)(i := b_prev (f (buf_at s i)))"
  using assms by (auto simp: nexts_def prevs_def buf_at_upd_buf fun_eq_iff)

lemma links_upd_buf_same:
  assumes "\<And>x. b_next (f x) = b_next x" "\<And>x. b_prev (f x) = b_prev x"
  shows "nexts (upd_buf i f s) = nexts s" "prevs (upd_buf i f s) = prevs s"
proof -
  have "buf_at (upd_buf i f s) j = (if j = i \<and> i < length (bufs s) then f (buf_at s j) else buf_at s j)" for j
    by (cases "i < length (bufs s)") (auto simp: buf_at_def upd_buf_def nth_list_update list_update_beyond)
  then show "nexts (upd_buf i f s) = nexts s" "prevs (upd_buf i f s) = prevs s"
    using assms by (auto simp: nexts_def prevs_def fun_eq_iff)
qed

lemma buf_ring_upd:
  assumes "\<And>x. b_next (f x) = b_next x" "\<And>x. b_prev (f x) = b_prev x"
  shows "buf_ring xs (upd_buf i f s) = buf_ring xs s"
  using links_upd_buf_same [of f i s] assms by (simp add: buf_ring_def)

lemma buf_ring_bufs: "bufs t = bufs s \<Longrightarrow> buf_ring xs t = buf_ring xs s"
  by (simp add: buf_ring_def nexts_def [abs_def] prevs_def [abs_def] buf_at_def)

lemma buf_ringD:
  assumes "buf_ring xs s"
  shows "length (bufs s) = NBUF + 1" "distinct xs" "b \<in> set xs \<Longrightarrow> b < NBUF"
    "linked (nexts s) (prevs s) (bhead # xs @ [bhead])" "bhead \<notin> set xs"
  using assms unfolding buf_ring_def by auto

lemma buf_ring_lt: "buf_ring xs s \<Longrightarrow> b \<in> set xs \<Longrightarrow> b < length (bufs s)"
  using buf_ringD(1,3) less_SucI by (metis Suc_eq_plus1)

text \<open>The assignments of \<open>brelse\<close>, on the two pointer fields.\<close>

lemma brelse_move_links:
  assumes len: "length (bufs s) = NBUF + 1" and lt: "b < NBUF"
    and n: "nexts s b = n" "n \<le> NBUF" "n \<noteq> b" and p: "prevs s b = p" "p \<le> NBUF" "p \<noteq> b"
    and f: "((nexts s)(p := n)) bhead = f" "f \<le> NBUF" "f \<noteq> b"
  shows "nexts (brelse_move b s) = (nexts s)(p := n, b := f, bhead := b)" (is ?N)
    and "prevs (brelse_move b s) = (prevs s)(n := p, b := bhead, f := b)" (is ?P)
    and "length (bufs (brelse_move b s)) = NBUF + 1" (is ?L)
proof -
  define s1 where "s1 = upd_buf n (\<lambda>x. x\<lparr>b_prev := p\<rparr>) s"
  define s2 where "s2 = upd_buf p (\<lambda>x. x\<lparr>b_next := n\<rparr>) s1"
  define s3 where "s3 = upd_buf b (\<lambda>x. x\<lparr>b_next := f\<rparr>) s2"
  define s4 where "s4 = upd_buf b (\<lambda>x. x\<lparr>b_prev := bhead\<rparr>) s3"
  define s5 where "s5 = upd_buf f (\<lambda>x. x\<lparr>b_prev := b\<rparr>) s4"
  define s6 where "s6 = upd_buf bhead (\<lambda>x. x\<lparr>b_next := b\<rparr>) s5"
  note defs = s1_def s2_def s3_def s4_def s5_def s6_def
  have len_s: "length (bufs t) = NBUF + 1" if "t \<in> {s, s1, s2, s3, s4, s5, s6}" for t
    using that len by (auto simp: defs)
  have in_s: "i < length (bufs t)" if "t \<in> {s, s1, s2, s3, s4, s5, s6}" "i \<le> NBUF" for i t
    using len_s [OF that(1)] that(2) by simp
  note links = links_upd_buf [OF in_s]
  have field: "b_next (buf_at t i) = nexts t i" "b_prev (buf_at t i) = prevs t i" for t :: "'a bstate_scheme" and i
    by (simp_all add: nexts_def prevs_def)
  have l1: "nexts s1 = nexts s" "prevs s1 = (prevs s)(n := p)"
    unfolding s1_def using n by (simp_all add: links field)
  have l2: "nexts s2 = (nexts s1)(p := n)" "prevs s2 = prevs s1"
    unfolding s2_def using p by (simp_all add: links field)
  have l3: "nexts s3 = (nexts s2)(b := f)" "prevs s3 = prevs s2"
    unfolding s3_def using lt by (simp_all add: links field)
  have l4: "nexts s4 = nexts s3" "prevs s4 = (prevs s3)(b := bhead)"
    unfolding s4_def using lt by (simp_all add: links field)
  have l5: "nexts s5 = nexts s4" "prevs s5 = (prevs s4)(f := b)"
    unfolding s5_def using f by (simp_all add: links field)
  have l6: "nexts s6 = (nexts s5)(bhead := b)" "prevs s6 = prevs s5"
    unfolding s6_def by (simp_all add: links field)
  have "nexts s2 bhead = f" "nexts s4 bhead = f"
    using f lt by (simp_all add: l1 l2 l3 l4)
  then have "brelse_move b s = s6"
    unfolding brelse_move_def Let_def field
    using n p by (simp add: l1 defs [symmetric])
  then show ?N ?P ?L
    using len_s [of s6] by (simp_all add: l1 l2 l3 l4 l5 l6)
qed

text \<open>A buffer of the ring is moved to its front.\<close>

lemma brelse_move_ring:
  assumes ring: "buf_ring (l @ b # m) s"
  shows "buf_ring (b # l @ m) (brelse_move b s)"
proof -
  note R = buf_ringD [OF ring]
  obtain A p where A: "bhead # l = A @ [p]" by (cases "bhead # l" rule: rev_cases) auto
  obtain n B where B: "m @ [bhead] = n # B" by (cases "m @ [bhead]") auto
  obtain f M where M: "l @ m @ [bhead] = f # M" by (cases "l @ m @ [bhead]") auto
  let ?nx = "(nexts s)(p := n)" and ?pv = "(prevs s)(n := p)"
  have whole: "bhead # (l @ b # m) @ [bhead] = A @ p # b # n # B"
    using arg_cong2 [OF A B, of "\<lambda>x y. x @ b # y"] by simp
  have cut: "bhead # f # M = A @ p # n # B"
    using arg_cong2 [OF A B, of append] M by simp
  have pset: "p = bhead \<or> p \<in> set l" and nset: "n = bhead \<or> n \<in> set m" and fset: "f = bhead \<or> f \<in> set l \<or> f \<in> set m"
    using arg_cong [OF A, of set] arg_cong [OF B, of set] arg_cong [OF M, of set] by auto
  have b: "b < NBUF" "b \<notin> set l" "b \<notin> set m" using R by auto
  have distA: "distinct (A @ [p])" unfolding A [symmetric] using R(2,5) by simp
  have distB: "distinct (n # B)" unfolding B [symmetric] using R(2,5) by simp
  have links: "nexts s b = n" "prevs s b = p"
    using R(4) linked_append [of "nexts s" "prevs s" A p "b # n # B"] unfolding whole by simp_all
  have tlA: "tl (A @ [p]) = l" using A by (metis list.sel(3))
  have butB: "butlast (n # B) = m" using B by (metis butlast_snoc)
  have "(l @ m) @ [bhead] = f # M" using M by simp
  then have butM: "butlast (f # M) = l @ m" by (metis butlast_snoc)
  have un: "linked ?nx ?pv (A @ p # n # B)"
  proof (rule linked_unlink)
    show "linked (nexts s) (prevs s) (A @ p # b # n # B)" using R(4) whole by simp
    show "p \<notin> set A" using distA by simp
    show "p \<notin> set (butlast (n # B))" using R(2,5) pset unfolding butB by auto
    show "n \<notin> set (tl (A @ [p]))" using R(2,5) nset unfolding tlA by auto
    show "n \<notin> set B" using distB by simp
  qed
  have nodup: "distinct (f # M)" unfolding M [symmetric] using R(2,5) by simp
  have "?nx bhead = f" using un unfolding cut [symmetric] by simp
  moreover have "n \<le> NBUF" "n \<noteq> b" "p \<le> NBUF" "p \<noteq> b" "f \<le> NBUF" "f \<noteq> b"
    using R b pset nset fset by (auto intro: less_imp_le)
  ultimately have moved: "nexts (brelse_move b s) = ?nx(b := f, bhead := b)"
    "prevs (brelse_move b s) = ?pv(b := bhead, f := b)" "length (bufs (brelse_move b s)) = NBUF + 1"
    using brelse_move_links [OF R(1) b(1) links(1) _ _ links(2)] by blast+
  have "linked (?nx(b := f, bhead := b)) (?pv(b := bhead, f := b)) (bhead # b # f # M)"
  proof (rule linked_insert)
    show "linked ?nx ?pv (bhead # f # M)" using un cut by simp
    show "b \<notin> set (bhead # f # M)" unfolding M [symmetric] using b by auto
    show "bhead \<notin> set (butlast (f # M))" using R(5) butM by simp
    show "f \<notin> set M" using nodup by simp
  qed
  moreover have "bhead # (b # l @ m) @ [bhead] = bhead # b # f # M" using M by simp
  moreover have "distinct (b # l @ m)" "set (b # l @ m) \<subseteq> {..<NBUF}"
    using R(2) R(3) by (simp_all add: subset_iff)
  ultimately show ?thesis
    unfolding buf_ring_def moved by simp
qed

section \<open>The searches of bget\<close>

lemma bget_cached_find:
  "linked (nexts s) (prevs s) (ys @ [bhead]) \<Longrightarrow> bhead \<notin> set ys \<Longrightarrow> length ys < n
    \<Longrightarrow> bget_cached n (hd (ys @ [bhead])) dev blockno (bufs s)
      = Some (find (\<lambda>b. b_dev (buf_at s b) = dev \<and> b_blockno (buf_at s b) = blockno) ys)"
proof (induction ys arbitrary: n)
  case Nil
  then obtain m where "n = Suc m" by (cases n) auto
  then show ?case by simp
next
  case (Cons y ys)
  then obtain m where n: "n = Suc m" by (cases n) auto
  have "linked (nexts s) (prevs s) (y # ys @ [bhead])" using Cons.prems by simp
  then have step: "b_next (bufs s ! y) = hd (ys @ [bhead])" and l: "linked (nexts s) (prevs s) (ys @ [bhead])"
    by (cases "ys @ [bhead]"; simp add: nexts_def buf_at_def)+
  have "y \<noteq> bhead" "bhead \<notin> set ys" "length ys < m" using Cons.prems n by simp_all
  then show ?case using Cons.IH [OF l, of m] step n by (simp add: buf_at_def)
qed

lemma linked_rev: "linked nx pv (rev l) = linked pv nx l"
proof (induction pv nx l rule: linked.induct)
  case (1 pv nx a b l)
  then show ?case
    using linked_append [of nx pv "rev l" b "[a]"] by auto
qed simp_all

text \<open>Read backwards, the ring is a ring with the two fields exchanged.\<close>

lemma bget_unused_find:
  "linked (prevs s) (nexts s) (ys @ [bhead]) \<Longrightarrow> bhead \<notin> set ys \<Longrightarrow> length ys < n
    \<Longrightarrow> bget_unused n (hd (ys @ [bhead])) (bufs s)
      = Some (find (\<lambda>b. b_refcnt (buf_at s b) = 0 \<and> b_flags (buf_at s b) AND B_DIRTY = 0) ys)"
proof (induction ys arbitrary: n)
  case Nil
  then obtain m where "n = Suc m" by (cases n) auto
  then show ?case by simp
next
  case (Cons y ys)
  then obtain m where n: "n = Suc m" by (cases n) auto
  have "linked (prevs s) (nexts s) (y # ys @ [bhead])" using Cons.prems by simp
  then have step: "b_prev (bufs s ! y) = hd (ys @ [bhead])" and l: "linked (prevs s) (nexts s) (ys @ [bhead])"
    by (cases "ys @ [bhead]"; simp add: prevs_def buf_at_def)+
  have "y \<noteq> bhead" "bhead \<notin> set ys" "length ys < m" using Cons.prems n by simp_all
  then show ?case using Cons.IH [OF l, of m] step n by (simp add: buf_at_def)
qed

text \<open>
  The buffer the list gives for a block: the one that has it, or the least recently used one that
  nobody uses and that is clean. The second component says whether the block was cached.
\<close>

definition lru_pick :: "u32 \<Rightarrow> u32 \<Rightarrow> nat list \<Rightarrow> 'a bstate_scheme \<Rightarrow> (nat \<times> bool) option" where
  "lru_pick dev blockno xs s =
     (case find (\<lambda>b. b_dev (buf_at s b) = dev \<and> b_blockno (buf_at s b) = blockno) xs of
        Some b \<Rightarrow> Some (b, True)
      | None \<Rightarrow> map_option (\<lambda>b. (b, False))
          (find (\<lambda>b. b_refcnt (buf_at s b) = 0 \<and> b_flags (buf_at s b) AND B_DIRTY = 0) (rev xs)))"

definition lru_take :: "u32 \<Rightarrow> u32 \<Rightarrow> nat \<times> bool \<Rightarrow> 'a bstate_scheme \<Rightarrow> 'a bstate_scheme" where
  "lru_take dev blockno p s =
     upd_buf (fst p) (\<lambda>x. if snd p then x\<lparr>b_refcnt := b_refcnt x + 1\<rparr>
                        else x\<lparr>b_dev := dev, b_blockno := blockno, b_flags := 0, b_refcnt := 1\<rparr>) s"

lemma length_ring: "buf_ring xs s \<Longrightarrow> length xs \<le> NBUF"
  using card_mono [of "{..<NBUF}" "set xs"] by (simp add: buf_ring_def distinct_card)

lemma bget_searches:
  assumes "buf_ring xs s"
  shows "bget_cached (NBUF + 1) (b_next (buf_at s bhead)) dev blockno (bufs s) =
      Some (find (\<lambda>b. b_dev (buf_at s b) = dev \<and> b_blockno (buf_at s b) = blockno) xs)"
    "bget_unused (NBUF + 1) (b_prev (buf_at s bhead)) (bufs s) =
      Some (find (\<lambda>b. b_refcnt (buf_at s b) = 0 \<and> b_flags (buf_at s b) AND B_DIRTY = 0) (rev xs))"
proof -
  note R = buf_ringD [OF assms]
  have lt: "length xs < NBUF + 1" using length_ring [OF assms] by simp
  have hd: "b_next (buf_at s bhead) = hd (xs @ [bhead])" and l: "linked (nexts s) (prevs s) (xs @ [bhead])"
    using R(4) by (cases "xs @ [bhead]"; simp add: nexts_def)+
  show "bget_cached (NBUF + 1) (b_next (buf_at s bhead)) dev blockno (bufs s) =
      Some (find (\<lambda>b. b_dev (buf_at s b) = dev \<and> b_blockno (buf_at s b) = blockno) xs)"
    unfolding hd by (rule bget_cached_find [OF l R(5) lt])
  have "linked (prevs s) (nexts s) (rev (bhead # xs @ [bhead]))"
    using R(4) by (simp only: linked_rev)
  then have "linked (prevs s) (nexts s) (bhead # rev xs @ [bhead])" by simp
  then have hd: "b_prev (buf_at s bhead) = hd (rev xs @ [bhead])" and l: "linked (prevs s) (nexts s) (rev xs @ [bhead])"
    by (cases "rev xs @ [bhead]"; simp add: prevs_def)+
  show "bget_unused (NBUF + 1) (b_prev (buf_at s bhead)) (bufs s) =
      Some (find (\<lambda>b. b_refcnt (buf_at s b) = 0 \<and> b_flags (buf_at s b) AND B_DIRTY = 0) (rev xs))"
    unfolding hd by (rule bget_unused_find [OF l]) (use R(5) lt in simp_all)
qed

text \<open>\<open>bget\<close> takes the buffer the list gives, and leaves the ring as it is.\<close>

lemma lru_take_ring: "buf_ring xs (lru_take dev blockno p s) = buf_ring xs s"
  unfolding lru_take_def by (rule buf_ring_upd) simp_all

lemma upd_buf_held: "upd_buf i f (s\<lparr>held := h\<rparr>) = (upd_buf i f s)\<lparr>held := h\<rparr>"
  by (simp add: upd_buf_def)

lemma bget_lru:
  assumes ring: "buf_ring xs s" and free: "LkBcache \<notin> set (held s)"
  shows "bget dev blockno s =
    (case lru_pick dev blockno xs s of
       None \<Rightarrow> Panic ''bget: no buffers''
     | Some p \<Rightarrow> bindK (acquiresleep (buf_lock (fst p)) (lru_take dev blockno p s)) (\<lambda>_ t. Done (fst p) t))"
proof -
  let ?s = "s\<lparr>held := LkBcache # held s\<rparr>"
  have at: "buf_at ?s = buf_at s" "bufs ?s = bufs s" by (simp_all add: buf_at_def fun_eq_iff)
  have rel: "releaseK LkBcache (upd_buf b f ?s) = Done () (upd_buf b f s)" for b f
    by (simp add: upd_buf_held releaseK_top) (simp add: upd_buf_def)
  note search = bget_searches [OF ring]
  show ?thesis
  proof (cases "find (\<lambda>b. b_dev (buf_at s b) = dev \<and> b_blockno (buf_at s b) = blockno) xs")
    case (Some b)
    then show ?thesis
      unfolding bget_def acquireK_free [OF free] bindK.simps at search
      by (simp add: lru_pick_def lru_take_def rel Let_def)
  next
    case None
    then show ?thesis
      unfolding bget_def acquireK_free [OF free] bindK.simps at search
      by (simp add: lru_pick_def lru_take_def rel Let_def split: option.split)
  qed
qed

section \<open>brelse\<close>

text \<open>\<open>brelse\<close> unlocks the buffer; when nobody uses it any more it becomes the most recent one.\<close>

definition brelse_result :: "nat \<Rightarrow> 'a bstate_scheme \<Rightarrow> 'a bstate_scheme" where
  "brelse_result b s =
     (let s = wakeup1 (ChBufLock b) (upd_buf b (\<lambda>x. x\<lparr>b_lock := \<lparr>sl_locked = False, sl_pid = 0\<rparr>\<rparr>) s);
          s = upd_buf b (\<lambda>x. x\<lparr>b_refcnt := b_refcnt x - 1\<rparr>) s in
      if b_refcnt (buf_at s b) = 0 then brelse_move b s else s)"

lemma brelse_move_held: "brelse_move b (s\<lparr>held := h\<rparr>) = (brelse_move b s)\<lparr>held := h\<rparr>"
  by (simp add: brelse_move_def Let_def buf_at_def upd_buf_def)

lemma held_brelse_move [simp]: "held (brelse_move b s) = held s"
  by (simp add: brelse_move_def Let_def upd_buf_def)

lemma held_upd_buf [simp]: "held (upd_buf b f s) = held s"
  by (simp add: upd_buf_def)

lemma brelse_eq:
  assumes "sl_locked (b_lock (buf_at s b))"
    and "LkBufLock b \<notin> set (held s)" "LkPtable \<notin> set (held s)" "LkBcache \<notin> set (held s)"
  shows "brelse b s = Done () (brelse_result b s)"
proof -
  let ?w = "wakeup1 (ChBufLock b) (upd_buf b (\<lambda>x. x\<lparr>b_lock := \<lparr>sl_locked = False, sl_pid = 0\<rparr>\<rparr>) s)"
  have hold: "holdingsleep (buf_lock b) s = Done True s"
    using bl.holdingsleep_eq [of b s] assms by simp
  have unlock: "releasesleep (buf_lock b) s = Done () ?w"
    using bl.releasesleep_eq [of b s] assms by simp
  have w: "LkBcache \<notin> set (held ?w)" using assms(4) by simp
  have at: "buf_at (s\<lparr>held := h\<rparr>) i = buf_at s i" for s :: "'a bstate_scheme" and h i
    by (simp add: buf_at_def)
  have keep: "t\<lparr>held := held s\<rparr> = t" if "held t = held s" for t :: "'a bstate_scheme"
    using that held_restore by metis
  show ?thesis
    by (simp add: brelse_def hold unlock acquireK_free [OF w] brelse_result_def Let_def
        upd_buf_held at brelse_move_held releaseK_top keep)
qed

lemma brelse_result_ring:
  assumes ring: "buf_ring (l @ b # m) s"
  shows "buf_ring (if b_refcnt (buf_at s b) = 1 then b # l @ m else l @ b # m) (brelse_result b s)"
proof -
  define s1 where "s1 = upd_buf b (\<lambda>x. x\<lparr>b_lock := \<lparr>sl_locked = False, sl_pid = 0\<rparr>\<rparr>) s"
  define s2 where "s2 = wakeup1 (ChBufLock b) s1"
  define s3 where "s3 = upd_buf b (\<lambda>x. x\<lparr>b_refcnt := b_refcnt x - 1\<rparr>) s2"
  have b: "b < length (bufs s)" using buf_ring_lt [OF ring] by simp
  have "bufs s2 = bufs s1" by (simp add: s2_def wakeup1_def)
  then have ring3: "buf_ring (l @ b # m) s3" and b2: "buf_at s2 b = buf_at s1 b" "length (bufs s2) = length (bufs s)"
    using ring by (simp_all add: s3_def buf_ring_upd buf_ring_bufs [of s2 s1] s1_def buf_at_def)
  have "b_refcnt (buf_at s3 b) = b_refcnt (buf_at s b) - 1"
    unfolding s3_def using b b2 by (simp add: buf_at_upd_buf s1_def)
  then have "b_refcnt (buf_at s3 b) = 0 \<longleftrightarrow> b_refcnt (buf_at s b) = 1" by simp
  moreover have "brelse_result b s = (if b_refcnt (buf_at s3 b) = 0 then brelse_move b s3 else s3)"
    by (simp add: brelse_result_def s1_def s2_def s3_def Let_def)
  ultimately show ?thesis
    using brelse_move_ring [OF ring3] ring3 by simp
qed

section \<open>binit\<close>

lemma initsleeplock_bufs: "bufs (initsleeplock (buf_lock b) s) = bufs (upd_buf b (\<lambda>x. x\<lparr>b_lock := \<lparr>sl_locked = False, sl_pid = 0\<rparr>\<rparr>) s)"
  by (simp add: initsleeplock_def initlockK_def upd_buf_def)

lemma initsleeplock_links:
  "nexts (initsleeplock (buf_lock b) s) = nexts s" "prevs (initsleeplock (buf_lock b) s) = prevs s"
  "length (bufs (initsleeplock (buf_lock b) s)) = length (bufs s)"
proof -
  let ?t = "upd_buf b (\<lambda>x. x\<lparr>b_lock := \<lparr>sl_locked = False, sl_pid = 0\<rparr>\<rparr>) s"
  have "nexts (initsleeplock (buf_lock b) s) = nexts ?t" "prevs (initsleeplock (buf_lock b) s) = prevs ?t"
    by (simp_all add: nexts_def [abs_def] prevs_def [abs_def] buf_at_def initsleeplock_bufs)
  then show "nexts (initsleeplock (buf_lock b) s) = nexts s" "prevs (initsleeplock (buf_lock b) s) = prevs s"
    using links_upd_buf_same [of "\<lambda>x. x\<lparr>b_lock := \<lparr>sl_locked = False, sl_pid = 0\<rparr>\<rparr>" b s] by simp_all
qed (simp add: initsleeplock_bufs)

lemma binit_link_links:
  assumes len: "length (bufs s) = NBUF + 1" and b: "b < NBUF" and f: "nexts s bhead = f" "f \<le> NBUF" "f \<noteq> b"
  shows "nexts (binit_link b s) = (nexts s)(b := f, bhead := b)"
    and "prevs (binit_link b s) = (prevs s)(b := bhead, f := b)"
    and "length (bufs (binit_link b s)) = NBUF + 1"
proof -
  define s1 where "s1 = upd_buf b (\<lambda>x. x\<lparr>b_next := f\<rparr>) s"
  define s2 where "s2 = upd_buf b (\<lambda>x. x\<lparr>b_prev := bhead\<rparr>) s1"
  define s3 where "s3 = initsleeplock (buf_lock b) s2"
  define s4 where "s4 = upd_buf f (\<lambda>x. x\<lparr>b_prev := b\<rparr>) s3"
  define s5 where "s5 = upd_buf bhead (\<lambda>x. x\<lparr>b_next := b\<rparr>) s4"
  have len_s: "length (bufs s1) = NBUF + 1" "length (bufs s2) = NBUF + 1" "length (bufs s3) = NBUF + 1"
    "length (bufs s4) = NBUF + 1" "length (bufs s5) = NBUF + 1"
    using len by (simp_all add: s1_def s2_def s3_def s4_def s5_def initsleeplock_links)
  have field: "b_next (buf_at t i) = nexts t i" "b_prev (buf_at t i) = prevs t i" for t :: "'a bstate_scheme" and i
    by (simp_all add: nexts_def prevs_def)
  have l1: "nexts s1 = (nexts s)(b := f)" "prevs s1 = prevs s"
    unfolding s1_def using b len by (simp_all add: links_upd_buf field)
  have l2: "nexts s2 = nexts s1" "prevs s2 = (prevs s1)(b := bhead)"
    unfolding s2_def using b len_s by (simp_all add: links_upd_buf field)
  have l3: "nexts s3 = nexts s2" "prevs s3 = prevs s2"
    unfolding s3_def by (simp_all add: initsleeplock_links)
  have l4: "nexts s4 = nexts s3" "prevs s4 = (prevs s3)(f := b)"
    unfolding s4_def using f len_s by (simp_all add: links_upd_buf field)
  have l5: "nexts s5 = (nexts s4)(bhead := b)" "prevs s5 = prevs s4"
    unfolding s5_def using len_s by (simp_all add: links_upd_buf field)
  have "nexts s3 bhead = f" using f b by (simp add: l1 l2 l3)
  then have "binit_link b s = s5"
    unfolding binit_link_def Let_def field f s1_def [symmetric] s2_def [symmetric] s3_def [symmetric]
    by (simp add: s4_def s5_def)
  then show "nexts (binit_link b s) = (nexts s)(b := f, bhead := b)"
    "prevs (binit_link b s) = (prevs s)(b := bhead, f := b)" "length (bufs (binit_link b s)) = NBUF + 1"
    using len_s by (simp_all add: l1 l2 l3 l4 l5)
qed

lemma binit_link_ring:
  assumes ring: "buf_ring xs s" and b: "b < NBUF" "b \<notin> set xs"
  shows "buf_ring (b # xs) (binit_link b s)"
proof -
  note R = buf_ringD [OF ring]
  obtain f M where M: "xs @ [bhead] = f # M" by (cases "xs @ [bhead]") auto
  have fset: "f = bhead \<or> f \<in> set xs" using arg_cong [OF M, of set] by auto
  have l: "linked (nexts s) (prevs s) (bhead # f # M)" using R(4) M by simp
  then have "nexts s bhead = f" by simp
  moreover have "f \<le> NBUF" "f \<noteq> b" using fset R(3) b by (auto intro: less_imp_le)
  ultimately have moved: "nexts (binit_link b s) = (nexts s)(b := f, bhead := b)"
    "prevs (binit_link b s) = (prevs s)(b := bhead, f := b)" "length (bufs (binit_link b s)) = NBUF + 1"
    using binit_link_links [OF R(1) b(1)] by blast+
  have butM: "butlast (f # M) = xs" using M by (metis butlast_snoc)
  have "distinct (f # M)" unfolding M [symmetric] using R(2,5) by simp
  then have "linked ((nexts s)(b := f, bhead := b)) ((prevs s)(b := bhead, f := b)) (bhead # b # f # M)"
    using linked_insert [OF l] R(5) b butM arg_cong [OF M, of set] by auto
  moreover have "bhead # (b # xs) @ [bhead] = bhead # b # f # M" using M by simp
  moreover have "distinct (b # xs)" "set (b # xs) \<subseteq> {..<NBUF}"
    using R(2,3) b by (simp_all add: subset_iff)
  ultimately show ?thesis unfolding buf_ring_def moved by simp
qed

lemma binit_loop_ring: "n \<le> NBUF \<Longrightarrow> buf_ring [] s \<Longrightarrow> buf_ring (rev [0..<n]) (fold binit_link [0..<n] s)"
proof (induction n)
  case (Suc n)
  then show ?case using binit_link_ring [of "rev [0..<n]" "fold binit_link [0..<n] s" n] by simp
qed simp

lemma binit_ring:
  assumes "length (bufs s) = NBUF + 1"
  shows "buf_ring (rev [0..<NBUF]) (binit s)"
proof -
  let ?t = "upd_buf bhead (\<lambda>x. x\<lparr>b_next := bhead\<rparr>) (upd_buf bhead (\<lambda>x. x\<lparr>b_prev := bhead\<rparr>) (initlockK LkBcache s))"
  have "length (bufs (initlockK LkBcache s)) = NBUF + 1" using assms by (simp add: initlockK_def)
  then have "buf_ring [] ?t"
    by (simp add: buf_ring_def links_upd_buf buf_at_upd_buf)
  then show ?thesis unfolding binit_def Let_def by (rule binit_loop_ring [OF order_refl])
qed

section \<open>One copy of each block\<close>

text \<open>Device 0 marks a buffer that was never used; the other buffers hold different blocks.\<close>

definition one_copy :: "nat list \<Rightarrow> 'a bstate_scheme \<Rightarrow> bool" where
  "one_copy xs s \<longleftrightarrow>
     (\<forall>i \<in> set xs. \<forall>j \<in> set xs. b_dev (buf_at s i) \<noteq> 0 \<longrightarrow> b_dev (buf_at s i) = b_dev (buf_at s j)
        \<longrightarrow> b_blockno (buf_at s i) = b_blockno (buf_at s j) \<longrightarrow> i = j)"

lemma find_SomeD: "find P xs = Some x \<Longrightarrow> x \<in> set xs \<and> P x"
  by (induction xs) (auto split: if_splits)

lemma find_NoneD: "find P xs = None \<Longrightarrow> x \<in> set xs \<Longrightarrow> \<not> P x"
  by (induction xs) (auto split: if_splits)

lemma lru_pickD:
  assumes "lru_pick dev blockno xs s = Some (b, hit)"
  shows "b \<in> set xs"
    "hit \<Longrightarrow> b_dev (buf_at s b) = dev \<and> b_blockno (buf_at s b) = blockno"
    "\<not> hit \<Longrightarrow> i \<in> set xs \<Longrightarrow> \<not> (b_dev (buf_at s i) = dev \<and> b_blockno (buf_at s i) = blockno)"
    "\<not> hit \<Longrightarrow> b_refcnt (buf_at s b) = 0 \<and> b_flags (buf_at s b) AND B_DIRTY = 0"
  using assms by (auto simp: lru_pick_def split: option.splits dest: find_SomeD find_NoneD)

lemma lru_take_at:
  "b < length (bufs s) \<Longrightarrow> buf_at (lru_take dev blockno (b, hit) s) i =
    (if i \<noteq> b then buf_at s i
     else if hit then buf_at s b\<lparr>b_refcnt := b_refcnt (buf_at s b) + 1\<rparr>
     else buf_at s b\<lparr>b_dev := dev, b_blockno := blockno, b_flags := 0, b_refcnt := 1\<rparr>)"
  by (simp add: lru_take_def buf_at_upd_buf)

lemma lru_take_one_copy:
  assumes ring: "buf_ring xs s" and one: "one_copy xs s" and pick: "lru_pick dev blockno xs s = Some (b, hit)"
  shows "one_copy xs (lru_take dev blockno (b, hit) s)"
    "b_dev (buf_at (lru_take dev blockno (b, hit) s) b) = dev"
    "b_blockno (buf_at (lru_take dev blockno (b, hit) s) b) = blockno"
proof -
  have b: "b < length (bufs s)" "b \<in> set xs"
    using buf_ring_lt [OF ring] lru_pickD(1) [OF pick] by blast+
  show "b_dev (buf_at (lru_take dev blockno (b, hit) s) b) = dev"
    "b_blockno (buf_at (lru_take dev blockno (b, hit) s) b) = blockno"
    using lru_pickD(2) [OF pick] by (simp_all add: lru_take_at [OF b(1)])
  show "one_copy xs (lru_take dev blockno (b, hit) s)"
    unfolding one_copy_def
  proof (intro ballI impI)
    fix i j
    let ?at = "buf_at (lru_take dev blockno (b, hit) s)"
    assume ij: "i \<in> set xs" "j \<in> set xs" and h: "b_dev (?at i) \<noteq> 0" "b_dev (?at i) = b_dev (?at j)"
      "b_blockno (?at i) = b_blockno (?at j)"
    have old: "i = j" if "b_dev (buf_at s i) \<noteq> 0" "b_dev (buf_at s i) = b_dev (buf_at s j)"
      "b_blockno (buf_at s i) = b_blockno (buf_at s j)"
      using one ij that unfolding one_copy_def by blast
    show "i = j"
      using h old lru_pickD(3) [OF pick _ ij(1)] lru_pickD(3) [OF pick _ ij(2)]
      by (cases hit; cases "i = b"; cases "j = b") (simp_all add: lru_take_at [OF b(1)])
  qed
qed

lemma one_copy_cong:
  "(\<And>i. b_dev (buf_at t i) = b_dev (buf_at s i) \<and> b_blockno (buf_at t i) = b_blockno (buf_at s i)) \<Longrightarrow> one_copy xs t = one_copy xs s"
  by (simp add: one_copy_def)

lemma buf_at_lock:
  "b_dev (buf_at (upd_buf b (\<lambda>x. x\<lparr>b_lock := l\<rparr>) s) i) = b_dev (buf_at s i)
   \<and> b_blockno (buf_at (upd_buf b (\<lambda>x. x\<lparr>b_lock := l\<rparr>) s) i) = b_blockno (buf_at s i)"
  by (cases "b < length (bufs s)") (auto simp: buf_at_def upd_buf_def nth_list_update list_update_beyond)

text \<open>A buffer that \<open>bget\<close> returns is the locked, only copy of the block.\<close>

lemma bget_result:
  assumes ring: "buf_ring xs s" and one: "one_copy xs s" and r: "bget dev blockno s = Done b t"
  shows "buf_ring xs t \<and> one_copy xs t \<and> b \<in> set xs
    \<and> b_dev (buf_at t b) = dev \<and> b_blockno (buf_at t b) = blockno \<and> sl_locked (b_lock (buf_at t b))"
proof -
  have free: "LkBcache \<notin> set (held s)" using r by (auto simp: bget_def acquireK_def)
  obtain hit where pick: "lru_pick dev blockno xs s = Some (b, hit)"
    and acq: "acquiresleep (buf_lock b) (lru_take dev blockno (b, hit) s) = Done () t"
    using r unfolding bget_lru [OF ring free]
    by (auto simp: bindK_Done_iff split: option.splits)
  let ?u = "lru_take dev blockno (b, hit) s"
  obtain l where t: "t = upd_buf b (\<lambda>x. x\<lparr>b_lock := l\<rparr>) ?u" and l: "sl_locked l"
    using acq by (rule bl.acquiresleep_DoneD) auto
  have b: "b \<in> set xs" by (rule lru_pickD(1) [OF pick])
  have len: "b < length (bufs ?u)" using buf_ring_lt [OF ring b] by (simp add: lru_take_def)
  have "buf_ring xs t" using ring by (simp add: t buf_ring_upd lru_take_ring)
  moreover have "one_copy xs t"
    using lru_take_one_copy(1) [OF ring one pick] one_copy_cong [of t ?u xs] buf_at_lock unfolding t by blast
  moreover have "b_dev (buf_at t b) = dev" "b_blockno (buf_at t b) = blockno" "sl_locked (b_lock (buf_at t b))"
    using lru_take_one_copy(2,3) [OF ring one pick] l by (simp_all add: t buf_at_upd_buf [OF len])
  ultimately show ?thesis using b by blast
qed

section \<open>Properties\<close>

text \<open>A cache of unused buffers, whose pointers \<open>binit\<close> has still to set.\<close>

definition blank_buf :: buf where
  "blank_buf = \<lparr>b_flags = 0, b_dev = 0, b_blockno = 0, b_lock = \<lparr>sl_locked = False, sl_pid = 0\<rparr>,
     b_refcnt = 0, b_prev = 0, b_next = 0, b_qnext = None, b_data = replicate 512 0\<rparr>"

definition blank_cache :: bstate where
  "blank_cache =
     \<lparr>mem = \<lambda>_. 0, sym_end = 0x80110000, sym_data = 0x80108000,
      held = [], ptable = [], initproc = None, nextpid = 1, cpu = 0, cpu_proc = \<lambda>_. None, ticks = 0,
      cons_locking = False, console = [], kmem_use_lock = True, kmem_freelist = 0,
      kpgdir = 0, cr3 = 0, gdt = \<lambda>_ _. SEG 0 0 0 0, ts = \<lambda>_. zero_ts, ts_addr = \<lambda>_. 0, gdtr = \<lambda>_. None,
      tr = \<lambda>_. 0, bufs = replicate 31 blank_buf, disk = \<lambda>_. replicate 512 0, disksize = 1000,
      disk_trace = []\<rparr>"

text \<open>
  C16: \<open>binit\<close> links all buffers into one ring around \<open>bcache.head\<close>, consistent in both directions,
  with the last buffer of the array first.
\<close>

theorem binit_makes_ring:
  assumes "length (bufs s) = NBUF + 1"
  shows "buf_ring (rev [0..<NBUF]) (binit s)"
  by (rule binit_ring [OF assms])

theorem binit_makes_ring_witness: "buf_ring (rev [0..<NBUF]) (binit blank_cache)"
  using binit_makes_ring [of blank_cache] by (simp add: blank_cache_def)

text \<open>
  C7: On a ring of buffers, \<open>bget\<close> does what the list says: it takes the buffer that has the block, or
  else the least recently used buffer that is clean and unused, gives it the block's number, and
  panics when there is none; the loops over the pointers always reach the head again.
\<close>

theorem bget_refines_list:
  assumes "buf_ring xs s" and "LkBcache \<notin> set (held s)"
  shows "bget dev blockno s =
    (case lru_pick dev blockno xs s of
       None \<Rightarrow> Panic ''bget: no buffers''
     | Some p \<Rightarrow> bindK (acquiresleep (buf_lock (fst p)) (lru_take dev blockno p s)) (\<lambda>_ t. Done (fst p) t))"
  by (rule bget_lru [OF assms])

lemma binit_blank_ring: "buf_ring (rev [0..<NBUF]) (binit blank_cache)"
  by (rule binit_ring) (simp add: blank_cache_def)

lemma held_binit: "set (held (binit s)) \<subseteq> set (held s)"
proof -
  have "held (binit_link b u) = removeAll (LkBufLock b) (held u)" for b and u :: "'a bstate_scheme"
    by (simp add: binit_link_def Let_def initsleeplock_def initlockK_def buf_lock_def upd_buf_def)
  then have "set (held (fold binit_link bs u)) \<subseteq> set (held u)" for bs and u :: "'a bstate_scheme"
    by (induction bs arbitrary: u) fastforce+
  then show ?thesis
    unfolding binit_def Let_def
    by (rule order_trans) (auto simp: initlockK_def)
qed

theorem bget_refines_list_witness:
  "bget 1 7 (binit blank_cache) =
    (case lru_pick 1 7 (rev [0..<NBUF]) (binit blank_cache) of
       None \<Rightarrow> Panic ''bget: no buffers''
     | Some p \<Rightarrow> bindK (acquiresleep (buf_lock (fst p)) (lru_take 1 7 p (binit blank_cache))) (\<lambda>_ t. Done (fst p) t))"
  using held_binit [of blank_cache]
  by (intro bget_refines_list binit_blank_ring) (auto simp: blank_cache_def)

text \<open>
  C14: The cache never holds two copies of a block: when the buffers in use hold different blocks
  before \<open>bget\<close>, they still do after it, and the buffer it returns is the locked one that has the
  block asked for.
\<close>

theorem bget_one_copy:
  assumes "buf_ring xs s" and "one_copy xs s" and "bget dev blockno s = Done b t"
  shows "buf_ring xs t \<and> one_copy xs t \<and> b \<in> set xs
    \<and> b_dev (buf_at t b) = dev \<and> b_blockno (buf_at t b) = blockno \<and> sl_locked (b_lock (buf_at t b))"
  by (rule bget_result [OF assms])

text \<open>A cache with one buffer in its ring, and a process that uses it.\<close>

definition one_buffer :: bstate where
  "one_buffer = blank_cache
     \<lparr>bufs := (replicate 31 blank_buf)[0 := blank_buf\<lparr>b_next := NBUF, b_prev := NBUF\<rparr>],
      ptable := [blank_proc\<lparr>p_state := RUNNING, p_pid := 1\<rparr>], cpu_proc := \<lambda>_. Some 0\<rparr>"

lemma one_buffer_at:
  "buf_at one_buffer 0 = blank_buf\<lparr>b_next := NBUF, b_prev := NBUF\<rparr>" "buf_at one_buffer bhead = blank_buf"
  by (simp_all add: one_buffer_def buf_at_def)

lemma one_buffer_ring: "buf_ring [0] one_buffer"
  unfolding buf_ring_def nexts_def prevs_def linked.simps append.simps one_buffer_at
  by (simp add: one_buffer_def blank_buf_def nexts_def prevs_def buf_at_def)

lemma one_buffer_bget:
  "bget 1 7 one_buffer = Done 0 (upd_buf 0 (\<lambda>x. x\<lparr>b_lock := \<lparr>sl_locked = True, sl_pid = 1\<rparr>\<rparr>)
     (lru_take 1 7 (0, False) one_buffer))"
proof -
  have held: "held one_buffer = []" and my: "myproc one_buffer = Some 0" "p_pid (proc_at one_buffer 0) = 1"
    by (simp_all add: one_buffer_def blank_cache_def myproc_def proc_at_def)
  have pick: "lru_pick 1 7 [0] one_buffer = Some (0, False)"
    by (simp add: lru_pick_def one_buffer_at blank_buf_def)
  let ?t = "lru_take 1 7 (0, False) one_buffer"
  have t: "held ?t = []" "myproc ?t = Some 0" "p_pid (proc_at ?t 0) = 1"
    using held my by (simp_all add: lru_take_def upd_buf_def myproc_def proc_at_def)
  have "\<not> sl_locked (b_lock (buf_at ?t 0))"
    using lru_take_at [of 0 one_buffer 1 7 False 0] one_buffer_at
    by (simp add: blank_buf_def) (simp add: one_buffer_def)
  then have "acquiresleep (buf_lock 0) ?t = Done () (upd_buf 0 (\<lambda>x. x\<lparr>b_lock := \<lparr>sl_locked = True, sl_pid = 1\<rparr>\<rparr>) ?t)"
    using bl.acquiresleep_free [of 0 ?t 0] t by simp
  then show ?thesis
    using bget_lru [OF one_buffer_ring, of 1 7] held by (simp add: pick)
qed

theorem bget_one_copy_witness:
  "\<exists>t. bget 1 7 one_buffer = Done 0 t \<and> one_copy [0] t \<and> b_blockno (buf_at t 0) = 7"
  using bget_one_copy [OF one_buffer_ring _ one_buffer_bget] one_buffer_bget by (simp add: one_copy_def)

text \<open>
  C15: \<open>brelse\<close> of a locked buffer returns, and the ring it leaves is the old one, with the buffer moved
  to the front when this was its last reference.
\<close>

theorem brelse_moves_to_front:
  assumes "buf_ring (l @ b # m) s" and "sl_locked (b_lock (buf_at s b))"
    and "LkBufLock b \<notin> set (held s)" "LkPtable \<notin> set (held s)" "LkBcache \<notin> set (held s)"
  shows "\<exists>t. brelse b s = Done () t
    \<and> buf_ring (if b_refcnt (buf_at s b) = 1 then b # l @ m else l @ b # m) t"
  using brelse_eq [OF assms(2-5)] brelse_result_ring [OF assms(1)] by blast

theorem brelse_moves_to_front_witness:
  "\<exists>t. brelse 0 (upd_buf 0 (\<lambda>x. x\<lparr>b_lock := \<lparr>sl_locked = True, sl_pid = 1\<rparr>\<rparr>) one_buffer) = Done () t
     \<and> buf_ring [0] t"
proof -
  let ?s = "upd_buf 0 (\<lambda>x. x\<lparr>b_lock := \<lparr>sl_locked = True, sl_pid = 1\<rparr>\<rparr>) one_buffer"
  have "0 < length (bufs one_buffer)" "held one_buffer = []" by (simp_all add: one_buffer_def blank_cache_def)
  moreover have "buf_ring ([] @ 0 # []) ?s" using one_buffer_ring by (simp add: buf_ring_upd)
  ultimately show ?thesis
    using brelse_moves_to_front [of "[]" 0 "[]" ?s]
    by (simp add: buf_at_upd_buf one_buffer_at blank_buf_def)
qed

end
