(* ===== verification/BlockStore.thy ===== *)
theory BlockStore
  imports Lru
begin

unbundle bit_operations_syntax

text \<open>
  The buffer cache as its callers see it: a store of blocks. \<open>view s bn\<close> is the contents of block
  \<open>bn\<close> as \<open>bread\<close> will return it, whether from a buffer or from the disk. The thread that runs holds
  the buffers \<open>H\<close>, nobody else holds one. Then \<open>bread\<close>, \<open>bwrite\<close> and \<open>brelse\<close> return, and change
  the view, the disk and the list of disk writes as stated here.
\<close>

section \<open>The state of the cache\<close>

definition buf_ok :: "'a bstate_scheme \<Rightarrow> nat set \<Rightarrow> nat \<Rightarrow> bool" where
  "buf_ok s H i \<longleftrightarrow>
     (let b = buf_at s i in
      b_flags b \<in> {0, 2, 6} \<and> (sl_locked (b_lock b) \<longleftrightarrow> i \<in> H) \<and> b_refcnt b = (if i \<in> H then 1 else 0)
      \<and> (b_flags b \<noteq> 0 \<longrightarrow> b_dev b = 1 \<and> b_blockno b < disksize s)
      \<and> (b_flags b = 2 \<longrightarrow> i \<notin> H \<longrightarrow> b_data b = disk s (b_blockno b)))"

text \<open>A process runs, and it holds no spin lock that the cache takes.\<close>

definition thread_ok :: "'a machine_scheme \<Rightarrow> bool" where
  "thread_ok s \<longleftrightarrow> myproc s \<noteq> None \<and> LkBcache \<notin> set (held s) \<and> LkPtable \<notin> set (held s)
     \<and> (\<forall>i. LkBufLock i \<notin> set (held s))"

definition cache_ok :: "nat list \<Rightarrow> nat set \<Rightarrow> 'a bstate_scheme \<Rightarrow> bool" where
  "cache_ok xs H s \<longleftrightarrow> buf_ring xs s \<and> set xs = {..<NBUF} \<and> one_copy xs s \<and> H \<subseteq> {..<NBUF}
     \<and> (\<forall>i < NBUF. buf_ok s H i) \<and> (\<forall>i \<in> H. b_flags (buf_at s i) \<noteq> 0) \<and> thread_ok s"

lemma cache_okD:
  assumes "cache_ok xs H s"
  shows "buf_ring xs s" "set xs = {..<NBUF}" "one_copy xs s" "H \<subseteq> {..<NBUF}"
    "i < NBUF \<Longrightarrow> buf_ok s H i" "i \<in> H \<Longrightarrow> b_flags (buf_at s i) \<noteq> 0" "thread_ok s"
  using assms unfolding cache_ok_def by blast+

lemma buf_okD:
  assumes "buf_ok s H i"
  shows "b_flags (buf_at s i) = 0 \<or> b_flags (buf_at s i) = 2 \<or> b_flags (buf_at s i) = 6"
    "sl_locked (b_lock (buf_at s i)) \<longleftrightarrow> i \<in> H" "b_refcnt (buf_at s i) = (if i \<in> H then 1 else 0)"
    "b_flags (buf_at s i) \<noteq> 0 \<Longrightarrow> b_dev (buf_at s i) = 1"
    "b_flags (buf_at s i) \<noteq> 0 \<Longrightarrow> b_blockno (buf_at s i) < disksize s"
    "b_flags (buf_at s i) = 2 \<Longrightarrow> i \<notin> H \<Longrightarrow> b_data (buf_at s i) = disk s (b_blockno (buf_at s i))"
  using assms by (auto simp: buf_ok_def Let_def)

text \<open>Two buffers with contents have different blocks.\<close>

lemma cache_unique:
  assumes "cache_ok xs H s" "i < NBUF" "j < NBUF"
    "b_flags (buf_at s i) \<noteq> 0" "b_flags (buf_at s j) \<noteq> 0" "b_blockno (buf_at s i) = b_blockno (buf_at s j)"
  shows "i = j"
proof -
  have "b_dev (buf_at s i) = 1" "b_dev (buf_at s j) = 1"
    using buf_okD(4) [OF cache_okD(5) [OF assms(1)]] assms by blast+
  moreover have "i \<in> set xs" "j \<in> set xs" using cache_okD(2) [OF assms(1)] assms(2,3) by auto
  ultimately show ?thesis
    using cache_okD(3) [OF assms(1)] assms(6) unfolding one_copy_def by simp
qed

lemma cache_distinct:
  assumes ok: "cache_ok xs H s" and "i < NBUF" "b < NBUF" "i \<noteq> b"
  shows "b_dev (buf_at s b) = 0 \<or> b_dev (buf_at s i) \<noteq> b_dev (buf_at s b)
    \<or> b_blockno (buf_at s i) \<noteq> b_blockno (buf_at s b)"
proof -
  have i: "i \<in> set xs" and b: "b \<in> set xs" using cache_okD(2) [OF ok] assms(2,3) by simp_all
  show ?thesis
    using bspec [OF bspec [OF cache_okD(3) [OF ok, unfolded one_copy_def] i] b] assms(4) by auto
qed

section \<open>The view\<close>

definition cached :: "'a bstate_scheme \<Rightarrow> u32 \<Rightarrow> nat option" where
  "cached s bn = find (\<lambda>i. b_flags (buf_at s i) \<noteq> 0 \<and> b_blockno (buf_at s i) = bn) [0..<NBUF]"

definition view :: "'a bstate_scheme \<Rightarrow> u32 \<Rightarrow> u8 list" where
  "view s bn = (case cached s bn of Some i \<Rightarrow> b_data (buf_at s i) | None \<Rightarrow> disk s bn)"

lemma cached_SomeD: "cached s bn = Some i \<Longrightarrow> i < NBUF \<and> b_flags (buf_at s i) \<noteq> 0 \<and> b_blockno (buf_at s i) = bn"
  unfolding cached_def by (drule find_SomeD) auto

lemma cached_NoneD: "cached s bn = None \<Longrightarrow> i < NBUF \<Longrightarrow> b_flags (buf_at s i) = 0 \<or> b_blockno (buf_at s i) \<noteq> bn"
  unfolding cached_def by (drule find_NoneD [where x = i]) auto

lemma cached_Some_iff:
  assumes "cache_ok xs H s"
  shows "cached s bn = Some i \<longleftrightarrow> i < NBUF \<and> b_flags (buf_at s i) \<noteq> 0 \<and> b_blockno (buf_at s i) = bn"
proof
  assume r: "i < NBUF \<and> b_flags (buf_at s i) \<noteq> 0 \<and> b_blockno (buf_at s i) = bn"
  show "cached s bn = Some i"
  proof (cases "cached s bn")
    case None
    then show ?thesis using cached_NoneD [OF None] r by blast
  next
    case (Some j)
    then show ?thesis using cache_unique [OF assms, of i j] cached_SomeD [OF Some] r by simp
  qed
qed (rule cached_SomeD)

lemma view_cached:
  "cache_ok xs H s \<Longrightarrow> i < NBUF \<Longrightarrow> b_flags (buf_at s i) \<noteq> 0 \<Longrightarrow> view s (b_blockno (buf_at s i)) = b_data (buf_at s i)"
  using cached_Some_iff [of xs H s "b_blockno (buf_at s i)" i] by (simp add: view_def)

lemma view_uncached:
  "(\<And>i. i < NBUF \<Longrightarrow> b_flags (buf_at s i) = 0 \<or> b_blockno (buf_at s i) \<noteq> bn) \<Longrightarrow> view s bn = disk s bn"
  using cached_SomeD [of s bn] by (cases "cached s bn") (auto simp: view_def)

text \<open>A block none of whose copies is dirty or held is on disk as it is seen.\<close>

lemma view_disk:
  assumes ok: "cache_ok xs H s"
    and clean: "\<And>i. i < NBUF \<Longrightarrow> b_blockno (buf_at s i) = bn \<Longrightarrow> b_flags (buf_at s i) \<noteq> 6 \<and> i \<notin> H"
  shows "view s bn = disk s bn"
proof (cases "cached s bn")
  case None
  then show ?thesis by (simp add: view_def)
next
  case (Some i)
  from cached_SomeD [OF this] clean [of i]
  have i: "i < NBUF" "b_blockno (buf_at s i) = bn" "b_flags (buf_at s i) \<noteq> 0" "b_flags (buf_at s i) \<noteq> 6" "i \<notin> H"
    by auto
  then have "b_data (buf_at s i) = disk s bn"
    using buf_okD(1,6) [OF cache_okD(5) [OF ok i(1)]] by auto
  with Some show ?thesis by (simp add: view_def)
qed

section \<open>Frames\<close>

text \<open>Between \<open>s\<close> and \<open>t\<close> only buffers, disk and process states change.\<close>

definition only_blocks :: "'a bstate_scheme \<Rightarrow> 'a bstate_scheme \<Rightarrow> bool" where
  "only_blocks s t \<longleftrightarrow> (\<exists>B D T P. t = s\<lparr>bufs := B, disk := D, disk_trace := T, ptable := P\<rparr>)"

lemma only_blocks_refl [simp]: "only_blocks s s"
proof -
  have "s = s\<lparr>bufs := bufs s, disk := disk s, disk_trace := disk_trace s, ptable := ptable s\<rparr>" by simp
  then show ?thesis unfolding only_blocks_def by blast
qed

lemma only_blocks_trans: "only_blocks s t \<Longrightarrow> only_blocks t u \<Longrightarrow> only_blocks s u"
  unfolding only_blocks_def by (elim exE, simp) blast

lemma only_blocks_upd_buf [simp]: "only_blocks s (upd_buf i f s)"
proof -
  have "upd_buf i f s = s\<lparr>bufs := (bufs s)[i := f (bufs s ! i)], disk := disk s, disk_trace := disk_trace s, ptable := ptable s\<rparr>"
    by (simp add: upd_buf_def)
  then show ?thesis unfolding only_blocks_def by blast
qed

lemma only_blocks_disk: "only_blocks s (s\<lparr>disk := D, disk_trace := T\<rparr>)"
proof -
  have "s\<lparr>disk := D, disk_trace := T\<rparr> = s\<lparr>bufs := bufs s, disk := D, disk_trace := T, ptable := ptable s\<rparr>" by simp
  then show ?thesis unfolding only_blocks_def by blast
qed

lemma only_blocks_wakeup1 [simp]: "only_blocks s (wakeup1 ch s)"
proof -
  have "wakeup1 ch s = s\<lparr>bufs := bufs s, disk := disk s, disk_trace := disk_trace s, ptable := ptable (wakeup1 ch s)\<rparr>"
    by (simp add: wakeup1_def)
  then show ?thesis unfolding only_blocks_def by blast
qed

lemma only_blocksD:
  assumes "only_blocks s t"
  shows "thread_ok t = thread_ok s" "disksize t = disksize s" "held t = held s" "myproc t = myproc s"
  using assms by (auto simp: only_blocks_def thread_ok_def myproc_def)

section \<open>bread\<close>

text \<open>What \<open>bread\<close> makes of the buffer it takes; \<open>l\<close> is the lock of the process.\<close>

definition load_buf :: "u32 \<Rightarrow> u8 list \<Rightarrow> sleeplock \<Rightarrow> buf \<Rightarrow> buf" where
  "load_buf bn bs l x =
     (if b_flags x \<noteq> 0 \<and> b_dev x = 1 \<and> b_blockno x = bn then x\<lparr>b_refcnt := 1, b_lock := l\<rparr>
      else x\<lparr>b_dev := 1, b_blockno := bn, b_flags := 2, b_refcnt := 1, b_lock := l, b_data := bs\<rparr>)"

lemma upd_buf_upd_buf: "upd_buf i f (upd_buf i g s) = upd_buf i (\<lambda>x. f (g x)) s"
  by (cases "i < length (bufs s)") (simp_all add: upd_buf_def list_update_beyond)

lemma upd_buf_cong: "f (buf_at s i) = g (buf_at s i) \<Longrightarrow> upd_buf i f s = upd_buf i g s"
  by (simp add: upd_buf_def buf_at_def)

lemma upd_buf_fields [simp]:
  "disk (upd_buf i f s) = disk s" "disk_trace (upd_buf i f s) = disk_trace s"
  "disksize (upd_buf i f s) = disksize s" "myproc (upd_buf i f s) = myproc s"
  by (simp_all add: upd_buf_def myproc_def)

lemma iderw_read:
  assumes "sl_locked (b_lock (buf_at s b))" "LkBufLock b \<notin> set (held s)" "b_flags (buf_at s b) = 0"
    "b_dev (buf_at s b) = 1" "b_blockno (buf_at s b) < disksize s"
  shows "iderw b s = Done () (upd_buf b (\<lambda>x. x\<lparr>b_data := disk s (b_blockno (buf_at s b)), b_flags := 2\<rparr>) s)"
proof -
  have h: "holdingsleep (buf_lock b) s = Done True s"
    using bl.holdingsleep_eq [of b s] assms(1,2) by simp
  have le: "\<not> disksize s \<le> b_blockno (buf_at s b)" using assms(5) by simp
  show ?thesis
    unfolding iderw_def h bindK.simps Let_def
    using assms(3,4) le by (simp add: upd_buf_upd_buf) (rule upd_buf_cong, simp)
qed

lemma find_SomeI: "x \<in> set xs \<Longrightarrow> P x \<Longrightarrow> \<exists>y. find P xs = Some y"
  by (induction xs) auto

lemma bread_pick:
  assumes ok: "cache_ok xs H s" and out: "\<And>i. i \<in> H \<Longrightarrow> b_blockno (buf_at s i) \<noteq> bn"
    and avail: "cached s bn \<noteq> None \<or> (\<exists>i < NBUF. i \<notin> H \<and> b_flags (buf_at s i) \<noteq> 6)"
  obtains b hit where "lru_pick 1 bn xs s = Some (b, hit)" "b < NBUF" "b \<notin> H"
    "hit \<longrightarrow> b_dev (buf_at s b) = 1 \<and> b_blockno (buf_at s b) = bn"
    "\<not> hit \<longrightarrow> b_flags (buf_at s b) \<noteq> 6
      \<and> (\<forall>i < NBUF. b_dev (buf_at s i) \<noteq> 1 \<or> b_blockno (buf_at s i) \<noteq> bn)"
proof -
  note xs = cache_okD(2) [OF ok]
  let ?hit = "\<lambda>b. b_dev (buf_at s b) = 1 \<and> b_blockno (buf_at s b) = bn"
  let ?unused = "\<lambda>b. b_refcnt (buf_at s b) = 0 \<and> b_flags (buf_at s b) AND B_DIRTY = 0"
  have "lru_pick 1 bn xs s \<noteq> None"
  proof (cases "find ?hit xs")
    case None
    have "\<exists>i < NBUF. i \<notin> H \<and> b_flags (buf_at s i) \<noteq> 6"
    proof (cases "cached s bn")
      case (Some i)
      from cached_SomeD [OF this] have "i < NBUF" "b_flags (buf_at s i) \<noteq> 0" "b_blockno (buf_at s i) = bn"
        by blast+
      then have "?hit i" using buf_okD(4) [OF cache_okD(5) [OF ok]] by blast
      with \<open>i < NBUF\<close> show ?thesis using find_NoneD [OF None, of i] xs by blast
    qed (use avail in blast)
    then obtain i where i: "i < NBUF" "i \<notin> H" "b_flags (buf_at s i) \<noteq> 6" by blast
    have "?unused i"
      using buf_okD(1,3) [OF cache_okD(5) [OF ok i(1)]] i(2,3) by auto
    then obtain y where "find ?unused (rev xs) = Some y"
      using find_SomeI [of i "rev xs" ?unused] i(1) xs by auto
    then show ?thesis using None by (simp add: lru_pick_def)
  qed (simp add: lru_pick_def)
  then obtain b hit where p: "lru_pick 1 bn xs s = Some (b, hit)" by auto
  have b: "b < NBUF" using lru_pickD(1) [OF p] xs by auto
  show thesis
  proof (rule that [OF p b])
    show "b \<notin> H"
    proof (cases hit)
      case True
      then show ?thesis using lru_pickD(2) [OF p] out by blast
    next
      case False
      then have "b_refcnt (buf_at s b) = 0" using lru_pickD(4) [OF p] by blast
      then show ?thesis using buf_okD(3) [OF cache_okD(5) [OF ok b]] by auto
    qed
    show "hit \<longrightarrow> b_dev (buf_at s b) = 1 \<and> b_blockno (buf_at s b) = bn" using lru_pickD(2) [OF p] by blast
    have "b_dev (buf_at s i) \<noteq> 1 \<or> b_blockno (buf_at s i) \<noteq> bn" if "\<not> hit" "i < NBUF" for i
      using lru_pickD(3) [OF p that(1), of i] that(2) xs by auto
    then show "\<not> hit \<longrightarrow> b_flags (buf_at s b) \<noteq> 6
        \<and> (\<forall>i < NBUF. b_dev (buf_at s i) \<noteq> 1 \<or> b_blockno (buf_at s i) \<noteq> bn)"
      using lru_pickD(4) [OF p] by auto
  qed
qed

text \<open>The buffer between \<open>bget\<close> and the read.\<close>

definition taken_buf :: "u32 \<Rightarrow> bool \<Rightarrow> sleeplock \<Rightarrow> buf \<Rightarrow> buf" where
  "taken_buf bn hit l x =
     (if hit then x\<lparr>b_refcnt := 1, b_lock := l\<rparr>
      else x\<lparr>b_dev := 1, b_blockno := bn, b_flags := 0, b_refcnt := 1, b_lock := l\<rparr>)"

lemma bget_taken:
  assumes ok: "cache_ok xs H s" and p: "lru_pick 1 bn xs s = Some (b, hit)" "b < NBUF" "b \<notin> H"
  obtains l where "bget 1 bn s = Done b (upd_buf b (taken_buf bn hit l) s)" "sl_locked l"
proof -
  note ring = cache_okD(1) [OF ok]
  obtain q where q: "myproc s = Some q" and locks: "LkBcache \<notin> set (held s)" "LkBufLock b \<notin> set (held s)"
    using cache_okD(7) [OF ok] by (auto simp: thread_ok_def)
  define u where "u = lru_take 1 bn (b, hit) s"
  define l where "l = \<lparr>sl_locked = True, sl_pid = p_pid (proc_at u q)\<rparr>"
  have len: "b < length (bufs s)" using buf_ringD(1) [OF ring] p(2) by simp
  have unlocked: "\<not> sl_locked (b_lock (buf_at s b))" and ref: "b_refcnt (buf_at s b) = 0"
    using buf_okD(2,3) [OF cache_okD(5) [OF ok p(2)]] p(3) by auto
  have "\<not> sl_locked (b_lock (buf_at u b))" using unlocked by (simp add: u_def lru_take_at [OF len])
  moreover have "held u = held s" "myproc u = Some q" using q by (simp_all add: u_def lru_take_def)
  ultimately have "acquiresleep (buf_lock b) u = Done () (upd_buf b (\<lambda>x. x\<lparr>b_lock := l\<rparr>) u)"
    using bl.acquiresleep_free [of b u q] locks(2) by (simp add: l_def)
  moreover have "upd_buf b (\<lambda>x. x\<lparr>b_lock := l\<rparr>) u = upd_buf b (taken_buf bn hit l) s"
    unfolding u_def lru_take_def fst_conv snd_conv upd_buf_upd_buf
    using ref by (intro upd_buf_cong) (simp add: taken_buf_def)
  ultimately have "bget 1 bn s = Done b (upd_buf b (taken_buf bn hit l) s)"
    using bget_lru [OF ring locks(1), of 1 bn] p(1) by (simp add: u_def)
  then show thesis by (rule that) (simp add: l_def)
qed

lemma bread_eq:
  assumes ok: "cache_ok xs H s" and lt: "bn < disksize s" and out: "\<And>i. i \<in> H \<Longrightarrow> b_blockno (buf_at s i) \<noteq> bn"
    and avail: "cached s bn \<noteq> None \<or> (\<exists>i < NBUF. i \<notin> H \<and> b_flags (buf_at s i) \<noteq> 6)"
  obtains b l where "bread 1 bn s = Done b (upd_buf b (load_buf bn (disk s bn) l) s)" "sl_locked l" "b < NBUF" "b \<notin> H"
    "b_flags (buf_at s b) = 6 \<longrightarrow> b_blockno (buf_at s b) = bn"
    "b_dev (buf_at s b) = 1 \<and> b_blockno (buf_at s b) = bn
      \<or> (\<forall>i < NBUF. b_dev (buf_at s i) \<noteq> 1 \<or> b_blockno (buf_at s i) \<noteq> bn)"
proof -
  obtain b hit where p: "lru_pick 1 bn xs s = Some (b, hit)" "b < NBUF" "b \<notin> H"
    "hit \<longrightarrow> b_dev (buf_at s b) = 1 \<and> b_blockno (buf_at s b) = bn"
    "\<not> hit \<longrightarrow> b_flags (buf_at s b) \<noteq> 6
      \<and> (\<forall>i < NBUF. b_dev (buf_at s i) \<noteq> 1 \<or> b_blockno (buf_at s i) \<noteq> bn)"
    using bread_pick [OF ok out avail] by blast
  obtain l where get: "bget 1 bn s = Done b (upd_buf b (taken_buf bn hit l) s)" and l: "sl_locked l"
    using bget_taken [OF ok p(1-3)] by blast
  define x where "x = buf_at s b"
  define v where "v = upd_buf b (taken_buf bn hit l) s"
  have len: "b < length (bufs s)" using buf_ringD(1) [OF cache_okD(1) [OF ok]] p(2) by simp
  have at: "buf_at v b = taken_buf bn hit l x" using len by (simp add: v_def x_def buf_at_upd_buf)
  have lk: "LkBufLock b \<notin> set (held v)" "disksize v = disksize s" "disk v = disk s"
    using cache_okD(7) [OF ok] by (simp_all add: thread_ok_def v_def)
  have fl: "b_flags x = 0 \<or> b_flags x = 2 \<or> b_flags x = 6"
    using buf_okD(1) [OF cache_okD(5) [OF ok p(2)]] by (simp add: x_def)
  have "bread 1 bn s = Done b (upd_buf b (load_buf bn (disk s bn) l) s)"
  proof (cases "hit \<and> b_flags x \<noteq> 0")
    case False
    then have "b_flags (buf_at v b) = 0" "b_dev (buf_at v b) = 1" "b_blockno (buf_at v b) = bn"
      "sl_locked (b_lock (buf_at v b))"
      using at p(4) l by (auto simp: taken_buf_def x_def)
    then have "iderw b v = Done () (upd_buf b (\<lambda>x. x\<lparr>b_data := disk s bn, b_flags := 2\<rparr>) v)"
      using iderw_read [of v b] lk lt by simp
    moreover have "upd_buf b (\<lambda>x. x\<lparr>b_data := disk s bn, b_flags := 2\<rparr>) v = upd_buf b (load_buf bn (disk s bn) l) s"
      unfolding v_def upd_buf_upd_buf using False p(4,5,2) fl
      by (intro upd_buf_cong) (auto simp: load_buf_def taken_buf_def x_def)
    ultimately show ?thesis using get at False by (simp add: bread_def v_def [symmetric] taken_buf_def)
  next
    case True
    then have f: "b_flags (buf_at v b) AND B_VALID \<noteq> 0" using at fl by (auto simp: taken_buf_def)
    have "v = upd_buf b (load_buf bn (disk s bn) l) s"
      unfolding v_def using True p(4) by (intro upd_buf_cong) (simp add: load_buf_def taken_buf_def x_def)
    then show ?thesis using get f by (simp add: bread_def v_def [symmetric])
  qed
  then show thesis using that [of b l] p l by blast
qed

section \<open>Changing one buffer\<close>

lemma buf_ok_frame:
  "buf_at t i = buf_at s i \<Longrightarrow> disk t = disk s \<Longrightarrow> disksize t = disksize s \<Longrightarrow> (i \<in> H' \<longleftrightarrow> i \<in> H)
    \<Longrightarrow> buf_ok t H' i = buf_ok s H i"
  by (simp add: buf_ok_def)

lemma cache_ok_upd_buf:
  assumes ok: "cache_ok xs H s" and b: "b < NBUF"
    and links: "\<And>x. b_next (f x) = b_next x" "\<And>x. b_prev (f x) = b_prev x"
    and H: "\<And>i. i \<noteq> b \<Longrightarrow> i \<in> H' \<longleftrightarrow> i \<in> H" and new: "buf_ok (upd_buf b f s) H' b"
    and "b \<in> H' \<Longrightarrow> b_flags (f (buf_at s b)) \<noteq> 0"
    and uniq: "\<And>i. i < NBUF \<Longrightarrow> i \<noteq> b \<Longrightarrow> b_dev (f (buf_at s b)) = 0
      \<or> b_dev (buf_at s i) \<noteq> b_dev (f (buf_at s b)) \<or> b_blockno (buf_at s i) \<noteq> b_blockno (f (buf_at s b))"
  shows "cache_ok xs H' (upd_buf b f s)"
proof -
  let ?t = "upd_buf b f s"
  have len: "b < length (bufs s)" using buf_ringD(1) [OF cache_okD(1) [OF ok]] b by simp
  have at: "buf_at ?t i = (if i = b then f (buf_at s b) else buf_at s i)" for i
    by (rule buf_at_upd_buf [OF len])
  have "one_copy xs ?t"
    unfolding one_copy_def
  proof (intro ballI impI)
    fix i j
    assume ij: "i \<in> set xs" "j \<in> set xs" and h: "b_dev (buf_at ?t i) \<noteq> 0" "b_dev (buf_at ?t i) = b_dev (buf_at ?t j)"
      "b_blockno (buf_at ?t i) = b_blockno (buf_at ?t j)"
    have old: "i = j" if "b_dev (buf_at s i) \<noteq> 0" "b_dev (buf_at s i) = b_dev (buf_at s j)"
      "b_blockno (buf_at s i) = b_blockno (buf_at s j)"
      using cache_okD(3) [OF ok] ij that unfolding one_copy_def by blast
    have "i < NBUF" "j < NBUF" using ij cache_okD(2) [OF ok] by auto
    then show "i = j"
      using h old uniq [of i] uniq [of j] by (cases "i = b"; cases "j = b") (auto simp: at)
  qed
  moreover have "buf_ok ?t H' i" if "i < NBUF" for i
  proof (cases "i = b")
    case False
    have "buf_ok ?t H' i = buf_ok s H i" using H [OF False] False by (intro buf_ok_frame) (simp_all add: at)
    then show ?thesis using cache_okD(5) [OF ok that] by simp
  qed (simp add: new)
  moreover have "b_flags (buf_at ?t i) \<noteq> 0" if "i \<in> H'" for i
    using that H [of i] cache_okD(6) [OF ok, of i] assms(7) at [of i] by (cases "i = b") auto
  moreover have "H' \<subseteq> {..<NBUF}" using H cache_okD(4) [OF ok] b by (metis lessThan_iff subset_iff)
  moreover have "buf_ring xs ?t" using cache_okD(1) [OF ok] by (simp add: buf_ring_upd links)
  moreover have "thread_ok ?t" using cache_okD(7) [OF ok] only_blocksD(1) [OF only_blocks_upd_buf] by blast
  ultimately show ?thesis using cache_okD(2) [OF ok] unfolding cache_ok_def by blast
qed

lemma view_upd_buf:
  assumes ok: "cache_ok xs H s" and ok': "cache_ok ys H' (upd_buf b f s)" and b: "b < NBUF"
  shows "view (upd_buf b f s) bn =
    (if b_flags (f (buf_at s b)) \<noteq> 0 \<and> b_blockno (f (buf_at s b)) = bn then b_data (f (buf_at s b))
     else if b_flags (buf_at s b) \<noteq> 0 \<and> b_blockno (buf_at s b) = bn then disk s bn else view s bn)"
proof -
  let ?t = "upd_buf b f s"
  have len: "b < length (bufs s)" using buf_ringD(1) [OF cache_okD(1) [OF ok]] b by simp
  have at: "buf_at ?t i = (if i = b then f (buf_at s b) else buf_at s i)" for i
    by (rule buf_at_upd_buf [OF len])
  show ?thesis
  proof (cases "b_flags (f (buf_at s b)) \<noteq> 0 \<and> b_blockno (f (buf_at s b)) = bn")
    case True
    then show ?thesis using view_cached [OF ok' b] by (simp add: at)
  next
    case new: False
    show ?thesis
    proof (cases "b_flags (buf_at s b) \<noteq> 0 \<and> b_blockno (buf_at s b) = bn")
      case old: True
      have "b_flags (buf_at ?t i) = 0 \<or> b_blockno (buf_at ?t i) \<noteq> bn" if "i < NBUF" for i
      proof (cases "i = b")
        case True
        then show ?thesis using new by (simp add: at)
      next
        case False
        then show ?thesis using cache_unique [OF ok that b] old by (simp add: at) blast
      qed
      then have "view ?t bn = disk s bn" using view_uncached [of ?t bn] by simp
      then show ?thesis by (simp only: if_not_P [OF new] if_P [OF old])
    next
      case old: False
      have "cached ?t bn = Some i \<longleftrightarrow> cached s bn = Some i" for i
        unfolding cached_Some_iff [OF ok] cached_Some_iff [OF ok'] at using new old by (cases "i = b") (simp_all, blast)
      then have "cached ?t bn = cached s bn" by (metis option.exhaust_sel)
      moreover have "cached s bn \<noteq> Some b" using old cached_SomeD [of s bn b] by blast
      ultimately have "view ?t bn = view s bn" by (cases "cached s bn") (simp_all add: view_def at)
      then show ?thesis by (simp only: if_not_P [OF new] if_not_P [OF old])
    qed
  qed
qed

section \<open>The operations\<close>

text \<open>The blocks whose contents wait in the cache for a transaction to commit.\<close>

definition dirty :: "'a bstate_scheme \<Rightarrow> u32 set" where
  "dirty s = {b_blockno (buf_at s i) | i. i < NBUF \<and> b_flags (buf_at s i) = 6}"

text \<open>Some buffer is clean and not held.\<close>

definition spare :: "nat set \<Rightarrow> 'a bstate_scheme \<Rightarrow> bool" where
  "spare H s \<longleftrightarrow> (\<exists>i < NBUF. i \<notin> H \<and> b_flags (buf_at s i) \<noteq> 6)"

definition holds :: "'a bstate_scheme \<Rightarrow> nat \<Rightarrow> u32 \<Rightarrow> bool" where
  "holds s b bn \<longleftrightarrow> b < NBUF \<and> b_flags (buf_at s b) \<noteq> 0 \<and> b_blockno (buf_at s b) = bn"

lemma bread_spec:
  assumes ok: "cache_ok xs H s" and lt: "bn < disksize s" and out: "\<And>i. i \<in> H \<Longrightarrow> \<not> holds s i bn"
    and avail: "bn \<in> dirty s \<or> spare H s"
  obtains b t where "bread 1 bn s = Done b t" "cache_ok xs (insert b H) t" "b \<notin> H" "holds t b bn"
    "b_data (buf_at t b) = view s bn" "view t = view s" "disk t = disk s" "disk_trace t = disk_trace s"
    "\<And>i. i \<noteq> b \<Longrightarrow> buf_at t i = buf_at s i" "dirty t = dirty s" "only_blocks s t"
proof -
  have out': "b_blockno (buf_at s i) \<noteq> bn" if "i \<in> H" for i
    using out [OF that] cache_okD(4,6) [OF ok] that by (auto simp: holds_def)
  have av: "cached s bn \<noteq> None \<or> (\<exists>i < NBUF. i \<notin> H \<and> b_flags (buf_at s i) \<noteq> 6)"
  proof (cases "spare H s")
    case False
    then obtain i where "i < NBUF" "b_flags (buf_at s i) = 6" "b_blockno (buf_at s i) = bn"
      using avail by (auto simp: dirty_def)
    then show ?thesis using cached_NoneD [of s bn i] by auto
  qed (simp add: spare_def)
  obtain b l where r: "bread 1 bn s = Done b (upd_buf b (load_buf bn (disk s bn) l) s)" and l: "sl_locked l"
    and b: "b < NBUF" "b \<notin> H" and six: "b_flags (buf_at s b) = 6 \<longrightarrow> b_blockno (buf_at s b) = bn"
    and uniq: "b_dev (buf_at s b) = 1 \<and> b_blockno (buf_at s b) = bn
      \<or> (\<forall>i < NBUF. b_dev (buf_at s i) \<noteq> 1 \<or> b_blockno (buf_at s i) \<noteq> bn)"
    using bread_eq [OF ok lt out' av] by blast
  define f where "f = load_buf bn (disk s bn) l"
  define t where "t = upd_buf b f s"
  have len: "b < length (bufs s)" using buf_ringD(1) [OF cache_okD(1) [OF ok]] b by simp
  have at: "buf_at t i = (if i = b then f (buf_at s b) else buf_at s i)" for i
    unfolding t_def by (rule buf_at_upd_buf [OF len])
  note x = buf_okD [OF cache_okD(5) [OF ok b(1)]]
  have six': "b_flags (buf_at s b) = 6 \<Longrightarrow> b_dev (buf_at s b) = 1 \<and> b_blockno (buf_at s b) = bn"
    using six x(4) by auto
  have fx: "b_dev (f (buf_at s b)) = 1" "b_blockno (f (buf_at s b)) = bn" "b_flags (f (buf_at s b)) \<noteq> 0"
    "b_flags (f (buf_at s b)) = 6 \<longleftrightarrow> b_flags (buf_at s b) = 6" "sl_locked (b_lock (f (buf_at s b)))"
    "b_refcnt (f (buf_at s b)) = 1" "b_flags (f (buf_at s b)) \<in> {0, 2, 6}"
    using x(1) l six' by (auto simp: f_def load_buf_def)
  have ok_t: "cache_ok xs (insert b H) t"
    unfolding t_def
  proof (rule cache_ok_upd_buf [OF ok b(1)])
    show "b_next (f y) = b_next y" "b_prev (f y) = b_prev y" for y by (simp_all add: f_def load_buf_def)
    show "buf_ok (upd_buf b f s) (insert b H) b"
      using fx lt by (simp add: buf_ok_def Let_def at [unfolded t_def])
    show "b_dev (f (buf_at s b)) = 0 \<or> b_dev (buf_at s i) \<noteq> b_dev (f (buf_at s b))
        \<or> b_blockno (buf_at s i) \<noteq> b_blockno (f (buf_at s b))" if "i < NBUF" "i \<noteq> b" for i
    proof (rule ccontr)
      assume "\<not> ?thesis"
      then have i: "b_dev (buf_at s i) = 1" "b_blockno (buf_at s i) = bn" using fx by simp_all
      then have "b_dev (buf_at s b) = 1" "b_blockno (buf_at s b) = bn" using uniq that(1) by blast+
      with i that b(1) show False
        using cache_okD(3) [OF ok] cache_okD(2) [OF ok] by (simp add: one_copy_def)
    qed
  qed (use fx in auto)
  have old: "b_data (f (buf_at s b)) = view s bn"
  proof (cases "b_flags (buf_at s b) \<noteq> 0 \<and> b_dev (buf_at s b) = 1 \<and> b_blockno (buf_at s b) = bn")
    case True
    then show ?thesis using view_cached [OF ok b(1)] by (auto simp: f_def load_buf_def)
  next
    case False
    have "b_flags (buf_at s i) = 0 \<or> b_blockno (buf_at s i) \<noteq> bn" if "i < NBUF" for i
    proof (rule ccontr)
      assume "\<not> ?thesis"
      then have i: "b_dev (buf_at s i) = 1" "b_blockno (buf_at s i) = bn" "b_flags (buf_at s i) \<noteq> 0"
        using buf_okD(4) [OF cache_okD(5) [OF ok that]] by auto
      then have bb: "b_dev (buf_at s b) = 1" "b_blockno (buf_at s b) = bn" using uniq that by blast+
      with i that b(1) have "i = b"
        using cache_okD(3) [OF ok] cache_okD(2) [OF ok] by (simp add: one_copy_def)
      with i bb False show False by simp
    qed
    then have "view s bn = disk s bn" by (rule view_uncached)
    moreover have "b_data (f (buf_at s b)) = disk s bn" using False by (auto simp: f_def load_buf_def)
    ultimately show ?thesis by simp
  qed
  have view_t: "view t = view s"
  proof
    fix c
    show "view t c = view s c"
      unfolding t_def view_upd_buf [OF ok ok_t [unfolded t_def] b(1)]
      using fx old view_cached [OF ok b(1)] x(1,6) six' b(2) by auto
  qed
  have dirty_t: "dirty t = dirty s"
    unfolding dirty_def at using fx six' by (auto split: if_splits)
  show thesis
    by (rule that [OF r [folded f_def t_def] ok_t b(2)])
      (use fx b old view_t dirty_t in \<open>simp_all add: holds_def at, simp_all add: t_def\<close>)
qed

lemma hold_lock:
  assumes ok: "cache_ok xs H s" and b: "b \<in> H"
  shows "b < NBUF" "sl_locked (b_lock (buf_at s b))" "holdingsleep (buf_lock b) s = Done True s"
    "b < length (bufs s)"
proof -
  show lt: "b < NBUF" using cache_okD(4) [OF ok] b by auto
  then show "b < length (bufs s)" using buf_ringD(1) [OF cache_okD(1) [OF ok]] by simp
  show l: "sl_locked (b_lock (buf_at s b))" using buf_okD(2) [OF cache_okD(5) [OF ok lt]] b by blast
  have "LkBufLock b \<notin> set (held s)" using cache_okD(7) [OF ok] by (simp add: thread_ok_def)
  then show "holdingsleep (buf_lock b) s = Done True s"
    using bl.holdingsleep_eq [of b s] l by simp
qed

text \<open>Storing into the data of a held buffer.\<close>

lemma set_data_spec:
  assumes ok: "cache_ok xs H s" and b: "b \<in> H" and bn: "b_blockno (buf_at s b) = bn"
  shows "cache_ok xs H (upd_buf b (\<lambda>x. x\<lparr>b_data := g x\<rparr>) s)"
    "view (upd_buf b (\<lambda>x. x\<lparr>b_data := g x\<rparr>) s) = (view s)(bn := g (buf_at s b))" "dirty (upd_buf b (\<lambda>x. x\<lparr>b_data := g x\<rparr>) s) = dirty s"
    "buf_at (upd_buf b (\<lambda>x. x\<lparr>b_data := g x\<rparr>) s) i = (if i = b then (buf_at s b)\<lparr>b_data := g (buf_at s b)\<rparr> else buf_at s i)"
proof -
  let ?t = "upd_buf b (\<lambda>x. x\<lparr>b_data := g x\<rparr>) s"
  note h = hold_lock [OF ok b]
  show at: "buf_at ?t i = (if i = b then (buf_at s b)\<lparr>b_data := g (buf_at s b)\<rparr> else buf_at s i)" for i
    by (rule buf_at_upd_buf [OF h(4)])
  have nz: "b_flags (buf_at s b) \<noteq> 0" by (rule cache_okD(6) [OF ok b])
  show ok': "cache_ok xs H ?t"
  proof (rule cache_ok_upd_buf [OF ok h(1)])
    show "buf_ok ?t H b"
      using cache_okD(5) [OF ok h(1)] b by (simp add: buf_ok_def Let_def at)
    show "b_dev ((buf_at s b)\<lparr>b_data := g (buf_at s b)\<rparr>) = 0
        \<or> b_dev (buf_at s i) \<noteq> b_dev ((buf_at s b)\<lparr>b_data := g (buf_at s b)\<rparr>)
        \<or> b_blockno (buf_at s i) \<noteq> b_blockno ((buf_at s b)\<lparr>b_data := g (buf_at s b)\<rparr>)"
      if "i < NBUF" "i \<noteq> b" for i
      using cache_distinct [OF ok that(1) h(1) that(2)] by simp
  qed (use nz in simp_all)
  show "view ?t = (view s)(bn := g (buf_at s b))"
  proof
    fix c
    show "view ?t c = ((view s)(bn := g (buf_at s b))) c"
      unfolding view_upd_buf [OF ok ok' h(1)] using nz bn by (cases "c = bn") simp_all
  qed
  show "dirty ?t = dirty s"
    unfolding dirty_def at by (auto split: if_splits)
qed

text \<open>Writing a held buffer to disk.\<close>

lemma iderw_write:
  assumes "holdingsleep (buf_lock b) s = Done True s" "b_flags (buf_at s b) = 6"
    "b_dev (buf_at s b) = 1" "b_blockno (buf_at s b) < disksize s" "b < length (bufs s)"
  shows "iderw b s = Done () ((upd_buf b (\<lambda>x. x\<lparr>b_flags := 2\<rparr>) s)
    \<lparr>disk := (disk s)(b_blockno (buf_at s b) := b_data (buf_at s b)),
     disk_trace := disk_trace s @ [(b_blockno (buf_at s b), b_data (buf_at s b))]\<rparr>)"
proof -
  have le: "\<not> disksize s \<le> b_blockno (buf_at s b)" using assms(4) by simp
  have at: "buf_at (upd_buf b f s) b = f (buf_at s b)" for f using buf_at_upd_buf [OF assms(5)] by simp
  have push: "upd_buf b f (u\<lparr>disk := D, disk_trace := T\<rparr>) = (upd_buf b f u)\<lparr>disk := D, disk_trace := T\<rparr>"
    for f D T and u :: "'a bstate_scheme" by (simp add: upd_buf_def)
  show ?thesis
    unfolding iderw_def assms(1) bindK.simps Let_def
    using assms(2,3) le by (simp add: at push upd_buf_upd_buf) (rule upd_buf_cong [THEN arg_cong], simp)
qed

lemma disk_trace_upd [simp]:
  "buf_at (s\<lparr>disk := D, disk_trace := T\<rparr>) = buf_at s" "disk (s\<lparr>disk := D, disk_trace := T\<rparr>) = D"
  "disksize (s\<lparr>disk := D, disk_trace := T\<rparr>) = disksize s" "bufs (s\<lparr>disk := D, disk_trace := T\<rparr>) = bufs s"
  by (simp_all add: buf_at_def fun_eq_iff)

text \<open>The state after a write of buffer \<open>b\<close>.\<close>

definition written :: "nat \<Rightarrow> 'a bstate_scheme \<Rightarrow> 'a bstate_scheme" where
  "written b s = (upd_buf b (\<lambda>x. x\<lparr>b_flags := 2\<rparr>) s)
     \<lparr>disk := (disk s)(b_blockno (buf_at s b) := b_data (buf_at s b)),
      disk_trace := disk_trace s @ [(b_blockno (buf_at s b), b_data (buf_at s b))]\<rparr>"

lemma bwrite_eq:
  assumes ok: "cache_ok xs H s" and b: "b \<in> H"
  shows "bwrite b s = Done () (written b s)"
proof -
  note h = hold_lock [OF ok b]
  note x = buf_okD [OF cache_okD(5) [OF ok h(1)]]
  have nz: "b_flags (buf_at s b) \<noteq> 0" by (rule cache_okD(6) [OF ok b])
  define v where "v = upd_buf b (\<lambda>x. x\<lparr>b_flags := b_flags x OR B_DIRTY\<rparr>) s"
  have at: "buf_at v b = (buf_at s b)\<lparr>b_flags := 6\<rparr>"
    unfolding v_def using buf_at_upd_buf [OF h(4)] x(1) nz by auto
  have "LkBufLock b \<notin> set (held v)" using cache_okD(7) [OF ok] by (simp add: thread_ok_def v_def)
  then have "holdingsleep (buf_lock b) v = Done True v"
    using bl.holdingsleep_eq [of b v] h(2) at by simp
  then have "iderw b v = Done () ((upd_buf b (\<lambda>x. x\<lparr>b_flags := 2\<rparr>) v)
      \<lparr>disk := (disk s)(b_blockno (buf_at s b) := b_data (buf_at s b)),
       disk_trace := disk_trace s @ [(b_blockno (buf_at s b), b_data (buf_at s b))]\<rparr>)"
    using iderw_write [of b v] at x(4,5) nz h(4) by (simp add: v_def)
  moreover have "upd_buf b (\<lambda>x. x\<lparr>b_flags := 2\<rparr>) v = upd_buf b (\<lambda>x. x\<lparr>b_flags := 2\<rparr>) s"
    unfolding v_def upd_buf_upd_buf by (rule upd_buf_cong) simp
  ultimately show ?thesis
    using h(3) by (simp add: bwrite_def v_def [symmetric] written_def)
qed

lemma written_at:
  assumes "b < length (bufs s)"
  shows "buf_at (written b s) i = (if i = b then (buf_at s b)\<lparr>b_flags := 2\<rparr> else buf_at s i)"
  unfolding written_def disk_trace_upd by (rule buf_at_upd_buf [OF assms])

lemma written_disk [simp]:
  "disk (written b s) = (disk s)(b_blockno (buf_at s b) := b_data (buf_at s b))"
  "disk_trace (written b s) = disk_trace s @ [(b_blockno (buf_at s b), b_data (buf_at s b))]"
  "disksize (written b s) = disksize s"
  by (simp_all add: written_def)

lemma only_blocks_written: "only_blocks s (written b s)"
  unfolding written_def by (rule only_blocks_trans [OF only_blocks_upd_buf only_blocks_disk])

lemma written_ok:
  assumes ok: "cache_ok xs H s" and b: "b \<in> H"
  shows "cache_ok xs H (written b s)"
proof -
  note h = hold_lock [OF ok b]
  have nz: "b_flags (buf_at s b) \<noteq> 0" by (rule cache_okD(6) [OF ok b])
  note at = written_at [OF h(4)]
  have "buf_ok (written b s) H i" if "i < NBUF" for i
  proof (cases "i = b")
    case True
    then show ?thesis
      using cache_okD(5) [OF ok h(1)] b nz by (simp add: buf_ok_def Let_def at)
  next
    case False
    have "b_flags (buf_at s i) = 0 \<or> b_blockno (buf_at s i) \<noteq> b_blockno (buf_at s b)"
      using cache_unique [OF ok that h(1)] nz False by blast
    then show ?thesis
      using cache_okD(5) [OF ok that] False by (elim disjE) (simp_all add: buf_ok_def Let_def at)
  qed
  moreover have "one_copy xs (written b s)"
    using cache_okD(3) [OF ok] one_copy_cong [of "written b s" s xs] by (simp add: at)
  moreover have "buf_ring xs (written b s)"
    using cache_okD(1) [OF ok] buf_ring_bufs [of "written b s" "upd_buf b (\<lambda>x. x\<lparr>b_flags := 2\<rparr>) s" xs]
    by (simp add: written_def buf_ring_upd)
  moreover have "\<forall>i \<in> H. b_flags (buf_at (written b s) i) \<noteq> 0" using cache_okD(6) [OF ok] by (simp add: at)
  ultimately show ?thesis
    using cache_okD(2,4,7) [OF ok] only_blocksD(1) [OF only_blocks_written, of b s] unfolding cache_ok_def by blast
qed

lemma written_view:
  assumes ok: "cache_ok xs H s" and b: "b \<in> H"
  shows "view (written b s) = view s"
proof
  fix c
  note h = hold_lock [OF ok b]
  have nz: "b_flags (buf_at s b) \<noteq> 0" by (rule cache_okD(6) [OF ok b])
  note at = written_at [OF h(4)]
  have iff: "cached (written b s) c = Some i \<longleftrightarrow> cached s c = Some i" for i
    unfolding cached_Some_iff [OF ok] cached_Some_iff [OF written_ok [OF ok b]] at using nz by simp
  show "view (written b s) c = view s c"
  proof (cases "cached s c")
    case None
    then have "cached (written b s) c = None" using iff by (metis option.exhaust)
    moreover have "c \<noteq> b_blockno (buf_at s b)" using cached_NoneD [OF None h(1)] nz by blast
    ultimately show ?thesis using None by (simp add: view_def)
  next
    case (Some i)
    then have "cached (written b s) c = Some i" using iff by blast
    then show ?thesis using Some by (simp add: view_def at)
  qed
qed

lemma written_dirty:
  assumes ok: "cache_ok xs H s" and b: "b \<in> H"
  shows "dirty (written b s) = dirty s - {b_blockno (buf_at s b)}"
proof -
  note h = hold_lock [OF ok b]
  have nz: "b_flags (buf_at s b) \<noteq> 0" by (rule cache_okD(6) [OF ok b])
  have "i < NBUF \<and> b_flags (buf_at (written b s) i) = 6 \<longleftrightarrow>
      i < NBUF \<and> b_flags (buf_at s i) = 6 \<and> b_blockno (buf_at s i) \<noteq> b_blockno (buf_at s b)" for i
    unfolding written_at [OF h(4)] using cache_unique [OF ok _ h(1), of i] nz by (cases "i = b") auto
  moreover have "b_blockno (buf_at (written b s) i) = b_blockno (buf_at s i)" for i
    by (simp add: written_at [OF h(4)])
  ultimately show ?thesis unfolding dirty_def by auto
qed

section \<open>brelse\<close>

text \<open>What a buffer is, its place in the ring apart.\<close>

definition payload :: "buf \<Rightarrow> u32 \<times> u32 \<times> u32 \<times> sleeplock \<times> u32 \<times> u8 list" where
  "payload x = (b_flags x, b_dev x, b_blockno x, b_lock x, b_refcnt x, b_data x)"

lemma payload_upd_links:
  assumes "\<And>x. payload (f x) = payload x"
  shows "payload (buf_at (upd_buf i f s) j) = payload (buf_at s j)"
  using assms by (cases "i < length (bufs s)")
    (auto simp: buf_at_def upd_buf_def nth_list_update list_update_beyond)

lemma payload_links: "payload (x\<lparr>b_next := n\<rparr>) = payload x" "payload (x\<lparr>b_prev := n\<rparr>) = payload x"
  by (simp_all add: payload_def)

lemma payload_brelse_move: "payload (buf_at (brelse_move b s) i) = payload (buf_at s i)"
  by (simp only: brelse_move_def Let_def payload_upd_links payload_links)

lemma brelse_result_payload:
  assumes "b < length (bufs s)"
  shows "payload (buf_at (brelse_result b s) i) = payload (if i = b then (buf_at s b)
    \<lparr>b_lock := \<lparr>sl_locked = False, sl_pid = 0\<rparr>, b_refcnt := b_refcnt (buf_at s b) - 1\<rparr> else buf_at s i)"
proof -
  define s1 where "s1 = upd_buf b (\<lambda>x. x\<lparr>b_lock := \<lparr>sl_locked = False, sl_pid = 0\<rparr>\<rparr>) s"
  define s2 where "s2 = wakeup1 (ChBufLock b) s1"
  define s3 where "s3 = upd_buf b (\<lambda>x. x\<lparr>b_refcnt := b_refcnt x - 1\<rparr>) s2"
  have 2: "bufs s2 = bufs s1" by (simp add: s2_def wakeup1_def)
  then have len: "b < length (bufs s2)" using assms by (simp add: s1_def)
  have at2: "buf_at s2 i = buf_at s1 i" for i using 2 by (simp add: buf_at_def)
  have "brelse_result b s = (if b_refcnt (buf_at s3 b) = 0 then brelse_move b s3 else s3)"
    by (simp add: brelse_result_def s1_def s2_def s3_def Let_def)
  then have "payload (buf_at (brelse_result b s) i) = payload (buf_at s3 i)"
    by (simp add: payload_brelse_move)
  also have "buf_at s3 i = (if i = b then (buf_at s b)
    \<lparr>b_lock := \<lparr>sl_locked = False, sl_pid = 0\<rparr>, b_refcnt := b_refcnt (buf_at s b) - 1\<rparr> else buf_at s i)"
    unfolding s3_def buf_at_upd_buf [OF len] at2 s1_def buf_at_upd_buf [OF assms] by simp
  finally show ?thesis .
qed

lemma payloadD:
  assumes "payload x = payload y"
  shows "b_flags x = b_flags y" "b_dev x = b_dev y" "b_blockno x = b_blockno y" "b_lock x = b_lock y"
    "b_refcnt x = b_refcnt y" "b_data x = b_data y"
  using assms by (simp_all add: payload_def)

lemma only_blocks_brelse_move: "only_blocks s (brelse_move b s)"
  unfolding brelse_move_def Let_def
  by (rule only_blocks_trans [OF only_blocks_trans [OF only_blocks_trans [OF only_blocks_trans
    [OF only_blocks_trans [OF only_blocks_upd_buf only_blocks_upd_buf] only_blocks_upd_buf]
    only_blocks_upd_buf] only_blocks_upd_buf] only_blocks_upd_buf])

lemma brelse_result_frame:
  "only_blocks s (brelse_result b s) \<and> disk (brelse_result b s) = disk s
    \<and> disk_trace (brelse_result b s) = disk_trace s"
proof -
  define s1 where "s1 = upd_buf b (\<lambda>x. x\<lparr>b_lock := \<lparr>sl_locked = False, sl_pid = 0\<rparr>\<rparr>) s"
  define s2 where "s2 = wakeup1 (ChBufLock b) s1"
  define s3 where "s3 = upd_buf b (\<lambda>x. x\<lparr>b_refcnt := b_refcnt x - 1\<rparr>) s2"
  have r: "brelse_result b s = (if b_refcnt (buf_at s3 b) = 0 then brelse_move b s3 else s3)"
    by (simp add: brelse_result_def s1_def s2_def s3_def Let_def)
  have "only_blocks s s3"
    unfolding s3_def s2_def s1_def
    by (rule only_blocks_trans [OF only_blocks_trans [OF only_blocks_upd_buf only_blocks_wakeup1] only_blocks_upd_buf])
  moreover have "disk s3 = disk s" "disk_trace s3 = disk_trace s"
    by (simp_all add: s3_def s2_def s1_def wakeup1_def)
  moreover have "disk (brelse_move b s3) = disk s3" "disk_trace (brelse_move b s3) = disk_trace s3"
    by (simp_all add: brelse_move_def Let_def)
  ultimately show ?thesis
    unfolding r using only_blocks_trans [OF _ only_blocks_brelse_move, of s s3 b] by simp
qed

text \<open>
  Giving back a held buffer. Its contents must be on disk, or waiting for the commit: nobody will
  look at it before it is reused.
\<close>

lemma brelse_spec:
  assumes ok: "cache_ok xs H s" and b: "b \<in> H"
    and safe: "b_flags (buf_at s b) = 6 \<or> b_data (buf_at s b) = disk s (b_blockno (buf_at s b))"
  obtains t ys where "brelse b s = Done () t" "cache_ok ys (H - {b}) t" "view t = view s" "disk t = disk s"
    "disk_trace t = disk_trace s" "dirty t = dirty s" "only_blocks s t"
    "\<And>i. i \<noteq> b \<Longrightarrow> payload (buf_at t i) = payload (buf_at s i)" "b_flags (buf_at t b) = b_flags (buf_at s b)"
proof -
  note h = hold_lock [OF ok b]
  define t where "t = brelse_result b s"
  have "brelse b s = Done () t"
    unfolding t_def using cache_okD(7) [OF ok] h(2) by (intro brelse_eq) (simp_all add: thread_ok_def)
  obtain l m where xs: "xs = l @ b # m" using cache_okD(2) [OF ok] h(1) by (metis lessThan_iff split_list)
  define ys where "ys = (if b_refcnt (buf_at s b) = 1 then b # l @ m else l @ b # m)"
  have ring: "buf_ring ys t" unfolding t_def ys_def using cache_okD(1) [OF ok] xs by (intro brelse_result_ring) simp
  have ys: "set ys = {..<NBUF}" using cache_okD(2) [OF ok] xs by (auto simp: ys_def)
  note F = brelse_result_frame [of s b, folded t_def]
  note pay = brelse_result_payload [OF h(4), folded t_def]
  have other: "payload (buf_at t i) = payload (buf_at s i)" if "i \<noteq> b" for i using pay [of i] that by simp
  have same: "b_flags (buf_at t i) = b_flags (buf_at s i)" "b_dev (buf_at t i) = b_dev (buf_at s i)"
    "b_blockno (buf_at t i) = b_blockno (buf_at s i)" "b_data (buf_at t i) = b_data (buf_at s i)" for i
    using pay [of i] by (cases "i = b"; simp add: payload_def)+
  have "buf_ok t (H - {b}) i" if "i < NBUF" for i
  proof (cases "i = b")
    case True
    have "b_refcnt (buf_at s b) = 1" using buf_okD(3) [OF cache_okD(5) [OF ok h(1)]] b by simp
    then show ?thesis
      using True buf_okD [OF cache_okD(5) [OF ok h(1)]] pay [of b] safe F only_blocksD(2) [of s t]
      by (auto simp: buf_ok_def Let_def same payload_def)
  next
    case False
    then show ?thesis
      using cache_okD(5) [OF ok that] payloadD [OF other [OF False]] F only_blocksD(2) [of s t]
      by (simp add: buf_ok_def Let_def)
  qed
  moreover have "one_copy ys t"
    using cache_okD(3) [OF ok] cache_okD(2) [OF ok] ys by (simp add: one_copy_def same)
  moreover have "\<forall>i \<in> H - {b}. b_flags (buf_at t i) \<noteq> 0" using cache_okD(6) [OF ok] by (simp add: same)
  ultimately have "cache_ok ys (H - {b}) t"
    using ring ys cache_okD(4,7) [OF ok] F only_blocksD(1) [of s t] unfolding cache_ok_def by blast
  moreover have "view t = view s"
    using F by (intro ext) (simp add: view_def cached_def same split: option.split)
  moreover have "dirty t = dirty s" by (simp add: dirty_def same)
  ultimately show thesis
    using that [of t ys] \<open>brelse b s = Done () t\<close> F other same(1) by blast
qed

text \<open>Nothing else in the state matters to the block store.\<close>

lemma store_cong:
  fixes s :: "'a bstate_scheme" and t :: "'b bstate_scheme"
  assumes "bufs t = bufs s" "disk t = disk s" "disksize t = disksize s" "myproc t = myproc s" "held t = held s"
  shows "cache_ok xs H t = cache_ok xs H s" "view t = view s" "dirty t = dirty s"
proof -
  have b: "buf_at t = buf_at s" using assms(1) by (simp add: fun_eq_iff buf_at_def)
  have l: "nexts t = nexts s" "prevs t = prevs s" by (simp_all add: fun_eq_iff nexts_def prevs_def b)
  have o: "buf_ok t = buf_ok s" by (intro ext) (simp add: buf_ok_def b assms)
  show "cache_ok xs H t = cache_ok xs H s"
    unfolding cache_ok_def buf_ring_def one_copy_def thread_ok_def b l o assms ..
  show "dirty t = dirty s" by (simp add: dirty_def b)
  show "view t = view s" by (rule ext) (simp only: view_def cached_def b assms)
qed

end
