(* ===== verification/LogCrash.thy ===== *)
theory LogCrash
  imports BlockStore Log
begin

unbundle bit_operations_syntax

text \<open>
  Crash safety of the log. The operations of log.c are described by their effect on the block
  store; \<open>commit\<close> performs its disk writes in the order log blocks, header, home blocks, cleared
  header. A crash loses the buffers and keeps a prefix of these writes. Recovery at the next boot
  then leaves the file system with all blocks of the transaction or with none.
\<close>

section \<open>Frames\<close>

lemma only_blocks_log:
  fixes s t :: "'a logstate_scheme"
  assumes "only_blocks s t"
  shows "log_dev t = log_dev s" "log_start t = log_start s" "log_size t = log_size s"
    "lh_n t = lh_n s" "lh_block t = lh_block s" "log_outstanding t = log_outstanding s"
    "log_committing t = log_committing s"
  using assms by (auto simp: only_blocks_def)

lemma forK_upt:
  assumes step: "\<And>i s. i < n \<Longrightarrow> P i s \<Longrightarrow> \<exists>t. f i s = Done () t \<and> P (Suc i) t" and "P 0 s"
  shows "\<exists>t. forK [0..<n] f s = Done () t \<and> P n t"
proof -
  have "\<exists>t. forK [k..<n] f s = Done () t \<and> P n t" if "k \<le> n" "P k s" for k s
    using that
  proof (induction "n - k" arbitrary: k s)
    case 0
    then show ?case by simp
  next
    case (Suc m)
    then have k: "k < n" by simp
    obtain t where t: "f k s = Done () t" "P (Suc k) t" using step [OF k Suc.prems(2)] by blast
    then show ?case
      using Suc.hyps(1) [of "Suc k" t] Suc.hyps(2) k by (simp add: upt_conv_Cons)
  qed
  from this [of 0 s] assms(2) show ?thesis by simp
qed

section \<open>Room in the cache\<close>

lemma dirty_iff:
  assumes "cache_ok xs H s" "holds s b bn"
  shows "bn \<in> dirty s \<longleftrightarrow> b_flags (buf_at s b) = 6"
proof
  assume "bn \<in> dirty s"
  then obtain i where i: "i < NBUF" "b_flags (buf_at s i) = 6" "b_blockno (buf_at s i) = bn"
    by (auto simp: dirty_def)
  then have "i = b" using cache_unique [OF assms(1), of i b] assms(2) by (simp add: holds_def)
  with i show "b_flags (buf_at s b) = 6" by simp
next
  assume "b_flags (buf_at s b) = 6"
  then show "bn \<in> dirty s" using assms(2) by (auto simp: holds_def dirty_def)
qed

lemma spare_room:
  assumes ok: "cache_ok xs H s" and lt: "card (dirty s) + card H < NBUF"
  shows "spare H s"
proof (rule ccontr)
  assume no: "\<not> spare H s"
  let ?D = "{i. i < NBUF \<and> b_flags (buf_at s i) = 6}"
  have fin: "finite H" "finite ?D" using cache_okD(4) [OF ok] finite_subset by auto
  have "{..<NBUF} \<subseteq> H \<union> ?D" using no by (auto simp: spare_def)
  then have "NBUF \<le> card (H \<union> ?D)" using card_mono [of "H \<union> ?D" "{..<NBUF}"] fin by simp
  also have "\<dots> \<le> card H + card ?D" by (rule card_Un_le)
  also have "card ?D = card (dirty s)"
  proof -
    have "inj_on (\<lambda>i. b_blockno (buf_at s i)) ?D"
      by (rule inj_onI) (use cache_unique [OF ok] in auto)
    moreover have "dirty s = (\<lambda>i. b_blockno (buf_at s i)) ` ?D" by (auto simp: dirty_def)
    ultimately show ?thesis by (simp add: card_image)
  qed
  finally show False using lt by simp
qed

lemma dirty_disk:
  assumes "cache_ok xs {} s" "bn \<notin> dirty s"
  shows "disk s bn = view s bn"
  using view_disk [OF assms(1), of bn] assms(2) by (auto simp: dirty_def)

section \<open>One block\<close>

text \<open>\<open>bread\<close>, some stores into the buffer, \<open>bwrite\<close> and \<open>brelse\<close>.\<close>

lemma holds_frame:
  "buf_at t b = buf_at s b \<Longrightarrow> holds t b bn = holds s b bn"
  by (simp add: holds_def)

lemma write_through:
  assumes ok: "cache_ok xs H s" and b: "b \<in> H" and h: "holds s b bn"
  obtains t ys where "bindK (bwrite b (upd_buf b (\<lambda>x. x\<lparr>b_data := g x\<rparr>) s)) (\<lambda>_ s. brelse b s) = Done () t"
    "cache_ok ys (H - {b}) t" "view t = (view s)(bn := g (buf_at s b))" "disk t = (disk s)(bn := g (buf_at s b))"
    "disk_trace t = disk_trace s @ [(bn, g (buf_at s b))]" "dirty t = dirty s - {bn}" "only_blocks s t"
proof -
  have bn: "b_blockno (buf_at s b) = bn" using h by (simp add: holds_def)
  define u where "u = upd_buf b (\<lambda>x. x\<lparr>b_data := g x\<rparr>) s"
  note U = set_data_spec [OF ok b bn, of g, folded u_def]
  have ub: "b_blockno (buf_at u b) = bn" "b_data (buf_at u b) = g (buf_at s b)" using U(4) [of b] bn by simp_all
  define w where "w = written b u"
  have w: "bwrite b u = Done () w" unfolding w_def by (rule bwrite_eq [OF U(1) b])
  note W = written_ok [OF U(1) b, folded w_def] written_view [OF U(1) b, folded w_def]
    written_dirty [OF U(1) b, folded w_def]
  have wb: "buf_at w b = (buf_at u b)\<lparr>b_flags := 2\<rparr>"
    unfolding w_def using written_at [OF hold_lock(4) [OF U(1) b], of b] by simp
  have wd: "disk w = (disk s)(bn := g (buf_at s b))" "disk_trace w = disk_trace s @ [(bn, g (buf_at s b))]"
    unfolding w_def using ub by (simp_all add: u_def)
  have "b_flags (buf_at w b) = 6 \<or> b_data (buf_at w b) = disk w (b_blockno (buf_at w b))"
    using wb wd ub by simp
  then obtain t ys where t: "brelse b w = Done () t" "cache_ok ys (H - {b}) t" "view t = view w" "disk t = disk w"
    "disk_trace t = disk_trace w" "dirty t = dirty w" "only_blocks w t"
    by (rule brelse_spec [OF W(1) b]) blast
  have "only_blocks s w"
    unfolding w_def u_def by (rule only_blocks_trans [OF only_blocks_upd_buf only_blocks_written])
  then have "only_blocks s t" using t(7) by (rule only_blocks_trans)
  then show thesis
    using that [of t ys] w t W U ub wd by (simp add: u_def)
qed

lemma write_head_spec:
  assumes ok: "cache_ok xs {} s" and dev: "log_dev s = 1" and lt: "log_start s < disksize s"
    and room: "card (dirty s) < NBUF"
  obtains t ys where "write_head s = Done () t" "cache_ok ys {} t"
    "view t = (view s)(log_start s := put_head (lh_n s) (lh_block s) (view s (log_start s)))"
    "disk t = (disk s)(log_start s := put_head (lh_n s) (lh_block s) (view s (log_start s)))"
    "disk_trace t = disk_trace s @ [(log_start s, put_head (lh_n s) (lh_block s) (view s (log_start s)))]"
    "dirty t = dirty s - {log_start s}" "only_blocks s t"
proof -
  have sp: "spare {} s" using spare_room [OF ok] room by simp
  obtain b u where u: "bread 1 (log_start s) s = Done b u" "cache_ok xs {b} u" "holds u b (log_start s)"
    "b_data (buf_at u b) = view s (log_start s)" "view u = view s" "disk u = disk s" "disk_trace u = disk_trace s"
    "dirty u = dirty s" "only_blocks s u"
    by (rule bread_spec [OF ok lt]) (use sp in auto)
  define g where "g x = put_head (lh_n u) (lh_block u) (b_data x)" for x :: buf
  have gb: "g (buf_at u b) = put_head (lh_n s) (lh_block s) (view s (log_start s))"
    using u(4) only_blocks_log [OF u(9)] by (simp add: g_def)
  obtain t ys where t: "bindK (bwrite b (upd_buf b (\<lambda>x. x\<lparr>b_data := g x\<rparr>) u)) (\<lambda>_ s. brelse b s) = Done () t"
    "cache_ok ys ({b} - {b}) t" "view t = (view u)(log_start s := g (buf_at u b))"
    "disk t = (disk u)(log_start s := g (buf_at u b))"
    "disk_trace t = disk_trace u @ [(log_start s, g (buf_at u b))]" "dirty t = dirty u - {log_start s}" "only_blocks u t"
    by (rule write_through [OF u(2) _ u(3), of g]) simp
  have "write_head s = Done () t"
    using u(1) t(1) dev by (simp add: write_head_def Let_def g_def)
  then show thesis
    using that [of t ys] t u gb only_blocks_trans [OF u(9) t(7)] by simp
qed

text \<open>
  Both copying loops read a source and a destination block and write the source's contents to the
  destination through the cache.
\<close>

lemma two_reads:
  fixes s :: "'a bstate_scheme"
  assumes ok: "cache_ok xs {} s" and lt: "p < disksize s" "q < disksize s" and ne: "p \<noteq> q"
    and room: "card (dirty s) < NBUF" and av: "q \<in> dirty s \<or> card (dirty s) + 1 < NBUF"
  obtains b1 u b2 v where "bread 1 p s = Done b1 u" "bread 1 q u = Done b2 v" "cache_ok xs {b1, b2} v"
    "b1 \<noteq> b2" "holds v b1 p" "holds v b2 q" "b_data (buf_at v b1) = view s p" "b_data (buf_at v b2) = view s q"
    "view v = view s" "disk v = disk s" "disk_trace v = disk_trace s" "dirty v = dirty s"
    "only_blocks s u" "only_blocks s v"
proof -
  have sp: "spare {} s" using spare_room [OF ok] room by simp
  obtain b1 u where u: "bread 1 p s = Done b1 u" "cache_ok xs {b1} u" "holds u b1 p"
    "b_data (buf_at u b1) = view s p" "view u = view s" "disk u = disk s" "disk_trace u = disk_trace s"
    "dirty u = dirty s" "only_blocks s u"
    by (rule bread_spec [OF ok lt(1)]) (use sp in auto)
  have lt2: "q < disksize u" using lt(2) only_blocksD(2) [OF u(9)] by simp
  have "spare {b1} u" if "q \<notin> dirty s"
    using spare_room [OF u(2)] av that u(8) by simp
  then have sp2: "q \<in> dirty u \<or> spare {b1} u" using u(8) by blast
  have out: "\<not> holds u i q" if "i \<in> {b1}" for i using that u(3) ne by (auto simp: holds_def)
  obtain b2 v where v: "bread 1 q u = Done b2 v" "cache_ok xs (insert b2 {b1}) v" "b2 \<notin> {b1}" "holds v b2 q"
    "b_data (buf_at v b2) = view u q" "view v = view u" "disk v = disk u" "disk_trace v = disk_trace u"
    "buf_at v b1 = buf_at u b1" "dirty v = dirty u" "only_blocks u v"
  proof (rule bread_spec [OF u(2) lt2 out sp2])
    fix b and t :: "'a bstate_scheme"
    assume a: "b \<notin> {b1}" and f: "\<And>i. i \<noteq> b \<Longrightarrow> buf_at t i = buf_at u i"
    assume r: "bread 1 q u = Done b t" "cache_ok xs (insert b {b1}) t" "holds t b q" "b_data (buf_at t b) = view u q"
      "view t = view u" "disk t = disk u" "disk_trace t = disk_trace u" "dirty t = dirty u" "only_blocks u t"
    have "buf_at t b1 = buf_at u b1" using f [of b1] a by simp
    then show thesis using that [of b t] a r by simp
  qed
  note b1 = v(9)
  show thesis
  proof (rule that [OF u(1) v(1)])
    show "cache_ok xs {b1, b2} v" using v(2) by (simp add: insert_commute)
    show "only_blocks s v" by (rule only_blocks_trans [OF u(9) v(11)])
  qed (use u v b1 in \<open>simp_all add: holds_def\<close>)
qed

lemma write_log_block_spec:
  fixes s :: "'a logstate_scheme"
  assumes ok: "cache_ok xs {} s" and dev: "log_dev s = 1"
    and p: "p = log_start s + of_nat k + 1" and q: "q = lh_block s ! k"
    and lt: "p < disksize s" "q < disksize s" and ne: "p \<noteq> q" and D: "q \<in> dirty s" "p \<notin> dirty s"
    and room: "card (dirty s) < NBUF"
  obtains t ys where "write_log_block k s = Done () t" "cache_ok ys {} t"
    "view t = (view s)(p := view s q)" "disk t = (disk s)(p := view s q)"
    "disk_trace t = disk_trace s @ [(p, view s q)]" "dirty t = dirty s" "only_blocks s t"
proof -
  obtain b1 u b2 v where r: "bread 1 p s = Done b1 u" "bread 1 q u = Done b2 v" "cache_ok xs {b1, b2} v"
    "b1 \<noteq> b2" "holds v b1 p" "holds v b2 q" "b_data (buf_at v b1) = view s p" "b_data (buf_at v b2) = view s q"
    "view v = view s" "disk v = disk s" "disk_trace v = disk_trace s" "dirty v = dirty s"
    "only_blocks s u" "only_blocks s v"
    by (rule two_reads [OF ok lt ne room disjI1 [OF D(1)]])
  define w where "w = upd_buf b1 (\<lambda>b. b\<lparr>b_data := view s q\<rparr>) v"
  have b1: "b1 \<in> {b1, b2}" and bn: "b_blockno (buf_at v b1) = p" using r(5) by (simp_all add: holds_def)
  note W = set_data_spec [OF r(3) b1 bn, of "\<lambda>_. view s q", folded w_def]
  define z where "z = written b1 w"
  have z: "bwrite b1 w = Done () z" unfolding z_def by (rule bwrite_eq [OF W(1) b1])
  have wb: "b_blockno (buf_at w b1) = p" "b_data (buf_at w b1) = view s q" using W(4) [of b1] bn by simp_all
  note len = hold_lock(4) [OF W(1) b1]
  note Z = written_ok [OF W(1) b1, folded z_def] written_view [OF W(1) b1, folded z_def]
    written_dirty [OF W(1) b1, folded z_def] written_at [OF len, folded z_def]
  have zd: "disk z = (disk s)(p := view s q)" "disk_trace z = disk_trace s @ [(p, view s q)]"
    unfolding z_def using wb r(10,11) by (simp_all add: w_def)
  have dz: "dirty z = dirty s" using Z(3) W(3) r(12) wb D(2) by simp
  have six: "b_flags (buf_at z b2) = 6"
    using Z(4) [of b2] W(4) [of b2] r(4) dirty_iff [OF r(3,6)] r(12) D(1) by simp
  obtain t1 ys where t1: "brelse b2 z = Done () t1" "cache_ok ys ({b1, b2} - {b2}) t1" "view t1 = view z" "disk t1 = disk z"
    "disk_trace t1 = disk_trace z" "dirty t1 = dirty z" "only_blocks z t1"
    "payload (buf_at t1 b1) = payload (buf_at z b1)"
    by (rule brelse_spec [OF Z(1), of b2]) (use six r(4) in auto)
  have one: "{b1, b2} - {b2} = {b1}" using r(4) by auto
  have safe: "b_flags (buf_at t1 b1) = 6 \<or> b_data (buf_at t1 b1) = disk t1 (b_blockno (buf_at t1 b1))"
    using payloadD(3,6) [OF t1(8)] Z(4) [of b1] wb t1(4) zd by simp
  obtain t zs where t: "brelse b1 t1 = Done () t" "cache_ok zs ({b1} - {b1}) t" "view t = view t1" "disk t = disk t1"
    "disk_trace t = disk_trace t1" "dirty t = dirty t1" "only_blocks t1 t"
    by (rule brelse_spec [OF t1(2) [unfolded one] _ safe]) auto
  have "write_log_block k s = Done () t"
    using r(1,2,8) p q dev only_blocks_log [OF r(13)] z t1(1) t(1) r(4)
    by (simp add: write_log_block_def Let_def w_def)
  moreover have "only_blocks s t"
    using r(14) only_blocks_upd_buf [of v b1 "\<lambda>b. b\<lparr>b_data := view s q\<rparr>", folded w_def]
      only_blocks_written [of w b1, folded z_def] t1(7) t(7) only_blocks_trans by blast
  ultimately show thesis
    using that [of t zs] t t1 Z W r zd dz by simp
qed

lemma install_trans_block_spec:
  fixes s :: "'a logstate_scheme"
  assumes ok: "cache_ok xs {} s" and dev: "log_dev s = 1"
    and p: "p = log_start s + of_nat k + 1" and q: "q = lh_block s ! k"
    and lt: "p < disksize s" "q < disksize s" and ne: "p \<noteq> q" and D: "p \<notin> dirty s"
    and room: "card (dirty s) < NBUF" and av: "q \<in> dirty s \<or> card (dirty s) + 1 < NBUF"
  obtains t ys where "install_trans_block k s = Done () t" "cache_ok ys {} t"
    "view t = (view s)(q := view s p)" "disk t = (disk s)(q := view s p)"
    "disk_trace t = disk_trace s @ [(q, view s p)]" "dirty t = dirty s - {q}" "only_blocks s t"
proof -
  obtain b1 u b2 v where r: "bread 1 p s = Done b1 u" "bread 1 q u = Done b2 v" "cache_ok xs {b1, b2} v"
    "b1 \<noteq> b2" "holds v b1 p" "holds v b2 q" "b_data (buf_at v b1) = view s p" "b_data (buf_at v b2) = view s q"
    "view v = view s" "disk v = disk s" "disk_trace v = disk_trace s" "dirty v = dirty s"
    "only_blocks s u" "only_blocks s v"
    by (rule two_reads [OF ok lt ne room av])
  define w where "w = upd_buf b2 (\<lambda>b. b\<lparr>b_data := view s p\<rparr>) v"
  have b2: "b2 \<in> {b1, b2}" and bn: "b_blockno (buf_at v b2) = q" using r(6) by (simp_all add: holds_def)
  note W = set_data_spec [OF r(3) b2 bn, of "\<lambda>_. view s p", folded w_def]
  define z where "z = written b2 w"
  have z: "bwrite b2 w = Done () z" unfolding z_def by (rule bwrite_eq [OF W(1) b2])
  have wb: "b_blockno (buf_at w b2) = q" "b_data (buf_at w b2) = view s p" using W(4) [of b2] bn by simp_all
  note len = hold_lock(4) [OF W(1) b2]
  note Z = written_ok [OF W(1) b2, folded z_def] written_view [OF W(1) b2, folded z_def]
    written_dirty [OF W(1) b2, folded z_def] written_at [OF len, folded z_def]
  have zd: "disk z = (disk s)(q := view s p)" "disk_trace z = disk_trace s @ [(q, view s p)]"
    unfolding z_def using wb r(10,11) by (simp_all add: w_def)
  have dz: "dirty z = dirty s - {q}" using Z(3) W(3) r(12) wb by simp
  have b1z: "buf_at z b1 = buf_at v b1" using Z(4) [of b1] W(4) [of b1] r(4) by simp
  have "disk s p = view s p" by (rule dirty_disk [OF ok D])
  then have clean: "b_data (buf_at z b1) = disk z (b_blockno (buf_at z b1))"
    using b1z r(5,7) zd(1) ne by (simp add: holds_def)
  obtain t1 ys where t1: "brelse b1 z = Done () t1" "cache_ok ys ({b1, b2} - {b1}) t1" "view t1 = view z" "disk t1 = disk z"
    "disk_trace t1 = disk_trace z" "dirty t1 = dirty z" "only_blocks z t1"
    "payload (buf_at t1 b2) = payload (buf_at z b2)"
    by (rule brelse_spec [OF Z(1), of b1]) (use clean r(4) in auto)
  have one: "{b1, b2} - {b1} = {b2}" using r(4) by auto
  have safe: "b_flags (buf_at t1 b2) = 6 \<or> b_data (buf_at t1 b2) = disk t1 (b_blockno (buf_at t1 b2))"
    using payloadD(3,6) [OF t1(8)] Z(4) [of b2] wb t1(4) zd by simp
  obtain t zs where t: "brelse b2 t1 = Done () t" "cache_ok zs ({b2} - {b2}) t" "view t = view t1" "disk t = disk t1"
    "disk_trace t = disk_trace t1" "dirty t = dirty t1" "only_blocks t1 t"
    by (rule brelse_spec [OF t1(2) [unfolded one] _ safe]) auto
  have "install_trans_block k s = Done () t"
    using r(1,2,7) p q dev only_blocks_log [OF r(13)] z t1(1) t(1) r(4)
    by (simp add: install_trans_block_def Let_def w_def)
  moreover have "only_blocks s t"
    using r(14) only_blocks_upd_buf [of v b2 "\<lambda>b. b\<lparr>b_data := view s p\<rparr>", folded w_def]
      only_blocks_written [of w b2, folded z_def] t1(7) t(7) only_blocks_trans by blast
  ultimately show thesis
    using that [of t zs] t t1 Z W r zd dz by simp
qed

section \<open>The header block\<close>

definition head_blocks :: "u8 list \<Rightarrow> u32 list" where
  "head_blocks bs = map (head_block bs) [0..<nat (head_n bs)]"

lemma length_word_bytes_list: "length (concat (map word_bytes ws)) = 4 * length ws"
  by (simp add: length_concat comp_def sum_list_triv)

lemma put_head_read:
  assumes n: "0 \<le> n" "n < 30" "nat n \<le> length blks" and len: "length bs = BSIZE"
  shows "length (put_head n blks bs) = BSIZE" "head_n (put_head n blks bs) = n"
    "head_blocks (put_head n blks bs) = take (nat n) blks"
proof -
  let ?ws = "of_int n # take (nat n) blks"
  have ph: "put_head n blks bs = concat (map word_bytes ?ws) @ drop (4 + 4 * nat n) bs"
    using n len by (simp add: put_head_def put_at_def length_word_bytes_list min_def)
  have at: "word_at (put_head n blks bs) (4 * i) = ?ws ! i" if "i < Suc (nat n)" for i
    unfolding ph by (rule word_at_concat) (use that n in simp)
  show l: "length (put_head n blks bs) = BSIZE"
    using n len by (simp add: ph length_word_bytes_list min_def)
  show h: "head_n (put_head n blks bs) = n"
    using at [of 0] n by (simp add: head_n_def sint_sbintrunc' signed_take_bit_int_eq_self)
  show "head_blocks (put_head n blks bs) = take (nat n) blks"
    unfolding head_blocks_def h
    by (rule nth_equalityI) (use n at [of "Suc _"] in \<open>auto simp: head_block_def\<close>)
qed

section \<open>Sequences of disk writes\<close>

definition apply_writes :: "(u32 \<times> u8 list) list \<Rightarrow> (u32 \<Rightarrow> u8 list) \<Rightarrow> u32 \<Rightarrow> u8 list" where
  "apply_writes W D = fold (\<lambda>(b, d) D. D(b := d)) W D"

lemma apply_writes_simps [simp]:
  "apply_writes [] D = D" "apply_writes ((b, d) # W) D = apply_writes W (D(b := d))"
  by (simp_all add: apply_writes_def)

lemma apply_writes_append: "apply_writes (V @ W) D = apply_writes W (apply_writes V D)"
  by (simp add: apply_writes_def)

lemma apply_writes_other: "b \<notin> fst ` set W \<Longrightarrow> apply_writes W D b = D b"
  by (induction W arbitrary: D) auto

lemma apply_writes_map:
  "i < n \<Longrightarrow> inj_on f {..<n} \<Longrightarrow> apply_writes (map (\<lambda>i. (f i, v i)) [0..<n]) D (f i) = v i"
proof (induction n)
  case (Suc n)
  have I: "inj_on f {..<n}" by (rule inj_on_subset [OF Suc.prems(2)]) auto
  show ?case
  proof (cases "i = n")
    case False
    then have "i < n" "f i \<noteq> f n" using Suc.prems inj_onD [OF Suc.prems(2), of i n] by auto
    then show ?thesis using Suc.IH [OF _ I] by (simp add: apply_writes_append)
  qed (simp add: apply_writes_append)
qed simp

lemma apply_writes_map_snoc:
  "apply_writes (map f [0..<Suc k]) D = (apply_writes (map f [0..<k]) D)(fst (f k) := snd (f k))"
  by (cases "f k") (simp add: apply_writes_append)

section \<open>The copying loops\<close>

text \<open>
  The log occupies the \<open>LOGSIZE\<close> blocks from \<open>st\<close> on: the header and 29 copies. A list of home
  blocks fits when it is no longer than that, has no duplicates and stays out of the log.
\<close>

definition in_log :: "u32 \<Rightarrow> u32 \<Rightarrow> bool" where
  "in_log st b \<longleftrightarrow> unat st \<le> unat b \<and> unat b < unat st + 30"

definition log_slot :: "u32 \<Rightarrow> nat \<Rightarrow> u32" where
  "log_slot st i = st + of_nat i + 1"

definition homes_ok :: "u32 \<Rightarrow> u32 \<Rightarrow> u32 list \<Rightarrow> bool" where
  "homes_ok st sz bs \<longleftrightarrow> unat st + 30 \<le> unat sz \<and> length bs < 30 \<and> distinct bs
     \<and> list_all (\<lambda>b. b < sz \<and> \<not> in_log st b) bs"

lemma unat_log_slot:
  assumes "unat st + 30 \<le> unat (sz :: u32)" "i < 29"
  shows "unat (log_slot st i) = unat st + i + 1"
proof -
  have "unat sz < 2 ^ 32" using unsigned_less [of sz] by simp
  then show ?thesis using assms unfolding log_slot_def
    by (simp add: unat_word_ariths unat_of_nat)
qed

lemma homes_okD:
  assumes h: "homes_ok st sz bs" and i: "i < length bs"
  shows "log_slot st i < sz" "bs ! i < sz" "in_log st (log_slot st i)" "\<not> in_log st (bs ! i)"
    "log_slot st i \<noteq> bs ! i" "log_slot st i \<noteq> st" "bs ! i \<noteq> st"
proof -
  have b: "unat st + 30 \<le> unat sz" "length bs < 30" "bs ! i < sz" "\<not> in_log st (bs ! i)"
    using h i by (auto simp: homes_ok_def list_all_length)
  have u: "unat (log_slot st i) = unat st + i + 1" using unat_log_slot [OF b(1)] b(2) i by simp
  show l: "in_log st (log_slot st i)" and "bs ! i < sz" and n: "\<not> in_log st (bs ! i)"
    and "log_slot st i < sz" and "log_slot st i \<noteq> st"
    using u b i by (auto simp: in_log_def word_less_nat_alt)
  show "log_slot st i \<noteq> bs ! i" using l n by auto
  show "bs ! i \<noteq> st" using n by (auto simp: in_log_def)
qed

lemma slot_not_home:
  assumes h: "homes_ok st sz bs"
  shows "i < length bs \<Longrightarrow> log_slot st i \<notin> set bs" "st \<notin> set bs"
proof -
  have n: "\<not> in_log st b" if "b \<in> set bs" for b using h that by (auto simp: homes_ok_def list_all_iff)
  show "log_slot st i \<notin> set bs" if "i < length bs" using n [of "log_slot st i"] homes_okD(3) [OF h that] by blast
  show "st \<notin> set bs" using n [of st] by (auto simp: in_log_def)
qed

lemma slots_inj:
  assumes h: "homes_ok st sz bs"
  shows "inj_on (log_slot st) {..<length bs}" "inj_on ((!) bs) {..<length bs}"
proof -
  have b: "unat st + 30 \<le> unat sz" "length bs < 30" "distinct bs" using h by (auto simp: homes_ok_def)
  show "inj_on (log_slot st) {..<length bs}"
  proof (rule inj_onI)
    fix i j assume "i \<in> {..<length bs}" "j \<in> {..<length bs}" "log_slot st i = log_slot st j"
    then have "unat (log_slot st i) = unat (log_slot st j)" "i < 29" "j < 29" using b(2) by simp_all
    then show "i = j" unfolding unat_log_slot [OF b(1) \<open>i < 29\<close>] unat_log_slot [OF b(1) \<open>j < 29\<close>] by simp
  qed
  show "inj_on ((!) bs) {..<length bs}" by (rule inj_on_nth [OF b(3)]) simp
qed

text \<open>Where the in-memory header stands: device 1, and the logged blocks fit the log.\<close>

definition log_ready :: "u32 list \<Rightarrow> 'a logstate_scheme \<Rightarrow> bool" where
  "log_ready bs s \<longleftrightarrow> log_dev s = 1 \<and> lh_n s = int (length bs) \<and> length (lh_block s) = 30
     \<and> take (length bs) (lh_block s) = bs \<and> homes_ok (log_start s) (disksize s) bs"

lemma log_ready_only: "only_blocks s t \<Longrightarrow> log_ready bs t = log_ready bs s"
  using only_blocks_log [of s t] only_blocksD(2) [of s t] by (simp add: log_ready_def)

lemma log_readyD:
  assumes "log_ready bs s"
  shows "log_dev s = 1" "lh_n s = int (length bs)" "length (lh_block s) = 30"
    "i < length bs \<Longrightarrow> lh_block s ! i = bs ! i" "homes_ok (log_start s) (disksize s) bs" "length bs < 30"
proof -
  show "lh_block s ! i = bs ! i" if "i < length bs"
    using assms that nth_take [of i "length bs" "lh_block s"] by (simp add: log_ready_def)
qed (use assms in \<open>simp_all add: log_ready_def homes_ok_def\<close>)

definition log_writes :: "u32 \<Rightarrow> u32 list \<Rightarrow> (u32 \<Rightarrow> u8 list) \<Rightarrow> nat \<Rightarrow> (u32 \<times> u8 list) list" where
  "log_writes st bs V k = map (\<lambda>i. (log_slot st i, V (bs ! i))) [0..<k]"

definition home_writes :: "u32 \<Rightarrow> u32 list \<Rightarrow> (u32 \<Rightarrow> u8 list) \<Rightarrow> nat \<Rightarrow> (u32 \<times> u8 list) list" where
  "home_writes st bs V k = map (\<lambda>i. (bs ! i, V (log_slot st i))) [0..<k]"

text \<open>The block store after a sequence of writes through the cache.\<close>

definition wrote :: "(u32 \<times> u8 list) list \<Rightarrow> 'a bstate_scheme \<Rightarrow> 'a bstate_scheme \<Rightarrow> bool" where
  "wrote W s t \<longleftrightarrow> (\<exists>ys. cache_ok ys {} t) \<and> view t = apply_writes W (view s)
     \<and> disk t = apply_writes W (disk s) \<and> disk_trace t = disk_trace s @ W \<and> only_blocks s t"

lemma wrote_append: "wrote V s t \<Longrightarrow> wrote W t u \<Longrightarrow> wrote (V @ W) s u"
  using only_blocks_trans [of s t u] by (auto simp: wrote_def apply_writes_append)

lemma wrote_snoc:
  assumes s: "wrote W s t" and u: "cache_ok ys {} u" "view u = (view t)(b := d)" "disk u = (disk t)(b := d)"
    "disk_trace u = disk_trace t @ [(b, d)]" "only_blocks t u"
  shows "wrote (W @ [(b, d)]) s u"
  by (rule wrote_append [OF s]) (use u in \<open>auto simp: wrote_def\<close>)

lemma wrote_refl: "cache_ok xs {} s \<Longrightarrow> wrote [] s s"
  by (auto simp: wrote_def only_blocks_refl)

lemma log_writes_keys:
  assumes "homes_ok st sz bs" "k \<le> length bs" "\<not> in_log st b"
  shows "apply_writes (log_writes st bs V k) D b = D b"
  by (rule apply_writes_other) (use assms homes_okD(3) [OF assms(1)] in \<open>auto simp: log_writes_def\<close>)

lemma write_log_spec:
  fixes s :: "'a logstate_scheme"
  assumes ok: "cache_ok xs {} s" and ready: "log_ready bs s" and D: "dirty s = set bs"
  shows "\<exists>t. write_log s = Done () t
    \<and> wrote (log_writes (log_start s) bs (view s) (length bs)) s t \<and> dirty t = set bs"
proof -
  define L where "L = log_writes (log_start s) bs (view s)"
  note h = log_readyD(5) [OF ready]
  have room: "card (set bs) < NBUF" using card_length [of bs] log_readyD(6) [OF ready] by simp
  have step: "\<exists>u. write_log_block k t = Done () u \<and> (wrote (L (Suc k)) s u \<and> dirty u = set bs)"
    if k: "k < length bs" and P: "wrote (L k) s t \<and> dirty t = set bs" for k t
  proof -
    obtain ys where t: "cache_ok ys {} t" "view t = apply_writes (L k) (view s)" "only_blocks s t"
      using P by (auto simp: wrote_def)
    note rt = ready [folded log_ready_only [OF t(3)]]
    note st = only_blocks_log(2) [OF t(3)]
    note hk = homes_okD [OF log_readyD(5) [OF rt] k]
    have p: "log_slot (log_start s) k = log_start t + of_nat k + 1" using st by (simp add: log_slot_def)
    have q: "bs ! k = lh_block t ! k" using log_readyD(4) [OF rt k] by simp
    have old: "view t (bs ! k) = view s (bs ! k)"
      using log_writes_keys [OF h, of k "bs ! k" "view s" "view s"] k hk(4) st t(2) by (simp add: L_def)
    have clean: "log_slot (log_start s) k \<notin> dirty t"
      using slot_not_home(1) [OF h k] P by simp
    obtain u zs where u: "write_log_block k t = Done () u" "cache_ok zs {} u"
      "view u = (view t)(log_slot (log_start s) k := view t (bs ! k))"
      "disk u = (disk t)(log_slot (log_start s) k := view t (bs ! k))"
      "disk_trace u = disk_trace t @ [(log_slot (log_start s) k, view t (bs ! k))]" "dirty u = dirty t" "only_blocks t u"
      by (rule write_log_block_spec [OF t(1) log_readyD(1) [OF rt] p q]) (use hk st clean k room P in \<open>simp_all\<close>)
    have "wrote (L k @ [(log_slot (log_start s) k, view s (bs ! k))]) s u"
      by (rule wrote_snoc [OF conjunct1 [OF P] u(2) u(3,4,5) [unfolded old] u(7)])
    then show ?thesis using u(1,6) P by (simp add: L_def log_writes_def)
  qed
  have "wrote (L 0) s s \<and> dirty s = set bs" using wrote_refl [OF ok] D by (simp add: L_def log_writes_def)
  from forK_upt [of "length bs" "\<lambda>k t. wrote (L k) s t \<and> dirty t = set bs" write_log_block s, OF step this]
  show ?thesis using log_readyD(2) [OF ready] by (simp add: write_log_def L_def)
qed

lemma home_writes_keys:
  assumes "homes_ok st sz bs" "k \<le> length bs" "in_log st b"
  shows "apply_writes (home_writes st bs V k) D b = D b"
  by (rule apply_writes_other) (use assms homes_okD(4) [OF assms(1)] in \<open>auto simp: home_writes_def\<close>)

lemma install_trans_spec:
  fixes s :: "'a logstate_scheme"
  assumes ok: "cache_ok xs {} s" and ready: "log_ready bs s" and D: "dirty s = set bs \<or> dirty s = {}"
  shows "\<exists>t. install_trans s = Done () t
    \<and> wrote (home_writes (log_start s) bs (view s) (length bs)) s t \<and> dirty t = {}"
proof -
  define L where "L = home_writes (log_start s) bs (view s)"
  define P where "P k t \<longleftrightarrow> wrote (L k) s t \<and> dirty t = dirty s - set (take k bs)" for k and t :: "'a logstate_scheme"
  note h = log_readyD(5) [OF ready]
  have card: "card (set bs) < NBUF" using card_length [of bs] log_readyD(6) [OF ready] by simp
  have step: "\<exists>u. install_trans_block k t = Done () u \<and> P (Suc k) u" if k: "k < length bs" and Pk: "P k t" for k t
  proof -
    obtain ys where t: "cache_ok ys {} t" "view t = apply_writes (L k) (view s)" "only_blocks s t" "wrote (L k) s t"
      "dirty t = dirty s - set (take k bs)"
      using Pk by (auto simp: wrote_def P_def)
    note rt = ready [folded log_ready_only [OF t(3)]]
    note st = only_blocks_log(2) [OF t(3)]
    note hk = homes_okD [OF log_readyD(5) [OF rt] k]
    have p: "log_slot (log_start s) k = log_start t + of_nat k + 1" using st by (simp add: log_slot_def)
    have q: "bs ! k = lh_block t ! k" using log_readyD(4) [OF rt k] by simp
    have old: "view t (log_slot (log_start s) k) = view s (log_slot (log_start s) k)"
      using home_writes_keys [OF h, of k "log_slot (log_start s) k" "view s" "view s"] k hk(3) st t(2)
      by (simp add: L_def)
    have sub: "dirty t \<subseteq> set bs" using t(5) D by auto
    have clean: "log_slot (log_start s) k \<notin> dirty t"
      using slot_not_home(1) [OF h k] sub by blast
    have room: "card (dirty t) < NBUF" using card_mono [OF _ sub] card by simp
    have "bs ! k \<notin> set (take k bs)"
      using h k by (auto simp: homes_ok_def in_set_conv_nth nth_eq_iff_index_eq)
    then have av: "bs ! k \<in> dirty t \<or> card (dirty t) + 1 < NBUF"
      using D t(5) k by auto
    obtain u zs where u: "install_trans_block k t = Done () u" "cache_ok zs {} u"
      "view u = (view t)(bs ! k := view t (log_slot (log_start s) k))"
      "disk u = (disk t)(bs ! k := view t (log_slot (log_start s) k))"
      "disk_trace u = disk_trace t @ [(bs ! k, view t (log_slot (log_start s) k))]" "dirty u = dirty t - {bs ! k}"
      "only_blocks t u"
      by (rule install_trans_block_spec [OF t(1) log_readyD(1) [OF rt] p q]) (use hk st clean room av in simp_all)
    have "wrote (L k @ [(bs ! k, view s (log_slot (log_start s) k))]) s u"
      by (rule wrote_snoc [OF t(4) u(2) u(3,4,5) [unfolded old] u(7)])
    moreover have "dirty u = dirty s - set (take (Suc k) bs)" using u(6) t(5) k by (auto simp: take_Suc_conv_app_nth)
    ultimately show ?thesis using u(1) by (simp add: P_def L_def home_writes_def)
  qed
  have "P 0 s" using wrote_refl [OF ok] by (simp add: P_def L_def home_writes_def)
  from forK_upt [of "length bs" P install_trans_block s, OF step this]
  show ?thesis using log_readyD(2) [OF ready] D by (auto simp: install_trans_def L_def P_def)
qed

lemma write_head_wrote:
  fixes s :: "'a logstate_scheme"
  assumes ok: "cache_ok xs {} s" and dev: "log_dev s = 1" and lt: "log_start s < disksize s"
    and room: "card (dirty s) < NBUF"
  shows "\<exists>t. write_head s = Done () t
    \<and> wrote [(log_start s, put_head (lh_n s) (lh_block s) (view s (log_start s)))] s t \<and> dirty t = dirty s - {log_start s}"
proof -
  obtain t ys where "write_head s = Done () t" "cache_ok ys {} t"
    "view t = (view s)(log_start s := put_head (lh_n s) (lh_block s) (view s (log_start s)))"
    "disk t = (disk s)(log_start s := put_head (lh_n s) (lh_block s) (view s (log_start s)))"
    "disk_trace t = disk_trace s @ [(log_start s, put_head (lh_n s) (lh_block s) (view s (log_start s)))]"
    "dirty t = dirty s - {log_start s}" "only_blocks s t"
    by (rule write_head_spec [OF ok dev lt room])
  then show ?thesis by (auto simp: wrote_def)
qed

section \<open>Commit\<close>

lemma log_fields_frame [simp]:
  fixes s :: "'a logstate_scheme"
  shows "cache_ok xs H (s\<lparr>lh_n := n\<rparr>) = cache_ok xs H s" "view (s\<lparr>lh_n := n\<rparr>) = view s"
    "dirty (s\<lparr>lh_n := n\<rparr>) = dirty s"
    "cache_ok xs H (s\<lparr>lh_block := bs\<rparr>) = cache_ok xs H s" "view (s\<lparr>lh_block := bs\<rparr>) = view s"
    "dirty (s\<lparr>lh_block := bs\<rparr>) = dirty s"
  by (rule store_cong; simp add: myproc_def)+

lemma only_blocks_lh_n:
  fixes s :: "'a logstate_scheme"
  assumes "only_blocks s t"
  shows "only_blocks (s\<lparr>lh_n := n\<rparr>) (t\<lparr>lh_n := n\<rparr>)"
proof -
  obtain B D T P where t: "t = s\<lparr>bufs := B, disk := D, disk_trace := T, ptable := P\<rparr>"
    using assms by (auto simp: only_blocks_def)
  then have "t\<lparr>lh_n := n\<rparr> = (s\<lparr>lh_n := n\<rparr>)\<lparr>bufs := B, disk := D, disk_trace := T, ptable := P\<rparr>" by simp
  then show ?thesis unfolding only_blocks_def by blast
qed

text \<open>The disk writes of a commit of the blocks \<open>bs\<close> with contents \<open>V\<close>, over the old header \<open>h\<close>.\<close>

definition commit_writes :: "u32 \<Rightarrow> u32 list \<Rightarrow> u32 list \<Rightarrow> u8 list \<Rightarrow> (u32 \<Rightarrow> u8 list) \<Rightarrow> (u32 \<times> u8 list) list" where
  "commit_writes st bs blks h V =
     (let h1 = put_head (int (length bs)) blks h in
        log_writes st bs V (length bs) @ [(st, h1)] @ map (\<lambda>b. (b, V b)) bs @ [(st, put_head 0 blks h1)])"

lemma home_writes_eq:
  assumes "\<And>i. i < length bs \<Longrightarrow> V (log_slot st i) = F (bs ! i)"
  shows "home_writes st bs V (length bs) = map (\<lambda>b. (b, F b)) bs"
  by (rule nth_equalityI) (use assms in \<open>simp_all add: home_writes_def\<close>)

lemma commit_spec:
  fixes s :: "'a logstate_scheme"
  assumes ok: "cache_ok xs {} s" and ready: "log_ready bs s" and D: "dirty s = set bs" and ne: "bs \<noteq> []"
  shows "\<exists>t ys. commit s = Done () t \<and> cache_ok ys {} t \<and> dirty t = {} \<and> only_blocks (s\<lparr>lh_n := 0\<rparr>) t
    \<and> disk_trace t = disk_trace s @ commit_writes (log_start s) bs (lh_block s) (disk s (log_start s)) (view s)
    \<and> disk t = apply_writes (commit_writes (log_start s) bs (lh_block s) (disk s (log_start s)) (view s)) (disk s)"
proof -
  let ?st = "log_start s" and ?n = "length bs" and ?V = "view s"
  note h = log_readyD(5) [OF ready]
  have lt: "?st < disksize s" using h by (auto simp: homes_ok_def word_less_nat_alt)
  have card: "card (set bs) < NBUF" using card_length [of bs] log_readyD(6) [OF ready] by simp
  obtain t1 where t1: "write_log s = Done () t1" "wrote (log_writes ?st bs ?V ?n) s t1" "dirty t1 = set bs"
    using write_log_spec [OF ok ready D] by blast
  obtain y1 where o1: "cache_ok y1 {} t1" "only_blocks s t1" using t1(2) by (auto simp: wrote_def)
  note f1 = only_blocks_log [OF o1(2)] only_blocksD(2) [OF o1(2)]
  have in0: "st \<notin> set (map (log_slot ?st) [0..<?n])" if "st = ?st" for st
    using homes_okD(6) [OF h, symmetric] that by auto
  have v1: "view t1 ?st = disk s ?st"
    using t1(2) in0 [OF refl] apply_writes_other [of ?st "log_writes ?st bs ?V ?n" ?V]
      dirty_disk [OF ok, of ?st] slot_not_home(2) [OF h] D
    by (auto simp: wrote_def log_writes_def image_comp comp_def)
  define h1 where "h1 = put_head (int ?n) (lh_block s) (disk s ?st)"
  obtain t2 where t2: "write_head t1 = Done () t2" "wrote [(?st, h1)] t1 t2" "dirty t2 = set bs - {?st}"
    using write_head_wrote [OF o1(1)] f1 lt v1 t1(3) card log_readyD [OF ready] by (auto simp: h1_def)
  have w2: "wrote (log_writes ?st bs ?V ?n @ [(?st, h1)]) s t2" by (rule wrote_append [OF t1(2) t2(2)])
  obtain y2 where o2: "cache_ok y2 {} t2" "only_blocks s t2" using w2 by (auto simp: wrote_def)
  note f2 = only_blocks_log [OF o2(2)] only_blocksD(2) [OF o2(2)]
  have d2: "dirty t2 = set bs" using t2(3) slot_not_home(2) [OF h] by auto
  have slot: "view t2 (log_slot ?st i) = ?V (bs ! i)" if "i < ?n" for i
    using w2 that homes_okD(6) [OF h that] apply_writes_map [OF that slots_inj(1) [OF h]]
    by (simp add: wrote_def apply_writes_append log_writes_def)
  obtain t3 where t3: "install_trans t2 = Done () t3" "wrote (home_writes ?st bs (view t2) ?n) t2 t3" "dirty t3 = {}"
    using install_trans_spec [OF o2(1) ready [folded log_ready_only [OF o2(2)]]] d2 f2 by auto
  have "home_writes ?st bs (view t2) ?n = map (\<lambda>b. (b, ?V b)) bs" by (rule home_writes_eq) (rule slot)
  note w3 = wrote_append [OF w2 t3(2) [unfolded this]]
  obtain y3 where o3: "cache_ok y3 {} t3" "only_blocks s t3" using w3 by (auto simp: wrote_def)
  note f3 = only_blocks_log [OF o3(2)] only_blocksD(2) [OF o3(2)]
  have v3: "view t3 ?st = h1"
    using w3 slot_not_home(2) [OF h] apply_writes_other [of ?st "map (\<lambda>b. (b, ?V b)) bs"]
    by (simp add: wrote_def apply_writes_append image_comp comp_def)
  obtain t4 where t4: "write_head (t3\<lparr>lh_n := 0\<rparr>) = Done () t4"
    "wrote [(?st, put_head 0 (lh_block s) h1)] (t3\<lparr>lh_n := 0\<rparr>) t4" "dirty t4 = {}"
    using write_head_wrote [of y3 "t3\<lparr>lh_n := 0\<rparr>"] o3 f3 lt v3 t3(3) log_readyD(1) [OF ready] by auto
  obtain y4 where y4: "cache_ok y4 {} t4" "only_blocks (s\<lparr>lh_n := 0\<rparr>) t4"
    using t4(2) only_blocks_trans [OF only_blocks_lh_n [OF o3(2)]] by (auto simp: wrote_def)
  have "commit s = Done () t4"
    using t1(1) t2(1) t3(1) t4(1) ne log_readyD(2) [OF ready] by (simp add: commit_def)
  moreover have "disk_trace t4 = disk_trace s @ commit_writes ?st bs (lh_block s) (disk s ?st) ?V"
    "disk t4 = apply_writes (commit_writes ?st bs (lh_block s) (disk s ?st) ?V) (disk s)"
    using w3 t4(2) by (simp_all add: wrote_def commit_writes_def Let_def h1_def apply_writes_append)
  ultimately show ?thesis using y4 t4(3) by blast
qed

section \<open>Recovery\<close>

text \<open>
  A disk from which recovery restores the file system \<open>F\<close>: the header lists blocks that fit, the log
  holds their contents, and every other block outside the log has its contents already. With a
  count of zero the disk is \<open>F\<close> itself outside the log.
\<close>

definition recoverable :: "u32 \<Rightarrow> u32 \<Rightarrow> (u32 \<Rightarrow> u8 list) \<Rightarrow> (u32 \<Rightarrow> u8 list) \<Rightarrow> bool" where
  "recoverable st sz D F \<longleftrightarrow> length (D st) = BSIZE \<and> 0 \<le> head_n (D st) \<and> homes_ok st sz (head_blocks (D st))
     \<and> (\<forall>i < length (head_blocks (D st)). D (log_slot st i) = F (head_blocks (D st) ! i))
     \<and> (\<forall>b. \<not> in_log st b \<longrightarrow> b \<notin> set (head_blocks (D st)) \<longrightarrow> D b = F b)"

lemma length_head_blocks: "length (head_blocks bs) = nat (head_n bs)"
  by (simp add: head_blocks_def)

text \<open>The disk writes of a recovery.\<close>

definition recover_writes :: "u32 \<Rightarrow> u32 list \<Rightarrow> u8 list \<Rightarrow> (u32 \<Rightarrow> u8 list) \<Rightarrow> (u32 \<times> u8 list) list" where
  "recover_writes st blks h F = map (\<lambda>b. (b, F b)) (head_blocks h) @ [(st, put_head 0 blks h)]"

lemma read_head_spec:
  fixes s :: "'a logstate_scheme"
  assumes ok: "cache_ok xs {} s" and D: "dirty s = {}" and dev: "log_dev s = 1"
    and blk: "length (lh_block s) = 30" and h: "homes_ok (log_start s) (disksize s) (head_blocks (disk s (log_start s)))"
    and n0: "0 \<le> head_n (disk s (log_start s))"
  shows "\<exists>t ys. read_head s = Done () t \<and> cache_ok ys {} t \<and> view t = view s \<and> disk t = disk s
    \<and> disk_trace t = disk_trace s \<and> dirty t = {} \<and> log_start t = log_start s \<and> disksize t = disksize s
    \<and> log_ready (head_blocks (disk s (log_start s))) t"
proof -
  let ?st = "log_start s"
  let ?bs = "head_blocks (disk s ?st)"
  have lt: "?st < disksize s" using h by (auto simp: homes_ok_def word_less_nat_alt)
  have vd: "view s ?st = disk s ?st" using dirty_disk [OF ok, of ?st] D by simp
  have len: "length ?bs < 30" using h by (simp add: homes_ok_def)
  obtain b u where u: "bread 1 ?st s = Done b u" "cache_ok xs {b} u" "holds u b ?st"
    "b_data (buf_at u b) = view s ?st" "view u = view s" "disk u = disk s" "disk_trace u = disk_trace s"
    "dirty u = dirty s" "only_blocks s u"
    by (rule bread_spec [OF ok lt]) (use spare_room [OF ok] D in auto)
  note f = only_blocks_log [OF u(9)] only_blocksD(2) [OF u(9)]
  define v where "v = u\<lparr>lh_n := head_n (disk s ?st), lh_block := ?bs @ drop (length ?bs) (lh_block u)\<rparr>"
  have bv: "buf_at v b = buf_at u b" by (simp add: v_def buf_at_def)
  have safe: "b_flags (buf_at v b) = 6 \<or> b_data (buf_at v b) = disk v (b_blockno (buf_at v b))"
    using u(3,4,6) vd bv by (simp add: holds_def v_def)
  have okv: "cache_ok xs {b} v" using u(2) by (simp add: v_def)
  obtain t ys where t: "brelse b v = Done () t" "cache_ok ys ({b} - {b}) t" "view t = view v" "disk t = disk v"
    "disk_trace t = disk_trace v" "dirty t = dirty v" "only_blocks v t"
    by (rule brelse_spec [OF okv _ safe]) auto
  have "read_head s = Done () t"
    using u(1,4) vd dev t(1) len n0
    by (simp add: read_head_def Let_def v_def length_head_blocks) (simp add: head_blocks_def)
  moreover have "log_ready ?bs v"
    unfolding log_ready_def using len n0 dev f blk h by (simp add: v_def length_head_blocks)
  then have "log_ready ?bs t" by (simp only: log_ready_only [OF t(7)])
  moreover have "log_start t = ?st" "disksize t = disksize s"
    using only_blocks_log(2) [OF t(7)] only_blocksD(2) [OF t(7)] f by (simp_all add: v_def)
  moreover have "view t = view s" "disk t = disk s" "disk_trace t = disk_trace s" "dirty t = {}"
    using t u D by (simp_all add: v_def)
  ultimately show ?thesis using t(2) by (intro exI [of _ t] exI [of _ ys]) simp
qed

lemma recover_spec:
  fixes s :: "'a logstate_scheme"
  assumes ok: "cache_ok xs {} s" and D: "dirty s = {}" and dev: "log_dev s = 1" and blk: "length (lh_block s) = 30"
    and rec: "recoverable (log_start s) (disksize s) (disk s) F"
  shows "\<exists>t ys blks. recover_from_log s = Done () t \<and> cache_ok ys {} t \<and> dirty t = {}
    \<and> disk_trace t = disk_trace s @ recover_writes (log_start s) blks (disk s (log_start s)) F
    \<and> disk t = apply_writes (recover_writes (log_start s) blks (disk s (log_start s)) F) (disk s)"
proof -
  let ?st = "log_start s"
  let ?bs = "head_blocks (disk s ?st)"
  have h: "homes_ok ?st (disksize s) ?bs" and n0: "0 \<le> head_n (disk s ?st)"
    and slot: "\<And>i. i < length ?bs \<Longrightarrow> disk s (log_slot ?st i) = F (?bs ! i)"
    using rec by (auto simp: recoverable_def)
  have lt: "?st < disksize s" using h by (auto simp: homes_ok_def word_less_nat_alt)
  have vd: "view s = disk s" using dirty_disk [OF ok] D by auto
  obtain t1 y1 where t1: "read_head s = Done () t1" "cache_ok y1 {} t1" "view t1 = view s" "disk t1 = disk s"
    "disk_trace t1 = disk_trace s" "dirty t1 = {}" "log_start t1 = ?st" "disksize t1 = disksize s" "log_ready ?bs t1"
    using read_head_spec [OF ok D dev blk h n0] by blast
  have "home_writes ?st ?bs (view t1) (length ?bs) = map (\<lambda>b. (b, F b)) ?bs"
    by (rule home_writes_eq) (simp add: t1(3) vd slot)
  then obtain t2 where t2: "install_trans t1 = Done () t2" "wrote (map (\<lambda>b. (b, F b)) ?bs) t1 t2" "dirty t2 = {}"
    using install_trans_spec [OF t1(2,9)] t1(6,7) by auto
  obtain y2 where o2: "cache_ok y2 {} t2" "only_blocks t1 t2" using t2(2) by (auto simp: wrote_def)
  note f2 = only_blocks_log [OF o2(2)] only_blocksD(2) [OF o2(2)]
  have v2: "view t2 ?st = disk s ?st"
    using t2(2) t1(3) vd slot_not_home(2) [OF h] apply_writes_other [of ?st "map (\<lambda>b. (b, F b)) ?bs"]
    by (simp add: wrote_def image_comp comp_def)
  obtain t3 where t3: "write_head (t2\<lparr>lh_n := 0\<rparr>) = Done () t3"
    "wrote [(?st, put_head 0 (lh_block t2) (disk s ?st))] (t2\<lparr>lh_n := 0\<rparr>) t3" "dirty t3 = {}"
    using write_head_wrote [of y2 "t2\<lparr>lh_n := 0\<rparr>"] o2 f2 lt v2 t2(3) t1(7,8) log_readyD(1) [OF t1(9)] by auto
  have "recover_from_log s = Done () t3" using t1(1) t2(1) t3(1) by (simp add: recover_from_log_def)
  moreover obtain y3 where "cache_ok y3 {} t3" using t3(2) by (auto simp: wrote_def)
  moreover have "disk_trace t3 = disk_trace s @ recover_writes ?st (lh_block t2) (disk s ?st) F"
    "disk t3 = apply_writes (recover_writes ?st (lh_block t2) (disk s ?st) F) (disk s)"
    using t2(2) t3(2) t1 by (simp_all add: wrote_def recover_writes_def apply_writes_append)
  ultimately show ?thesis using t3(3) by blast
qed

section \<open>Crashes\<close>

lemma recoverable_home:
  assumes r: "recoverable st sz D F" and b: "b \<in> set (head_blocks (D st))"
  shows "recoverable st sz (D(b := F b)) F" "(D(b := F b)) st = D st"
proof -
  have h: "homes_ok st sz (head_blocks (D st))" using r by (simp add: recoverable_def)
  show st: "(D(b := F b)) st = D st" using slot_not_home(2) [OF h] b by auto
  have "log_slot st i \<noteq> b" if "i < length (head_blocks (D st))" for i
    using slot_not_home(1) [OF h that] b by auto
  then show "recoverable st sz (D(b := F b)) F" using r unfolding recoverable_def st by auto
qed

lemma recoverable_homes:
  "recoverable st sz D F \<Longrightarrow> set bs \<subseteq> set (head_blocks (D st)) \<Longrightarrow>
     recoverable st sz (apply_writes (map (\<lambda>b. (b, F b)) bs) D) F"
proof (induction bs arbitrary: D)
  case (Cons b bs)
  have b: "b \<in> set (head_blocks (D st))" and bs: "set bs \<subseteq> set (head_blocks (D st))" using Cons.prems(2) by auto
  have "recoverable st sz (apply_writes (map (\<lambda>b. (b, F b)) bs) (D(b := F b))) F"
    using Cons.IH [OF recoverable_home(1) [OF Cons.prems(1) b]] bs
    unfolding recoverable_home(2) [OF Cons.prems(1) b] by blast
  then show ?case by simp
qed simp

lemma apply_writes_all:
  assumes "b \<in> set bs"
  shows "apply_writes (map (\<lambda>b. (b, F b)) bs) D b = F b"
  using assms
proof (induction bs arbitrary: D rule: rev_induct)
  case (snoc c bs)
  then show ?case by (cases "b = c") (auto simp: apply_writes_append)
qed simp

lemma recoverable_clear:
  assumes r: "recoverable st sz D F" and all: "\<forall>b \<in> set (head_blocks (D st)). D b = F b"
  shows "recoverable st sz (D(st := put_head 0 blks (D st))) F"
    "\<not> in_log st b \<Longrightarrow> (D(st := put_head 0 blks (D st))) b = F b"
proof -
  have len: "length (D st) = BSIZE" and sz: "unat st + 30 \<le> unat sz"
    and out: "\<forall>b. \<not> in_log st b \<longrightarrow> b \<notin> set (head_blocks (D st)) \<longrightarrow> D b = F b"
    using r by (auto simp: recoverable_def homes_ok_def)
  have st: "in_log st st" by (simp add: in_log_def)
  have p: "length (put_head 0 blks (D st)) = BSIZE" "head_n (put_head 0 blks (D st)) = 0"
    "head_blocks (put_head 0 blks (D st)) = []"
    using put_head_read [of 0 blks "D st"] len by auto
  have eq: "(D(st := put_head 0 blks (D st))) b = F b" if "\<not> in_log st b" for b
    using that st out all by (cases "b \<in> set (head_blocks (D st))") auto
  show "\<not> in_log st b \<Longrightarrow> (D(st := put_head 0 blks (D st))) b = F b" by (rule eq)
  show "recoverable st sz (D(st := put_head 0 blks (D st))) F"
    unfolding recoverable_def using p sz eq by (simp add: homes_ok_def del: fun_upd_apply) simp
qed

text \<open>Stopping a recovery after any of its writes leaves a disk that recovers to the same state.\<close>

lemma recover_prefix:
  assumes r: "recoverable st sz D F"
  shows "recoverable st sz (apply_writes (take j (recover_writes st blks (D st) F)) D) F"
    "\<not> in_log st b \<Longrightarrow> apply_writes (recover_writes st blks (D st) F) D b = F b"
proof -
  let ?bs = "head_blocks (D st)"
  let ?E = "apply_writes (map (\<lambda>b. (b, F b)) ?bs) D"
  have h: "homes_ok st sz ?bs" using r by (simp add: recoverable_def)
  have E: "recoverable st sz ?E F" by (rule recoverable_homes [OF r]) simp
  have st: "?E st = D st" by (rule apply_writes_other) (use slot_not_home(2) [OF h] in auto)
  have all: "\<forall>b \<in> set (head_blocks (?E st)). ?E b = F b" unfolding st by (simp add: apply_writes_all)
  note C = recoverable_clear [OF E all, unfolded st]
  show "\<not> in_log st b \<Longrightarrow> apply_writes (recover_writes st blks (D st) F) D b = F b"
    using C(2) by (simp add: recover_writes_def apply_writes_append)
  show "recoverable st sz (apply_writes (take j (recover_writes st blks (D st) F)) D) F"
  proof (cases "j \<le> length ?bs")
    case True
    then have "take j (recover_writes st blks (D st) F) = map (\<lambda>b. (b, F b)) (take j ?bs)"
      by (simp add: recover_writes_def take_map)
    then show ?thesis using recoverable_homes [OF r, of "take j ?bs"] set_take_subset by metis
  next
    case False
    then have "take j (recover_writes st blks (D st) F) = recover_writes st blks (D st) F"
      by (simp add: recover_writes_def)
    then show ?thesis using C(1) by (simp add: recover_writes_def apply_writes_append)
  qed
qed

lemma log_writes_prefix:
  assumes h: "homes_ok st sz bs" and k: "k \<le> length bs" and len: "length (D st) = BSIZE" and n0: "head_n (D st) = 0"
  shows "recoverable st sz (apply_writes (log_writes st bs V k) D) D"
    "apply_writes (log_writes st bs V k) D st = D st"
proof -
  let ?E = "apply_writes (log_writes st bs V k) D"
  show st: "?E st = D st"
    by (rule apply_writes_other) (use homes_okD(6) [OF h, symmetric] k in \<open>auto simp: log_writes_def\<close>)
  have e: "head_blocks (D st) = []" using n0 by (simp add: head_blocks_def)
  have "homes_ok st sz []" using h by (simp add: homes_ok_def)
  then show "recoverable st sz ?E D"
    unfolding recoverable_def st e using len n0 log_writes_keys [OF h k] by simp
qed

lemma header_commits:
  assumes h: "homes_ok st sz bs" and len: "length (D st) = BSIZE"
    and blks: "length blks = 30" "take (length bs) blks = bs"
    and slot: "\<And>i. i < length bs \<Longrightarrow> D (log_slot st i) = V (bs ! i)"
    and out: "\<And>b. \<not> in_log st b \<Longrightarrow> b \<notin> set bs \<Longrightarrow> D b = V b"
  shows "recoverable st sz (D(st := put_head (int (length bs)) blks (D st))) V"
    "head_blocks (put_head (int (length bs)) blks (D st)) = bs"
proof -
  let ?h = "put_head (int (length bs)) blks (D st)"
  have lt: "length bs < 30" using h by (simp add: homes_ok_def)
  have p: "length ?h = BSIZE" "head_n ?h = int (length bs)" "head_blocks ?h = bs"
    using put_head_read [of "int (length bs)" blks "D st"] len lt blks by auto
  show "head_blocks ?h = bs" by (rule p(3))
  have st: "in_log st st" by (simp add: in_log_def)
  show "recoverable st sz (D(st := ?h)) V"
    unfolding recoverable_def using p h slot out st homes_okD(6) [OF h] by (auto simp del: One_nat_def)
qed

text \<open>
  Stopping a commit after \<open>j\<close> of its writes: up to the write of the header the disk recovers to the
  old file system, from then on to the new one.
\<close>

lemma commit_prefix:
  assumes h: "homes_ok st sz bs" and len: "length (D st) = BSIZE" and n0: "head_n (D st) = 0"
    and blks: "length blks = 30" "take (length bs) blks = bs"
    and out: "\<And>b. \<not> in_log st b \<Longrightarrow> b \<notin> set bs \<Longrightarrow> D b = V b"
  shows "recoverable st sz (apply_writes (take j (commit_writes st bs blks (D st) V)) D)
    (if j \<le> length bs then D else V)"
proof -
  let ?n = "length bs" and ?h = "put_head (int (length bs)) blks (D st)"
  let ?E = "apply_writes (log_writes st bs V ?n) D"
  have ll: "length (log_writes st bs V k) = k" for k by (simp add: log_writes_def)
  have tl: "take j (log_writes st bs V ?n) = log_writes st bs V j" if "j \<le> ?n"
    using that by (simp add: log_writes_def take_map)
  note E = log_writes_prefix [where D = D and V = V, OF h order_refl len n0]
  have slot: "?E (log_slot st i) = V (bs ! i)" if "i < ?n" for i
    unfolding log_writes_def by (rule apply_writes_map [OF that slots_inj(1) [OF h]])
  have oute: "?E b = V b" if "\<not> in_log st b" "b \<notin> set bs" for b
    using log_writes_keys [OF h order_refl that(1)] out [OF that] by simp
  have lenE: "length (?E st) = BSIZE" using E(2) len by simp
  note C = header_commits [where D = ?E and V = V, OF h lenE blks slot oute, unfolded E(2)]
  have cw: "commit_writes st bs blks (D st) V = log_writes st bs V ?n @ (st, ?h) # recover_writes st blks ?h V"
    using C(2) by (simp add: commit_writes_def recover_writes_def Let_def)
  show ?thesis
  proof (cases "j \<le> ?n")
    case True
    then show ?thesis using log_writes_prefix(1) [where D = D and V = V, OF h True len n0] tl by (simp add: cw ll)
  next
    case False
    then obtain m where j: "j = ?n + Suc m" by (metis add_Suc_right less_imp_Suc_add not_le)
    then have "take j (commit_writes st bs blks (D st) V)
      = log_writes st bs V ?n @ (st, ?h) # take m (recover_writes st blks ?h V)" by (simp add: cw ll)
    then show ?thesis
      using recover_prefix(1) [where j = m and blks = blks, OF C(1)] False by (simp add: apply_writes_append)
  qed
qed

section \<open>Crash safety\<close>

text \<open>
  The machine after a boot: nothing is cached, the superblock has told the log's place, and the disk
  is what the crash left. A sequence of boots that each crash during recovery, after any number of
  its writes, takes one disk to another.
\<close>

definition booted :: "u32 \<Rightarrow> u32 \<Rightarrow> (u32 \<Rightarrow> u8 list) \<Rightarrow> logstate \<Rightarrow> bool" where
  "booted st sz D r \<longleftrightarrow> (\<exists>xs. cache_ok xs {} r) \<and> dirty r = {} \<and> log_dev r = 1 \<and> log_start r = st
     \<and> disksize r = sz \<and> length (lh_block r) = 30 \<and> disk r = D"

inductive interrupted_boots :: "u32 \<Rightarrow> u32 \<Rightarrow> (u32 \<Rightarrow> u8 list) \<Rightarrow> (u32 \<Rightarrow> u8 list) \<Rightarrow> bool" for st sz D where
  none: "interrupted_boots st sz D D"
| again: "interrupted_boots st sz D E \<Longrightarrow> booted st sz E r \<Longrightarrow> recover_from_log r = Done () t
    \<Longrightarrow> disk_trace t = disk_trace r @ W \<Longrightarrow> interrupted_boots st sz D (apply_writes (take j W) E)"

lemma booted_recovers:
  assumes b: "booted st sz D r" and rec: "recoverable st sz D F"
  shows "\<exists>t blks. recover_from_log r = Done () t \<and> view t = disk t \<and> (\<forall>b. \<not> in_log st b \<longrightarrow> disk t b = F b)
    \<and> disk_trace t = disk_trace r @ recover_writes st blks (D st) F"
proof -
  obtain xs where r: "cache_ok xs {} r" "dirty r = {}" "log_dev r = 1" "length (lh_block r) = 30"
    and f: "log_start r = st" "disksize r = sz" "disk r = D"
    using b by (auto simp: booted_def)
  from recover_spec [OF r rec [folded f]] f obtain t ys blks where t: "recover_from_log r = Done () t" "cache_ok ys {} t"
    "dirty t = {}" "disk_trace t = disk_trace r @ recover_writes st blks (D st) F"
    "disk t = apply_writes (recover_writes st blks (D st) F) D"
    by blast
  have "view t = disk t" using dirty_disk [OF t(2)] t(3) by auto
  moreover have "disk t b = F b" if "\<not> in_log st b" for b using recover_prefix(2) [OF rec that] t(5) by simp
  ultimately show ?thesis using t(1,4) by blast
qed

lemma interrupted_recoverable:
  "interrupted_boots st sz D E \<Longrightarrow> recoverable st sz D F \<Longrightarrow> recoverable st sz E F"
proof (induction rule: interrupted_boots.induct)
  case (again E r t W j)
  have E: "recoverable st sz E F" using again.IH again.prems by blast
  from booted_recovers [OF again.hyps(2) E] again.hyps(3) obtain blks where
    "disk_trace t = disk_trace r @ recover_writes st blks (E st) F" by auto
  then have "W = recover_writes st blks (E st) F" using again.hyps(4) by simp
  then show ?case using recover_prefix(1) [OF E] by simp
qed simp

lemma commit_atomic:
  fixes s :: "'a logstate_scheme"
  assumes ok: "cache_ok xs {} s" and ready: "log_ready bs s" and D: "dirty s = set bs" and ne: "bs \<noteq> []"
    and len: "length (disk s (log_start s)) = BSIZE" and n0: "head_n (disk s (log_start s)) = 0"
  shows "\<exists>t W. commit s = Done () t \<and> disk_trace t = disk_trace s @ W \<and> disk t = apply_writes W (disk s) \<and> view t = disk t
    \<and> (\<forall>j E r. interrupted_boots (log_start s) (disksize s) (apply_writes (take j W) (disk s)) E
         \<longrightarrow> booted (log_start s) (disksize s) E r
         \<longrightarrow> (\<exists>u. recover_from_log r = Done () u \<and> view u = disk u
               \<and> (\<forall>b. \<not> in_log (log_start s) b \<longrightarrow> disk u b = (if j \<le> length bs then disk s b else view s b))))"
proof -
  let ?st = "log_start s" and ?sz = "disksize s"
  define W where "W = commit_writes ?st bs (lh_block s) (disk s ?st) (view s)"
  obtain t ys where t: "commit s = Done () t" "cache_ok ys {} t" "dirty t = {}" "disk_trace t = disk_trace s @ W"
    "disk t = apply_writes W (disk s)"
    using commit_spec [OF ok ready D ne] unfolding W_def by blast
  have blks: "length (lh_block s) = 30" "take (length bs) (lh_block s) = bs"
    and h: "homes_ok ?st ?sz bs" using ready by (auto simp: log_ready_def)
  have out: "disk s b = view s b" if "b \<notin> set bs" for b using dirty_disk [OF ok] D that by simp
  have rec: "recoverable ?st ?sz (apply_writes (take j W) (disk s)) (if j \<le> length bs then disk s else view s)" for j
    unfolding W_def by (rule commit_prefix [where D = "disk s" and V = "view s", OF h len n0 blks out])
  have "view t = disk t" using dirty_disk [OF t(2)] t(3) by auto
  moreover have "\<exists>u. recover_from_log r = Done () u \<and> view u = disk u
      \<and> (\<forall>b. \<not> in_log ?st b \<longrightarrow> disk u b = (if j \<le> length bs then disk s b else view s b))"
    if "interrupted_boots ?st ?sz (apply_writes (take j W) (disk s)) E" "booted ?st ?sz E r" for j E r
    using booted_recovers [OF that(2) interrupted_recoverable [OF that(1) rec]] by (cases "j \<le> length bs") auto
  ultimately show ?thesis using t by blast
qed

text \<open>A machine that has booted, and one that is about to commit block 40 with new contents.\<close>

definition ring_bufs :: "buf list" where
  "ring_bufs = map (\<lambda>i. blank_buf\<lparr>b_prev := (i + 30) mod 31, b_next := (i + 1) mod 31\<rparr>) [0..<31]"

definition fresh_boot :: logstate where
  "fresh_boot =
     \<lparr>mem = \<lambda>_. 0, sym_end = 0x80110000, sym_data = 0x80108000,
      held = [], ptable = [blank_proc\<lparr>p_state := RUNNING, p_pid := 1\<rparr>], initproc = None, nextpid = 2, cpu = 0,
      cpu_proc = \<lambda>_. Some 0, ticks = 0, cons_locking = False, console = [], kmem_use_lock = True, kmem_freelist = 0,
      kpgdir = 0, cr3 = 0, gdt = \<lambda>_ _. SEG 0 0 0 0, ts = \<lambda>_. zero_ts, ts_addr = \<lambda>_. 0, gdtr = \<lambda>_. None,
      tr = \<lambda>_. 0, bufs = ring_bufs, disk = \<lambda>_. replicate 512 0, disksize = 1000, disk_trace = [],
      log_start = 2, log_size = 30, log_outstanding = 0, log_committing = False, log_dev = 1, lh_n = 0,
      lh_block = replicate 30 0\<rparr>"

definition one_txn :: logstate where
  "one_txn = fresh_boot
     \<lparr>bufs := ring_bufs[0 := (ring_bufs ! 0)\<lparr>b_flags := 6, b_dev := 1, b_blockno := 40, b_data := replicate 512 7\<rparr>],
      log_committing := True, lh_n := 1, lh_block := 40 # replicate 29 0\<rparr>"

lemma ring_bufs_nth: "i < 31 \<Longrightarrow> ring_bufs ! i = blank_buf\<lparr>b_prev := (i + 30) mod 31, b_next := (i + 1) mod 31\<rparr>"
  by (simp add: ring_bufs_def)

lemma one_txn_at:
  "i < 31 \<Longrightarrow> buf_at one_txn i = (if i = 0
     then (ring_bufs ! 0)\<lparr>b_flags := 6, b_dev := 1, b_blockno := 40, b_data := replicate 512 7\<rparr> else ring_bufs ! i)"
  by (simp add: one_txn_def buf_at_def ring_bufs_def del: upt_rec_numeral)

lemma one_txn_links:
  assumes "i < 31"
  shows "nexts one_txn i = (i + 1) mod 31" "prevs one_txn i = (i + 30) mod 31"
  using assms by (auto simp: nexts_def prevs_def one_txn_at ring_bufs_nth)

lemma linked_upt:
  assumes "\<And>i. i < n \<Longrightarrow> nx i = Suc i \<and> pv (Suc i) = i"
  shows "linked nx pv [0..<Suc n]"
  using assms
proof (induction n)
  case (Suc n)
  then have "linked nx pv ([0..<n] @ [n])" by simp
  then show ?case using Suc.prems [of n] linked_append [of nx pv "[0..<n]" n "[Suc n]"] by simp
qed simp

lemma one_txn_ring: "buf_ring [0..<30] one_txn"
proof -
  have "linked (nexts one_txn) (prevs one_txn) [0..<Suc 30]" by (rule linked_upt) (simp add: one_txn_links)
  moreover have "nexts one_txn 30 = 0" "prevs one_txn 0 = 30" by (simp_all add: one_txn_links)
  ultimately have "linked (nexts one_txn) (prevs one_txn) (30 # [0..<30] @ [30])"
    using upt_conv_Cons [of 0 30] upt_Suc_append [of 0 30] by (simp del: upt_rec_numeral)
  then show ?thesis by (auto simp: buf_ring_def one_txn_def ring_bufs_def)
qed

lemma one_txn_ok: "cache_ok [0..<30] {} one_txn"
proof -
  have "one_copy [0..<30] one_txn" unfolding one_copy_def by (auto simp: one_txn_at ring_bufs_nth blank_buf_def)
  moreover have "buf_ok one_txn {} i" if "i < 30" for i
    using that by (simp add: buf_ok_def Let_def one_txn_at ring_bufs_nth blank_buf_def) (simp add: one_txn_def fresh_boot_def)
  moreover have "thread_ok one_txn" by (simp add: thread_ok_def one_txn_def fresh_boot_def myproc_def)
  ultimately show ?thesis using one_txn_ring by (auto simp: cache_ok_def)
qed

lemma one_txn_dirty: "dirty one_txn = set [40]"
proof
  show "dirty one_txn \<subseteq> set [40]"
    by (auto simp: dirty_def one_txn_at ring_bufs_nth blank_buf_def split: if_splits)
  show "set [40] \<subseteq> dirty one_txn" by (auto simp: dirty_def one_txn_at intro!: exI [of _ 0])
qed

text \<open>
  C1: Crash safety of \<open>commit\<close>. The commit of a transaction on clean on-disk log returns, and its disk
  writes \<open>W\<close> come in an order such that, whatever number \<open>j\<close> of them reached the disk before a
  crash, and however many of the following boots crashed during recovery in turn, the next
  \<open>recover_from_log\<close> that runs to its end restores every block outside the log: all of them to their
  contents before the transaction when the header had not been written yet, and all of them to
  their new contents otherwise.
\<close>

theorem commit_crash_safe:
  fixes s :: "'a logstate_scheme"
  assumes "cache_ok xs {} s" and "log_ready bs s" and "dirty s = set bs" and "bs \<noteq> []"
    and "length (disk s (log_start s)) = BSIZE" and "head_n (disk s (log_start s)) = 0"
  shows "\<exists>t W. commit s = Done () t \<and> disk_trace t = disk_trace s @ W \<and> disk t = apply_writes W (disk s) \<and> view t = disk t
    \<and> (\<forall>j E r. interrupted_boots (log_start s) (disksize s) (apply_writes (take j W) (disk s)) E
         \<longrightarrow> booted (log_start s) (disksize s) E r
         \<longrightarrow> (\<exists>u. recover_from_log r = Done () u \<and> view u = disk u
               \<and> (\<forall>b. \<not> in_log (log_start s) b \<longrightarrow> disk u b = (if j \<le> length bs then disk s b else view s b))))"
  by (rule commit_atomic [OF assms])

theorem commit_crash_safe_witness:
  "\<exists>t W. commit one_txn = Done () t \<and> disk_trace t = disk_trace one_txn @ W \<and> disk t = apply_writes W (disk one_txn)
    \<and> view t = disk t
    \<and> (\<forall>j E r. interrupted_boots 2 1000 (apply_writes (take j W) (disk one_txn)) E \<longrightarrow> booted 2 1000 E r
         \<longrightarrow> (\<exists>u. recover_from_log r = Done () u \<and> view u = disk u
               \<and> (\<forall>b. \<not> in_log 2 b \<longrightarrow> disk u b = (if j \<le> 1 then disk one_txn b else view one_txn b))))"
proof -
  have f: "log_start one_txn = 2" "disksize one_txn = 1000" "disk one_txn = (\<lambda>_. replicate 512 0)"
    by (simp_all add: one_txn_def fresh_boot_def)
  have ready: "log_ready [40] one_txn"
    by (simp add: log_ready_def one_txn_def fresh_boot_def homes_ok_def in_log_def word_less_nat_alt)
  have "head_n (replicate 512 0) = 0" by (simp add: head_n_def word_at_def le32_def numeral_eq_Suc)
  then show ?thesis
    using commit_crash_safe [OF one_txn_ok ready one_txn_dirty] unfolding f by simp
qed

end
