(* ===== verification/Transactions.thy ===== *)
theory Transactions
  imports LogCrash
begin

unbundle bit_operations_syntax

text \<open>
  Transactions on the block store. \<open>log_write\<close> adds a block to the running transaction and pins it;
  between \<open>begin_op\<close> and \<open>end_op\<close> the blocks of the transaction are exactly the dirty ones, which is
  what \<open>commit\<close> needs. Reading a block and replacing a block by way of the log are described once
  for the whole of fs.c.
\<close>

section \<open>What a transaction may change\<close>

definition only_log :: "'a logstate_scheme \<Rightarrow> 'a logstate_scheme \<Rightarrow> bool" where
  "only_log s t \<longleftrightarrow> (\<exists>B D T P N L. t = s\<lparr>bufs := B, disk := D, disk_trace := T, ptable := P, lh_n := N, lh_block := L\<rparr>)"

lemma only_log_refl [simp]: "only_log s s"
proof -
  have "s = s\<lparr>bufs := bufs s, disk := disk s, disk_trace := disk_trace s, ptable := ptable s, lh_n := lh_n s,
    lh_block := lh_block s\<rparr>" by simp
  then show ?thesis unfolding only_log_def by blast
qed

lemma only_log_trans: "only_log s t \<Longrightarrow> only_log t u \<Longrightarrow> only_log s u"
  unfolding only_log_def by (elim exE, simp) blast

lemma only_blocks_only_log:
  fixes s :: "'a logstate_scheme"
  assumes "only_blocks s t"
  shows "only_log s t"
proof -
  obtain B D T P where t: "t = s\<lparr>bufs := B, disk := D, disk_trace := T, ptable := P\<rparr>"
    using assms by (auto simp: only_blocks_def)
  then have "t = s\<lparr>bufs := B, disk := D, disk_trace := T, ptable := P, lh_n := lh_n s, lh_block := lh_block s\<rparr>" by simp
  then show ?thesis unfolding only_log_def by blast
qed

lemma only_log_lh: "only_log s (s\<lparr>lh_block := L, lh_n := N\<rparr>)"
proof -
  have "s\<lparr>lh_block := L, lh_n := N\<rparr> = s\<lparr>bufs := bufs s, disk := disk s, disk_trace := disk_trace s, ptable := ptable s,
    lh_n := N, lh_block := L\<rparr>" by simp
  then show ?thesis unfolding only_log_def by blast
qed

lemma only_logD:
  assumes "only_log s t"
  shows "log_dev t = log_dev s" "log_start t = log_start s" "log_size t = log_size s"
    "log_outstanding t = log_outstanding s" "log_committing t = log_committing s"
    "disksize t = disksize s" "held t = held s" "myproc t = myproc s" "mem t = mem s"
  using assms by (auto simp: only_log_def myproc_def)

section \<open>log\_write\<close>

definition add_block :: "u32 \<Rightarrow> u32 list \<Rightarrow> u32 list" where
  "add_block b bs = (if b \<in> set bs then bs else bs @ [b])"

lemma set_add_block [simp]: "set (add_block b bs) = insert b (set bs)"
  by (auto simp: add_block_def)

lemma length_add_block: "length (add_block b bs) \<le> Suc (length bs)"
  by (simp add: add_block_def)

lemma takeWhile_other: "b \<notin> set bs \<Longrightarrow> takeWhile (\<lambda>x. x \<noteq> b) bs = bs"
  by (induction bs) auto

lemma takeWhile_index: "b \<in> set bs \<Longrightarrow> bs ! length (takeWhile (\<lambda>x. x \<noteq> b) bs) = b
    \<and> length (takeWhile (\<lambda>x. x \<noteq> b) bs) < length bs"
  by (induction bs) auto

text \<open>What the running transaction guarantees between the calls of the file system.\<close>

definition txn :: "u32 list \<Rightarrow> 'a logstate_scheme \<Rightarrow> bool" where
  "txn bs s \<longleftrightarrow> log_ready bs s \<and> dirty s = set bs \<and> log_outstanding s \<ge> 1 \<and> LkLog \<notin> set (held s) \<and> log_size s = 30"

lemma txnD:
  assumes "txn bs s"
  shows "log_ready bs s" "dirty s = set bs" "log_outstanding s \<ge> 1" "LkLog \<notin> set (held s)" "log_size s = 30"
    "lh_n s = int (length bs)" "log_dev s = 1"
  using assms log_readyD [of bs s] by (auto simp: txn_def)

lemma log_index_eq:
  assumes r: "log_ready bs s"
  shows "log_index bn s = length (takeWhile (\<lambda>x. x \<noteq> bn) bs)"
  using r by (simp add: log_index_def log_ready_def)

lemma log_write_eq:
  assumes r: "log_ready bs s" and n: "length bs < 29" and sz: "log_size s = 30" and o: "log_outstanding s \<ge> 1"
    and l: "LkLog \<notin> set (held s)"
  shows "\<exists>L. log_write b s = Done () (upd_buf b (\<lambda>x. x\<lparr>b_flags := b_flags x OR B_DIRTY\<rparr>)
        (s\<lparr>lh_block := L, lh_n := int (length (add_block (b_blockno (buf_at s b)) bs))\<rparr>))
    \<and> length L = 30 \<and> take (length (add_block (b_blockno (buf_at s b)) bs)) L = add_block (b_blockno (buf_at s b)) bs"
proof -
  let ?bn = "b_blockno (buf_at s b)" and ?f = "\<lambda>x. x\<lparr>b_flags := b_flags x OR B_DIRTY\<rparr>"
  let ?i = "log_index ?bn s"
  define L where "L = (lh_block s)[?i := ?bn]"
  note i = log_index_eq [OF r, of ?bn]
  have rd: "lh_n s = int (length bs)" "length (lh_block s) = 30" "take (length bs) (lh_block s) = bs"
    using r by (auto simp: log_ready_def)
  have g: "\<not> (lh_n s \<ge> LOGSIZE \<or> lh_n s \<ge> log_size s - 1)" "\<not> log_outstanding s < 1" using rd n sz o by auto
  have k: "releaseK LkLog (upd_buf b ?f (s\<lparr>held := LkLog # held s, lh_block := L, lh_n := N\<rparr>))
      = Done () (upd_buf b ?f (s\<lparr>lh_block := L, lh_n := N\<rparr>))" for N
    by (simp add: releaseK_def upd_buf_def)
  have idx: "log_index ?bn (s\<lparr>held := LkLog # held s\<rparr>) = ?i" "buf_at (s\<lparr>held := LkLog # held s\<rparr>) b = buf_at s b"
    by (simp_all add: log_index_def buf_at_def)
  show ?thesis
  proof (cases "?bn \<in> set bs")
    case True
    then have ab: "add_block ?bn bs = bs" by (simp add: add_block_def)
    have "?i < length bs" using takeWhile_index [OF True] i by simp
    then have "int ?i \<noteq> lh_n s" using rd(1) by simp
    then have w: "log_write b s = Done () (upd_buf b ?f (s\<lparr>lh_block := L, lh_n := lh_n s\<rparr>))"
      using g l k [of "lh_n s"] idx by (simp add: log_write_def acquireK_def Let_def L_def)
    have "take (length bs) L = (take (length bs) (lh_block s))[?i := ?bn]" by (simp add: L_def take_update_swap)
    also have "\<dots> = bs" using rd(3) takeWhile_index [OF True] i by (simp add: list_update_same_conv)
    finally show ?thesis unfolding ab using w rd by (intro exI [of _ L]) (simp add: L_def)
  next
    case False
    then have ab: "add_block ?bn bs = bs @ [?bn]" by (simp add: add_block_def)
    have il: "?i = length bs" using i by (simp only: takeWhile_other [OF False])
    then have w: "log_write b s = Done () (upd_buf b ?f (s\<lparr>lh_block := L, lh_n := lh_n s + 1\<rparr>))"
      using g l k [of "lh_n s + 1"] idx rd(1) by (simp add: log_write_def acquireK_def Let_def L_def)
    have "take (Suc (length bs)) L = take (length bs) L @ [L ! length bs]"
      by (rule take_Suc_conv_app_nth) (use rd n in \<open>simp add: L_def\<close>)
    also have "\<dots> = bs @ [?bn]" using rd n il by (simp add: L_def)
    finally show ?thesis unfolding ab using w rd by (intro exI [of _ L]) (simp add: L_def add.commute)
  qed
qed

lemma mark_dirty_spec:
  assumes ok: "cache_ok xs H s" and b: "b \<in> H" and bn: "b_blockno (buf_at s b) = bn"
  defines "t \<equiv> upd_buf b (\<lambda>x. x\<lparr>b_flags := b_flags x OR B_DIRTY\<rparr>) s"
  shows "cache_ok xs H t" "view t = view s" "dirty t = insert bn (dirty s)"
    "buf_at t i = (if i = b then (buf_at s b)\<lparr>b_flags := 6\<rparr> else buf_at s i)"
proof -
  note h = hold_lock [OF ok b]
  have nz: "b_flags (buf_at s b) \<noteq> 0" by (rule cache_okD(6) [OF ok b])
  have okb: "buf_ok s H b" by (rule cache_okD(5) [OF ok h(1)])
  have six: "b_flags (buf_at s b) OR B_DIRTY = 6"
    using okb nz by (auto simp: buf_ok_def Let_def)
  show at: "buf_at t i = (if i = b then (buf_at s b)\<lparr>b_flags := 6\<rparr> else buf_at s i)" for i
    unfolding t_def buf_at_upd_buf [OF h(4)] six by simp
  have dn: "disk t = disk s" "disksize t = disksize s" by (simp_all add: t_def upd_buf_def)
  show ok': "cache_ok xs H t"
    unfolding t_def
  proof (rule cache_ok_upd_buf [OF ok h(1)], unfold t_def [symmetric])
    show "buf_ok t H b" using okb b nz dn by (simp add: buf_ok_def Let_def at)
    show "b_dev ((buf_at s b)\<lparr>b_flags := b_flags (buf_at s b) OR B_DIRTY\<rparr>) = 0
        \<or> b_dev (buf_at s i) \<noteq> b_dev ((buf_at s b)\<lparr>b_flags := b_flags (buf_at s b) OR B_DIRTY\<rparr>)
        \<or> b_blockno (buf_at s i) \<noteq> b_blockno ((buf_at s b)\<lparr>b_flags := b_flags (buf_at s b) OR B_DIRTY\<rparr>)"
      if "i < NBUF" "i \<noteq> b" for i
      using cache_distinct [OF ok that(1) h(1) that(2)] by simp
  qed (use six in simp_all)
  show "view t = view s"
  proof
    fix c
    show "view t c = view s c"
      unfolding t_def view_upd_buf [OF ok ok' [unfolded t_def] h(1)] six
      using nz view_cached [OF ok h(1) nz] by (cases "c = b_blockno (buf_at s b)") simp_all
  qed
  show "dirty t = insert bn (dirty s)"
    using h(1) bn unfolding dirty_def at by (auto split: if_splits)
qed

text \<open>
  \<open>log_write\<close> on a buffer that the caller holds: the block is part of the transaction afterwards, and
  nothing else changes. A block that is already in the transaction is not recorded twice.
\<close>

lemma log_write_spec:
  fixes s :: "'a logstate_scheme"
  assumes ok: "cache_ok xs H s" and t: "txn bs s" and b: "b \<in> H" and bn: "b_blockno (buf_at s b) = bn"
    and lt: "bn < disksize s" and out: "\<not> in_log (log_start s) bn" and n: "length bs < 29"
  obtains t where "log_write b s = Done () t" "cache_ok xs H t" "txn (add_block bn bs) t" "view t = view s"
    "disk t = disk s" "disk_trace t = disk_trace s" "only_log s t" "b_flags (buf_at t b) = 6"
    "\<forall>i. i \<noteq> b \<longrightarrow> buf_at t i = buf_at s i" "b_blockno (buf_at t b) = bn"
proof -
  let ?bs = "add_block bn bs" and ?f = "\<lambda>x. x\<lparr>b_flags := b_flags x OR B_DIRTY\<rparr>"
  note T = txnD [OF t]
  obtain L where L: "log_write b s = Done () (upd_buf b ?f (s\<lparr>lh_block := L, lh_n := int (length ?bs)\<rparr>))"
    "length L = 30" "take (length ?bs) L = ?bs"
    using log_write_eq [OF T(1) n T(5,3,4), of b] unfolding bn by blast
  define u where "u = s\<lparr>lh_block := L, lh_n := int (length ?bs)\<rparr>"
  define t where "t = upd_buf b ?f u"
  have u: "cache_ok xs H u" "view u = view s" "dirty u = dirty s" "buf_at u = buf_at s"
    using ok by (simp_all add: u_def) (simp add: buf_at_def fun_eq_iff)
  have bu: "b_blockno (buf_at u b) = bn" using u(4) bn by simp
  note M = mark_dirty_spec [OF u(1) b bu, folded t_def]
  have homes: "homes_ok (log_start s) (disksize s) ?bs"
    using log_readyD(5) [OF T(1)] lt out n by (auto simp: homes_ok_def add_block_def)
  have r: "log_ready ?bs t" "log_outstanding t \<ge> 1" "LkLog \<notin> set (held t)" "log_size t = 30"
    using homes L(2,3) T by (simp_all add: log_ready_def t_def u_def upd_buf_def)
  have "txn ?bs t" using r M(3) u(3) T(2) by (simp add: txn_def)
  moreover have "only_log s t"
    using only_log_trans [OF only_log_lh only_blocks_only_log [OF only_blocks_upd_buf]] unfolding t_def u_def .
  moreover have "disk t = disk s" "disk_trace t = disk_trace s" by (simp_all add: t_def u_def upd_buf_def)
  ultimately show thesis
    using that [of t] L(1) M u bn by (simp add: t_def [symmetric] u_def [symmetric])
qed

section \<open>Reading and replacing a block\<close>

text \<open>
  A process in a transaction that holds the buffers \<open>H\<close>. Every access of fs.c to a block is \<open>bread\<close>
  (\<open>grab_block\<close>), then either \<open>brelse\<close> (\<open>drop_block\<close>) or new data, \<open>log_write\<close> and \<open>brelse\<close>
  (\<open>save_block\<close>).
\<close>

definition in_txn :: "nat set \<Rightarrow> u32 list \<Rightarrow> 'a logstate_scheme \<Rightarrow> bool" where
  "in_txn H bs s \<longleftrightarrow> (\<exists>xs. cache_ok xs H s) \<and> txn bs s"

definition keeps :: "nat set \<Rightarrow> 'a bstate_scheme \<Rightarrow> 'a bstate_scheme \<Rightarrow> bool" where
  "keeps H s t \<longleftrightarrow> (\<forall>i \<in> H. payload (buf_at t i) = payload (buf_at s i))"

lemma keeps_trans: "keeps H s t \<Longrightarrow> keeps H t u \<Longrightarrow> keeps H s u"
  by (simp add: keeps_def)

lemma keeps_empty [simp]: "keeps {} s t"
  by (simp add: keeps_def)

lemma keeps_holds: "keeps H s t \<Longrightarrow> b \<in> H \<Longrightarrow> holds t b bn = holds s b bn \<and> b_data (buf_at t b) = b_data (buf_at s b)"
  using payloadD [of "buf_at t b" "buf_at s b"] by (simp add: keeps_def holds_def)

lemma txn_only_blocks: "only_blocks s t \<Longrightarrow> dirty t = dirty s \<Longrightarrow> txn bs t = txn bs s"
  using only_blocks_log [of s t] only_blocksD [of s t] log_ready_only [of s t] by (simp add: txn_def)

lemma txn_distinct: "txn bs s \<Longrightarrow> card (dirty s) = length bs"
  using log_readyD(5) [OF txnD(1), of bs s] txnD(2) [of bs s] by (simp add: homes_ok_def distinct_card)

lemma grab_block:
  fixes s :: "'a logstate_scheme"
  assumes t: "in_txn H bs s" and lt: "bn < disksize s" and out: "\<And>i. i \<in> H \<Longrightarrow> \<not> holds s i bn"
    and room: "card H + length bs < NBUF"
  obtains b u where "bread 1 bn s = Done b u" "in_txn (insert b H) bs u" "b \<notin> H" "holds u b bn"
    "b_data (buf_at u b) = view s bn" "view u = view s" "disk u = disk s" "only_log s u" "keeps H s u"
    "bn \<notin> set bs \<longrightarrow> view s bn = disk s bn"
proof -
  obtain xs where ok: "cache_ok xs H s" and tx: "txn bs s" using t by (auto simp: in_txn_def)
  obtain b u where u: "bread 1 bn s = Done b u" "cache_ok xs (insert b H) u" "b \<notin> H" "holds u b bn"
    "b_data (buf_at u b) = view s bn" "view u = view s" "disk u = disk s"
    "\<And>i. i \<noteq> b \<Longrightarrow> buf_at u i = buf_at s i" "dirty u = dirty s" "only_blocks s u"
    by (rule bread_spec [OF ok lt out]) (use spare_room [OF ok] room txn_distinct [OF tx] in auto)
  have "in_txn (insert b H) bs u" using u(2) txn_only_blocks [OF u(10,9)] tx by (auto simp: in_txn_def)
  moreover have "keeps H s u"
  proof (unfold keeps_def, rule ballI)
    fix i assume "i \<in> H"
    with u(3) have "i \<noteq> b" by auto
    then show "payload (buf_at u i) = payload (buf_at s i)" using u(8) by simp
  qed
  moreover have "view s bn = disk s bn" if "bn \<notin> set bs"
  proof (rule view_disk [OF ok], rule conjI)
    fix i assume i: "i < NBUF" "b_blockno (buf_at s i) = bn"
    show "b_flags (buf_at s i) \<noteq> 6" using i that txnD(2) [OF tx] by (auto simp: dirty_def)
    show "i \<notin> H" using out [of i] i cache_okD(6) [OF ok, of i] by (auto simp: holds_def)
  qed
  ultimately show thesis using that [OF u(1) _ u(3-7) only_blocks_only_log [OF u(10)]] by blast
qed

lemma drop_block:
  fixes s :: "'a logstate_scheme"
  assumes t: "in_txn (insert b H) bs s" and b: "b \<notin> H" and h: "holds s b bn"
    and safe: "bn \<in> set bs \<or> b_data (buf_at s b) = disk s bn"
  shows "\<exists>t. brelse b s = Done () t \<and> in_txn H bs t \<and> view t = view s \<and> disk t = disk s \<and> only_log s t \<and> keeps H s t"
proof -
  obtain xs where ok: "cache_ok xs (insert b H) s" and tx: "txn bs s" using t by (auto simp: in_txn_def)
  have safe': "b_flags (buf_at s b) = 6 \<or> b_data (buf_at s b) = disk s (b_blockno (buf_at s b))"
    using safe dirty_iff [OF ok h] txnD(2) [OF tx] h by (auto simp: holds_def)
  obtain t ys where t: "brelse b s = Done () t" "cache_ok ys (insert b H - {b}) t" "view t = view s" "disk t = disk s"
    "disk_trace t = disk_trace s" "dirty t = dirty s" "only_blocks s t"
    "\<And>i. i \<noteq> b \<Longrightarrow> payload (buf_at t i) = payload (buf_at s i)" "b_flags (buf_at t b) = b_flags (buf_at s b)"
    by (rule brelse_spec [OF ok insertI1 safe']) auto
  have "keeps H s t"
  proof (unfold keeps_def, rule ballI)
    fix i assume "i \<in> H"
    with b have "i \<noteq> b" by auto
    then show "payload (buf_at t i) = payload (buf_at s i)" by (rule t(8))
  qed
  moreover have "in_txn H bs t"
    using t(2) b txn_only_blocks [OF t(7,6)] tx by (auto simp: in_txn_def)
  ultimately show ?thesis using t(1,3,4) only_blocks_only_log [OF t(7)] by blast
qed

lemma save_block:
  fixes s :: "'a logstate_scheme"
  assumes t: "in_txn (insert b H) bs s" and b: "b \<notin> H" and h: "holds s b bn"
    and lt: "bn < disksize s" and out: "\<not> in_log (log_start s) bn" and n: "length bs < 29"
  shows "\<exists>v t. log_write b (upd_buf b (\<lambda>x. x\<lparr>b_data := g x\<rparr>) s) = Done () v \<and> brelse b v = Done () t
    \<and> in_txn H (add_block bn bs) t \<and> view t = (view s)(bn := g (buf_at s b)) \<and> disk t = disk s \<and> only_log s t
    \<and> keeps H s t"
proof -
  obtain xs where ok: "cache_ok xs (insert b H) s" and tx: "txn bs s" using t by (auto simp: in_txn_def)
  have bs: "b \<in> insert b H" "b_blockno (buf_at s b) = bn" using h by (simp_all add: holds_def)
  define u where "u = upd_buf b (\<lambda>x. x\<lparr>b_data := g x\<rparr>) s"
  note U = set_data_spec [OF ok bs, of g, folded u_def]
  have o1: "only_blocks s u" by (simp add: u_def)
  have tu: "txn bs u" using txn_only_blocks [OF o1 U(3)] tx by simp
  have bu: "b_blockno (buf_at u b) = bn" using U(4) [of b] bs by simp
  have lu: "bn < disksize u" "\<not> in_log (log_start u) bn"
    using lt out only_blocksD(2) [OF o1] only_blocks_log(2) [OF o1] by simp_all
  obtain v where v: "log_write b u = Done () v" "cache_ok xs (insert b H) v" "txn (add_block bn bs) v" "view v = view u"
    "disk v = disk u" "only_log u v" "b_flags (buf_at v b) = 6" "\<forall>i. i \<noteq> b \<longrightarrow> buf_at v i = buf_at u i"
    "b_blockno (buf_at v b) = bn"
    by (rule log_write_spec [OF U(1) tu bs(1) bu lu n])
  have hv: "holds v b bn"
    using v(7,9) hold_lock(1) [OF v(2)] by (simp add: holds_def)
  obtain t where t: "brelse b v = Done () t" "in_txn H (add_block bn bs) t" "view t = view v" "disk t = disk v"
    "only_log v t" "keeps H v t"
    using drop_block [of b H "add_block bn bs" v bn] v(2,3) b hv by (auto simp: in_txn_def)
  have "keeps H s v"
  proof (unfold keeps_def, rule ballI)
    fix i assume "i \<in> H"
    with b have "i \<noteq> b" by auto
    then show "payload (buf_at v i) = payload (buf_at s i)" using v(8) U(4) [of i] by simp
  qed
  then have "keeps H s t" by (rule keeps_trans [OF _ t(6)])
  moreover have "only_log s t"
    by (rule only_log_trans [OF only_log_trans [OF only_blocks_only_log [OF o1] v(6)] t(5)])
  moreover have "disk u = disk s" by (simp add: u_def upd_buf_def)
  ultimately show ?thesis
    using v t U(2) by (intro exI [of _ v] exI [of _ t]) (simp add: u_def [symmetric])
qed

section \<open>The end of an operation\<close>

lemma log_flags_frame [simp]:
  fixes s :: "'a logstate_scheme"
  shows "cache_ok xs {} (s\<lparr>log_outstanding := n\<rparr>) = cache_ok xs {} s" "view (s\<lparr>log_outstanding := n\<rparr>) = view s"
    "dirty (s\<lparr>log_outstanding := n\<rparr>) = dirty s"
    "cache_ok xs {} (s\<lparr>log_committing := c\<rparr>) = cache_ok xs {} s" "view (s\<lparr>log_committing := c\<rparr>) = view s"
    "dirty (s\<lparr>log_committing := c\<rparr>) = dirty s"
  by (rule store_cong; simp add: myproc_def)+

text \<open>
  The last operation to end commits. Its changes are on disk then, the log is empty and open for
  the next operation, and those that wait for it have been woken up.
\<close>

lemma end_op_spec:
  fixes s :: "'a logstate_scheme"
  assumes ok: "cache_ok xs {} s" and t: "txn bs s" and ne: "bs \<noteq> []" and one: "log_outstanding s = 1"
    and nc: "\<not> log_committing s"
  shows "\<exists>t ys. end_op s = Done () t \<and> cache_ok ys {} t \<and> dirty t = {} \<and> lh_n t = 0 \<and> log_outstanding t = 0
    \<and> \<not> log_committing t \<and> view t = disk t \<and> held t = held s
    \<and> disk t = apply_writes (commit_writes (log_start s) bs (lh_block s) (disk s (log_start s)) (view s)) (disk s)"
proof -
  note T = txnD [OF t]
  define u where "u = s\<lparr>log_outstanding := 0, log_committing := True\<rparr>"
  have u: "cache_ok xs {} u" "view u = view s" "dirty u = set bs" "disk u = disk s" using ok T(2) by (simp_all add: u_def)
  have r: "log_ready bs u" using T(1) by (simp add: log_ready_def u_def)
  obtain v ys where v: "commit u = Done () v" "cache_ok ys {} v" "dirty v = {}" "only_blocks (u\<lparr>lh_n := 0\<rparr>) v"
    "disk v = apply_writes (commit_writes (log_start s) bs (lh_block s) (disk s (log_start s)) (view s)) (disk s)"
    using commit_spec [OF u(1) r u(3) ne] u by (auto simp: u_def)
  have f: "log_outstanding v = 0" "held v = held s" "lh_n v = 0"
    using only_blocks_log [OF v(4)] only_blocksD(3) [OF v(4)] by (simp_all add: u_def)
  define w where "w = wakeup1 ChLog (v\<lparr>log_committing := False\<rparr>)"
  have lk: "LkLog \<notin> set (held s)" "LkPtable \<notin> set (held s)"
    using T(4) cache_okD(7) [OF ok] by (auto simp: thread_ok_def)
  have "end_op s = Done () w"
    using lk f v(1) one nc
    by (simp add: end_op_def kres_simps Let_def u_def w_def wakeup1_def)
  moreover have w: "bufs w = bufs v" "disk w = disk v" "disksize w = disksize v" "myproc w = myproc v" "held w = held v"
    by (simp_all add: w_def wakeup1_def myproc_def)
  moreover have "view v = disk v" using dirty_disk [OF v(2)] v(3) by auto
  moreover have "lh_n w = 0" "log_outstanding w = 0" "\<not> log_committing w" using v f by (simp_all add: w_def wakeup1_def)
  ultimately show ?thesis
    using v f store_cong [OF w] by (intro exI [of _ w] exI [of _ ys]) simp
qed

lemma commit_writes_result:
  assumes h: "homes_ok st sz bs" and out: "b \<notin> set bs \<Longrightarrow> D b = V b" and b: "\<not> in_log st b"
  shows "apply_writes (commit_writes st bs blks h0 V) D b = V b"
proof -
  have ne: "b \<noteq> st" using b by (auto simp: in_log_def)
  show ?thesis
  proof (cases "b \<in> set bs")
    case True
    then show ?thesis using ne apply_writes_all [OF True] by (simp add: commit_writes_def Let_def apply_writes_append)
  next
    case False
    then have "b \<notin> fst ` set (map (\<lambda>b. (b, V b)) bs)" by auto
    from apply_writes_other [OF this] show ?thesis
      using ne log_writes_keys [OF h order_refl b] out [OF False]
      by (simp add: commit_writes_def Let_def apply_writes_append)
  qed
qed

section \<open>Properties\<close>

text \<open>
  C10: Within an operation, \<open>log_write\<close> on a buffer that the process holds makes its block one of the
  blocks of the transaction, once, and pins it in the cache, so that the blocks of the transaction
  are again exactly the dirty ones, as \<open>commit\<close> requires; the contents seen by the file system, the
  disk and the rest of the state stay.
\<close>

theorem log_write_records:
  fixes s :: "'a logstate_scheme"
  assumes "cache_ok xs H s" and "txn bs s" and "b \<in> H" and "b_blockno (buf_at s b) < disksize s"
    and "\<not> in_log (log_start s) (b_blockno (buf_at s b))" and "length bs < 29"
  shows "\<exists>t. log_write b s = Done () t \<and> cache_ok xs H t \<and> txn (add_block (b_blockno (buf_at s b)) bs) t
    \<and> view t = view s \<and> disk t = disk s \<and> disk_trace t = disk_trace s \<and> only_log s t"
  by (rule log_write_spec [OF assms(1-3) refl assms(4-6)]) blast

text \<open>A process that holds buffer 0 with block 40 during its first operation.\<close>

definition in_op :: logstate where
  "in_op = one_txn\<lparr>log_committing := False, log_outstanding := 1, lh_n := 0,
     bufs := ring_bufs[0 := (ring_bufs ! 0)\<lparr>b_flags := 2, b_dev := 1, b_blockno := 40, b_data := replicate 512 7, b_refcnt := 1,
       b_lock := \<lparr>sl_locked = True, sl_pid = 1\<rparr>\<rparr>]\<rparr>"

lemma in_op_at:
  "i < 31 \<Longrightarrow> buf_at in_op i = (if i = 0
     then (ring_bufs ! 0)\<lparr>b_flags := 2, b_dev := 1, b_blockno := 40, b_data := replicate 512 7, b_refcnt := 1,
       b_lock := \<lparr>sl_locked = True, sl_pid = 1\<rparr>\<rparr> else ring_bufs ! i)"
  by (simp add: in_op_def buf_at_def ring_bufs_def del: upt_rec_numeral)

lemma in_op_ok: "cache_ok [0..<30] {0} in_op"
proof -
  have n: "nexts in_op i = nexts one_txn i" "prevs in_op i = prevs one_txn i" if "i < 31" for i
    using that by (auto simp: nexts_def prevs_def in_op_at one_txn_at)
  have "linked (nexts in_op) (prevs in_op) [0..<Suc 30]" by (rule linked_upt) (simp add: n one_txn_links)
  moreover have "nexts in_op 30 = 0" "prevs in_op 0 = 30" by (simp_all add: n one_txn_links)
  ultimately have "linked (nexts in_op) (prevs in_op) (30 # [0..<30] @ [30])"
    using upt_conv_Cons [of 0 30] upt_Suc_append [of 0 30] by (simp del: upt_rec_numeral)
  then have "buf_ring [0..<30] in_op" by (auto simp: buf_ring_def in_op_def ring_bufs_def)
  moreover have "one_copy [0..<30] in_op" unfolding one_copy_def by (auto simp: in_op_at ring_bufs_nth blank_buf_def)
  moreover have "buf_ok in_op {0} i" if "i < 30" for i
    using that by (auto simp: buf_ok_def Let_def in_op_at ring_bufs_nth blank_buf_def)
      (simp add: in_op_def one_txn_def fresh_boot_def)
  moreover have "thread_ok in_op" by (simp add: thread_ok_def in_op_def one_txn_def fresh_boot_def myproc_def)
  moreover have "b_flags (buf_at in_op 0) \<noteq> 0" by (simp add: in_op_at)
  ultimately show ?thesis by (auto simp: cache_ok_def)
qed

lemma in_op_txn: "txn [] in_op"
proof -
  have "dirty in_op = {}" by (auto simp: dirty_def in_op_at ring_bufs_nth blank_buf_def split: if_splits)
  then show ?thesis
    by (simp add: txn_def log_ready_def in_op_def one_txn_def fresh_boot_def homes_ok_def)
qed

theorem log_write_records_witness:
  "\<exists>t. log_write 0 in_op = Done () t \<and> cache_ok [0..<30] {0} t \<and> txn [40] t
    \<and> view t = view in_op \<and> disk t = disk in_op \<and> disk_trace t = disk_trace in_op \<and> only_log in_op t"
proof -
  have "b_blockno (buf_at in_op 0) = 40" "disksize in_op = 1000" "log_start in_op = 2"
    by (simp_all add: in_op_at) (simp_all add: in_op_def one_txn_def fresh_boot_def)
  then show ?thesis
    using log_write_records [OF in_op_ok in_op_txn, of 0] by (simp add: in_log_def add_block_def word_less_nat_alt)
qed

text \<open>
  C11: When the last running operation ends, \<open>end_op\<close> commits: afterwards every block outside the log
  is on disk as the file system saw it, nothing is dirty, the log is empty and admits new
  operations, and the locks are as before.
\<close>

theorem end_op_durable:
  fixes s :: "'a logstate_scheme"
  assumes "cache_ok xs {} s" and "txn bs s" and "bs \<noteq> []" and "log_outstanding s = 1" and "\<not> log_committing s"
  shows "\<exists>t ys. end_op s = Done () t \<and> cache_ok ys {} t \<and> dirty t = {} \<and> lh_n t = 0 \<and> log_outstanding t = 0
    \<and> \<not> log_committing t \<and> held t = held s \<and> (\<forall>b. \<not> in_log (log_start s) b \<longrightarrow> disk t b = view s b \<and> view t b = view s b)"
proof -
  obtain t ys where t: "end_op s = Done () t" "cache_ok ys {} t" "dirty t = {}" "lh_n t = 0" "log_outstanding t = 0"
    "\<not> log_committing t" "view t = disk t" "held t = held s"
    "disk t = apply_writes (commit_writes (log_start s) bs (lh_block s) (disk s (log_start s)) (view s)) (disk s)"
    using end_op_spec [OF assms] by blast
  have "disk t b = view s b" if "\<not> in_log (log_start s) b" for b
    unfolding t(9) using log_readyD(5) [OF txnD(1) [OF assms(2)]] dirty_disk [OF assms(1), of b] txnD(2) [OF assms(2)] that
    by (intro commit_writes_result) auto
  then show ?thesis using t by (intro exI [of _ t] exI [of _ ys]) simp
qed

theorem end_op_durable_witness:
  "\<exists>t ys. end_op (one_txn\<lparr>log_committing := False, log_outstanding := 1\<rparr>) = Done () t \<and> cache_ok ys {} t \<and> dirty t = {}
    \<and> lh_n t = 0 \<and> log_outstanding t = 0 \<and> \<not> log_committing t \<and> held t = []
    \<and> (\<forall>b. \<not> in_log 2 b \<longrightarrow> disk t b = view one_txn b \<and> view t b = view one_txn b)"
proof -
  have "txn [40] (one_txn\<lparr>log_committing := False, log_outstanding := 1\<rparr>)"
    using one_txn_dirty
    by (simp add: txn_def) (simp add: log_ready_def one_txn_def fresh_boot_def homes_ok_def in_log_def word_less_nat_alt)
  moreover have "held one_txn = []" "log_start one_txn = 2" by (simp_all add: one_txn_def fresh_boot_def)
  ultimately show ?thesis
    using end_op_durable [of "[0..<30]" "one_txn\<lparr>log_committing := False, log_outstanding := 1\<rparr>" "[40]"] one_txn_ok
    by (simp del: upt_rec_numeral)
qed



end
