(* ===== verification/FileSystem.thy ===== *)
theory FileSystem
  imports Transactions Fs
begin

unbundle bit_operations_syntax

text \<open>
  Files on the block store. Inside a transaction, the operations of fs.c are described by their
  effect on the contents of blocks: the bitmap says which blocks are in use, an inode's addresses
  and its indirect block say which block holds which part of its file. \<open>balloc\<close> hands out a block
  that nothing uses, \<open>bmap\<close> extends a file without changing its bytes, and \<open>writei\<close> and \<open>readi\<close>
  write and read these bytes.
\<close>

section \<open>Frames\<close>

lemma only_log_fs:
  fixes s t :: "'a fsstate_scheme"
  assumes "only_log s t"
  shows "icache t = icache s" "sb t = sb s"
  using assms by (auto simp: only_log_def)

lemma upd_inode_frame [simp]:
  "bufs (upd_inode i f s) = bufs s" "disk (upd_inode i f s) = disk s" "disksize (upd_inode i f s) = disksize s"
  "myproc (upd_inode i f s) = myproc s" "held (upd_inode i f s) = held s" "sb (upd_inode i f s) = sb s"
  "log_start (upd_inode i f s) = log_start s" "length (icache (upd_inode i f s)) = length (icache s)"
  "buf_at (upd_inode i f s) = buf_at s"
  by (simp_all add: upd_inode_def myproc_def fun_eq_iff buf_at_def)

lemma inode_at_upd [simp]:
  "i < length (icache s) \<Longrightarrow> inode_at (upd_inode i f s) j = (if j = i then f (inode_at s i) else inode_at s j)"
  by (auto simp: inode_at_def upd_inode_def)

lemma view_upd_inode [simp]: "view (upd_inode i f s) = view s"
  by (rule store_cong) simp_all

lemma in_txn_upd_inode [simp]: "in_txn H bs (upd_inode i f s) = in_txn H bs s"
proof -
  have "log_dev (upd_inode i f s) = log_dev s" "lh_n (upd_inode i f s) = lh_n s"
    "lh_block (upd_inode i f s) = lh_block s" "log_outstanding (upd_inode i f s) = log_outstanding s"
    "log_size (upd_inode i f s) = log_size s"
    by (simp_all add: upd_inode_def)
  then show ?thesis
    using store_cong [of "upd_inode i f s" s] by (simp add: in_txn_def txn_def log_ready_def)
qed

section \<open>Bitmaps\<close>

lemma bit_set_bit: "bit_set bs i = bit (bs ! (i div 8)) (i mod 8)"
proof -
  have "x AND push_bit n 1 \<noteq> 0 \<longleftrightarrow> bit x n" if "n < 8" for x :: u8 and n
    using and_exp_eq_0_iff_not_bit [of x n] by (simp add: push_bit_eq_mult)
  then show ?thesis by (simp add: bit_set_def bit_mask_def)
qed

lemma length_set_bit_in [simp]: "length (set_bit_in bs i) = length bs"
  by (simp add: set_bit_in_def)

lemma bit_set_set:
  assumes "i div 8 < length bs" "j div 8 < length bs"
  shows "bit_set (set_bit_in bs i) j \<longleftrightarrow> j = i \<or> bit_set bs j"
proof (cases "j div 8 = i div 8")
  case True
  have "j = i \<longleftrightarrow> j mod 8 = i mod 8" using True by (metis div_mult_mod_eq)
  moreover have "bit (bs ! (i div 8) OR bit_mask i) (j mod 8) \<longleftrightarrow> bit (bs ! (i div 8)) (j mod 8) \<or> j mod 8 = i mod 8"
    by (auto simp: bit_mask_def bit_simps)
  ultimately show ?thesis using assms True by (auto simp: bit_set_bit set_bit_in_def)
next
  case False
  then show ?thesis using assms by (auto simp: bit_set_bit set_bit_in_def)
qed

lemma balloc_scan_SomeD:
  assumes "balloc_scan bs n = Some i"
  shows "i < n" "\<not> bit_set bs i"
  using find_SomeD [of _ "[0..<n]" i] assms by (auto simp: balloc_scan_def)

lemma balloc_scan_finds:
  assumes "i < n" "\<not> bit_set bs i"
  shows "\<exists>j. balloc_scan bs n = Some j"
  using find_NoneD [of "\<lambda>bi. \<not> bit_set bs bi" "[0..<n]"] assms
  by (cases "balloc_scan bs n") (auto simp: balloc_scan_def)

section \<open>Layout\<close>

text \<open>
  The regions in the order of mkfs.c: log, inodes, bitmap, data. The bitmap is one block, as it is
  for a file system of \<open>FSSIZE\<close> blocks.
\<close>

definition geometry :: "'a fsstate_scheme \<Rightarrow> bool" where
  "geometry s \<longleftrightarrow> unat (log_start s) + 30 \<le> unat (sb_inodestart (sb s))
     \<and> unat (sb_inodestart (sb s)) + unat (sb_ninodes (sb s)) div 8 < unat (sb_bmapstart (sb s))
     \<and> unat (sb_bmapstart (sb s)) + 1 < unat (sb_size (sb s)) \<and> unat (sb_size (sb s)) \<le> 4096
     \<and> sb_size (sb s) \<le> disksize s"

lemma geometry_only: "only_log s t \<Longrightarrow> geometry t = geometry s"
  using only_log_fs [of s t] only_logD [of s t] by (simp add: geometry_def)

definition in_use :: "'a fsstate_scheme \<Rightarrow> u32 \<Rightarrow> bool" where
  "in_use s b = bit_set (view s (sb_bmapstart (sb s))) (unat b)"

text \<open>Blocks that can belong to a file.\<close>

definition data_block :: "'a fsstate_scheme \<Rightarrow> u32 \<Rightarrow> bool" where
  "data_block s b \<longleftrightarrow> b > sb_bmapstart (sb s) \<and> b < sb_size (sb s)"

definition fs_ok :: "'a fsstate_scheme \<Rightarrow> bool" where
  "fs_ok s \<longleftrightarrow> geometry s \<and> (\<forall>b. length (view s b) = BSIZE) \<and> (\<forall>b. b \<le> sb_bmapstart (sb s) \<longrightarrow> in_use s b)"

lemma fs_okD:
  assumes "fs_ok s"
  shows "geometry s" "length (view s b) = BSIZE" "b \<le> sb_bmapstart (sb s) \<Longrightarrow> in_use s b"
  using assms by (auto simp: fs_ok_def)

lemma data_blockD:
  assumes "geometry s" "data_block s b"
  shows "b < disksize s" "\<not> in_log (log_start s) b" "b \<noteq> sb_bmapstart (sb s)" "unat b < 4096" "b \<noteq> 0"
  using assms by (auto simp: geometry_def data_block_def in_log_def word_less_nat_alt word_le_nat_alt)

lemma bitmap_blockD:
  assumes "geometry s"
  shows "sb_bmapstart (sb s) < disksize s" "\<not> in_log (log_start s) (sb_bmapstart (sb s))"
  using assms by (auto simp: geometry_def in_log_def word_less_nat_alt word_le_nat_alt)

lemma BBLOCK_eq:
  assumes "unat b < 4096"
  shows "BBLOCK b x = sb_bmapstart x"
proof -
  have "unat (b div 4096) = 0" using assms by (simp add: unat_div)
  then have "b div 4096 = 0" by (simp only: unat_eq_0)
  then show ?thesis by (simp add: BBLOCK_def)
qed

lemma free_is_data:
  assumes "fs_ok s" "\<not> in_use s b" "unat b < unat (sb_size (sb s))"
  shows "data_block s b"
proof -
  have "\<not> b \<le> sb_bmapstart (sb s)" using fs_okD(3) [OF assms(1), of b] assms(2) by blast
  then show ?thesis using assms(3) by (simp add: data_block_def word_less_nat_alt word_le_nat_alt)
qed

section \<open>Allocating a block\<close>

lemma bzero_spec:
  fixes s :: "'a fsstate_scheme"
  assumes t: "in_txn H bs s" and g: "geometry s" and d: "data_block s a" and out: "\<And>i. i \<in> H \<Longrightarrow> \<not> holds s i a"
    and n: "length bs < 29" "card H + length bs < NBUF"
  shows "\<exists>t. bzero 1 a s = Done () t \<and> in_txn H (add_block a bs) t \<and> view t = (view s)(a := replicate BSIZE 0)
    \<and> only_log s t \<and> keeps H s t"
proof -
  note D = data_blockD [OF g d]
  obtain b u where u: "bread 1 a s = Done b u" "in_txn (insert b H) bs u" "b \<notin> H" "holds u b a"
    "b_data (buf_at u b) = view s a" "view u = view s" "disk u = disk s" "only_log s u" "keeps H s u"
    by (rule grab_block [OF t D(1) out n(2)])
  have D': "a < disksize u" "\<not> in_log (log_start u) a" using D only_logD [OF u(8)] by simp_all
  obtain v t where v: "log_write b (upd_buf b (\<lambda>x. x\<lparr>b_data := replicate BSIZE 0\<rparr>) u) = Done () v" "brelse b v = Done () t"
    "in_txn H (add_block a bs) t" "view t = (view u)(a := replicate BSIZE 0)" "only_log u t" "keeps H u t"
    using save_block [OF u(2-4) D' n(1), of "\<lambda>_. replicate BSIZE 0"] by blast
  have "bzero 1 a s = Done () t" using u(1) v(1,2) by (simp add: bzero_def)
  then show ?thesis using v u only_log_trans [OF u(8) v(5)] keeps_trans [OF u(9) v(6)] by simp
qed

text \<open>What \<open>balloc\<close> does to the blocks.\<close>

definition allocated :: "'a fsstate_scheme \<Rightarrow> u32 \<Rightarrow> u32 \<Rightarrow> u8 list" where
  "allocated s a = (view s)(sb_bmapstart (sb s) := set_bit_in (view s (sb_bmapstart (sb s))) (unat a), a := replicate BSIZE 0)"

lemma balloc_spec:
  fixes s :: "'a fsstate_scheme"
  assumes t: "in_txn H bs s" and ok: "fs_ok s" and free: "\<exists>b. \<not> in_use s b \<and> unat b < unat (sb_size (sb s))"
    and out: "\<And>i c. i \<in> H \<Longrightarrow> holds s i c \<Longrightarrow> c \<noteq> sb_bmapstart (sb s) \<and> in_use s c"
    and n: "length bs < 28" "card H + length bs < 29"
  shows "\<exists>a t. balloc 1 s = Done a t \<and> in_txn H (add_block a (add_block (sb_bmapstart (sb s)) bs)) t
    \<and> \<not> in_use s a \<and> data_block s a \<and> view t = allocated s a \<and> only_log s t \<and> keeps H s t"
proof -
  let ?m = "sb_bmapstart (sb s)" and ?sz = "unat (sb_size (sb s))"
  note g = fs_okD(1) [OF ok]
  have sz: "?sz \<le> 4096" "0 < ?sz" using g by (auto simp: geometry_def)
  have d: "(?sz + 4095) div 4096 = 1" using sz by (intro div_nat_eqI) simp_all
  have "map (\<lambda>k. k * BPB) [0..<(?sz + BPB - 1) div BPB] = [0]" using d by (simp add: add.commute)
  then have lst: "balloc 1 s = balloc_loop 1 [0] s" unfolding balloc_def by (simp only:)
  have BB: "BBLOCK 0 (sb s) = ?m" by (rule BBLOCK_eq) simp
  obtain b u where u: "bread 1 ?m s = Done b u" "in_txn (insert b H) bs u" "b \<notin> H" "holds u b ?m"
    "b_data (buf_at u b) = view s ?m" "view u = view s" "only_log s u" "keeps H s u"
  proof (rule grab_block [OF t bitmap_blockD(1) [OF g]])
    show "\<not> holds s i ?m" if "i \<in> H" for i using out [OF that, of ?m] by blast
    show "card H + length bs < NBUF" using n(2) by simp
  qed auto
  note fu = only_log_fs [OF u(7)] only_logD [OF u(7)]
  obtain f where f: "\<not> in_use s f" "unat f < ?sz" using free by blast
  obtain i where i: "balloc_scan (view s ?m) ?sz = Some i"
    using balloc_scan_finds [OF f(2), of "view s ?m"] f(1) by (auto simp: in_use_def)
  define a :: u32 where "a = of_nat i"
  have il: "i < ?sz" "\<not> bit_set (view s ?m) i" using balloc_scan_SomeD [OF i] by auto
  have ua: "unat a = i" using il(1) sz(1) unfolding a_def by (simp add: unat_of_nat)
  have fa: "\<not> in_use s a" "unat a < ?sz" using il ua by (auto simp: in_use_def)
  note da = free_is_data [OF ok fa]
  have B: "?m < disksize u" "\<not> in_log (log_start u) ?m" using bitmap_blockD [OF g] fu by simp_all
  have n29: "length bs < 29" using n(1) by simp
  obtain v w where v: "log_write b (upd_buf b (\<lambda>x. x\<lparr>b_data := set_bit_in (b_data x) i\<rparr>) u) = Done () v" "brelse b v = Done () w"
    "in_txn H (add_block ?m bs) w" "view w = (view u)(?m := set_bit_in (view s ?m) i)" "only_log u w" "keeps H u w"
    using save_block [OF u(2-4) B n29, of "\<lambda>x. set_bit_in (b_data x) i"] u(5) by auto
  note ow = only_log_trans [OF u(7) v(5)] and kw = keeps_trans [OF u(8) v(6)]
  have gw: "geometry w" "data_block w a" using geometry_only [OF ow] g da only_log_fs [OF ow] by (simp_all add: data_block_def)
  have hw: "\<not> holds w j a" if "j \<in> H" for j
    using keeps_holds [OF kw that, of a] out [OF that, of a] fa(1) by blast
  have lb: "length (add_block ?m bs) \<le> Suc (length bs)" by (rule length_add_block)
  obtain t where t: "bzero 1 a w = Done () t" "in_txn H (add_block a (add_block ?m bs)) t"
    "view t = (view w)(a := replicate BSIZE 0)" "only_log w t" "keeps H w t"
    using bzero_spec [OF v(3) gw hw] lb n by fastforce
  have mn: "min 4096 (unat (sb_size (sb u))) = ?sz" using sz(1) fu by simp
  have "balloc 1 s = Done a t"
    using lst u(1,5) BB i v(1,2) t(1) by (simp add: a_def mn)
  moreover have "view t = allocated s a"
    using t(3) v(4) u(6) ua by (simp add: allocated_def)
  ultimately show ?thesis
    using t(2) fa(1) da only_log_trans [OF ow t(4)] keeps_trans [OF kw t(5)] by blast
qed

lemma allocated_fs_ok:
  assumes ok: "fs_ok s" and o: "only_log s t" and v: "view t = allocated s a" and da: "data_block s a"
  shows "fs_ok t" "unat b < 4096 \<Longrightarrow> in_use t b \<longleftrightarrow> b = a \<or> in_use s b"
proof -
  note g = fs_okD(1) [OF ok]
  note D = data_blockD [OF g da]
  have sbt: "sb t = sb s" by (rule only_log_fs(2) [OF o])
  have len: "length (view s b) = BSIZE" for b by (rule fs_okD(2) [OF ok])
  have use: "in_use t b \<longleftrightarrow> b = a \<or> in_use s b" if "unat b < 4096" for b
  proof -
    have "unat a div 8 < length (view s (sb_bmapstart (sb s)))" "unat b div 8 < length (view s (sb_bmapstart (sb s)))"
      using D(4) that len by auto
    from bit_set_set [OF this] show ?thesis
      using D(3) by (auto simp: in_use_def sbt v allocated_def word_unat_eq_iff)
  qed
  show "unat b < 4096 \<Longrightarrow> in_use t b \<longleftrightarrow> b = a \<or> in_use s b" by (rule use)
  have "in_use t b" if "b \<le> sb_bmapstart (sb s)" for b
  proof -
    have "unat b < 4096" using that g by (auto simp: geometry_def word_le_nat_alt)
    from use [OF this] show ?thesis using fs_okD(3) [OF ok that] by simp
  qed
  then show "fs_ok t" using geometry_only [OF o] g len by (simp add: fs_ok_def sbt v allocated_def)
qed

section \<open>The blocks of a file\<close>

text \<open>
  Block \<open>n\<close> of the file with addresses \<open>A\<close>, 0 when there is none; the indirect block itself counts as
  node 140.
\<close>

definition faddr :: "(u32 \<Rightarrow> u8 list) \<Rightarrow> u32 list \<Rightarrow> nat \<Rightarrow> u32" where
  "faddr V A n = (if n < NDIRECT then A ! n else if A ! NDIRECT = 0 then 0 else word_at (V (A ! NDIRECT)) (4 * (n - NDIRECT)))"

definition node :: "(u32 \<Rightarrow> u8 list) \<Rightarrow> u32 list \<Rightarrow> nat \<Rightarrow> u32" where
  "node V A n = (if n = MAXFILE then A ! NDIRECT else faddr V A n)"

definition file_byte :: "(u32 \<Rightarrow> u8 list) \<Rightarrow> u32 list \<Rightarrow> nat \<Rightarrow> u8" where
  "file_byte V A off = (let a = faddr V A (off div BSIZE) in if a = 0 then 0 else V a ! (off mod BSIZE))"

text \<open>The file's blocks are in use, and each has one place in it.\<close>

definition file_ok :: "'a fsstate_scheme \<Rightarrow> u32 list \<Rightarrow> bool" where
  "file_ok s A \<longleftrightarrow> length A = 13
     \<and> (\<forall>n \<le> MAXFILE. node (view s) A n \<noteq> 0 \<longrightarrow> data_block s (node (view s) A n) \<and> in_use s (node (view s) A n))
     \<and> (\<forall>m \<le> MAXFILE. \<forall>n \<le> MAXFILE. node (view s) A m = node (view s) A n \<longrightarrow> node (view s) A m \<noteq> 0 \<longrightarrow> m = n)"

lemma file_okD:
  assumes "file_ok s A"
  shows "length A = 13" "n \<le> MAXFILE \<Longrightarrow> node (view s) A n \<noteq> 0 \<Longrightarrow> data_block s (node (view s) A n)"
    "n \<le> MAXFILE \<Longrightarrow> node (view s) A n \<noteq> 0 \<Longrightarrow> in_use s (node (view s) A n)"
    "m \<le> MAXFILE \<Longrightarrow> n \<le> MAXFILE \<Longrightarrow> node (view s) A m = node (view s) A n \<Longrightarrow> node (view s) A m \<noteq> 0 \<Longrightarrow> m = n"
  using assms unfolding file_ok_def by blast+

lemma node_faddr: "n < MAXFILE \<Longrightarrow> node V A n = faddr V A n"
  by (simp add: node_def)

lemma node_ind: "node V A MAXFILE = A ! NDIRECT"
  by (simp add: node_def)

text \<open>A block that is in use and not one of the file's, nor the bitmap.\<close>

definition foreign :: "'a fsstate_scheme \<Rightarrow> u32 list \<Rightarrow> u32 \<Rightarrow> bool" where
  "foreign s A b \<longleftrightarrow> in_use s b \<and> unat b < BPB \<and> b \<noteq> sb_bmapstart (sb s) \<and> (\<forall>n \<le> MAXFILE. node (view s) A n \<noteq> b \<or> b = 0)"

text \<open>
  \<open>grown s A t A'\<close>: from \<open>s\<close> to \<open>t\<close> the file got more blocks, blocks that were free, and its data may
  have changed; blocks of others did not.
\<close>

definition grown :: "'a fsstate_scheme \<Rightarrow> u32 list \<Rightarrow> 'a fsstate_scheme \<Rightarrow> u32 list \<Rightarrow> bool" where
  "grown s A t A' \<longleftrightarrow> fs_ok t \<and> file_ok t A' \<and> sb t = sb s
     \<and> (\<forall>n \<le> MAXFILE. node (view s) A n \<noteq> 0 \<longrightarrow> node (view t) A' n = node (view s) A n)
     \<and> (\<forall>n \<le> MAXFILE. node (view t) A' n \<noteq> node (view s) A n \<longrightarrow> \<not> in_use s (node (view t) A' n))
     \<and> (\<forall>b. unat b < BPB \<longrightarrow> in_use s b \<longrightarrow> in_use t b)
     \<and> (\<forall>b. foreign s A b \<longrightarrow> view t b = view s b)"

lemma grownD:
  assumes "grown s A t A'"
  shows "fs_ok t" "file_ok t A'" "sb t = sb s"
    "n \<le> MAXFILE \<Longrightarrow> node (view s) A n \<noteq> 0 \<Longrightarrow> node (view t) A' n = node (view s) A n"
    "n \<le> MAXFILE \<Longrightarrow> node (view t) A' n \<noteq> node (view s) A n \<Longrightarrow> \<not> in_use s (node (view t) A' n)"
    "unat b < BPB \<Longrightarrow> in_use s b \<Longrightarrow> in_use t b" "foreign s A b \<Longrightarrow> view t b = view s b"
  using assms unfolding grown_def by blast+

lemma grown_refl: "fs_ok s \<Longrightarrow> file_ok s A \<Longrightarrow> grown s A s A"
  unfolding grown_def by simp

lemma grown_foreign:
  assumes g: "grown s A t A'" and f: "foreign s A b"
  shows "foreign t A' b"
proof -
  have b: "in_use s b" "unat b < BPB" "b \<noteq> sb_bmapstart (sb s)" and nb: "\<And>n. n \<le> MAXFILE \<Longrightarrow> node (view s) A n \<noteq> b \<or> b = 0"
    using f unfolding foreign_def by blast+
  have "node (view t) A' n \<noteq> b \<or> b = 0" if n: "n \<le> MAXFILE" for n
    using nb [OF n] grownD(5) [OF g n] b(1) by auto
  then show ?thesis unfolding foreign_def using grownD(3) [OF g] grownD(6) [OF g b(2,1)] b by simp
qed

lemma grown_trans:
  assumes g: "grown s A t A'" and h: "grown t A' u B"
  shows "grown s A u B"
proof -
  have "node (view u) B n = node (view s) A n" if "n \<le> MAXFILE" "node (view s) A n \<noteq> 0" for n
    using grownD(4) [OF g that] grownD(4) [OF h that(1)] that(2) by simp
  moreover have "\<not> in_use s (node (view u) B n)" if n: "n \<le> MAXFILE" and d: "node (view u) B n \<noteq> node (view s) A n" for n
  proof (cases "node (view u) B n = node (view t) A' n")
    case True
    then show ?thesis using grownD(5) [OF g n] d by simp
  next
    case False
    note f = grownD(5) [OF h n False]
    have "data_block u (node (view u) B n)"
      using file_okD(2) [OF grownD(2) [OF h] n] f fs_okD(3) [OF grownD(1) [OF g], of 0] by fastforce
    then have "unat (node (view u) B n) < BPB" by (rule data_blockD(4) [OF fs_okD(1) [OF grownD(1) [OF h]]])
    then show ?thesis using grownD(6) [OF g] f by blast
  qed
  moreover have "in_use u b" if "unat b < BPB" "in_use s b" for b
    by (rule grownD(6) [OF h that(1) grownD(6) [OF g that]])
  moreover have "view u b = view s b" if "foreign s A b" for b
    using grownD(7) [OF g that] grownD(7) [OF h grown_foreign [OF g that]] by simp
  ultimately show ?thesis
    unfolding grown_def using grownD(1-3) [OF h] grownD(3) [OF g] by simp
qed

text \<open>A file gets the free block \<open>a\<close> as its node \<open>m\<close>.\<close>

lemma attach:
  assumes ok: "fs_ok s" "file_ok s A" and t: "fs_ok t" "sb t = sb s"
    and use: "\<And>b. unat b < BPB \<Longrightarrow> in_use t b \<longleftrightarrow> b = a \<or> in_use s b"
    and a: "\<not> in_use s a" "data_block s a" and m: "m \<le> MAXFILE" "node (view s) A m = 0" and len: "length A' = 13"
    and nodes: "\<And>n. n \<le> MAXFILE \<Longrightarrow> node (view t) A' n = (if n = m then a else node (view s) A n)"
    and fr: "\<And>b. foreign s A b \<Longrightarrow> view t b = view s b"
  shows "grown s A t A'"
proof -
  note D = data_blockD [OF fs_okD(1) [OF ok(1)]]
  have dt: "data_block t b = data_block s b" for b by (simp add: data_block_def t(2))
  have old: "data_block s (node (view s) A n) \<and> in_use t (node (view s) A n) \<and> node (view s) A n \<noteq> a"
    if "n \<le> MAXFILE" "node (view s) A n \<noteq> 0" for n
    using file_okD(2,3) [OF ok(2) that] use [OF D(4) [OF file_okD(2) [OF ok(2) that]]] a(1) by auto
  have "file_ok t A'"
    unfolding file_ok_def
  proof (intro conjI allI impI)
    show "length A' = 13" by (rule len)
    fix n assume n: "n \<le> MAXFILE" "node (view t) A' n \<noteq> 0"
    show "data_block t (node (view t) A' n)" "in_use t (node (view t) A' n)"
      using n old [OF n(1)] nodes [OF n(1)] a(2) dt use [OF D(4) [OF a(2)]] by (auto split: if_splits)
  next
    fix i j assume "i \<le> MAXFILE" "j \<le> MAXFILE" "node (view t) A' i = node (view t) A' j" "node (view t) A' i \<noteq> 0"
    then show "i = j"
      using nodes [of i] nodes [of j] old [of i] old [of j] file_okD(4) [OF ok(2), of i j] by (auto split: if_splits)
  qed
  then show ?thesis
    unfolding grown_def using t use fr nodes m a(1) by (auto split: if_splits)
qed

lemma same_bytes:
  assumes nodes: "\<And>n. n < MAXFILE \<Longrightarrow> faddr V' A' n = (if n = m then a else faddr V A n)"
    and m: "faddr V A m = 0 \<or> MAXFILE \<le> m" and z: "V' a = replicate BSIZE 0"
    and same: "\<And>n. n < MAXFILE \<Longrightarrow> faddr V A n \<noteq> 0 \<Longrightarrow> V' (faddr V A n) = V (faddr V A n)"
    and off: "off < MAXFILE * BSIZE"
  shows "file_byte V' A' off = file_byte V A off"
proof -
  have n: "off div BSIZE < MAXFILE" using off by (simp add: less_mult_imp_div_less)
  show ?thesis
    using nodes [OF n] same [OF n] m z n by (auto simp: file_byte_def Let_def)
qed

lemma word_at_zeros: "k + 3 < 512 \<Longrightarrow> word_at (replicate 512 0) k = 0"
  by (simp add: word_at_def le32_def)

lemma allocated_other:
  assumes "fs_ok s" "in_use s b" "\<not> in_use s a" "b \<noteq> sb_bmapstart (sb s)"
  shows "allocated s a b = view s b"
  using assms by (auto simp: allocated_def)

lemma file_node_other:
  assumes ok: "fs_ok s" "file_ok s A" and a: "\<not> in_use s a" and n: "n \<le> MAXFILE" "node (view s) A n \<noteq> 0"
  shows "allocated s a (node (view s) A n) = view s (node (view s) A n)"
  using allocated_other [OF ok(1) file_okD(3) [OF ok(2) n] a] data_blockD(3) [OF fs_okD(1) [OF ok(1)] file_okD(2) [OF ok(2) n]]
  by blast

lemma slot_nodes:
  assumes ok: "fs_ok s" "file_ok s A" and a: "\<not> in_use s a" "data_block s a" and i: "i \<le> NDIRECT" "A ! i = 0"
    and n: "n \<le> MAXFILE"
  shows "node (allocated s a) (A[i := a]) n = (if n = (if i = NDIRECT then MAXFILE else i) then a else node (view s) A n)"
proof -
  have len: "length A = 13" by (rule file_okD(1) [OF ok(2)])
  have az: "allocated s a a = replicate 512 0" "a \<noteq> 0"
    using data_blockD(5) [OF fs_okD(1) [OF ok(1)] a(2)] by (simp_all add: allocated_def)
  have ind: "allocated s a (A ! 12) = view s (A ! 12)" if "A ! 12 \<noteq> 0"
    using file_node_other [OF ok a(1), of MAXFILE] that by (simp add: node_ind)
  consider "n = 140" | "n < 12" | "12 \<le> n" "n < 140" using n by linarith
  then show ?thesis
  proof cases
    case 1
    then show ?thesis using len i by (auto simp: node_def nth_list_update)
  next
    case 2
    then show ?thesis using len i by (auto simp: node_def faddr_def nth_list_update)
  next
    case 3
    then have "word_at (replicate 512 0) (4 * (n - 12)) = 0" by (intro word_at_zeros) simp
    then show ?thesis using 3 len i az ind by (auto simp: node_def faddr_def nth_list_update)
  qed
qed

lemma foreign_allocated: "foreign s A b \<Longrightarrow> \<not> in_use s a \<Longrightarrow> allocated s a b = view s b"
  by (auto simp: foreign_def allocated_def)

section \<open>bmap\<close>

text \<open>The two parts of \<open>bmap\<close>: an address of the inode, and an entry of the indirect block.\<close>

definition bmap_slot :: "nat \<Rightarrow> nat \<Rightarrow> 'a fsstate_scheme \<Rightarrow> ('a fsstate_scheme, u32) kres" where
  "bmap_slot ip i s =
     (let addr = i_addrs (inode_at s ip) ! i in
      if addr = 0
      then bindK (balloc (i_dev (inode_at s ip)) s)
        (\<lambda>a s. Done a (upd_inode ip (\<lambda>x. x\<lparr>i_addrs := (i_addrs x)[i := a]\<rparr>) s))
      else Done addr s)"

definition bmap_entry :: "nat \<Rightarrow> nat \<Rightarrow> u32 \<Rightarrow> 'a fsstate_scheme \<Rightarrow> ('a fsstate_scheme, u32) kres" where
  "bmap_entry ip k addr s =
     bindK (bread (i_dev (inode_at s ip)) addr s)
       (\<lambda>bp s. let a = word_at (b_data (buf_at s bp)) (4 * k) in
          if a = 0
          then bindK (balloc (i_dev (inode_at s ip)) s)
            (\<lambda>a s. bindK (log_write bp
                   (upd_buf bp (\<lambda>x. x\<lparr>b_data := put_at (b_data x) (4 * k) (word_bytes a)\<rparr>) s))
              (\<lambda>_ s. bindK (brelse bp s) (\<lambda>_ s. Done a s)))
          else bindK (brelse bp s) (\<lambda>_ s. Done a s))"

lemma bmap_parts:
  "bmap ip bn s =
     (if unat bn < NDIRECT then bmap_slot ip (unat bn) s
      else if unat bn - NDIRECT < NINDIRECT
      then bindK (bmap_slot ip NDIRECT s) (\<lambda>addr s. bmap_entry ip (unat bn - NDIRECT) addr s)
      else Panic ''bmap: out of range'')"
  unfolding bmap_def bmap_slot_def bmap_entry_def Let_def by (rule refl)

definition only_file :: "'a fsstate_scheme \<Rightarrow> 'a fsstate_scheme \<Rightarrow> bool" where
  "only_file s t \<longleftrightarrow> (\<exists>B D T P N L I. t = s\<lparr>bufs := B, disk := D, disk_trace := T, ptable := P, lh_n := N, lh_block := L, icache := I\<rparr>)"

lemma only_file_trans: "only_file s t \<Longrightarrow> only_file t u \<Longrightarrow> only_file s u"
  unfolding only_file_def by (elim exE, simp) blast

lemma only_log_file:
  fixes s :: "'a fsstate_scheme"
  assumes "only_log s t"
  shows "only_file s t"
proof -
  obtain B D T P N L where t: "t = s\<lparr>bufs := B, disk := D, disk_trace := T, ptable := P, lh_n := N, lh_block := L\<rparr>"
    using assms by (auto simp: only_log_def)
  then have "t = s\<lparr>bufs := B, disk := D, disk_trace := T, ptable := P, lh_n := N, lh_block := L, icache := icache s\<rparr>" by simp
  then show ?thesis unfolding only_file_def by blast
qed

lemma only_file_upd: "only_file s (upd_inode ip f s)"
proof -
  have "upd_inode ip f s = s\<lparr>bufs := bufs s, disk := disk s, disk_trace := disk_trace s, ptable := ptable s, lh_n := lh_n s,
    lh_block := lh_block s, icache := (icache s)[ip := f (icache s ! ip)]\<rparr>" by (simp add: upd_inode_def)
  then show ?thesis unfolding only_file_def by blast
qed

definition nfree :: "'a fsstate_scheme \<Rightarrow> nat" where
  "nfree s = card {b. \<not> in_use s b \<and> unat b < unat (sb_size (sb s))}"

lemma nfree_pos: "0 < nfree s \<Longrightarrow> \<exists>b. \<not> in_use s b \<and> unat b < unat (sb_size (sb s))"
  unfolding nfree_def by (auto simp: card_gt_0_iff)

lemma nfree_allocated:
  assumes ok: "fs_ok s" and o: "sb t = sb s" and a: "\<not> in_use s a" "data_block s a"
    and use: "\<And>b. unat b < BPB \<Longrightarrow> in_use t b \<longleftrightarrow> b = a \<or> in_use s b"
  shows "nfree s = Suc (nfree t)"
proof -
  let ?F = "{b. \<not> in_use s b \<and> unat b < unat (sb_size (sb s))}"
  have sz: "unat (sb_size (sb s)) \<le> BPB" using fs_okD(1) [OF ok] by (simp add: geometry_def)
  have "\<not> in_use t b \<longleftrightarrow> b \<noteq> a \<and> \<not> in_use s b" if "unat b < unat (sb_size (sb s))" for b
    using use [of b] that sz by simp
  then have eq: "{b. \<not> in_use t b \<and> unat b < unat (sb_size (sb t))} = ?F - {a}" unfolding o by blast
  have "a \<in> ?F" using a by (simp add: data_block_def word_less_nat_alt)
  then show ?thesis unfolding nfree_def eq by (simp only: card_Suc_Diff1 [OF finite])
qed

lemma slot_new:
  fixes s :: "'a fsstate_scheme"
  assumes t: "in_txn {} bs s" and ok: "fs_ok s" "file_ok s A" and ip: "ip < length (icache s)" "i_dev (inode_at s ip) = 1"
    and A: "i_addrs (inode_at s ip) = A" and i: "i \<le> NDIRECT" "A ! i = 0" and n: "length bs < 28" and f: "0 < nfree s"
  shows "\<exists>a t. bmap_slot ip i s = Done a t \<and> in_txn {} (add_block a (add_block (sb_bmapstart (sb s)) bs)) t
    \<and> a \<noteq> 0 \<and> icache t = (icache s)[ip := (inode_at s ip)\<lparr>i_addrs := A[i := a]\<rparr>] \<and> only_file s t \<and> grown s A t (A[i := a])
    \<and> nfree s = Suc (nfree t) \<and> view t a = replicate BSIZE 0
    \<and> (\<forall>off < MAXFILE * BSIZE. file_byte (view t) (A[i := a]) off = file_byte (view s) A off)"
proof -
  obtain a u where u: "balloc 1 s = Done a u" "in_txn {} (add_block a (add_block (sb_bmapstart (sb s)) bs)) u"
    "\<not> in_use s a" "data_block s a" "view u = allocated s a" "only_log s u"
    using balloc_spec [OF t ok(1) nfree_pos [OF f]] n by auto
  define t where "t = upd_inode ip (\<lambda>x. x\<lparr>i_addrs := (i_addrs x)[i := a]\<rparr>) u"
  note fu = only_log_fs [OF u(6)]
  have vt: "view t = allocated s a" "sb t = sb s" using u(5) fu by (simp_all add: t_def)
  have ut: "in_use t b = in_use u b" "fs_ok t = fs_ok u" for b
    by (simp_all add: t_def in_use_def fs_ok_def geometry_def)
  note al = allocated_fs_ok [OF ok(1) u(6,5,4)]
  have use: "unat b < BPB \<Longrightarrow> in_use t b \<longleftrightarrow> b = a \<or> in_use s b" for b using al(2) ut by simp
  let ?m = "if i = NDIRECT then MAXFILE else i"
  note nodes = slot_nodes [OF ok u(3,4) i, folded vt(1)]
  have m: "?m \<le> MAXFILE" "node (view s) A ?m = 0" using i by (auto simp: node_def faddr_def)
  have gr: "grown s A t (A[i := a])"
  proof (rule attach [OF ok _ vt(2) use u(3,4) m])
    show "fs_ok t" using al(1) ut by simp
    show "view t b = view s b" if "foreign s A b" for b
      unfolding vt(1) by (rule foreign_allocated [OF that u(3)])
    show "node (view t) (A[i := a]) n = (if n = ?m then a else node (view s) A n)" if "n \<le> MAXFILE" for n
      by (rule nodes [OF that])
  qed (use file_okD(1) [OF ok(2)] in simp_all)
  have bytes: "file_byte (view t) (A[i := a]) off = file_byte (view s) A off" if off: "off < MAXFILE * BSIZE" for off
  proof (rule same_bytes [where m = ?m, OF _ _ _ _ off])
    show "faddr (view t) (A[i := a]) n = (if n = ?m then a else faddr (view s) A n)" if "n < MAXFILE" for n
      using nodes [of n] that by (simp add: node_def)
    show "faddr (view s) A ?m = 0 \<or> MAXFILE \<le> ?m" using i by (auto simp: faddr_def)
    show "view t a = replicate BSIZE 0" by (simp add: vt(1) allocated_def)
    show "view t (faddr (view s) A n) = view s (faddr (view s) A n)" if "n < MAXFILE" "faddr (view s) A n \<noteq> 0" for n
      using file_node_other [OF ok u(3), of n] that by (simp add: node_def vt(1))
  qed
  have "bmap_slot ip i s = Done a t" using u(1) i(2) A ip(2) by (simp add: bmap_slot_def t_def)
  moreover have "icache t = (icache s)[ip := (inode_at s ip)\<lparr>i_addrs := A[i := a]\<rparr>]"
    using fu A ip(1) by (simp add: t_def upd_inode_def inode_at_def)
  moreover have "only_file s t"
    unfolding t_def by (rule only_file_trans [OF only_log_file [OF u(6)] only_file_upd])
  moreover have "in_txn {} (add_block a (add_block (sb_bmapstart (sb s)) bs)) t" using u(2) by (simp add: t_def)
  moreover have "view t a = replicate BSIZE 0" by (simp add: vt(1) allocated_def)
  ultimately show ?thesis
    using bytes gr nfree_allocated [OF ok(1) vt(2) u(3,4) use] data_blockD(5) [OF fs_okD(1) [OF ok(1)] u(4)] by blast
qed

lemma same_view:
  fixes s :: "'a fsstate_scheme"
  assumes o: "only_log s t" and v: "view t = view s"
  shows "fs_ok t = fs_ok s" "in_use t = in_use s" "file_ok t A = file_ok s A" "nfree t = nfree s" "allocated t a = allocated s a"
    "data_block t = data_block s"
proof -
  have sbt: "sb t = sb s" by (rule only_log_fs(2) [OF o])
  show u: "in_use t = in_use s" by (simp add: fun_eq_iff in_use_def v sbt)
  show d: "data_block t = data_block s" by (simp add: fun_eq_iff data_block_def sbt)
  show "fs_ok t = fs_ok s" by (simp add: fs_ok_def geometry_only [OF o] v u sbt)
  show "file_ok t A = file_ok s A" by (simp only: file_ok_def v u d)
  show "nfree t = nfree s" "allocated t a = allocated s a" by (simp_all add: nfree_def allocated_def v u sbt)
qed

lemma in_txn_len:
  assumes "in_txn H bs s"
  shows "length bs < 30" "card (set bs) = length bs"
proof -
  have t: "txn bs s" using assms by (simp add: in_txn_def)
  show "length bs < 30" by (rule log_readyD(6) [OF txnD(1) [OF t]])
  show "card (set bs) = length bs" using txn_distinct [OF t] txnD(2) [OF t] by simp
qed

lemma indirect_block:
  assumes ok: "fs_ok s" "file_ok s A" and ad: "A ! NDIRECT \<noteq> 0"
  shows "data_block s (A ! NDIRECT)" "in_use s (A ! NDIRECT)" "A ! NDIRECT \<noteq> sb_bmapstart (sb s)"
proof -
  show d: "data_block s (A ! NDIRECT)" "in_use s (A ! NDIRECT)" using file_okD(2,3) [OF ok(2), of MAXFILE] ad by (simp_all add: node_ind)
  show "A ! NDIRECT \<noteq> sb_bmapstart (sb s)" by (rule data_blockD(3) [OF fs_okD(1) [OF ok(1)] d(1)])
qed

lemma entry_old:
  fixes s :: "'a fsstate_scheme"
  assumes t: "in_txn {} bs s" and ok: "fs_ok s" "file_ok s A" and ip: "i_dev (inode_at s ip) = 1"
    and ad: "A ! NDIRECT \<noteq> 0" and a: "word_at (view s (A ! NDIRECT)) (4 * k) \<noteq> 0"
  shows "\<exists>t. bmap_entry ip k (A ! NDIRECT) s = Done (word_at (view s (A ! NDIRECT)) (4 * k)) t \<and> in_txn {} bs t
    \<and> view t = view s \<and> only_log s t"
proof -
  note I = indirect_block [OF ok ad]
  have room: "card {} + length bs < NBUF" using in_txn_len(1) [OF t] by simp
  obtain b u where u: "bread 1 (A ! NDIRECT) s = Done b u" "in_txn (insert b {}) bs u" "b \<notin> {}" "holds u b (A ! NDIRECT)"
    "b_data (buf_at u b) = view s (A ! NDIRECT)" "view u = view s" "disk u = disk s" "only_log s u" "keeps {} s u"
    "A ! NDIRECT \<notin> set bs \<longrightarrow> view s (A ! NDIRECT) = disk s (A ! NDIRECT)"
    by (rule grab_block [OF t data_blockD(1) [OF fs_okD(1) [OF ok(1)] I(1)] _ room]) auto
  obtain t where t: "brelse b u = Done () t" "in_txn {} bs t" "view t = view u" "only_log u t"
    using drop_block [OF u(2-4)] u(5,7,10) by auto
  have "bmap_entry ip k (A ! NDIRECT) s = Done (word_at (view s (A ! NDIRECT)) (4 * k)) t"
    using u(1,5) t(1) a ip by (simp add: bmap_entry_def Let_def)
  then show ?thesis using t u(6) only_log_trans [OF u(8) t(4)] by simp
qed

lemma entry_nodes:
  assumes ok: "fs_ok s" "file_ok s A" and a: "\<not> in_use s a" and ad: "A ! NDIRECT \<noteq> 0" and k: "k < NINDIRECT"
    and n: "n \<le> MAXFILE"
  shows "node ((allocated s a)(A ! NDIRECT := put_at (view s (A ! NDIRECT)) (4 * k) (word_bytes a))) A n
    = (if n = NDIRECT + k then a else node (view s) A n)"
proof -
  have len: "length (view s (A ! 12)) = 512" using fs_okD(2) [OF ok(1)] by simp
  consider "n = 140" | "n < 12" | "12 \<le> n" "n < 140" using n by linarith
  then show ?thesis
  proof cases
    case 3
    then have r: "4 * (n - 12) + 4 \<le> 512" "4 * k + 4 \<le> 512" using k by simp_all
    show ?thesis
    proof (cases "n = 12 + k")
      case True
      then show ?thesis using 3 ad r len word_at_put [of "4 * k" "view s (A ! 12)" a] by (simp add: node_def faddr_def)
    next
      case False
      then have "4 * (n - 12) + 4 \<le> 4 * k \<or> 4 * k + 4 \<le> 4 * (n - 12)" using 3 by linarith
      then show ?thesis
        using 3 False ad r len word_at_put_other [of "4 * k" "word_bytes a" "view s (A ! 12)" "4 * (n - 12)"]
        by (simp add: node_def faddr_def)
    qed
  qed (use k in \<open>simp_all add: node_def faddr_def\<close>)
qed

text \<open>The block store after a new entry has been written to the indirect block.\<close>

lemma entry_grown:
  fixes s v t :: "'a fsstate_scheme"
  assumes ok: "fs_ok s" "file_ok s A" and a: "\<not> in_use s a" "data_block s a" and ad: "A ! NDIRECT \<noteq> 0"
    and k: "k < NINDIRECT" "word_at (view s (A ! NDIRECT)) (4 * k) = 0"
    and v: "only_log s v" "view v = allocated s a"
    and t: "only_log v t" "view t = (view v)(A ! NDIRECT := put_at (view s (A ! NDIRECT)) (4 * k) (word_bytes a))"
  shows "grown s A t A" "nfree s = Suc (nfree t)"
    "off < MAXFILE * BSIZE \<Longrightarrow> file_byte (view t) A off = file_byte (view s) A off"
    "faddr (view t) A (NDIRECT + k) = a"
proof -
  let ?ad = "A ! NDIRECT"
  note I = indirect_block [OF ok ad]
  note al = allocated_fs_ok [OF ok(1) v a(2)]
  have sbt: "sb v = sb s" "sb t = sb s" using only_log_fs(2) [OF v(1)] only_log_fs(2) [OF t(1)] by simp_all
  have uv: "in_use t b = in_use v b" for b using I(3) by (simp add: in_use_def sbt t(2))
  have len: "length (view s ?ad) = 512" using fs_okD(2) [OF ok(1)] by simp
  have ft: "fs_ok t"
    using al(1) geometry_only [OF t(1)] uv sbt length_put_at [of "4 * k" "word_bytes a" "view s ?ad"] len k(1)
    by (simp add: fs_ok_def t(2))
  have use: "unat b < BPB \<Longrightarrow> in_use t b \<longleftrightarrow> b = a \<or> in_use s b" for b using al(2) uv by simp
  have nodes: "node (view t) A n = (if n = NDIRECT + k then a else node (view s) A n)" if "n \<le> MAXFILE" for n
    using entry_nodes [OF ok a(1) ad k(1) that] by (simp only: v(2) t(2))
  have z: "node (view s) A (NDIRECT + k) = 0" using k ad by (simp add: node_def faddr_def)
  have ne: "a \<noteq> ?ad" using a(1) I(2) by auto
  show "grown s A t A"
  proof (rule attach [OF ok ft sbt(2) use a _ z])
    show "view t b = view s b" if f: "foreign s A b" for b
    proof -
      have "b \<noteq> ?ad" using f ad by (auto simp: foreign_def node_ind dest: spec [of _ MAXFILE])
      then show ?thesis using foreign_allocated [OF f a(1)] by (simp add: t(2) v(2))
    qed
    show "node (view t) A n = (if n = NDIRECT + k then a else node (view s) A n)" if "n \<le> MAXFILE" for n
      by (rule nodes [OF that])
  qed (use k file_okD(1) [OF ok(2)] in simp_all)
  show "nfree s = Suc (nfree t)" by (rule nfree_allocated [OF ok(1) sbt(2) a use])
  show "faddr (view t) A (NDIRECT + k) = a" using nodes [of "NDIRECT + k"] k(1) by (simp add: node_def)
  show "file_byte (view t) A off = file_byte (view s) A off" if "off < MAXFILE * BSIZE"
  proof (rule same_bytes [where m = "NDIRECT + k" and a = a, OF _ _ _ _ that])
    show "faddr (view t) A n = (if n = NDIRECT + k then a else faddr (view s) A n)" if "n < MAXFILE" for n
      using nodes [of n] that by (simp add: node_def)
    show "faddr (view s) A (NDIRECT + k) = 0 \<or> MAXFILE \<le> NDIRECT + k" using z k(1) by (simp add: node_def)
    show "view t a = replicate BSIZE 0" using ne by (simp add: t(2) v(2) allocated_def)
    show "view t (faddr (view s) A n) = view s (faddr (view s) A n)" if n: "n < MAXFILE" "faddr (view s) A n \<noteq> 0" for n
    proof -
      have "faddr (view s) A n \<noteq> ?ad" using file_okD(4) [OF ok(2), of n MAXFILE] n by (auto simp: node_def)
      then show ?thesis using file_node_other [OF ok a(1), of n] n by (simp add: t(2) v(2) node_def)
    qed
  qed
qed

lemma entry_new:
  fixes s :: "'a fsstate_scheme"
  assumes t: "in_txn {} bs s" and ok: "fs_ok s" "file_ok s A" and ip: "i_dev (inode_at s ip) = 1"
    and ad: "A ! NDIRECT \<noteq> 0" and k: "k < NINDIRECT" "word_at (view s (A ! NDIRECT)) (4 * k) = 0"
    and n: "card (insert (sb_bmapstart (sb s)) (set bs)) < 28" and f: "0 < nfree s"
  shows "\<exists>a t. bmap_entry ip k (A ! NDIRECT) s = Done a t
    \<and> in_txn {} (add_block (A ! NDIRECT) (add_block a (add_block (sb_bmapstart (sb s)) bs))) t
    \<and> a \<noteq> 0 \<and> only_log s t \<and> grown s A t A \<and> nfree s = Suc (nfree t) \<and> faddr (view t) A (NDIRECT + k) = a
    \<and> (\<forall>off < MAXFILE * BSIZE. file_byte (view t) A off = file_byte (view s) A off)"
proof -
  let ?ad = "A ! NDIRECT" and ?m = "sb_bmapstart (sb s)"
  note I = indirect_block [OF ok ad]
  note D = data_blockD [OF fs_okD(1) [OF ok(1)] I(1)]
  have "card (set bs) \<le> card (insert ?m (set bs))" by (rule card_mono) auto
  then have lb: "length bs < 28" using in_txn_len(2) [OF t] n by simp
  have room: "card {} + length bs < NBUF" using lb by simp
  obtain b u where u: "bread 1 ?ad s = Done b u" "in_txn (insert b {}) bs u" "b \<notin> {}" "holds u b ?ad"
    "b_data (buf_at u b) = view s ?ad" "view u = view s" "only_log s u"
    by (rule grab_block [OF t D(1) _ room]) auto
  note su = same_view [OF u(7,6)] and fu = only_log_fs [OF u(7)]
  have hb: "c \<noteq> sb_bmapstart (sb u) \<and> in_use u c" if "i \<in> insert b {}" "holds u i c" for i c
    using that u(4) I fu su(2) by (auto simp: holds_def)
  have fu1: "fs_ok u" and f1: "0 < nfree u" and cb: "card (insert b {}) + length bs < 29" using su ok(1) f lb by simp_all
  obtain a v where v: "balloc 1 u = Done a v" "in_txn (insert b {}) (add_block a (add_block ?m bs)) v"
    "\<not> in_use u a" "data_block u a" "view v = allocated u a" "only_log u v" "keeps (insert b {}) u v"
    using balloc_spec [OF u(2) fu1 nfree_pos [OF f1] _ lb cb] hb unfolding fu(2) by meson
  have a: "\<not> in_use s a" "data_block s a" using v(3,4) su by simp_all
  have ov: "only_log s v" and vv: "view v = allocated s a" using only_log_trans [OF u(7) v(6)] v(5) su by simp_all
  have hv: "holds v b ?ad" "b_data (buf_at v b) = view s ?ad" using keeps_holds [OF v(7), of b ?ad] u(4,5) by simp_all
  have "card (insert a (insert ?m (set bs))) \<le> Suc (card (insert ?m (set bs)))" by (rule card_insert_le_m1) simp_all
  then have l1: "length (add_block a (add_block ?m bs)) < 29" using in_txn_len(2) [OF v(2)] n by simp
  have Dv: "?ad < disksize v" "\<not> in_log (log_start v) ?ad" using D only_logD [OF ov] by simp_all
  obtain w t where t: "log_write b (upd_buf b (\<lambda>x. x\<lparr>b_data := put_at (b_data x) (4 * k) (word_bytes a)\<rparr>) v) = Done () w"
    "brelse b w = Done () t" "in_txn {} (add_block ?ad (add_block a (add_block ?m bs))) t"
    "view t = (view v)(?ad := put_at (view s ?ad) (4 * k) (word_bytes a))" "only_log v t"
    using save_block [OF v(2) _ hv(1) Dv l1, of "\<lambda>x. put_at (b_data x) (4 * k) (word_bytes a)"] hv(2) by auto
  note G = entry_grown [OF ok a ad k ov vv t(5,4)]
  have ipu: "i_dev (inode_at u ip) = 1" using ip fu by (simp add: inode_at_def)
  have "bmap_entry ip k ?ad s = Done a t"
    using u(1,5) k(2) v(1) t(1,2) ip ipu by (simp add: bmap_entry_def Let_def)
  moreover have "a \<noteq> 0" by (rule data_blockD(5) [OF fs_okD(1) [OF ok(1)] a(2)])
  ultimately show ?thesis
    using t(3) only_log_trans [OF ov t(5)] G by blast
qed

text \<open>
  The room that a file may still take up in the log beyond its data blocks (the bitmap and the
  indirect block), and the block it may need for addresses.
\<close>

definition log_cost :: "u32 \<Rightarrow> u32 list \<Rightarrow> u32 list \<Rightarrow> nat" where
  "log_cost m A bs = card (insert m (set bs)) + (if A ! NDIRECT \<noteq> 0 \<and> A ! NDIRECT \<in> set bs then 0 else 1)"

definition need :: "u32 list \<Rightarrow> nat" where
  "need A = (if A ! NDIRECT = 0 then 1 else 0)"

lemma card_insert1: "card (insert x S) \<le> Suc (card S)"
  by (rule card_insert_le_m1) simp_all

lemma cost_len:
  assumes "in_txn H bs s" "log_cost m A bs < n"
  shows "length bs < n" "card (insert m (set bs)) < n"
proof -
  have "card (set bs) \<le> card (insert m (set bs))" by (rule card_mono) auto
  then show "length bs < n" "card (insert m (set bs)) < n" using in_txn_len(2) [OF assms(1)] assms(2) by (auto simp: log_cost_def)
qed

text \<open>What \<open>bmap\<close> promises of its result and the state after it.\<close>

definition mapped :: "nat \<Rightarrow> nat \<Rightarrow> u32 list \<Rightarrow> u32 list \<Rightarrow> 'a fsstate_scheme \<Rightarrow> u32 \<Rightarrow> 'a fsstate_scheme \<Rightarrow> u32 list \<Rightarrow> u32 list \<Rightarrow> bool" where
  "mapped ip n bs A s a t bs' A' \<longleftrightarrow> in_txn {} bs' t \<and> a \<noteq> 0
     \<and> icache t = (icache s)[ip := (inode_at s ip)\<lparr>i_addrs := A'\<rparr>] \<and> only_file s t \<and> grown s A t A'
     \<and> faddr (view t) A' n = a \<and> nfree s + need A' \<le> Suc (nfree t + need A)
     \<and> (\<forall>off < MAXFILE * BSIZE. file_byte (view t) A' off = file_byte (view s) A off)
     \<and> (a \<in> set bs' \<and> log_cost (sb_bmapstart (sb s)) A' bs' \<le> Suc (log_cost (sb_bmapstart (sb s)) A bs) \<or> bs' = bs \<and> A' = A)"

lemma icache_same:
  assumes "i_addrs (inode_at s ip) = A" "icache t = icache s" "ip < length (icache s)"
  shows "icache t = (icache s)[ip := (inode_at s ip)\<lparr>i_addrs := A\<rparr>]"
  using assms by (simp add: inode_at_def [symmetric] flip: assms(1)) (simp add: inode_at_def)

lemma bmap_direct:
  fixes s :: "'a fsstate_scheme"
  assumes t: "in_txn {} bs s" and ok: "fs_ok s" "file_ok s A" and ip: "ip < length (icache s)" "i_dev (inode_at s ip) = 1"
    and A: "i_addrs (inode_at s ip) = A" and n: "unat bn < NDIRECT"
    and c: "log_cost (sb_bmapstart (sb s)) A bs < 28" and f: "need A < nfree s"
  shows "\<exists>a t bs' A'. bmap ip bn s = Done a t \<and> mapped ip (unat bn) bs A s a t bs' A'"
proof (cases "A ! unat bn = 0")
  case False
  then have "bmap ip bn s = Done (A ! unat bn) s" using n A by (simp add: bmap_parts bmap_slot_def)
  moreover have "mapped ip (unat bn) bs A s (A ! unat bn) s bs A"
    unfolding mapped_def using t False n icache_same [OF A refl ip(1)] grown_refl [OF ok] only_log_file [OF only_log_refl]
    by (simp add: faddr_def)
  ultimately show ?thesis by blast
next
  case True
  let ?m = "sb_bmapstart (sb s)" and ?i = "unat bn"
  have lb: "length bs < 28" by (rule cost_len(1) [OF t c])
  have i: "?i \<le> NDIRECT" using n by simp
  have fr: "0 < nfree s" using f by simp
  obtain a t where t': "bmap_slot ip ?i s = Done a t" "in_txn {} (add_block a (add_block ?m bs)) t" "a \<noteq> 0"
    "icache t = (icache s)[ip := (inode_at s ip)\<lparr>i_addrs := A[?i := a]\<rparr>]" "only_file s t" "grown s A t (A[?i := a])"
    "nfree s = Suc (nfree t)" "\<forall>off < MAXFILE * BSIZE. file_byte (view t) (A[?i := a]) off = file_byte (view s) A off"
    using slot_new [OF t ok ip A i True lb fr] by blast
  have A12: "A[?i := a] ! NDIRECT = A ! NDIRECT" using n by simp
  have "card (insert ?m (insert a (insert ?m (set bs)))) \<le> Suc (card (insert ?m (set bs)))"
    using card_insert1 [of a "insert ?m (set bs)"] by (simp add: insert_commute insert_absorb)
  then have "log_cost ?m (A[?i := a]) (add_block a (add_block ?m bs)) \<le> Suc (log_cost ?m A bs)"
    by (simp add: log_cost_def A12)
  then have "mapped ip ?i bs A s a t (add_block a (add_block ?m bs)) (A[?i := a])"
    unfolding mapped_def need_def A12 using t' n file_okD(1) [OF ok(2)] by (simp add: faddr_def)
  then show ?thesis using t'(1) n by (auto simp: bmap_parts)
qed

lemma grown_same:
  fixes s :: "'a fsstate_scheme"
  assumes ok: "fs_ok s" "file_ok s A" and o: "only_log s t" and v: "view t = view s"
  shows "grown s A t A"
  unfolding grown_def using same_view [OF o v] ok only_log_fs(2) [OF o] v by simp

lemma entry_mapped:
  fixes s :: "'a fsstate_scheme"
  assumes t: "in_txn {} bs s" and ok: "fs_ok s" "file_ok s A" and ip: "ip < length (icache s)" "i_dev (inode_at s ip) = 1"
    and A: "i_addrs (inode_at s ip) = A" and ad: "A ! NDIRECT \<noteq> 0" and k: "k < NINDIRECT"
    and c: "log_cost (sb_bmapstart (sb s)) A bs < 28" and f: "0 < nfree s"
  shows "\<exists>a t bs'. bmap_entry ip k (A ! NDIRECT) s = Done a t \<and> mapped ip (NDIRECT + k) bs A s a t bs' A
    \<and> (word_at (view s (A ! NDIRECT)) (4 * k) = 0 \<longrightarrow> a \<in> set bs'
         \<and> log_cost (sb_bmapstart (sb s)) A bs' \<le> Suc (log_cost (sb_bmapstart (sb s)) A bs) \<and> nfree s = Suc (nfree t))"
proof (cases "word_at (view s (A ! NDIRECT)) (4 * k) = 0")
  case False
  obtain t where t': "bmap_entry ip k (A ! NDIRECT) s = Done (word_at (view s (A ! NDIRECT)) (4 * k)) t" "in_txn {} bs t"
    "view t = view s" "only_log s t"
    using entry_old [OF t ok ip(2) ad False] by blast
  have "mapped ip (NDIRECT + k) bs A s (word_at (view s (A ! NDIRECT)) (4 * k)) t bs A"
    unfolding mapped_def
    using t'(2,3) False icache_same [OF A only_log_fs(1) [OF t'(4)] ip(1)] grown_same [OF ok t'(4,3)] only_log_file [OF t'(4)]
      same_view(4) [OF t'(4,3)] ad by (simp add: faddr_def)
  then show ?thesis using t'(1) False by blast
next
  case True
  let ?m = "sb_bmapstart (sb s)" and ?ad = "A ! NDIRECT"
  note K = cost_len(2) [OF t c]
  obtain a t where t': "bmap_entry ip k ?ad s = Done a t" "in_txn {} (add_block ?ad (add_block a (add_block ?m bs))) t"
    "a \<noteq> 0" "only_log s t" "grown s A t A" "nfree s = Suc (nfree t)" "faddr (view t) A (NDIRECT + k) = a"
    "\<forall>off < MAXFILE * BSIZE. file_byte (view t) A off = file_byte (view s) A off"
    using entry_new [OF t ok ip(2) ad k True K f] by blast
  have "card (insert ?m (insert ?ad (insert a (insert ?m (set bs))))) \<le> Suc (log_cost ?m A bs)"
  proof (cases "?ad \<in> set bs")
    case True
    then have "insert ?m (insert ?ad (insert a (insert ?m (set bs)))) = insert a (insert ?m (set bs))" by auto
    then show ?thesis using card_insert1 [of a "insert ?m (set bs)"] True ad by (simp add: log_cost_def)
  next
    case False
    have "insert ?m (insert ?ad (insert a (insert ?m (set bs)))) = insert ?ad (insert a (insert ?m (set bs)))" by auto
    then show ?thesis
      using card_insert1 [of ?ad "insert a (insert ?m (set bs))"] card_insert1 [of a "insert ?m (set bs)"] False
      by (simp add: log_cost_def)
  qed
  then have co: "log_cost ?m A (add_block ?ad (add_block a (add_block ?m bs))) \<le> Suc (log_cost ?m A bs)"
    using ad by (simp add: log_cost_def [of _ _ "add_block _ _"])
  have "mapped ip (NDIRECT + k) bs A s a t (add_block ?ad (add_block a (add_block ?m bs))) A"
    unfolding mapped_def using t' co icache_same [OF A only_log_fs(1) [OF t'(4)] ip(1)] only_log_file [OF t'(4)] by simp
  then show ?thesis using t'(1,6) co by auto
qed

lemma bmap_indirect:
  fixes s :: "'a fsstate_scheme"
  assumes t: "in_txn {} bs s" and ok: "fs_ok s" "file_ok s A" and ip: "ip < length (icache s)" "i_dev (inode_at s ip) = 1"
    and A: "i_addrs (inode_at s ip) = A" and n: "NDIRECT \<le> unat bn" "unat bn < MAXFILE"
    and c: "log_cost (sb_bmapstart (sb s)) A bs < 28" and f: "need A < nfree s"
  shows "\<exists>a t bs' A'. bmap ip bn s = Done a t \<and> mapped ip (unat bn) bs A s a t bs' A'"
proof -
  let ?k = "unat bn - NDIRECT" and ?m = "sb_bmapstart (sb s)"
  have k: "?k < NINDIRECT" "NDIRECT + ?k = unat bn" using n by simp_all
  have bm: "bmap ip bn s = bindK (bmap_slot ip NDIRECT s) (\<lambda>addr s. bmap_entry ip ?k addr s)"
    using n k by (simp add: bmap_parts)
  show ?thesis
  proof (cases "A ! NDIRECT = 0")
    case False
    have f0: "0 < nfree s" using f by simp
    from entry_mapped [OF t ok ip A False k(1) c f0]
    show ?thesis unfolding k(2) using bm A False by (fastforce simp: bmap_slot_def)
  next
    case True
    have lb: "length bs < 28" by (rule cost_len(1) [OF t c])
    have f1: "1 < nfree s" using f True by (simp add: need_def)
    then have f0: "0 < nfree s" by simp
    obtain d u where u: "bmap_slot ip NDIRECT s = Done d u" "in_txn {} (add_block d (add_block ?m bs)) u" "d \<noteq> 0"
      "icache u = (icache s)[ip := (inode_at s ip)\<lparr>i_addrs := A[NDIRECT := d]\<rparr>]" "only_file s u" "grown s A u (A[NDIRECT := d])"
      "nfree s = Suc (nfree u)" "view u d = replicate BSIZE 0"
      "\<forall>off < MAXFILE * BSIZE. file_byte (view u) (A[NDIRECT := d]) off = file_byte (view s) A off"
      using slot_new [OF t ok ip A order_refl True lb f0] by blast
    let ?A = "A[NDIRECT := d]" and ?bs = "add_block d (add_block ?m bs)"
    have A12: "?A ! NDIRECT = d" using file_okD(1) [OF ok(2)] by simp
    have iu: "inode_at u ip = (inode_at s ip)\<lparr>i_addrs := ?A\<rparr>" "length (icache u) = length (icache s)"
      using u(4) ip(1) by (simp_all add: inode_at_def)
    have sbu: "sb u = sb s" by (rule grownD(3) [OF u(6)])
    have "insert ?m (insert d (insert ?m (set bs))) = insert d (insert ?m (set bs))" by auto
    then have c1: "log_cost ?m ?A ?bs \<le> log_cost ?m A bs"
      using card_insert1 [of d "insert ?m (set bs)"] True u(3) by (simp add: log_cost_def A12)
    then have c2: "log_cost (sb_bmapstart (sb u)) ?A ?bs < 28" using c sbu by simp
    have fu: "0 < nfree u" using f1 u(7) by simp
    have ipu: "ip < length (icache u)" "i_dev (inode_at u ip) = 1" "i_addrs (inode_at u ip) = ?A" using ip iu by simp_all
    have z: "word_at (view u (?A ! NDIRECT)) (4 * ?k) = 0" unfolding A12 u(8) by (rule word_at_zeros) (use k in simp)
    have nz: "?A ! NDIRECT \<noteq> 0" using A12 u(3) by simp
    obtain a t bs' where t': "bmap_entry ip ?k (?A ! NDIRECT) u = Done a t" "mapped ip (unat bn) ?bs ?A u a t bs' ?A"
      "a \<in> set bs'" "log_cost ?m ?A bs' \<le> Suc (log_cost ?m ?A ?bs)" "nfree u = Suc (nfree t)"
      using entry_mapped [OF u(2) grownD(1,2) [OF u(6)] ipu nz k(1) c2 fu] z unfolding k(2) sbu by blast
    have "icache t = (icache s)[ip := (inode_at s ip)\<lparr>i_addrs := ?A\<rparr>]" "only_file u t" "grown u ?A t ?A"
      "faddr (view t) ?A (unat bn) = a" "in_txn {} bs' t" "a \<noteq> 0"
      "\<forall>off < MAXFILE * BSIZE. file_byte (view t) ?A off = file_byte (view u) ?A off"
      using t'(2) u(4) iu(1) unfolding mapped_def by (simp_all add: list_update_overwrite)
    then have "mapped ip (unat bn) bs A s a t bs' ?A"
      unfolding mapped_def
      using u(5,7,9) t'(3,4,5) c1 only_file_trans [OF u(5)] grown_trans [OF u(6)] True nz by (simp add: need_def)
    then show ?thesis using bm u(1) t'(1) A12 by auto
  qed
qed

lemma bmap_spec:
  fixes s :: "'a fsstate_scheme"
  assumes "in_txn {} bs s" "fs_ok s" "file_ok s A" "ip < length (icache s)" "i_dev (inode_at s ip) = 1"
    "i_addrs (inode_at s ip) = A" "unat bn < MAXFILE" "log_cost (sb_bmapstart (sb s)) A bs < 28" "need A < nfree s"
  obtains a t bs' A' where "bmap ip bn s = Done a t" "mapped ip (unat bn) bs A s a t bs' A'"
  using bmap_direct [of bs s A ip bn] bmap_indirect [of bs s A ip bn] assms by (cases "unat bn < NDIRECT") auto

section \<open>Reading\<close>

text \<open>Reading changes nothing but the order of the cache.\<close>

definition quiet :: "'a bstate_scheme \<Rightarrow> 'a bstate_scheme \<Rightarrow> bool" where
  "quiet s t \<longleftrightarrow> (\<exists>ys. cache_ok ys {} t) \<and> view t = view s \<and> disk t = disk s \<and> dirty t = dirty s \<and> only_blocks s t"

lemma quiet_trans: "quiet s t \<Longrightarrow> quiet t u \<Longrightarrow> quiet s u"
  using only_blocks_trans [of s t u] by (auto simp: quiet_def)

lemma quiet_refl: "cache_ok xs {} s \<Longrightarrow> quiet s s"
  by (auto simp: quiet_def)

lemma only_blocks_fs:
  fixes s t :: "'a fsstate_scheme"
  assumes "only_blocks s t"
  shows "icache t = icache s" "sb t = sb s"
  using assms by (auto simp: only_blocks_def)

lemma read_block:
  assumes ok: "cache_ok xs {} s" and lt: "bn < disksize s" and sp: "card (dirty s) < NBUF"
  obtains b u t where "bread 1 bn s = Done b u" "b_data (buf_at u b) = view s bn" "only_blocks s u" "brelse b u = Done () t" "quiet s t"
proof -
  obtain b u where u: "bread 1 bn s = Done b u" "cache_ok xs {b} u" "holds u b bn"
    "b_data (buf_at u b) = view s bn" "view u = view s" "disk u = disk s" "dirty u = dirty s" "only_blocks s u"
    by (rule bread_spec [OF ok lt]) (use spare_room [OF ok] sp in auto)
  have "b_flags (buf_at u b) = 6 \<or> b_data (buf_at u b) = disk u (b_blockno (buf_at u b))"
    using dirty_iff [OF u(2,3)] dirty_disk [OF ok, of bn] u by (cases "bn \<in> dirty s") (auto simp: holds_def)
  then obtain t ys where t: "brelse b u = Done () t" "cache_ok ys ({b} - {b}) t" "view t = view u" "disk t = disk u"
    "dirty t = dirty u" "only_blocks u t"
    by (rule brelse_spec [OF u(2), of b, rotated]) auto
  have "quiet s t" using t u only_blocks_trans [OF u(8) t(6)] by (auto simp: quiet_def)
  then show thesis by (rule that [OF u(1,4,8) t(1)])
qed

lemma bmap_read:
  fixes s :: "'a fsstate_scheme"
  assumes ok: "cache_ok xs {} s" "card (dirty s) < NBUF" "fs_ok s" "file_ok s A" and ip: "i_dev (inode_at s ip) = 1"
    and A: "i_addrs (inode_at s ip) = A" and n: "unat bn < MAXFILE" "faddr (view s) A (unat bn) \<noteq> 0"
  obtains t where "bmap ip bn s = Done (faddr (view s) A (unat bn)) t" "quiet s t"
proof (cases "unat bn < NDIRECT")
  case True
  then have "bmap ip bn s = Done (faddr (view s) A (unat bn)) s" using n A by (simp add: bmap_parts bmap_slot_def faddr_def)
  then show thesis using that quiet_refl [OF ok(1)] by blast
next
  case False
  let ?ad = "A ! NDIRECT"
  have ad: "?ad \<noteq> 0" using n(2) False by (auto simp: faddr_def)
  obtain b u t where t: "bread 1 ?ad s = Done b u" "b_data (buf_at u b) = view s ?ad" "only_blocks s u" "brelse b u = Done () t"
    "quiet s t"
    by (rule read_block [OF ok(1) data_blockD(1) [OF fs_okD(1) [OF ok(3)] indirect_block(1) [OF ok(3,4) ad]] ok(2)])
  have "bmap ip bn s = Done (faddr (view s) A (unat bn)) t"
    using False n A ad ip t(1,2,4) by (simp add: bmap_parts bmap_slot_def bmap_entry_def faddr_def Let_def)
  then show thesis by (rule that [OF _ t(5)])
qed

lemma same_block:
  fixes o' i :: nat
  assumes "o' mod 512 + i < 512"
  shows "(o' + i) div 512 = o' div 512 \<and> (o' + i) mod 512 = o' mod 512 + i"
proof -
  have "o' + i = 512 * (o' div 512) + (o' mod 512 + i)" by simp
  with assms show ?thesis by (metis div_mult_self4 div_less mod_less mod_mult_self4 add_0_right add.commute zero_neq_numeral)
qed

lemma chunk_bytes:
  assumes a: "faddr V A (o' div BSIZE) = a" "a \<noteq> 0" and len: "length (V a) = BSIZE" and m: "o' mod BSIZE + m \<le> BSIZE"
  shows "get_at (V a) (o' mod BSIZE) m = map (file_byte V A) [o'..<o' + m]"
proof (rule nth_equalityI)
  show "length (get_at (V a) (o' mod BSIZE) m) = length (map (file_byte V A) [o'..<o' + m])"
    using len m by (simp add: get_at_def)
  fix i assume "i < length (get_at (V a) (o' mod BSIZE) m)"
  then have i: "i < m" using len m by (simp add: get_at_def)
  then have "(o' + i) div BSIZE = o' div BSIZE \<and> (o' + i) mod BSIZE = o' mod BSIZE + i"
    by (intro same_block) (use m in simp)
  then show "get_at (V a) (o' mod BSIZE) m ! i = map (file_byte V A) [o'..<o' + m] ! i"
    using i a len m by (simp add: get_at_def file_byte_def)
qed

text \<open>
  The inode \<open>ip\<close> is a file with a consistent set of blocks and without holes; its contents are a
  list of bytes.
\<close>

definition file_inv :: "'a fsstate_scheme \<Rightarrow> nat \<Rightarrow> bool" where
  "file_inv s ip \<longleftrightarrow> fs_ok s \<and> ip < length (icache s) \<and> i_dev (inode_at s ip) = 1 \<and> i_type (inode_at s ip) \<noteq> T_DEV
     \<and> file_ok s (i_addrs (inode_at s ip)) \<and> unat (i_size (inode_at s ip)) \<le> MAXFILE * BSIZE
     \<and> (\<forall>n. n * BSIZE < unat (i_size (inode_at s ip)) \<longrightarrow> faddr (view s) (i_addrs (inode_at s ip)) n \<noteq> 0)"

definition contents :: "'a fsstate_scheme \<Rightarrow> nat \<Rightarrow> u8 list" where
  "contents s ip = map (file_byte (view s) (i_addrs (inode_at s ip))) [0..<unat (i_size (inode_at s ip))]"

lemma length_contents [simp]: "length (contents s ip) = unat (i_size (inode_at s ip))"
  by (simp add: contents_def)

lemma file_invD:
  assumes "file_inv s ip"
  shows "fs_ok s" "ip < length (icache s)" "i_dev (inode_at s ip) = 1" "i_type (inode_at s ip) \<noteq> T_DEV"
    "file_ok s (i_addrs (inode_at s ip))" "unat (i_size (inode_at s ip)) \<le> MAXFILE * BSIZE"
    "n * BSIZE < unat (i_size (inode_at s ip)) \<Longrightarrow> faddr (view s) (i_addrs (inode_at s ip)) n \<noteq> 0"
  using assms by (simp_all add: file_inv_def)

lemma quiet_file:
  fixes s t :: "'a fsstate_scheme"
  assumes "quiet s t"
  shows "file_inv t ip = file_inv s ip" "contents t ip = contents s ip" "inode_at t ip = inode_at s ip"
proof -
  have o: "only_log s t" and v: "view t = view s" using assms only_blocks_only_log by (auto simp: quiet_def)
  show i: "inode_at t ip = inode_at s ip" by (simp add: inode_at_def only_log_fs(1) [OF o])
  show "contents t ip = contents s ip" by (simp add: contents_def i v)
  show "file_inv t ip = file_inv s ip"
    by (simp add: file_inv_def i v same_view(1,3) [OF o v] only_log_fs(1) [OF o])
qed

lemma unat_step: "unat (off :: u32) + m < 2 ^ 32 \<Longrightarrow> unat (off + of_nat m) = unat off + m"
  by (simp add: unat_word_ariths unat_of_nat)

lemma unat_off_div: "unat ((off :: u32) div of_nat BSIZE) = unat off div BSIZE"
  by (simp add: unat_div)

lemma readi_loop_spec:
  fixes s :: "'a fsstate_scheme"
  assumes "cache_ok xs {} s" "card (dirty s) < NBUF" "file_inv s ip" "unat off + r \<le> unat (i_size (inode_at s ip))"
  shows "\<exists>t. readi_loop ip off r dst s
      = Done (dst @ map (file_byte (view s) (i_addrs (inode_at s ip))) [unat off..<unat off + r]) t \<and> quiet s t"
  using assms
proof (induction r arbitrary: off dst s xs rule: less_induct)
  case (less r)
  note I = file_invD [OF less.prems(3)]
  let ?A = "i_addrs (inode_at s ip)" and ?o = "unat off"
  show ?case
  proof (cases "r = 0")
    case True
    then show ?thesis using quiet_refl [OF less.prems(1)] by (simp add: readi_loop.simps)
  next
    case False
    define m where "m = chunk r off"
    have m: "0 < m" "m \<le> r" "?o mod BSIZE + m \<le> BSIZE" using False by (auto simp: m_def chunk_def)
    have bn: "unat (off div of_nat BSIZE) = ?o div BSIZE" by (rule unat_off_div)
    have o2: "?o + r \<le> MAXFILE * BSIZE" using less.prems(4) I(6) by simp
    have "?o div BSIZE * BSIZE \<le> ?o" by simp
    then have lt: "?o div BSIZE * BSIZE < unat (i_size (inode_at s ip))" using less.prems(4) False by linarith
    have nb: "?o div BSIZE < MAXFILE" using o2 False by (intro less_mult_imp_div_less) simp
    define a where "a = faddr (view s) ?A (?o div BSIZE)"
    have a0: "a \<noteq> 0" unfolding a_def by (rule I(7) [OF lt])
    obtain u where u: "bmap ip (off div of_nat BSIZE) s = Done a u" "quiet s u"
      using bmap_read [OF less.prems(1,2) I(1,5,3) refl, of "off div of_nat BSIZE"] nb a0 unfolding bn a_def by blast
    obtain ys where qu: "cache_ok ys {} u" "view u = view s" "card (dirty u) < NBUF" "only_blocks s u"
      using u(2) less.prems(2) by (auto simp: quiet_def)
    have "data_block s a" using file_okD(2) [OF I(5), of "?o div BSIZE"] nb a0 by (simp add: node_faddr a_def)
    then have da: "a < disksize u"
      using data_blockD(1) [OF fs_okD(1) [OF I(1)]] only_blocksD(2) [OF qu(4)] by simp
    obtain b v w where w: "bread 1 a u = Done b v" "b_data (buf_at v b) = view u a" "brelse b v = Done () w" "quiet u w"
      by (rule read_block [OF qu(1) da qu(3)])
    note qw = quiet_trans [OF u(2) w(4)]
    obtain zs where okw: "cache_ok zs {} w" "card (dirty w) < NBUF" "view w = view s"
      using qw less.prems(2) by (auto simp: quiet_def)
    have "?o + m < 2 ^ 32" using o2 m(2) by simp
    from unat_step [OF this] have um: "unat (off + of_nat m) = ?o + m" .
    have lem: "unat (off + of_nat m) + (r - m) \<le> unat (i_size (inode_at w ip))"
      using less.prems(4) m(2) quiet_file(3) [OF qw] um by simp
    have fi: "file_inv w ip" using less.prems(3) quiet_file(1) [OF qw] by simp
    have rm: "r - m < r" and om: "?o + m + (r - m) = ?o + r" using m by simp_all
    obtain t where t: "readi_loop ip (off + of_nat m) (r - m) (dst @ get_at (view s a) (?o mod BSIZE) m) w
      = Done ((dst @ get_at (view s a) (?o mod BSIZE) m) @ map (file_byte (view s) ?A) [?o + m..<?o + r]) t" "quiet w t"
      using less.IH [OF rm okw(1,2) fi lem] unfolding um okw(3) quiet_file(3) [OF qw] om by blast
    have "get_at (view s a) (?o mod BSIZE) m = map (file_byte (view s) ?A) [?o..<?o + m]"
      by (rule chunk_bytes [OF a_def [symmetric] a0 fs_okD(2) [OF I(1)] m(3)])
    then have bytes: "(dst @ get_at (view s a) (?o mod BSIZE) m) @ map (file_byte (view s) ?A) [?o + m..<?o + r]
      = dst @ map (file_byte (view s) ?A) [?o..<?o + r]"
      using m(2) upt_add_eq_append [of ?o "?o + m" "r - m"] by simp
    have "readi_loop ip off r dst s = readi_loop ip (off + of_nat m) (r - m) (dst @ get_at (view s a) (?o mod BSIZE) m) w"
      using False u(1) w(1,2,3) I(3) quiet_file(3) [OF u(2), of ip] qu(2)
      by (simp add: readi_loop.simps [of ip off r] Let_def m_def)
    then show ?thesis using t bytes quiet_trans [OF qw t(2)] by auto
  qed
qed

lemma readi_spec:
  fixes s :: "'a fsstate_scheme"
  assumes ok: "cache_ok xs {} s" "card (dirty s) < NBUF" "file_inv s ip" and off: "off \<le> i_size (inode_at s ip)" "unat off + unat n < 2 ^ 32"
  shows "\<exists>t. readi dsw ip off n s
      = Done (int (length (take (unat n) (drop (unat off) (contents s ip)))), take (unat n) (drop (unat off) (contents s ip))) t
    \<and> quiet s t"
proof -
  note I = file_invD [OF ok(3)]
  let ?sz = "i_size (inode_at s ip)"
  define k where "k = (if off + n > ?sz then ?sz - off else n)"
  have us: "unat (off + n) = unat off + unat n" using off(2) by (simp add: unat_word_ariths)
  have uk: "unat k = min (unat n) (unat ?sz - unat off)"
    using off(1) us by (auto simp: k_def word_less_nat_alt word_le_nat_alt unat_sub)
  have le: "unat off \<le> unat ?sz" using off(1) by (simp add: word_le_nat_alt)
  have kl: "unat off + unat k \<le> unat ?sz" using uk le by simp
  obtain t where t: "readi_loop ip off (unat k) [] s
      = Done (map (file_byte (view s) (i_addrs (inode_at s ip))) [unat off..<unat off + unat k]) t" "quiet s t"
    using readi_loop_spec [OF ok kl, of "[]"] by auto
  have bytes: "take (unat n) (drop (unat off) (contents s ip)) = map (file_byte (view s) (i_addrs (inode_at s ip))) [unat off..<unat off + unat k]"
    unfolding contents_def uk using le by (simp add: drop_map take_map take_upt min_def)
  have sk: "sint k = int (unat k)"
    using uk I(6) by (subst sint_unat32) simp
  have "readi dsw ip off n s = bindK (readi_loop ip off (unat k) [] s) (\<lambda>d s. Done (sint k, d) s)"
    using I(4) off(1) us by (simp add: readi_def k_def Let_def word_less_nat_alt word_le_nat_alt not_less)
  then show ?thesis unfolding bytes using t sk by simp
qed

section \<open>Writing\<close>

text \<open>The number of blocks that the bytes from \<open>o'\<close> on touch.\<close>

definition chunks :: "nat \<Rightarrow> nat \<Rightarrow> nat" where
  "chunks o' n = (if n = 0 then 0 else (o' + n - 1) div BSIZE - o' div BSIZE + 1)"

lemma chunks_step:
  assumes "0 < n" and m: "m = min n (BSIZE - o' mod BSIZE)"
  shows "chunks o' n = Suc (chunks (o' + m) (n - m))"
proof (cases "n \<le> BSIZE - o' mod BSIZE")
  case True
  then have mn: "m = n" using m by simp
  have "o' mod 512 + (n - 1) < 512" using True assms(1) mod_less_divisor [of 512 o'] by linarith
  from same_block [OF this] have "(o' + n - 1) div 512 = o' div 512" using assms(1) by simp
  then show ?thesis using assms(1) mn by (simp add: chunks_def)
next
  case False
  then have mv: "m = 512 - o' mod 512" "m < n" using m by simp_all
  define q r where "q = o' div 512" and "r = o' mod 512"
  have "o' = 512 * q + r" "r < 512" by (simp_all add: q_def r_def)
  then have "o' + m = 512 * Suc q" using mv(1) [folded r_def] by simp
  then have om: "o' + m = 512 * Suc (o' div 512)" by (simp only: q_def)
  then have d: "(o' + m) div 512 = Suc (o' div 512)" by simp
  have e: "o' + n - 1 = (o' + m) + (n - m) - 1" using mv(2) by simp
  have "Suc (o' div 512) \<le> (o' + n - 1) div 512"
  proof -
    have "o' + m \<le> o' + n - 1" using mv(2) by simp
    then show ?thesis using div_le_mono [of "o' + m" "o' + n - 1" 512] d by simp
  qed
  then have "(o' + n - 1) div 512 - o' div 512 = Suc ((o' + n - 1) div 512 - Suc (o' div 512))" by linarith
  then show ?thesis using assms(1) mv(2) d e by (simp add: chunks_def)
qed

definition overlay :: "(nat \<Rightarrow> u8) \<Rightarrow> nat \<Rightarrow> u8 list \<Rightarrow> nat \<Rightarrow> u8" where
  "overlay f o' src p = (if o' \<le> p \<and> p < o' + length src then src ! (p - o') else f p)"

lemma overlay_Nil [simp]: "overlay f o' [] p = f p"
  by (auto simp: overlay_def)

lemma overlay_cong: "f p = g p \<Longrightarrow> overlay f o' src p = overlay g o' src p"
  by (simp add: overlay_def)

lemma overlay_split:
  assumes "m \<le> length src"
  shows "overlay (overlay f o' (take m src)) (o' + m) (drop m src) p = overlay f o' src p"
  using assms by (auto simp: overlay_def min_def not_less nth_append)

lemma data_write:
  fixes s :: "'a fsstate_scheme"
  assumes ok: "fs_ok s" "file_ok s A" and n: "n < MAXFILE" "faddr (view s) A n = a" "a \<noteq> 0"
    and t: "only_log s t" "view t = (view s)(a := d)" and d: "length d = BSIZE"
  shows "grown s A t A" "nfree t = nfree s" "k \<le> MAXFILE \<Longrightarrow> node (view t) A k = node (view s) A k"
    "p < MAXFILE * BSIZE \<Longrightarrow> file_byte (view t) A p = (if p div BSIZE = n then d ! (p mod BSIZE) else file_byte (view s) A p)"
proof -
  have na: "node (view s) A n = a" using n by (simp add: node_def)
  have da: "data_block s a" "in_use s a" using file_okD(2,3) [OF ok(2), of n] n na by simp_all
  have sbt: "sb t = sb s" by (rule only_log_fs(2) [OF t(1)])
  have bm: "a \<noteq> sb_bmapstart (sb s)" by (rule data_blockD(3) [OF fs_okD(1) [OF ok(1)] da(1)])
  have use: "in_use t = in_use s" using bm by (simp add: fun_eq_iff in_use_def t(2) sbt)
  have dt: "data_block t = data_block s" by (simp add: fun_eq_iff data_block_def sbt)
  have ind: "A ! NDIRECT \<noteq> a" using file_okD(4) [OF ok(2), of MAXFILE n] n na by (auto simp: node_ind)
  have node: "node (view t) A k = node (view s) A k" for k using ind by (simp add: node_def faddr_def t(2))
  then show "k \<le> MAXFILE \<Longrightarrow> node (view t) A k = node (view s) A k" by simp
  have ft: "fs_ok t" using fs_okD(2) [OF ok(1)] ok(1) d geometry_only [OF t(1)] by (simp add: fs_ok_def t(2) use sbt)
  have "file_ok t A" using ok(2) unfolding file_ok_def node use dt .
  moreover have "view t b = view s b" if "foreign s A b" for b
    using that n na by (auto simp: foreign_def t(2) dest: spec [of _ n])
  ultimately show "grown s A t A" unfolding grown_def using ft sbt node use by simp
  show "nfree t = nfree s" by (simp add: nfree_def use sbt)
  show "file_byte (view t) A p = (if p div BSIZE = n then d ! (p mod BSIZE) else file_byte (view s) A p)"
    if p: "p < MAXFILE * BSIZE"
  proof -
    have l: "p div BSIZE < MAXFILE" using p by (simp add: less_mult_imp_div_less)
    have f: "faddr (view t) A k = faddr (view s) A k" for k using ind by (simp add: faddr_def t(2))
    have ne: "faddr (view s) A (p div BSIZE) \<noteq> a" if "p div BSIZE \<noteq> n"
    proof
      assume e: "faddr (view s) A (p div BSIZE) = a"
      then have "p div BSIZE = n" using file_okD(4) [OF ok(2), of "p div BSIZE" n] l n na by (simp add: node_def)
      with that show False by simp
    qed
    show ?thesis
    proof (cases "p div BSIZE = n")
      case True
      then show ?thesis using n by (simp only: file_byte_def f Let_def) (simp add: t(2))
    next
      case False
      then have "view t (faddr (view s) A (p div BSIZE)) = view s (faddr (view s) A (p div BSIZE))" using ne by (simp add: t(2))
      then show ?thesis using False by (simp only: file_byte_def f Let_def if_False)
    qed
  qed
qed

text \<open>Writing \<open>xs\<close> at \<open>o'\<close> inside one block.\<close>

lemma data_write_overlay:
  fixes s :: "'a fsstate_scheme"
  assumes ok: "fs_ok s" "file_ok s A" and n: "o' div BSIZE < MAXFILE" "faddr (view s) A (o' div BSIZE) = a" "a \<noteq> 0"
    and t: "only_log s t" "view t = (view s)(a := put_at (view s a) (o' mod BSIZE) xs)"
    and m: "o' mod BSIZE + length xs \<le> BSIZE" and p: "p < MAXFILE * BSIZE"
  shows "file_byte (view t) A p = overlay (file_byte (view s) A) o' xs p"
proof -
  have len: "length (view s a) = 512" using fs_okD(2) [OF ok(1)] by simp
  have l: "length (put_at (view s a) (o' mod 512) xs) = 512" using length_put_at [of "o' mod 512" xs "view s a"] len m by simp
  have F: "file_byte (view t) A p = (if p div 512 = o' div 512 then put_at (view s a) (o' mod 512) xs ! (p mod 512) else file_byte (view s) A p)"
    using data_write(4) [OF ok n t l p] by simp
  show ?thesis
  proof (cases "p div 512 = o' div 512")
    case True
    have pm: "p = 512 * (o' div 512) + p mod 512" using True mult_div_mod_eq [of 512 p] by simp
    have om: "o' = 512 * (o' div 512) + o' mod 512" by simp
    have cmp: "o' \<le> p \<longleftrightarrow> o' mod 512 \<le> p mod 512" "p < o' + length xs \<longleftrightarrow> p mod 512 < o' mod 512 + length xs"
      "p - o' = p mod 512 - o' mod 512" using pm om by linarith+
    have "file_byte (view s) A p = view s a ! (p mod 512)" using True n by (simp add: file_byte_def)
    then show ?thesis
      using F True nth_put_at [of "o' mod 512" xs "view s a" "p mod 512"] len m cmp by (simp add: overlay_def)
  next
    case False
    have "\<not> (o' \<le> p \<and> p < o' + length xs)"
    proof
      assume a: "o' \<le> p \<and> p < o' + length xs"
      then have "o' mod 512 + (p - o') < 512" using m by linarith
      from same_block [OF this] a False show False by simp
    qed
    then show ?thesis using F False by (auto simp: overlay_def)
  qed
qed

text \<open>What the loop of \<open>writei\<close> has done after writing \<open>src\<close> at \<open>o'\<close>.\<close>

definition wrote_file :: "nat \<Rightarrow> nat \<Rightarrow> u8 list \<Rightarrow> u32 list \<Rightarrow> u32 list \<Rightarrow> 'a fsstate_scheme \<Rightarrow> 'a fsstate_scheme
    \<Rightarrow> u32 list \<Rightarrow> u32 list \<Rightarrow> bool" where
  "wrote_file ip o' src bs A s t bs' A' \<longleftrightarrow> in_txn {} bs' t
     \<and> icache t = (icache s)[ip := (inode_at s ip)\<lparr>i_addrs := A'\<rparr>] \<and> only_file s t \<and> grown s A t A'
     \<and> (\<forall>p < MAXFILE * BSIZE. file_byte (view t) A' p = overlay (file_byte (view s) A) o' src p)
     \<and> (\<forall>p. o' \<le> p \<longrightarrow> p < o' + length src \<longrightarrow> faddr (view t) A' (p div BSIZE) \<noteq> 0)
     \<and> log_cost (sb_bmapstart (sb s)) A' bs' \<le> log_cost (sb_bmapstart (sb s)) A bs + chunks o' (length src)
     \<and> nfree s + need A' \<le> nfree t + need A + chunks o' (length src)"

lemma add_block_in: "a \<in> set bs \<Longrightarrow> add_block a bs = bs"
  by (simp add: add_block_def)

lemma log_cost_add: "log_cost m A (add_block a bs) \<le> Suc (log_cost m A bs)"
  using card_insert1 [of a "insert m (set bs)"] by (auto simp: log_cost_def insert_commute [of m a])

text \<open>One round of the loop: \<open>bmap\<close>, then the data goes into the block.\<close>

lemma write_chunk:
  fixes s :: "'a fsstate_scheme"
  assumes t: "in_txn {} bs s" and ok: "fs_ok s" "file_ok s A" and ip: "ip < length (icache s)" "i_dev (inode_at s ip) = 1"
    and A: "i_addrs (inode_at s ip) = A" and o: "unat off < MAXFILE * BSIZE" and m: "unat off mod BSIZE + length xs \<le> BSIZE" "xs \<noteq> []"
    and c: "log_cost (sb_bmapstart (sb s)) A bs < 28" and f: "need A < nfree s"
  shows "\<exists>a u b v w t bs' A'. bmap ip (off div of_nat BSIZE) s = Done a u \<and> i_dev (inode_at u ip) = 1 \<and> bread 1 a u = Done b v
    \<and> log_write b (upd_buf b (\<lambda>x. x\<lparr>b_data := put_at (b_data x) (unat off mod BSIZE) xs\<rparr>) v) = Done () w \<and> brelse b w = Done () t
    \<and> wrote_file ip (unat off) xs bs A s t bs' A'"
proof -
  let ?o = "unat off" and ?m = "sb_bmapstart (sb s)"
  have bn: "unat (off div of_nat BSIZE) = ?o div BSIZE" by (rule unat_off_div)
  have nb: "?o div BSIZE < MAXFILE" using o by (simp add: less_mult_imp_div_less)
  obtain a u bs1 A' where u: "bmap ip (off div of_nat BSIZE) s = Done a u" "mapped ip (?o div BSIZE) bs A s a u bs1 A'"
    using bmap_spec [OF t ok ip A _ c f, of "off div of_nat BSIZE"] nb unfolding bn by blast
  have U: "in_txn {} bs1 u" "a \<noteq> 0" "icache u = (icache s)[ip := (inode_at s ip)\<lparr>i_addrs := A'\<rparr>]" "only_file s u"
    "grown s A u A'" "faddr (view u) A' (?o div BSIZE) = a" "nfree s + need A' \<le> Suc (nfree u + need A)"
    "\<forall>p < MAXFILE * BSIZE. file_byte (view u) A' p = file_byte (view s) A p"
    and cost: "a \<in> set bs1 \<and> log_cost ?m A' bs1 \<le> Suc (log_cost ?m A bs) \<or> bs1 = bs \<and> A' = A"
    using u(2) unfolding mapped_def by simp_all
  note okU = grownD(1,2) [OF U(5)]
  have cu: "log_cost ?m A' bs1 \<le> Suc (log_cost ?m A bs)" using cost by auto
  have da: "data_block u a" using file_okD(2) [OF okU(2), of "?o div BSIZE"] nb U(2,6) by (simp add: node_def)
  note D = data_blockD [OF fs_okD(1) [OF okU(1)] da]
  have l1: "length bs1 < 29" using cost_len(1) [OF U(1), of ?m A' 29] cu c by simp
  obtain b v where v: "bread 1 a u = Done b v" "in_txn (insert b {}) bs1 v" "b \<notin> {}" "holds v b a"
    "b_data (buf_at v b) = view u a" "view v = view u" "only_log u v"
    by (rule grab_block [OF U(1) D(1)]) (use l1 in auto)
  have Dv: "a < disksize v" "\<not> in_log (log_start v) a" using D(1,2) only_logD [OF v(7)] by simp_all
  obtain w t where t': "log_write b (upd_buf b (\<lambda>x. x\<lparr>b_data := put_at (b_data x) (?o mod BSIZE) xs\<rparr>) v) = Done () w"
    "brelse b w = Done () t" "in_txn {} (add_block a bs1) t" "view t = (view u)(a := put_at (view u a) (?o mod BSIZE) xs)" "only_log v t"
    using save_block [OF v(2-4) Dv l1, of "\<lambda>x. put_at (b_data x) (?o mod BSIZE) xs"] v(5,6) by auto
  note ot = only_log_trans [OF v(7) t'(5)]
  have len: "length (put_at (view u a) (?o mod BSIZE) xs) = BSIZE"
    using length_put_at [of "?o mod BSIZE" xs "view u a"] fs_okD(2) [OF okU(1)] m(1) by simp
  note W = data_write [OF okU nb U(6,2) ot t'(4) len]
  have bytes: "file_byte (view t) A' p = overlay (file_byte (view s) A) ?o xs p" if p: "p < MAXFILE * BSIZE" for p
    using data_write_overlay [OF okU nb U(6,2) ot t'(4) m(1) p] U(8) p by (simp add: overlay_def)
  have here: "faddr (view t) A' (p div BSIZE) \<noteq> 0" if "?o \<le> p" "p < ?o + length xs" for p
  proof -
    have "?o mod 512 + (p - ?o) < 512" using that m(1) by simp
    from same_block [OF this] that(1) have "p div BSIZE = ?o div BSIZE" by simp
    then show ?thesis using W(3) [of "?o div BSIZE"] nb U(2,6) by (simp add: node_def)
  qed
  have cst: "log_cost ?m A' (add_block a bs1) \<le> Suc (log_cost ?m A bs)"
    using cost log_cost_add [of ?m A a bs] by (auto simp: add_block_in)
  have ch: "chunks ?o (length xs) = 1"
  proof -
    have "?o mod 512 + (length xs - 1) < 512" using m by (cases xs) simp_all
    from same_block [OF this] show ?thesis using m(2) by (cases xs) (simp_all add: chunks_def)
  qed
  have "wrote_file ip ?o xs bs A s t (add_block a bs1) A'"
    unfolding wrote_file_def ch
    using t'(3) U(3,7) only_log_fs(1) [OF ot] only_file_trans [OF U(4) only_log_file [OF ot]] grown_trans [OF U(5) W(1)]
      bytes here cst W(2) by simp
  moreover have "i_dev (inode_at u ip) = 1" using U(3) ip by (simp add: inode_at_def)
  ultimately show ?thesis using u(1) v(1) t'(1,2) by blast
qed

lemma wrote_file_trans:
  fixes s :: "'a fsstate_scheme"
  assumes w: "wrote_file ip o' (take m src) bs A s t bs1 A1" and v: "wrote_file ip (o' + m) (drop m src) bs1 A1 t u bs2 A2"
    and m: "m \<le> length src" and ip: "ip < length (icache s)" and len: "o' + length src \<le> MAXFILE * BSIZE"
    and ch: "chunks o' (length src) = chunks o' m + chunks (o' + m) (length src - m)"
  shows "wrote_file ip o' src bs A s u bs2 A2"
proof -
  have W: "icache t = (icache s)[ip := (inode_at s ip)\<lparr>i_addrs := A1\<rparr>]" "only_file s t" "grown s A t A1"
    "\<And>p. p < MAXFILE * BSIZE \<Longrightarrow> file_byte (view t) A1 p = overlay (file_byte (view s) A) o' (take m src) p"
    "\<And>p. o' \<le> p \<Longrightarrow> p < o' + m \<Longrightarrow> faddr (view t) A1 (p div BSIZE) \<noteq> 0"
    "log_cost (sb_bmapstart (sb s)) A1 bs1 \<le> log_cost (sb_bmapstart (sb s)) A bs + chunks o' m"
    "nfree s + need A1 \<le> nfree t + need A + chunks o' m"
    using w m unfolding wrote_file_def by simp_all
  have V: "in_txn {} bs2 u" "icache u = (icache t)[ip := (inode_at t ip)\<lparr>i_addrs := A2\<rparr>]" "only_file t u" "grown t A1 u A2"
    "\<And>p. p < MAXFILE * BSIZE \<Longrightarrow> file_byte (view u) A2 p = overlay (file_byte (view t) A1) (o' + m) (drop m src) p"
    "\<And>p. o' + m \<le> p \<Longrightarrow> p < o' + length src \<Longrightarrow> faddr (view u) A2 (p div BSIZE) \<noteq> 0"
    "log_cost (sb_bmapstart (sb t)) A2 bs2 \<le> log_cost (sb_bmapstart (sb t)) A1 bs1 + chunks (o' + m) (length src - m)"
    "nfree t + need A2 \<le> nfree u + need A1 + chunks (o' + m) (length src - m)"
    using v m unfolding wrote_file_def by simp_all
  have ic: "icache u = (icache s)[ip := (inode_at s ip)\<lparr>i_addrs := A2\<rparr>]"
    using V(2) W(1) ip by (simp add: inode_at_def)
  have bytes: "file_byte (view u) A2 p = overlay (file_byte (view s) A) o' src p" if p: "p < MAXFILE * BSIZE" for p
  proof -
    have "overlay (file_byte (view t) A1) (o' + m) (drop m src) p
      = overlay (overlay (file_byte (view s) A) o' (take m src)) (o' + m) (drop m src) p"
      by (rule overlay_cong) (rule W(4) [OF p])
    then show ?thesis using V(5) [OF p] overlay_split [OF m, of "file_byte (view s) A" o' p] by simp
  qed
  have here: "faddr (view u) A2 (p div BSIZE) \<noteq> 0" if p: "o' \<le> p" "p < o' + length src" for p
  proof (cases "p < o' + m")
    case True
    have n: "p div BSIZE < MAXFILE" using p(2) len by (simp add: less_mult_imp_div_less)
    then show ?thesis using W(5) [OF p(1) True] grownD(4) [OF V(4), of "p div BSIZE"] by (simp add: node_def)
  next
    case False
    then show ?thesis using V(6) [of p] p(2) by simp
  qed
  show ?thesis
    unfolding wrote_file_def ch
    using V(1,7,8) ic only_file_trans [OF W(2) V(3)] grown_trans [OF W(3) V(4)] bytes here W(6,7) grownD(3) [OF W(3)] by simp
qed

lemma writei_loop_spec:
  fixes s :: "'a fsstate_scheme"
  assumes "in_txn {} bs s" "fs_ok s" "file_ok s A" "ip < length (icache s)" "i_dev (inode_at s ip) = 1"
    "i_addrs (inode_at s ip) = A" "unat off + length src \<le> MAXFILE * BSIZE"
    "log_cost (sb_bmapstart (sb s)) A bs + chunks (unat off) (length src) \<le> 28"
    "need A + chunks (unat off) (length src) \<le> nfree s"
  shows "\<exists>t bs' A'. writei_loop ip off src s = Done (off + of_nat (length src)) t \<and> wrote_file ip (unat off) src bs A s t bs' A'"
  using assms
proof (induction "length src" arbitrary: src off s bs A rule: less_induct)
  case less
  note P = less.prems
  let ?o = "unat off"
  show ?case
  proof (cases "src = []")
    case True
    have "wrote_file ip ?o [] bs A s s bs A"
      unfolding wrote_file_def
      using P(1) icache_same [OF P(6) refl P(4)] only_log_file [OF only_log_refl [of s]] grown_refl [OF P(2,3)]
      by (simp add: chunks_def)
    then show ?thesis using True by (auto simp: writei_loop.simps)
  next
    case False
    define m where "m = chunk (length src) off"
    have m: "0 < m" "m \<le> length src" "?o mod BSIZE + m \<le> BSIZE" using False by (auto simp: m_def chunk_def)
    have ch: "chunks ?o (length src) = Suc (chunks (?o + m) (length src - m))"
      by (rule chunks_step) (use False in \<open>simp_all add: m_def chunk_def\<close>)
    have c1: "chunks ?o m = 1"
      using chunks_step [of m m ?o] m by (simp add: chunks_def)
    have o1: "?o < MAXFILE * BSIZE" using P(7) False by (cases src) simp_all
    have lt: "length (take m src) = m" "take m src \<noteq> []" using m by auto
    have mm: "?o mod BSIZE + length (take m src) \<le> BSIZE" using lt(1) m(3) by simp
    have c28: "log_cost (sb_bmapstart (sb s)) A bs < 28" "need A < nfree s" using P(8,9) ch by simp_all
    obtain a u b v w t bs1 A1 where r: "bmap ip (off div of_nat BSIZE) s = Done a u" "i_dev (inode_at u ip) = 1" "bread 1 a u = Done b v"
      "log_write b (upd_buf b (\<lambda>x. x\<lparr>b_data := put_at (b_data x) (?o mod BSIZE) (take m src)\<rparr>) v) = Done () w" "brelse b w = Done () t"
      "wrote_file ip ?o (take m src) bs A s t bs1 A1"
      using write_chunk [OF P(1-6) o1 mm lt(2) c28] by blast
    have W: "in_txn {} bs1 t" "icache t = (icache s)[ip := (inode_at s ip)\<lparr>i_addrs := A1\<rparr>]" "grown s A t A1"
      "log_cost (sb_bmapstart (sb s)) A1 bs1 \<le> Suc (log_cost (sb_bmapstart (sb s)) A bs)" "nfree s + need A1 \<le> Suc (nfree t + need A)"
      using r(6) c1 lt(1) unfolding wrote_file_def by simp_all
    have uo: "unat (off + of_nat m) = ?o + m" by (rule unat_step) (use P(7) m(2) in simp)
    have it: "inode_at t ip = (inode_at s ip)\<lparr>i_addrs := A1\<rparr>" "length (icache t) = length (icache s)"
      using W(2) P(4) by (simp_all add: inode_at_def)
    have sbt: "sb t = sb s" by (rule grownD(3) [OF W(3)])
    have h: "length (drop m src) < length src" "ip < length (icache t)" "i_dev (inode_at t ip) = 1" "i_addrs (inode_at t ip) = A1"
      "unat (off + of_nat m) + length (drop m src) \<le> MAXFILE * BSIZE"
      "log_cost (sb_bmapstart (sb t)) A1 bs1 + chunks (unat (off + of_nat m)) (length (drop m src)) \<le> 28"
      "need A1 + chunks (unat (off + of_nat m)) (length (drop m src)) \<le> nfree t"
      using m it P(4,5,7,8,9) ch W(4,5) by (simp_all add: uo sbt)
    obtain t2 bs2 A2 where t2: "writei_loop ip (off + of_nat m) (drop m src) t = Done (off + of_nat m + of_nat (length (drop m src))) t2"
      "wrote_file ip (?o + m) (drop m src) bs1 A1 t t2 bs2 A2"
      using less.hyps [OF h(1) W(1) grownD(1,2) [OF W(3)] h(2-)] unfolding uo by blast
    have cc: "chunks ?o (length src) = chunks ?o m + chunks (?o + m) (length src - m)" using ch c1 by simp
    have "wrote_file ip ?o src bs A s t2 bs2 A2"
      by (rule wrote_file_trans [OF r(6) t2(2) m(2) P(4,7) cc])
    moreover have "writei_loop ip off src s = Done (off + of_nat (length src)) t2"
      using False r(1-5) t2(1) m(2) by (simp add: writei_loop.simps [of ip off src] Let_def m_def [symmetric] add.assoc flip: of_nat_add)
    ultimately show ?thesis by blast
  qed
qed

text \<open>The inode's own block on disk.\<close>

lemma IBLOCK_meta:
  assumes g: "geometry s" and i: "unat inum < unat (sb_ninodes (sb s))"
  shows "IBLOCK inum (sb s) < sb_bmapstart (sb s)" "IBLOCK inum (sb s) < disksize s" "\<not> in_log (log_start s) (IBLOCK inum (sb s))"
proof -
  have "unat inum div 8 \<le> unat (sb_ninodes (sb s)) div 8" using i by (intro div_le_mono) simp
  then have "unat (IBLOCK inum (sb s)) = unat inum div 8 + unat (sb_inodestart (sb s))"
    using g by (simp add: IBLOCK_def geometry_def unat_word_ariths unat_div)
  then show "IBLOCK inum (sb s) < sb_bmapstart (sb s)" "IBLOCK inum (sb s) < disksize s" "\<not> in_log (log_start s) (IBLOCK inum (sb s))"
    using g \<open>unat inum div 8 \<le> _\<close> by (auto simp: geometry_def word_less_nat_alt word_le_nat_alt in_log_def)
qed

lemma meta_write:
  fixes s :: "'a fsstate_scheme"
  assumes ok: "fs_ok s" "file_ok s A" and b: "b < sb_bmapstart (sb s)"
    and t: "only_log s t" "view t = (view s)(b := d)" and d: "length d = BSIZE"
  shows "foreign s A b" "fs_ok t" "file_ok t A" "in_use t = in_use s" "\<And>k. k \<le> MAXFILE \<Longrightarrow> node (view t) A k = node (view s) A k"
    "p < MAXFILE * BSIZE \<Longrightarrow> file_byte (view t) A p = file_byte (view s) A p" "nfree t = nfree s"
proof -
  have sbt: "sb t = sb s" by (rule only_log_fs(2) [OF t(1)])
  have ne: "a \<noteq> b" if "data_block s a" for a using that b by (auto simp: data_block_def)
  have "sb_bmapstart (sb s) \<noteq> b" using b by auto
  then show use: "in_use t = in_use s" by (simp add: fun_eq_iff in_use_def t(2) sbt)
  have dt: "data_block t = data_block s" by (simp add: fun_eq_iff data_block_def sbt)
  have ind: "A ! NDIRECT \<noteq> 0 \<Longrightarrow> A ! NDIRECT \<noteq> b" using ne indirect_block(1) [OF ok] by blast
  have fa: "faddr (view t) A k = faddr (view s) A k" for k using ind by (auto simp: faddr_def t(2))
  then have node: "node (view t) A k = node (view s) A k" for k by (simp add: node_def)
  then show "\<And>k. k \<le> MAXFILE \<Longrightarrow> node (view t) A k = node (view s) A k" by simp
  show ft: "fs_ok t" using fs_okD(2) [OF ok(1)] ok(1) d geometry_only [OF t(1)] by (simp add: fs_ok_def t(2) use sbt)
  show fo: "file_ok t A" using ok(2) unfolding file_ok_def node use dt .
  show "nfree t = nfree s" by (simp add: nfree_def use sbt)
  have "in_use s b" by (rule fs_okD(3) [OF ok(1)]) (use b in simp)
  moreover have "unat b < BPB" using b fs_okD(1) [OF ok(1)] by (auto simp: geometry_def word_less_nat_alt)
  ultimately show "foreign s A b" unfolding foreign_def using b ne file_okD(2) [OF ok(2)] by auto
  show "file_byte (view t) A p = file_byte (view s) A p" if p: "p < MAXFILE * BSIZE"
  proof (cases "faddr (view s) A (p div BSIZE) = 0")
    case True
    then show ?thesis by (simp add: file_byte_def fa)
  next
    case False
    have "p div BSIZE < MAXFILE" using p by (simp add: less_mult_imp_div_less)
    then have "data_block s (faddr (view s) A (p div BSIZE))" using file_okD(2) [OF ok(2), of "p div BSIZE"] False by (simp add: node_def)
    then have "view t (faddr (view s) A (p div BSIZE)) = view s (faddr (view s) A (p div BSIZE))" using ne by (simp add: t(2))
    then show ?thesis by (simp only: file_byte_def fa Let_def)
  qed
qed

lemma iupdate_spec:
  fixes s :: "'a fsstate_scheme"
  assumes t: "in_txn {} bs s" and ok: "fs_ok s" and dev: "i_dev (inode_at s ip) = 1"
    and i: "unat (i_inum (inode_at s ip)) < unat (sb_ninodes (sb s))" and n: "length bs < 29"
  shows "\<exists>t. iupdate ip s = Done () t \<and> in_txn {} (add_block (IBLOCK (i_inum (inode_at s ip)) (sb s)) bs) t
    \<and> view t = (view s)(IBLOCK (i_inum (inode_at s ip)) (sb s) := put_at (view s (IBLOCK (i_inum (inode_at s ip)) (sb s)))
         (dinode_off (i_inum (inode_at s ip))) (encode_dinode (dinode_of (inode_at s ip))))
    \<and> only_log s t"
proof -
  let ?x = "inode_at s ip"
  let ?b = "IBLOCK (i_inum ?x) (sb s)"
  note B = IBLOCK_meta [OF fs_okD(1) [OF ok] i]
  obtain b u where u: "bread 1 ?b s = Done b u" "in_txn (insert b {}) bs u" "b \<notin> {}" "holds u b ?b"
    "b_data (buf_at u b) = view s ?b" "view u = view s" "only_log s u"
    by (rule grab_block [OF t B(2)]) (use n in auto)
  have Bu: "?b < disksize u" "\<not> in_log (log_start u) ?b" using B only_logD [OF u(7)] by simp_all
  define g where "g y = put_at (b_data y) (dinode_off (i_inum ?x)) (encode_dinode (dinode_of ?x))" for y :: buf
  obtain v t where t': "log_write b (upd_buf b (\<lambda>y. y\<lparr>b_data := g y\<rparr>) u) = Done () v" "brelse b v = Done () t"
    "in_txn {} (add_block ?b bs) t" "view t = (view u)(?b := g (buf_at u b))" "only_log u t"
    using save_block [OF u(2-4) Bu n, of g] by auto
  have xu: "inode_at u ip = ?x" using only_log_fs(1) [OF u(7)] by (simp add: inode_at_def)
  have "iupdate ip s = Done () t"
    using u(1) t'(1,2) dev xu by (simp add: iupdate_def g_def)
  then show ?thesis using t' u(5,6) only_log_trans [OF u(7) t'(5)] by (simp add: g_def)
qed

end
