(* ===== verification/FileData.thy ===== *)
theory FileData
  imports FileSystem
begin

unbundle bit_operations_syntax

text \<open>
  The contents of files. \<open>readi\<close> returns a part of the byte list that is a file's contents, and
  \<open>writei\<close> replaces or extends a part of it, records the new size in the inode on disk, and leaves
  the blocks of all other files alone.
\<close>

section \<open>writei\<close>

lemma contents_overlay:
  assumes o: "o' \<le> length c" and f: "\<And>p. p < max (length c) (o' + length src) \<Longrightarrow> f p = overlay (\<lambda>p. c ! p) o' src p"
  shows "map f [0..<max (length c) (o' + length src)] = take o' c @ src @ drop (o' + length src) c"
proof (rule nth_equalityI)
  show "length (map f [0..<max (length c) (o' + length src)]) = length (take o' c @ src @ drop (o' + length src) c)"
    using o by (auto simp: max_def)
  fix p assume "p < length (map f [0..<max (length c) (o' + length src)])"
  then have p: "p < max (length c) (o' + length src)" by simp
  then show "map f [0..<max (length c) (o' + length src)] ! p = (take o' c @ src @ drop (o' + length src) c) ! p"
    using f [OF p] o by (auto simp: overlay_def nth_append less_max_iff_disj)
qed

text \<open>The state after the loop and after the size has been set.\<close>

lemma written_file_inv:
  fixes s t :: "'a fsstate_scheme"
  assumes I: "file_inv s ip" and A: "i_addrs (inode_at s ip) = A" and ok: "fs_ok t" "file_ok t A'"
    and ic: "length (icache t) = length (icache s)"
    and x: "inode_at t ip = (inode_at s ip)\<lparr>i_addrs := A', i_size := sz\<rparr>"
    and sz: "unat sz = max (unat (i_size (inode_at s ip))) (o' + length src)"
    and o: "o' \<le> unat (i_size (inode_at s ip))" "o' + length src \<le> MAXFILE * BSIZE"
    and nodes: "\<And>n. n \<le> MAXFILE \<Longrightarrow> node (view s) A n \<noteq> 0 \<Longrightarrow> node (view t) A' n = node (view s) A n"
    and bytes: "\<And>p. p < MAXFILE * BSIZE \<Longrightarrow> file_byte (view t) A' p = overlay (file_byte (view s) A) o' src p"
    and here: "\<And>p. o' \<le> p \<Longrightarrow> p < o' + length src \<Longrightarrow> faddr (view t) A' (p div BSIZE) \<noteq> 0"
  shows "file_inv t ip" "contents t ip = take o' (contents s ip) @ src @ drop (o' + length src) (contents s ip)"
proof -
  note J = file_invD [OF I]
  have "faddr (view t) A' n \<noteq> 0" if n: "n * BSIZE < unat sz" for n
  proof (cases "n * BSIZE < unat (i_size (inode_at s ip))")
    case True
    have "n < MAXFILE" using True J(6) by simp
    then show ?thesis using J(7) [OF True] nodes [of n] A by (simp add: node_def)
  next
    case False
    then show ?thesis using here [of "n * BSIZE"] n sz o(1) by (simp add: max_def split: if_splits)
  qed
  moreover have "unat sz \<le> MAXFILE * BSIZE" using sz o J(6) by simp
  ultimately show "file_inv t ip" using J ok ic by (simp add: file_inv_def x)
  have mx: "max (length (contents s ip)) (o' + length src) = unat sz" using sz by simp
  have "file_byte (view t) A' p = overlay (\<lambda>p. contents s ip ! p) o' src p"
    if p: "p < max (length (contents s ip)) (o' + length src)" for p
  proof -
    have "p < MAXFILE * BSIZE" using p o J(6) by (simp add: less_max_iff_disj) linarith
    moreover have "contents s ip ! p = file_byte (view s) A p" if "\<not> (o' \<le> p \<and> p < o' + length src)"
      using that p o(1) by (auto simp: contents_def A less_max_iff_disj)
    ultimately show ?thesis using bytes [of p] by (auto simp: overlay_def)
  qed
  from contents_overlay [of o' "contents s ip", OF _ this] o(1)
  show "contents t ip = take o' (contents s ip) @ src @ drop (o' + length src) (contents s ip)"
    unfolding mx by (simp add: contents_def [of t] x)
qed

text \<open>What \<open>writei\<close> promises: the contents, the inode on disk when it grew, and the blocks of others.\<close>

definition writei_post :: "nat \<Rightarrow> nat \<Rightarrow> u8 list \<Rightarrow> 'a fsstate_scheme \<Rightarrow> 'a fsstate_scheme \<Rightarrow> bool" where
  "writei_post ip o' src s t \<longleftrightarrow> file_inv t ip
     \<and> contents t ip = take o' (contents s ip) @ src @ drop (o' + length src) (contents s ip)
     \<and> (\<exists>A' sz. icache t = (icache s)[ip := (inode_at s ip)\<lparr>i_addrs := A', i_size := sz\<rparr>])
     \<and> (i_size (inode_at t ip) \<noteq> i_size (inode_at s ip) \<longrightarrow>
          decode_dinode (view t (IBLOCK (i_inum (inode_at s ip)) (sb s))) (dinode_off (i_inum (inode_at s ip)))
            = dinode_of (inode_at t ip))
     \<and> (\<forall>b. foreign s (i_addrs (inode_at s ip)) b \<longrightarrow> b \<noteq> IBLOCK (i_inum (inode_at s ip)) (sb s) \<longrightarrow> view t b = view s b)
     \<and> only_file s t"

lemma dinode_off_fits: "dinode_off inum + sizeof_dinode \<le> BSIZE"
proof -
  have "unat inum mod 8 < 8" by simp
  then show ?thesis by (simp add: dinode_off_def)
qed

text \<open>The end of \<open>writei\<close>: when the file has grown, its size is set and the inode written.\<close>

lemma grow_spec:
  fixes s :: "'a fsstate_scheme"
  assumes t: "in_txn {} bs s" and ok: "fs_ok s" "file_ok s A" and ip: "ip < length (icache s)" "i_dev (inode_at s ip) = 1"
    and A: "i_addrs (inode_at s ip) = A" and i: "unat (i_inum (inode_at s ip)) < unat (sb_ninodes (sb s))" and n: "length bs < 29"
  shows "\<exists>t bs'. iupdate ip (upd_inode ip (\<lambda>x. x\<lparr>i_size := sz\<rparr>) s) = Done () t \<and> in_txn {} bs' t \<and> fs_ok t \<and> file_ok t A
    \<and> icache t = (icache s)[ip := (inode_at s ip)\<lparr>i_size := sz\<rparr>] \<and> only_file s t
    \<and> (\<forall>k \<le> MAXFILE. node (view t) A k = node (view s) A k) \<and> (\<forall>p < MAXFILE * BSIZE. file_byte (view t) A p = file_byte (view s) A p)
    \<and> decode_dinode (view t (IBLOCK (i_inum (inode_at s ip)) (sb s))) (dinode_off (i_inum (inode_at s ip)))
        = dinode_of ((inode_at s ip)\<lparr>i_size := sz\<rparr>)
    \<and> (\<forall>b. b \<noteq> IBLOCK (i_inum (inode_at s ip)) (sb s) \<longrightarrow> view t b = view s b)"
proof -
  let ?x = "inode_at s ip"
  let ?b = "IBLOCK (i_inum ?x) (sb s)" and ?y = "(inode_at s ip)\<lparr>i_size := sz\<rparr>"
  define u where "u = upd_inode ip (\<lambda>x. x\<lparr>i_size := sz\<rparr>) s"
  have xu: "inode_at u ip = ?y" and vu: "view u = view s" and sbu: "sb u = sb s" using ip(1) by (simp_all add: u_def)
  have iu: "in_use u = in_use s" "data_block u = data_block s" by (simp_all add: fun_eq_iff in_use_def data_block_def vu sbu)
  have gu: "fs_ok u" "file_ok u A" using ok by (simp_all add: fs_ok_def geometry_def file_ok_def iu vu sbu) (simp_all add: u_def)
  have tu: "in_txn {} bs u" using t by (simp add: u_def)
  have pu: "i_dev (inode_at u ip) = 1" "unat (i_inum (inode_at u ip)) < unat (sb_ninodes (sb u))" using ip(2) i by (simp_all add: xu sbu)
  let ?d = "put_at (view s ?b) (dinode_off (i_inum ?x)) (encode_dinode (dinode_of ?y))"
  obtain t where t': "iupdate ip u = Done () t" "in_txn {} (add_block ?b bs) t" "view t = (view u)(?b := ?d)" "only_log u t"
    using iupdate_spec [OF tu gu(1) pu n] by (auto simp: xu vu sbu)
  have la: "length (di_addrs (dinode_of ?y)) = NDIRECT + 1" using file_okD(1) [OF ok(2)] A by (simp add: dinode_of_def)
  have off: "dinode_off (i_inum ?x) + sizeof_dinode \<le> length (view s ?b)"
    using dinode_off_fits fs_okD(2) [OF ok(1)] by simp
  have ld: "length ?d = BSIZE"
    using length_put_at [of "dinode_off (i_inum ?x)" "encode_dinode (dinode_of ?y)" "view s ?b"] length_encode_dinode [OF la] off
      fs_okD(2) [OF ok(1)] by simp
  have bm: "?b < sb_bmapstart (sb u)" using IBLOCK_meta(1) [OF fs_okD(1) [OF ok(1)] i] by (simp add: sbu)
  note M = meta_write [OF gu bm t'(4,3) ld]
  have "icache t = (icache s)[ip := ?y]"
    using only_log_fs(1) [OF t'(4)] ip(1) by (simp add: u_def upd_inode_def inode_at_def)
  moreover have "only_file s t"
    using only_file_trans [OF only_file_upd only_log_file [OF t'(4) [unfolded u_def]]] .
  moreover have "decode_dinode (view t ?b) (dinode_off (i_inum ?x)) = dinode_of ?y"
    using decode_put_dinode [OF la off] by (simp add: t'(3))
  ultimately show ?thesis
    using t'(1,2) M(2,3,5,6) by (intro exI [of _ t] exI [of _ "add_block ?b bs"]) (simp add: u_def [symmetric] vu t'(3))
qed

lemma writei_spec:
  fixes s :: "'a fsstate_scheme"
  assumes t: "in_txn {} bs s" and I: "file_inv s ip" and i: "unat (i_inum (inode_at s ip)) < unat (sb_ninodes (sb s))"
    and o: "off \<le> i_size (inode_at s ip)" "unat off + length src \<le> MAXFILE * BSIZE"
    and c: "log_cost (sb_bmapstart (sb s)) (i_addrs (inode_at s ip)) bs + chunks (unat off) (length src) \<le> 28"
    and f: "need (i_addrs (inode_at s ip)) + chunks (unat off) (length src) \<le> nfree s"
  shows "\<exists>t bs'. writei dsw ip src off s = Done (int (length src)) t \<and> in_txn {} bs' t \<and> writei_post ip (unat off) src s t"
proof -
  note J = file_invD [OF I]
  let ?x = "inode_at s ip" and ?A = "i_addrs (inode_at s ip)" and ?o = "unat off" and ?n = "of_nat (length src) :: u32"
  have uoff: "unat (off + ?n) = ?o + length src" by (rule unat_step) (use o(2) in simp)
  have un: "unat ?n = length src" using o(2) by (simp add: unat_of_nat)
  have sn: "sint ?n = int (length src)" using un o(2) by (subst sint_unat32) simp
  have ole: "?o \<le> unat (i_size ?x)" using o(1) by (simp add: word_le_nat_alt)
  obtain u bs1 A' where u: "writei_loop ip off src s = Done (off + ?n) u" "wrote_file ip ?o src bs ?A s u bs1 A'"
    using writei_loop_spec [OF t J(1,5,2,3) refl o(2) c f] by blast
  have W: "in_txn {} bs1 u" "icache u = (icache s)[ip := ?x\<lparr>i_addrs := A'\<rparr>]" "only_file s u" "grown s ?A u A'"
    "\<And>p. p < MAXFILE * BSIZE \<Longrightarrow> file_byte (view u) A' p = overlay (file_byte (view s) ?A) ?o src p"
    "\<And>p. ?o \<le> p \<Longrightarrow> p < ?o + length src \<Longrightarrow> faddr (view u) A' (p div BSIZE) \<noteq> 0"
    "log_cost (sb_bmapstart (sb s)) A' bs1 \<le> 28"
    using u(2) c unfolding wrote_file_def by simp_all
  have xu: "inode_at u ip = ?x\<lparr>i_addrs := A'\<rparr>" "length (icache u) = length (icache s)"
    using W(2) J(2) by (simp_all add: inode_at_def)
  have g: "\<not> (off > i_size ?x \<or> off + ?n < off)" "\<not> off + ?n > of_nat (MAXFILE * BSIZE)"
    using o ole uoff by (auto simp: word_less_nat_alt not_less)
  define fin where "fin = (if ?n > 0 \<and> off + ?n > i_size (inode_at u ip)
    then iupdate ip (upd_inode ip (\<lambda>x. x\<lparr>i_size := off + ?n\<rparr>) u) else Done () u)"
  have wr: "writei dsw ip src off s = bindK fin (\<lambda>_ s. Done (int (length src)) s)"
    using g J(4) u(1) sn by (simp add: writei_def Let_def fin_def)
  show ?thesis
  proof (cases "off + ?n > i_size ?x")
    case False
    then have fu: "fin = Done () u" by (simp add: fin_def xu)
    have mx: "unat (i_size ?x) = max (unat (i_size ?x)) (?o + length src)"
      using False uoff by (simp add: word_less_nat_alt not_less max_def)
    have xs: "inode_at u ip = ?x\<lparr>i_addrs := A', i_size := i_size ?x\<rparr>" using xu by simp
    note R = written_file_inv [OF I refl grownD(1,2) [OF W(4)] xu(2) xs mx ole o(2) grownD(4) [OF W(4)] W(5,6)]
    have ic: "icache u = (icache s)[ip := ?x\<lparr>i_addrs := A', i_size := i_size ?x\<rparr>]" using W(2) by simp
    have "writei_post ip ?o src s u"
      unfolding writei_post_def
    proof (intro conjI)
      show "\<exists>A' sz. icache u = (icache s)[ip := ?x\<lparr>i_addrs := A', i_size := sz\<rparr>]" using ic by blast
    qed (use R xu(1) W(3) grownD(7) [OF W(4)] in simp_all)
    then show ?thesis using wr fu W(1) by auto
  next
    case True
    have pos: "?n > 0" using True o(1) by (metis add.right_neutral leD word_gt_0)
    have sbu: "sb u = sb s" by (rule grownD(3) [OF W(4)])
    have l1: "length bs1 < 29" using cost_len(1) [OF W(1), of "sb_bmapstart (sb s)" A' 29] W(7) by simp
    have pu: "ip < length (icache u)" "i_dev (inode_at u ip) = 1" "i_addrs (inode_at u ip) = A'"
      "unat (i_inum (inode_at u ip)) < unat (sb_ninodes (sb u))" using J i xu sbu by simp_all
    obtain v bs2 where v: "iupdate ip (upd_inode ip (\<lambda>x. x\<lparr>i_size := off + ?n\<rparr>) u) = Done () v" "in_txn {} bs2 v" "fs_ok v" "file_ok v A'"
      "icache v = (icache u)[ip := (inode_at u ip)\<lparr>i_size := off + ?n\<rparr>]" "only_file u v"
      "\<forall>k \<le> MAXFILE. node (view v) A' k = node (view u) A' k" "\<forall>p < MAXFILE * BSIZE. file_byte (view v) A' p = file_byte (view u) A' p"
      "decode_dinode (view v (IBLOCK (i_inum ?x) (sb s))) (dinode_off (i_inum ?x)) = dinode_of ((inode_at u ip)\<lparr>i_size := off + ?n\<rparr>)"
      "\<forall>b. b \<noteq> IBLOCK (i_inum ?x) (sb s) \<longrightarrow> view v b = view u b"
      using grow_spec [OF W(1) grownD(1,2) [OF W(4)] pu l1, of "off + ?n"] xu(1) sbu by auto
    have xv: "inode_at v ip = ?x\<lparr>i_addrs := A', i_size := off + ?n\<rparr>" "length (icache v) = length (icache s)"
      using v(5) pu(1) xu by (simp_all add: inode_at_def)
    have mx: "unat (off + ?n) = max (unat (i_size ?x)) (?o + length src)" using True uoff by (simp add: word_less_nat_alt max_def)
    have nodes: "node (view v) A' n = node (view s) ?A n" if "n \<le> MAXFILE" "node (view s) ?A n \<noteq> 0" for n
      using grownD(4) [OF W(4) that] v(7) that(1) by simp
    have bytes: "file_byte (view v) A' p = overlay (file_byte (view s) ?A) ?o src p" if "p < MAXFILE * BSIZE" for p
      using W(5) [OF that] v(8) that by simp
    have here: "faddr (view v) A' (p div BSIZE) \<noteq> 0" if "?o \<le> p" "p < ?o + length src" for p
    proof -
      have "p div BSIZE < MAXFILE" using that(2) o(2) by (simp add: less_mult_imp_div_less)
      then show ?thesis using W(6) [OF that] v(7) by (auto simp: node_def dest: spec [of _ "p div BSIZE"])
    qed
    note R = written_file_inv [OF I refl v(3,4) xv(2,1) mx ole o(2) nodes bytes here]
    have ic: "icache v = (icache s)[ip := ?x\<lparr>i_addrs := A', i_size := off + ?n\<rparr>]"
      using v(5) W(2) xu J(2) by (simp add: inode_at_def)
    have fr: "view v b = view s b" if "foreign s ?A b" "b \<noteq> IBLOCK (i_inum ?x) (sb s)" for b
      using v(10) that grownD(7) [OF W(4) that(1)] by simp
    have "writei_post ip ?o src s v"
      unfolding writei_post_def using R ic xv(1) xu(1) v(9) fr only_file_trans [OF W(3) v(6)] by auto
    moreover have "fin = iupdate ip (upd_inode ip (\<lambda>x. x\<lparr>i_size := off + ?n\<rparr>) u)" using True pos xu by (simp add: fin_def)
    ultimately show ?thesis using wr v(1,2) by auto
  qed
qed

section \<open>Properties\<close>

text \<open>
  C4: \<open>readi\<close> of \<open>n\<close> bytes at an offset within a file returns the bytes that the file has there,
  as many as there are before its end, through direct and indirect blocks alike, and changes
  nothing that is on disk or seen through the cache.
\<close>

theorem readi_contents:
  fixes s :: "'a fsstate_scheme"
  assumes "cache_ok xs {} s" and "card (dirty s) < NBUF" and "file_inv s ip"
    and "off \<le> i_size (inode_at s ip)" and "unat off + unat n < 2 ^ 32"
  shows "\<exists>t bytes. readi dsw ip off n s = Done (int (length bytes), bytes) t
    \<and> bytes = take (unat n) (drop (unat off) (contents s ip)) \<and> quiet s t"
  using readi_spec [OF assms] by blast

text \<open>
  C3: \<open>writei\<close> inside a transaction with room for it writes all its bytes: the contents of the file
  are the old ones with the new bytes put over them from the offset on, blocks being allocated
  as needed; a new size is recorded in the inode on disk; the file keeps its invariant (its
  blocks are in use, distinct and without holes), and the blocks of all other files and all other
  metadata blocks are unchanged.
\<close>

theorem writei_contents:
  fixes s :: "'a fsstate_scheme"
  assumes "in_txn {} bs s" and "file_inv s ip" and "unat (i_inum (inode_at s ip)) < unat (sb_ninodes (sb s))"
    and "off \<le> i_size (inode_at s ip)" and "unat off + length src \<le> MAXFILE * BSIZE"
    and "log_cost (sb_bmapstart (sb s)) (i_addrs (inode_at s ip)) bs + chunks (unat off) (length src) \<le> 28"
    and "need (i_addrs (inode_at s ip)) + chunks (unat off) (length src) \<le> nfree s"
  shows "\<exists>t bs'. writei dsw ip src off s = Done (int (length src)) t \<and> in_txn {} bs' t \<and> file_inv t ip
    \<and> contents t ip = take (unat off) (contents s ip) @ src @ drop (unat off + length src) (contents s ip)
    \<and> (i_size (inode_at t ip) \<noteq> i_size (inode_at s ip) \<longrightarrow>
         decode_dinode (view t (IBLOCK (i_inum (inode_at s ip)) (sb s))) (dinode_off (i_inum (inode_at s ip)))
           = dinode_of (inode_at t ip))
    \<and> (\<forall>b. foreign s (i_addrs (inode_at s ip)) b \<longrightarrow> b \<noteq> IBLOCK (i_inum (inode_at s ip)) (sb s) \<longrightarrow> view t b = view s b)"
  using writei_spec [OF assms] unfolding writei_post_def by blast

text \<open>A small disk: log, inode block 32, bitmap block 34, and one file whose only block is 35.\<close>

definition small_disk :: "u32 \<Rightarrow> u8 list" where
  "small_disk b = (if b = 34 then [255, 255, 255, 255, 15] @ replicate 507 0
     else if b = 35 then [104, 105] @ replicate 510 0 else replicate 512 0)"

definition small_inode :: inode where
  "small_inode = \<lparr>i_dev = 1, i_inum = 3, i_ref = 1, i_lock = \<lparr>sl_locked = False, sl_pid = 0\<rparr>, i_valid = True, i_type = T_FILE,
     i_major = 0, i_minor = 0, i_nlink = 1, i_size = 2, i_addrs = 35 # replicate 12 0\<rparr>"

definition one_file :: fsstate where
  "one_file =
     \<lparr>mem = \<lambda>_. 0, sym_end = 0x80110000, sym_data = 0x80108000,
      held = [], ptable = [blank_proc\<lparr>p_state := RUNNING, p_pid := 1\<rparr>], initproc = None, nextpid = 2, cpu = 0,
      cpu_proc = \<lambda>_. Some 0, ticks = 0, cons_locking = False, console = [], kmem_use_lock = True, kmem_freelist = 0,
      kpgdir = 0, cr3 = 0, gdt = \<lambda>_ _. SEG 0 0 0 0, ts = \<lambda>_. zero_ts, ts_addr = \<lambda>_. 0, gdtr = \<lambda>_. None,
      tr = \<lambda>_. 0, bufs = ring_bufs, disk = small_disk, disksize = 1000, disk_trace = [],
      log_start = 2, log_size = 30, log_outstanding = 1, log_committing = False, log_dev = 1, lh_n = 0,
      lh_block = replicate 30 0, icache = [small_inode],
      sb = \<lparr>sb_size = 40, sb_nblocks = 5, sb_ninodes = 8, sb_nlog = 30, sb_logstart = 2, sb_inodestart = 32, sb_bmapstart = 34\<rparr>\<rparr>"

lemma one_file_at: "i < 31 \<Longrightarrow> buf_at one_file i = ring_bufs ! i"
  by (simp add: one_file_def buf_at_def)

lemma one_file_cache: "cache_ok [0..<30] {} one_file"
proof -
  have n: "nexts one_file i = (i + 1) mod 31" "prevs one_file i = (i + 30) mod 31" if "i < 31" for i
    using that by (simp_all add: nexts_def prevs_def one_file_at ring_bufs_nth)
  have "linked (nexts one_file) (prevs one_file) [0..<Suc 30]" by (rule linked_upt) (simp add: n)
  moreover have "nexts one_file 30 = 0" "prevs one_file 0 = 30" by (simp_all add: n)
  ultimately have "linked (nexts one_file) (prevs one_file) (30 # [0..<30] @ [30])"
    using upt_conv_Cons [of 0 30] upt_Suc_append [of 0 30] by (simp del: upt_rec_numeral)
  then have "buf_ring [0..<30] one_file" by (auto simp: buf_ring_def one_file_def ring_bufs_def)
  moreover have "one_copy [0..<30] one_file" unfolding one_copy_def by (auto simp: one_file_at ring_bufs_nth blank_buf_def)
  moreover have "buf_ok one_file {} i" if "i < 30" for i
    using that by (simp add: buf_ok_def Let_def one_file_at ring_bufs_nth blank_buf_def)
  moreover have "thread_ok one_file" by (simp add: thread_ok_def one_file_def myproc_def)
  ultimately show ?thesis by (auto simp: cache_ok_def)
qed

lemma one_file_dirty: "dirty one_file = {}"
  by (auto simp: dirty_def one_file_at ring_bufs_nth blank_buf_def)

lemma one_file_view: "view one_file = small_disk"
proof -
  have "view one_file bn = disk one_file bn" for bn
    by (rule view_uncached) (simp add: one_file_at ring_bufs_nth blank_buf_def)
  then show ?thesis by (auto simp: one_file_def)
qed

lemma one_file_txn: "in_txn {} [] one_file"
  using one_file_cache one_file_dirty
  by (auto simp: in_txn_def txn_def log_ready_def homes_ok_def) (auto simp: one_file_def)

lemma one_file_fields:
  "inode_at one_file 0 = small_inode" "length (icache one_file) = 1" "sb_bmapstart (sb one_file) = 34" "sb_size (sb one_file) = 40"
  "sb_inodestart (sb one_file) = 32" "sb_ninodes (sb one_file) = 8" "log_start one_file = 2" "disksize one_file = 1000"
  by (simp_all add: one_file_def inode_at_def)

lemma one_file_use: "in_use one_file b = bit_set (small_disk 34) (unat b)"
  by (simp add: in_use_def one_file_view one_file_fields)

lemma one_file_fs: "fs_ok one_file"
proof -
  have "list_all (bit_set [255, 255, 255, 255, 15]) [0..<36]" by code_simp
  then have "bit_set [255, 255, 255, 255, 15] i" if "i < 36" for i using that by (simp add: list_all_iff)
  then have "bit_set (small_disk 34) i" if "i < 36" for i
  proof -
    have "i div 8 < length [255, 255, 255, 255, 15 :: u8]" using that by simp
    from nth_append_left [OF this] show ?thesis
      using \<open>\<And>i. i < 36 \<Longrightarrow> bit_set [255, 255, 255, 255, 15] i\<close> that by (simp only: small_disk_def bit_set_def simp_thms if_True)
  qed
  then have "in_use one_file b" if "b \<le> 34" for b using that by (simp add: one_file_use word_le_nat_alt)
  moreover have "length (small_disk b) = BSIZE" for b by (simp add: small_disk_def)
  moreover have "geometry one_file" by (simp add: geometry_def one_file_fields word_le_nat_alt)
  ultimately show ?thesis by (simp add: fs_ok_def one_file_view one_file_fields)
qed

lemma one_file_node: "node (view one_file) (i_addrs small_inode) n = (if n = 0 then 35 else 0)" if "n \<le> MAXFILE"
proof (cases n)
  case 0
  then show ?thesis by (simp add: node_def faddr_def small_inode_def)
next
  case (Suc k)
  have "(replicate 12 0 :: u32 list) ! k = 0" if "k < 12" using that by simp
  then show ?thesis using Suc that by (auto simp: node_def faddr_def small_inode_def)
qed

lemma one_file_inv: "file_inv one_file 0"
proof -
  have u: "in_use one_file 35"
    by (simp add: one_file_use small_disk_def bit_set_bit)
  have "length (i_addrs small_inode) = 13" by (simp add: small_inode_def)
  then have "file_ok one_file (i_addrs small_inode)"
    unfolding file_ok_def using u by (auto simp: one_file_node data_block_def one_file_fields split: if_splits)
  moreover have "faddr (view one_file) (i_addrs small_inode) n \<noteq> 0" if "n * BSIZE < 2" for n
    using that by (cases n) (simp_all add: faddr_def small_inode_def)
  ultimately show ?thesis
    using one_file_fs by (simp add: file_inv_def one_file_fields) (simp add: small_inode_def)
qed

lemma one_file_contents: "contents one_file 0 = [104, 105]"
proof -
  have "[0..<unat (i_size small_inode)] = [0, 1]" by (simp add: small_inode_def upt_rec)
  then show ?thesis
    by (simp add: contents_def one_file_fields file_byte_def one_file_view) (simp add: faddr_def small_inode_def small_disk_def)
qed

lemma one_file_free: "2 \<le> nfree one_file"
proof -
  have "{36, 37} \<subseteq> {b. \<not> in_use one_file b \<and> unat b < unat (sb_size (sb one_file))}"
    by (simp add: one_file_use one_file_fields small_disk_def bit_set_bit)
  from card_mono [OF _ this] show ?thesis unfolding nfree_def by simp
qed

definition no_devices :: "fsstate devsw" where
  "no_devices = (\<lambda>_. \<lparr>dev_read = None, dev_write = None\<rparr>)"

theorem readi_contents_witness:
  "\<exists>t bytes. readi no_devices 0 1 10 one_file = Done (int (length bytes), bytes) t \<and> bytes = [105] \<and> quiet one_file t"
  using readi_contents [OF one_file_cache _ one_file_inv, of 1 10 no_devices]
  by (simp add: one_file_dirty one_file_fields one_file_contents) (simp add: small_inode_def word_le_nat_alt)

theorem writei_contents_witness:
  "\<exists>t bs'. writei no_devices 0 [106, 107, 108] 1 one_file = Done 3 t \<and> in_txn {} bs' t \<and> file_inv t 0 \<and> contents t 0 = [104, 106, 107, 108]"
proof -
  have x: "i_addrs small_inode ! 12 = 0" "i_size small_inode = 2" "i_inum small_inode = 3" by (simp_all add: small_inode_def)
  have l: "length [106, 107, 108 :: u8] = 3" "unat (1 :: u32) = 1" by simp_all
  have "log_cost 34 (i_addrs small_inode) [] + chunks 1 3 \<le> 28" "need (i_addrs small_inode) + chunks 1 3 \<le> nfree one_file"
    using one_file_free by (simp_all add: log_cost_def need_def chunks_def x)
  then have "\<exists>t bs'. writei no_devices 0 [106, 107, 108] 1 one_file = Done (int 3) t \<and> in_txn {} bs' t \<and> file_inv t 0
      \<and> contents t 0 = take 1 [104, 105] @ [106, 107, 108] @ drop (1 + 3) [104, 105]"
    using writei_contents [OF one_file_txn one_file_inv, of 1 "[106, 107, 108]" no_devices]
    unfolding one_file_fields one_file_contents x l by (simp add: word_le_nat_alt del: One_nat_def) blast
  then show ?thesis by simp
qed

end
