(* ===== verification/Pipes.thy ===== *)
theory Pipes
  imports File
begin

text \<open>
  The ring buffer of a pipe is a queue of bytes. The counters \<open>nread\<close> and \<open>nwrite\<close> run freely and
  wrap around at 32 bits; the bytes between them, read modulo the size of the ring, are the
  contents. \<open>pipewrite\<close> appends to the contents until the ring is full, \<open>piperead\<close> takes from the
  front, so that a reader gets the bytes in the order in which they were written.
\<close>

section \<open>Rings\<close>

definition ring_list :: "nat \<Rightarrow> 'a list \<Rightarrow> nat \<Rightarrow> nat \<Rightarrow> 'a list" where
  "ring_list N data r n = map (\<lambda>i. data ! ((r + i) mod N)) [0..<n]"

lemma length_ring_list [simp]: "length (ring_list N data r n) = n"
  by (simp add: ring_list_def)

lemma ring_list_0 [simp]: "ring_list N data r 0 = []"
  by (simp add: ring_list_def)

lemma ring_list_Cons: "ring_list N data r (Suc n) = data ! (r mod N) # ring_list N data (Suc r) n"
  unfolding ring_list_def upt_conv_Cons [OF zero_less_Suc] list.map
  by (simp only: map_Suc_upt [symmetric] map_map comp_def add_0_right add_Suc_right add_Suc)

lemma ring_slot_other:
  fixes r i n N :: nat
  assumes "i < n" "n < N"
  shows "(r + i) mod N \<noteq> (r + n) mod N"
proof
  assume "(r + i) mod N = (r + n) mod N"
  then have "N dvd (r + n) - (r + i)" using assms by (metis mod_eq_dvd_iff_nat add_le_mono less_imp_le order_refl)
  then have "N dvd n - i" by simp
  then show False using assms by (auto dest: dvd_imp_le)
qed

lemma ring_list_snoc:
  assumes "length data = N" "n < N"
  shows "ring_list N (data[(r + n) mod N := c]) r (Suc n) = ring_list N data r n @ [c]"
proof -
  have "(r + n) mod N < length data" using assms by simp
  then show ?thesis
    using ring_slot_other [OF _ assms(2), symmetric]
    by (auto simp: ring_list_def nth_list_update)
qed

lemma ring_list_mod: "ring_list N data (r mod N) n = ring_list N data r n"
  by (simp add: ring_list_def mod_add_left_eq)

section \<open>Queues of bytes\<close>

text \<open>What a bounded queue promises to the code that copies through it.\<close>

locale byte_queue =
  fixes put :: "u8 \<Rightarrow> 'q \<Rightarrow> 'q" and get :: "'q \<Rightarrow> u8 \<times> 'q"
    and contents :: "'q \<Rightarrow> u8 list" and ok :: "'q \<Rightarrow> bool" and capacity :: nat
  assumes put_snoc: "ok q \<Longrightarrow> length (contents q) < capacity \<Longrightarrow>
      ok (put c q) \<and> contents (put c q) = contents q @ [c]"
    and get_Cons: "ok q \<Longrightarrow> contents q \<noteq> [] \<Longrightarrow>
      fst (get q) = hd (contents q) \<and> ok (snd (get q)) \<and> contents (snd (get q)) = tl (contents q)"
begin

lemma puts:
  "ok q \<Longrightarrow> length (contents q) + length cs \<le> capacity \<Longrightarrow>
    ok (fold put cs q) \<and> contents (fold put cs q) = contents q @ cs"
  by (induction cs arbitrary: q) (simp_all add: put_snoc)

lemma get_put:
  "ok q \<Longrightarrow> contents q = [] \<Longrightarrow> 0 < capacity \<Longrightarrow>
    fst (get (put c q)) = c \<and> contents (snd (get (put c q))) = []"
  using get_Cons [of "put c q"] put_snoc [of q c] by simp

end

section \<open>A pipe is a queue\<close>

definition pipe_len :: "pipe \<Rightarrow> nat" where
  "pipe_len x = unat (pi_nwrite x - pi_nread x)"

definition pipe_ok :: "pipe \<Rightarrow> bool" where
  "pipe_ok x \<longleftrightarrow> length (pi_data x) = PIPESIZE \<and> pipe_len x \<le> PIPESIZE"

definition pipe_contents :: "pipe \<Rightarrow> u8 list" where
  "pipe_contents x = ring_list PIPESIZE (pi_data x) (unat (pi_nread x)) (pipe_len x)"

lemma length_pipe_contents [simp]: "length (pipe_contents x) = pipe_len x"
  by (simp add: pipe_contents_def)

lemma pipe_empty_iff: "pi_nread x = pi_nwrite x \<longleftrightarrow> pipe_contents x = []"
proof -
  have "pipe_contents x = [] \<longleftrightarrow> pipe_len x = 0" by (metis length_0_conv length_pipe_contents)
  also have "\<dots> \<longleftrightarrow> pi_nread x = pi_nwrite x" unfolding pipe_len_def by (auto simp: unat_eq_zero)
  finally show ?thesis by blast
qed

lemma pipe_full_iff: "pi_nwrite x = pi_nread x + of_nat PIPESIZE \<longleftrightarrow> length (pipe_contents x) = PIPESIZE"
proof -
  have "pi_nwrite x = pi_nread x + of_nat PIPESIZE \<longleftrightarrow> pi_nwrite x - pi_nread x = of_nat PIPESIZE"
    by (simp add: algebra_simps)
  also have "\<dots> \<longleftrightarrow> pipe_len x = PIPESIZE"
    unfolding pipe_len_def by (simp add: u32_eq_iff_unat)
  finally show ?thesis by simp
qed

text \<open>The position of the writer in the ring.\<close>

lemma pipe_write_slot:
  "unat (pi_nwrite x) mod PIPESIZE = (unat (pi_nread x) + pipe_len x) mod PIPESIZE"
proof -
  have "unat (pi_nwrite x) = (unat (pi_nread x) + pipe_len x) mod 4294967296"
    using unat_word_ariths(1) [of "pi_nread x" "pi_nwrite x - pi_nread x"] by (simp add: pipe_len_def)
  then show ?thesis by (simp add: mod_mod_cancel)
qed

lemma add_diff_swap: "a + 1 - b = (a - b) + (1 :: u32)"
  by (simp add: algebra_simps)

lemma pipe_put_snoc:
  assumes "pipe_ok x" "length (pipe_contents x) < PIPESIZE"
  shows "pipe_ok (pipe_put c x) \<and> pipe_contents (pipe_put c x) = pipe_contents x @ [c]"
proof -
  have len: "pipe_len (pipe_put c x) = Suc (pipe_len x)"
  proof -
    have eq: "pi_nwrite x + 1 - pi_nread x = (pi_nwrite x - pi_nread x) + 1" by (rule add_diff_swap)
    have "pipe_len (pipe_put c x) = unat ((pi_nwrite x - pi_nread x) + 1)"
      unfolding eq [symmetric] by (simp add: pipe_len_def pipe_put_def)
    also have "\<dots> = Suc (pipe_len x)"
      using assms(2) unfolding length_pipe_contents unfolding pipe_len_def by (simp add: unat_word_ariths)
    finally show ?thesis .
  qed
  have "pipe_contents (pipe_put c x) = ring_list PIPESIZE ((pi_data x)[unat (pi_nwrite x) mod PIPESIZE := c])
      (unat (pi_nread x)) (Suc (pipe_len x))"
    unfolding pipe_contents_def len by (simp add: pipe_put_def)
  also have "\<dots> = pipe_contents x @ [c]"
    unfolding pipe_contents_def pipe_write_slot
    using assms by (intro ring_list_snoc) (simp_all add: pipe_ok_def)
  finally show ?thesis using assms len by (simp add: pipe_ok_def) (simp add: pipe_put_def)
qed

lemma pipe_get_Cons:
  assumes "pipe_ok x" "pipe_contents x \<noteq> []"
  shows "fst (pipe_get x) = hd (pipe_contents x) \<and> pipe_ok (snd (pipe_get x))
    \<and> pipe_contents (snd (pipe_get x)) = tl (pipe_contents x)"
proof -
  let ?y = "x\<lparr>pi_nread := pi_nread x + 1\<rparr>"
  obtain n where n: "pipe_len x = Suc n"
    using assms(2) by (cases "pipe_len x") (simp_all add: pipe_contents_def)
  have len: "pipe_len ?y = n"
  proof -
    have eq: "pi_nwrite x - (pi_nread x + 1) = (pi_nwrite x - pi_nread x) - 1" by (simp add: algebra_simps)
    have "pipe_len ?y = unat ((pi_nwrite x - pi_nread x) - 1)" by (simp add: pipe_len_def) (simp only: eq)
    also have "\<dots> = n" using n unfolding pipe_len_def by (simp add: unat_sub word_le_nat_alt)
    finally show ?thesis .
  qed
  have "ring_list PIPESIZE (pi_data x) (unat (pi_nread x + 1)) n = ring_list PIPESIZE (pi_data x) (Suc (unat (pi_nread x))) n"
  proof -
    have "unat (pi_nread x + 1) mod PIPESIZE = Suc (unat (pi_nread x)) mod PIPESIZE"
      by (simp add: unat_word_ariths mod_mod_cancel)
    then show ?thesis using ring_list_mod by metis
  qed
  then have "pipe_contents ?y = ring_list PIPESIZE (pi_data x) (Suc (unat (pi_nread x))) n"
    unfolding pipe_contents_def len by simp
  moreover have "pipe_contents x = pi_data x ! (unat (pi_nread x) mod PIPESIZE)
      # ring_list PIPESIZE (pi_data x) (Suc (unat (pi_nread x))) n"
    unfolding pipe_contents_def n by (rule ring_list_Cons)
  moreover have "pipe_ok ?y" using assms(1) len n by (simp add: pipe_ok_def)
  ultimately show ?thesis by (simp add: pipe_get_def)
qed

interpretation pq: byte_queue pipe_put pipe_get pipe_contents pipe_ok PIPESIZE
proof
  fix q :: pipe and c
  show "pipe_ok q \<Longrightarrow> length (pipe_contents q) < PIPESIZE \<Longrightarrow>
      pipe_ok (pipe_put c q) \<and> pipe_contents (pipe_put c q) = pipe_contents q @ [c]"
    by (rule pipe_put_snoc)
  show "pipe_ok q \<Longrightarrow> pipe_contents q \<noteq> [] \<Longrightarrow> fst (pipe_get q) = hd (pipe_contents q)
      \<and> pipe_ok (snd (pipe_get q)) \<and> pipe_contents (snd (pipe_get q)) = tl (pipe_contents q)"
    by (rule pipe_get_Cons)
qed

section \<open>pipewrite and piperead\<close>

lemma piperead_copy_spec:
  "pipe_ok x \<Longrightarrow> fst (piperead_copy n x) = take n (pipe_contents x)
    \<and> pipe_ok (snd (piperead_copy n x)) \<and> pipe_contents (snd (piperead_copy n x)) = drop n (pipe_contents x)"
proof (induction n arbitrary: x)
  case (Suc n)
  show ?case
  proof (cases "pipe_contents x")
    case Nil
    then show ?thesis using Suc.prems by (simp add: pipe_empty_iff)
  next
    case (Cons c cs)
    then have g: "fst (pipe_get x) = c" "pipe_ok (snd (pipe_get x))" "pipe_contents (snd (pipe_get x)) = cs"
      using pq.get_Cons [OF Suc.prems] by simp_all
    show ?thesis
      using Suc.IH [OF g(2)] Cons g by (simp add: pipe_empty_iff split_beta Let_def)
  qed
qed simp

text \<open>Writing what fits.\<close>

lemma upd_pipe_same [simp]:
  "held (upd_pipe p g s) = held s" "pipes (upd_pipe p g s) p = g (pipes s p)"
  "upd_pipe p g (upd_pipe p f s) = upd_pipe p (g \<circ> f) s"
  by (simp_all add: upd_pipe_def)

lemma pipewrite_loop_room:
  "pipe_ok (pipes s p) \<Longrightarrow> length (pipe_contents (pipes s p)) + length cs \<le> PIPESIZE \<Longrightarrow>
    pipewrite_loop p (cs @ rest) n s = pipewrite_loop p rest n (upd_pipe p (fold pipe_put cs) s)"
proof (induction cs arbitrary: s)
  case Nil
  then show ?case by (simp add: upd_pipe_def)
next
  case (Cons c cs)
  have "pi_nwrite (pipes s p) \<noteq> pi_nread (pipes s p) + of_nat PIPESIZE"
    unfolding pipe_full_iff using Cons.prems(2) by simp
  moreover have "pipe_ok (pipe_put c (pipes s p))" "pipe_contents (pipe_put c (pipes s p)) = pipe_contents (pipes s p) @ [c]"
    using pq.put_snoc [OF Cons.prems(1)] Cons.prems(2) by simp_all
  ultimately show ?case
    using Cons.IH [of "upd_pipe p (pipe_put c) s"] Cons.prems(2) by (simp add: comp_def)
qed

lemma pipes_held: "pipes (s\<lparr>held := h\<rparr>) = pipes s"
  by simp

lemma pipes_wakeup1 [simp]: "pipes (wakeup1 ch s) = pipes s"
  by (simp add: wakeup1_def)

lemma pipewrite_all:
  assumes "pipe_ok (pipes s p)" "length (pipe_contents (pipes s p)) + length cs \<le> PIPESIZE"
    and "LkPipe p \<notin> set (held s)" "LkPtable \<notin> set (held s)"
  shows "pipewrite p cs s = Done (int (length cs)) (wakeup1 (ChPipeRead p) (upd_pipe p (fold pipe_put cs) s))"
proof -
  let ?s = "s\<lparr>held := LkPipe p # held s\<rparr>"
  let ?t = "upd_pipe p (fold pipe_put cs) s"
  have "pipewrite p cs s = pipewrite_loop p ([] :: u8 list) (int (length cs)) (upd_pipe p (fold pipe_put cs) ?s)"
    using pipewrite_loop_room [of ?s p cs "[]"] assms by (simp add: pipewrite_def acquireK_free)
  moreover have "upd_pipe p (fold pipe_put cs) ?s = ?t\<lparr>held := LkPipe p # held s\<rparr>"
    by (simp add: upd_pipe_def)
  moreover have "(wakeup1 (ChPipeRead p) ?t)\<lparr>held := held s\<rparr> = wakeup1 (ChPipeRead p) ?t"
    by (simp add: wakeup1_def upd_pipe_def)
  ultimately show ?thesis
    using assms(4) by (simp add: wakeup_eq wakeup1_held_commute releaseK_top)
qed

lemma piperead_all:
  assumes "pipe_ok (pipes s p)" "pipe_contents (pipes s p) \<noteq> [] \<or> \<not> pi_writeopen (pipes s p)"
    and "LkPipe p \<notin> set (held s)" "LkPtable \<notin> set (held s)"
  shows "piperead p n s = Done (int (length (take (nat n) (pipe_contents (pipes s p)))), take (nat n) (pipe_contents (pipes s p)))
    (wakeup1 (ChPipeWrite p) (upd_pipe p (\<lambda>x. snd (piperead_copy (nat n) x)) s))"
proof -
  let ?s = "s\<lparr>held := LkPipe p # held s\<rparr>"
  let ?t = "upd_pipe p (\<lambda>x. snd (piperead_copy (nat n) x)) s"
  have c: "fst (piperead_copy (nat n) (pipes s p)) = take (nat n) (pipe_contents (pipes s p))"
    using piperead_copy_spec [OF assms(1)] by blast
  have u: "upd_pipe p (\<lambda>_. snd (piperead_copy (nat n) (pipes s p))) ?s = ?t\<lparr>held := LkPipe p # held s\<rparr>"
    by (simp add: upd_pipe_def)
  have k: "(wakeup1 (ChPipeWrite p) ?t)\<lparr>held := held s\<rparr> = wakeup1 (ChPipeWrite p) ?t"
    by (simp add: wakeup1_def upd_pipe_def)
  have ne: "(pi_nread (pipes s p) = pi_nwrite (pipes s p) \<and> pi_writeopen (pipes s p)) = False"
    using assms(2) by (simp add: pipe_empty_iff)
  have "piperead_loop p n ?s = bindK (wakeup (ChPipeWrite p) (?t\<lparr>held := LkPipe p # held s\<rparr>))
      (\<lambda>_ s'. bindK (releaseK (LkPipe p) s')
        (\<lambda>_ s'. Done (int (length (take (nat n) (pipe_contents (pipes s p)))), take (nat n) (pipe_contents (pipes s p))) s'))"
    unfolding piperead_loop_def split_beta Let_def fstate.select_convs fstate.update_convs
    by (simp only: pipes_held ne if_False c u)
  then show ?thesis
    using assms(3,4) k
    by (simp add: piperead_def acquireK_free wakeup_eq wakeup1_held_commute releaseK_top)
qed

section \<open>Properties\<close>

text \<open>
  C8: A pipe is a queue of bytes, at any values of its free-running counters. A \<open>pipewrite\<close> for
  which there is room returns the number of bytes and appends them to the contents; a \<open>piperead\<close>
  of a pipe with contents, or whose write end is closed, returns the first \<open>n\<close> bytes (all of
  them, when there are fewer), in the order in which they were written, and keeps the others.
\<close>

theorem pipe_fifo:
  assumes "pipe_ok (pipes s p)" and "LkPipe p \<notin> set (held s)" "LkPtable \<notin> set (held s)"
  shows "(length (pipe_contents (pipes s p)) + length cs \<le> PIPESIZE \<longrightarrow>
      (\<exists>t. pipewrite p cs s = Done (int (length cs)) t \<and> pipe_ok (pipes t p)
         \<and> pipe_contents (pipes t p) = pipe_contents (pipes s p) @ cs))
    \<and> (pipe_contents (pipes s p) \<noteq> [] \<or> \<not> pi_writeopen (pipes s p) \<longrightarrow>
      (\<exists>t bs. piperead p n s = Done (int (length bs), bs) t \<and> pipe_ok (pipes t p)
         \<and> bs = take (nat n) (pipe_contents (pipes s p))
         \<and> pipe_contents (pipes t p) = drop (nat n) (pipe_contents (pipes s p))))"
proof (intro conjI impI)
  assume "length (pipe_contents (pipes s p)) + length cs \<le> PIPESIZE"
  from pipewrite_all [OF assms(1) this assms(2,3)] pq.puts [OF assms(1) this]
  show "\<exists>t. pipewrite p cs s = Done (int (length cs)) t \<and> pipe_ok (pipes t p)
         \<and> pipe_contents (pipes t p) = pipe_contents (pipes s p) @ cs" by simp
next
  assume "pipe_contents (pipes s p) \<noteq> [] \<or> \<not> pi_writeopen (pipes s p)"
  from piperead_all [OF assms(1) this assms(2,3), of n] piperead_copy_spec [OF assms(1), of "nat n"]
  show "\<exists>t bs. piperead p n s = Done (int (length bs), bs) t \<and> pipe_ok (pipes t p)
         \<and> bs = take (nat n) (pipe_contents (pipes s p))
         \<and> pipe_contents (pipes t p) = drop (nat n) (pipe_contents (pipes s p))" by simp
qed

text \<open>A pipe whose write counter is about to wrap around, with two bytes in it.\<close>

definition wrapping_pipe :: pipe where
  "wrapping_pipe = \<lparr>pi_data = (replicate 512 0)[510 := 1, 511 := 2], pi_nread = 0xFFFFFFFE, pi_nwrite = 0,
     pi_readopen = True, pi_writeopen = True\<rparr>"

definition one_pipe :: fstate where
  "one_pipe =
     \<lparr>mem = \<lambda>_. 0, sym_end = 0x80110000, sym_data = 0x80108000,
      held = [], ptable = [blank_proc\<lparr>p_state := RUNNING, p_pid := 1\<rparr>], initproc = None, nextpid = 2, cpu = 0,
      cpu_proc = \<lambda>_. Some 0, ticks = 0, cons_locking = False, console = [], kmem_use_lock = True, kmem_freelist = 0,
      kpgdir = 0, cr3 = 0, gdt = \<lambda>_ _. SEG 0 0 0 0, ts = \<lambda>_. zero_ts, ts_addr = \<lambda>_. 0, gdtr = \<lambda>_. None,
      tr = \<lambda>_. 0, bufs = [], disk = \<lambda>_. replicate 512 0, disksize = 1000, disk_trace = [],
      log_start = 2, log_size = 30, log_outstanding = 0, log_committing = False, log_dev = 1, lh_n = 0,
      lh_block = replicate 30 0, icache = [], sb = decode_sb (replicate 512 0), ftable = [], pipes = \<lambda>_. wrapping_pipe\<rparr>"

theorem pipe_fifo_witness:
  "(\<exists>t. pipewrite 0 [3] one_pipe = Done 1 t \<and> pipe_ok (pipes t 0) \<and> pipe_contents (pipes t 0) = [1, 2, 3])
   \<and> (\<exists>t bs. piperead 0 1 one_pipe = Done (int (length bs), bs) t \<and> pipe_ok (pipes t 0)
         \<and> bs = [1] \<and> pipe_contents (pipes t 0) = [2])"
proof -
  have p: "pipes one_pipe 0 = wrapping_pipe" "held one_pipe = []" by (simp_all add: one_pipe_def)
  have len: "pipe_len wrapping_pipe = 2" by (simp add: pipe_len_def wrapping_pipe_def)
  then have ok: "pipe_ok wrapping_pipe" by (simp add: pipe_ok_def wrapping_pipe_def)
  have at: "unat (pi_nread wrapping_pipe) = 4294967294" by (simp add: wrapping_pipe_def)
  have c: "pipe_contents wrapping_pipe = [1, 2]"
    unfolding pipe_contents_def len at by (simp add: ring_list_def wrapping_pipe_def upt_rec)
  show ?thesis
    using pipe_fifo [where s = one_pipe and p = 0 and cs = "[3]" and n = 1] unfolding p c by (simp add: ok)
qed

end
