(* ===== verification/Spinlock.thy ===== *)
theory Spinlock
  imports Prelude
begin

text \<open>
  spinlock.c on several CPUs: \<open>pushcli\<close> and \<open>popcli\<close>, and \<open>acquire\<close> and \<open>release\<close> cut into the
  atomic steps in which CPUs may interleave (the exchange on \<open>lk->locked\<close> among them). The step
  relation lets every CPU start an acquire or a release at any time and take its steps in any
  order with the others'. Its invariant gives mutual exclusion, that interrupts are off on a CPU
  that holds a lock, and that \<open>popcli\<close> in \<open>release\<close> never panics.
\<close>

section \<open>State\<close>

record spinlock =
  lk_locked :: u32
  lk_name :: string
  lk_cpu :: "nat option"
  lk_pcs :: "u32 list"

text \<open>
  Where a CPU is in the code of acquire and release: outside, spinning, past the exchange but
  before \<open>lk->cpu\<close> is set, or in release after \<open>lk->cpu\<close> was cleared.
\<close>

datatype lock_pc = Outside | Spin lockid | Got lockid | Dropping lockid

text \<open>
  \<open>c_if\<close> is the interrupt flag; \<open>c_held\<close> lists the locks whose \<open>acquire\<close> has returned on this CPU
  and whose \<open>release\<close> has not begun.
\<close>

record cpu_state =
  c_ncli :: int
  c_intena :: bool
  c_if :: bool
  c_pc :: lock_pc
  c_held :: "lockid list"

record smp =
  locks :: "lockid \<Rightarrow> spinlock"
  cpus :: "nat \<Rightarrow> cpu_state"

definition initlock :: "lockid \<Rightarrow> string \<Rightarrow> smp \<Rightarrow> smp" where
  "initlock lk name s =
     s\<lparr>locks := (locks s)(lk := (locks s lk)\<lparr>lk_name := name, lk_locked := 0, lk_cpu := None\<rparr>)\<rparr>"

section \<open>Interrupts\<close>

definition pushcli :: "cpu_state \<Rightarrow> cpu_state" where
  "pushcli c =
     (let eflags = c_if c;
          c = c\<lparr>c_if := False\<rparr>;
          c = (if c_ncli c = 0 then c\<lparr>c_intena := eflags\<rparr> else c) in
      c\<lparr>c_ncli := c_ncli c + 1\<rparr>)"

text \<open>\<open>Inl\<close> is the panic message.\<close>

definition popcli :: "cpu_state \<Rightarrow> string + cpu_state" where
  "popcli c =
     (if c_if c then Inl ''popcli - interruptible''
      else let c = c\<lparr>c_ncli := c_ncli c - 1\<rparr> in
           if c_ncli c < 0 then Inl ''popcli''
           else Inr (if c_ncli c = 0 \<and> c_intena c then c\<lparr>c_if := True\<rparr> else c))"

section \<open>Atomic steps\<close>

definition holding :: "nat \<Rightarrow> lockid \<Rightarrow> smp \<Rightarrow> bool" where
  "holding c lk s \<longleftrightarrow> lk_locked (locks s lk) \<noteq> 0 \<and> lk_cpu (locks s lk) = Some c"

definition upd_cpu :: "nat \<Rightarrow> (cpu_state \<Rightarrow> cpu_state) \<Rightarrow> smp \<Rightarrow> smp" where
  "upd_cpu c f s = s\<lparr>cpus := (cpus s)(c := f (cpus s c))\<rparr>"

definition upd_lock :: "lockid \<Rightarrow> (spinlock \<Rightarrow> spinlock) \<Rightarrow> smp \<Rightarrow> smp" where
  "upd_lock lk f s = s\<lparr>locks := (locks s)(lk := f (locks s lk))\<rparr>"

text \<open>\<open>acquire\<close> up to its loop.\<close>

definition acquire_start :: "nat \<Rightarrow> lockid \<Rightarrow> smp \<Rightarrow> string + smp" where
  "acquire_start c lk s =
     (let s = upd_cpu c pushcli s in
      if holding c lk s then Inl ''acquire'' else Inr (upd_cpu c (\<lambda>x. x\<lparr>c_pc := Spin lk\<rparr>) s))"

text \<open>One round of the loop: \<open>xchg(&lk->locked, 1)\<close>.\<close>

definition acquire_xchg :: "nat \<Rightarrow> lockid \<Rightarrow> smp \<Rightarrow> smp" where
  "acquire_xchg c lk s =
     (let old = lk_locked (locks s lk);
          s = upd_lock lk (\<lambda>l. l\<lparr>lk_locked := 1\<rparr>) s in
      if old \<noteq> 0 then s else upd_cpu c (\<lambda>x. x\<lparr>c_pc := Got lk\<rparr>) s)"

text \<open>\<open>pcs\<close> is the call stack that \<open>getcallerpcs\<close> records.\<close>

definition acquire_end :: "nat \<Rightarrow> lockid \<Rightarrow> u32 list \<Rightarrow> smp \<Rightarrow> smp" where
  "acquire_end c lk pcs s =
     upd_cpu c (\<lambda>x. x\<lparr>c_pc := Outside, c_held := lk # c_held x\<rparr>)
       (upd_lock lk (\<lambda>l. l\<lparr>lk_cpu := Some c, lk_pcs := pcs\<rparr>) s)"

text \<open>\<open>release\<close> up to the store that frees the lock.\<close>

definition release_start :: "nat \<Rightarrow> lockid \<Rightarrow> smp \<Rightarrow> string + smp" where
  "release_start c lk s =
     (if \<not> holding c lk s then Inl ''release''
      else Inr (upd_cpu c (\<lambda>x. x\<lparr>c_pc := Dropping lk, c_held := remove1 lk (c_held x)\<rparr>)
                 (upd_lock lk (\<lambda>l. l\<lparr>lk_pcs := (lk_pcs l)[0 := 0], lk_cpu := None\<rparr>) s)))"

definition release_end :: "nat \<Rightarrow> lockid \<Rightarrow> smp \<Rightarrow> string + smp" where
  "release_end c lk s =
     (let s = upd_lock lk (\<lambda>l. l\<lparr>lk_locked := 0\<rparr>) s in
      case popcli (cpus s c) of
        Inl m \<Rightarrow> Inl m
      | Inr x \<Rightarrow> Inr (s\<lparr>cpus := (cpus s)(c := x\<lparr>c_pc := Outside\<rparr>)\<rparr>))"

inductive lock_step :: "smp \<Rightarrow> smp \<Rightarrow> bool" where
  start: "c_pc (cpus s c) = Outside \<Longrightarrow> acquire_start c lk s = Inr t \<Longrightarrow> lock_step s t"
| spin: "c_pc (cpus s c) = Spin lk \<Longrightarrow> lock_step s (acquire_xchg c lk s)"
| got: "c_pc (cpus s c) = Got lk \<Longrightarrow> lock_step s (acquire_end c lk pcs s)"
| drop: "c_pc (cpus s c) = Outside \<Longrightarrow> release_start c lk s = Inr t \<Longrightarrow> lock_step s t"
| free: "c_pc (cpus s c) = Dropping lk \<Longrightarrow> release_end c lk s = Inr t \<Longrightarrow> lock_step s t"

inductive_cases lock_stepE: "lock_step s t"

section \<open>The invariant\<close>

text \<open>The CPU is past the exchange on the lock and has not yet stored 0 into it.\<close>

definition owns :: "smp \<Rightarrow> nat \<Rightarrow> lockid \<Rightarrow> bool" where
  "owns s c lk \<longleftrightarrow> lk \<in> set (c_held (cpus s c)) \<or> c_pc (cpus s c) = Got lk \<or> c_pc (cpus s c) = Dropping lk"

definition cpu_ok :: "cpu_state \<Rightarrow> bool" where
  "cpu_ok c \<longleftrightarrow>
     c_ncli c = int (length (c_held c)) + (if c_pc c = Outside then 0 else 1)
     \<and> (c_ncli c > 0 \<longrightarrow> \<not> c_if c) \<and> distinct (c_held c)
     \<and> (\<forall>lk. c_pc c = Got lk \<or> c_pc c = Dropping lk \<longrightarrow> lk \<notin> set (c_held c))"

definition lock_inv :: "smp \<Rightarrow> bool" where
  "lock_inv s \<longleftrightarrow>
     (\<forall>c. cpu_ok (cpus s c))
     \<and> (\<forall>lk. lk_locked (locks s lk) \<noteq> 0 \<longleftrightarrow> (\<exists>c. owns s c lk))
     \<and> (\<forall>lk c d. owns s c lk \<longrightarrow> owns s d lk \<longrightarrow> c = d)
     \<and> (\<forall>lk c. lk_cpu (locks s lk) = Some c \<longleftrightarrow> lk \<in> set (c_held (cpus s c)))"

lemma lock_invD:
  assumes "lock_inv s"
  shows "cpu_ok (cpus s c)" "lk_locked (locks s lk) \<noteq> 0 \<longleftrightarrow> (\<exists>c. owns s c lk)"
    "owns s c lk \<Longrightarrow> owns s d lk \<Longrightarrow> c = d"
    "lk_cpu (locks s lk) = Some c \<longleftrightarrow> lk \<in> set (c_held (cpus s c))"
  using assms unfolding lock_inv_def by blast+

lemma holding_iff: "lock_inv s \<Longrightarrow> holding c lk s \<longleftrightarrow> lk \<in> set (c_held (cpus s c))"
  using lock_invD(2,4) [of s lk] by (auto simp: holding_def owns_def)

text \<open>The initial state: no lock held, no CPU in the code.\<close>

definition smp_init :: smp where
  "smp_init =
     \<lparr>locks = \<lambda>_. \<lparr>lk_locked = 0, lk_name = [], lk_cpu = None, lk_pcs = replicate 10 0\<rparr>,
      cpus = \<lambda>_. \<lparr>c_ncli = 0, c_intena = False, c_if = True, c_pc = Outside, c_held = []\<rparr>\<rparr>"

lemma lock_inv_init: "lock_inv smp_init"
  by (simp add: lock_inv_def smp_init_def cpu_ok_def owns_def)

lemma popcli_pushcli: "c_ncli c \<ge> 0 \<Longrightarrow> (c_ncli c > 0 \<longrightarrow> \<not> c_if c) \<Longrightarrow>
    popcli (pushcli c) = Inr (c\<lparr>c_intena := if c_ncli c = 0 then c_if c else c_intena c,
                               c_if := if c_ncli c = 0 then c_if c else False\<rparr>)"
  by (auto simp: popcli_def pushcli_def Let_def)

section \<open>Every step keeps it\<close>

text \<open>
  A step changes one CPU and at most one lock. Whoever owned the other locks still does, so the
  invariant is a matter of that CPU and that lock.
\<close>

lemma lock_inv_local:
  assumes inv: "lock_inv s"
    and cpus: "\<And>d. d \<noteq> c \<Longrightarrow> cpus t d = cpus s d"
    and others: "\<And>l. l \<noteq> lk \<Longrightarrow> locks t l = locks s l"
    and ok: "cpu_ok (cpus t c)"
    and same: "\<And>l. l \<noteq> lk \<Longrightarrow> owns t c l = owns s c l"
      "\<And>l. l \<noteq> lk \<Longrightarrow> (l \<in> set (c_held (cpus t c))) = (l \<in> set (c_held (cpus s c)))"
    and locked: "lk_locked (locks t lk) \<noteq> 0 \<longleftrightarrow> owns t c lk \<or> (\<exists>d. d \<noteq> c \<and> owns s d lk)"
    and single: "owns t c lk \<Longrightarrow> owns s c lk \<or> lk_locked (locks s lk) = 0"
    and cpu: "\<And>d. lk_cpu (locks t lk) = Some d \<longleftrightarrow>
        lk \<in> set (c_held (cpus (if d = c then t else s) d))"
  shows "lock_inv t"
proof -
  have owns_d: "owns t d l = owns s d l" if "d \<noteq> c" for d l
    using cpus [OF that] by (simp add: owns_def)
  have alone: "\<not> owns s d lk" if "owns t c lk" "d \<noteq> c" for d
    using single [OF that(1)] that(2) lock_invD(2,3) [OF inv] by metis
  have owned: "lk_locked (locks t l) \<noteq> 0 \<longleftrightarrow> (\<exists>d. owns t d l)" for l
  proof (cases "l = lk")
    case True
    then show ?thesis using locked owns_d by metis
  next
    case False
    then show ?thesis using lock_invD(2) [OF inv, of l] others same(1) owns_d by metis
  qed
  have unique: "d = e" if "owns t d l" "owns t e l" for d e l
    using that lock_invD(3) [OF inv] alone same(1) owns_d by metis
  have recorded: "lk_cpu (locks t l) = Some d \<longleftrightarrow> l \<in> set (c_held (cpus t d))" for d l
    using cpu [of d] lock_invD(4) [OF inv, of l d] others [of l] same(2) [of l] cpus [of d]
    by (cases "l = lk"; cases "d = c") auto
  have "cpu_ok (cpus t d)" for d
    using ok cpus [of d] lock_invD(1) [OF inv, of d] by (cases "d = c") auto
  with owned unique recorded show ?thesis unfolding lock_inv_def by blast
qed

lemmas step_defs = owns_def upd_cpu_def upd_lock_def

lemma acquire_start_inv:
  assumes inv: "lock_inv s" and pc: "c_pc (cpus s c) = Outside" and r: "acquire_start c lk s = Inr t"
  shows "lock_inv t"
proof (rule lock_inv_local [OF inv, where c = c and lk = lk])
  have t: "t = upd_cpu c (\<lambda>x. x\<lparr>c_pc := Spin lk\<rparr>) (upd_cpu c pushcli s)"
    using r by (auto simp: acquire_start_def Let_def split: if_splits)
  have held: "c_held (pushcli x) = c_held x" for x
    by (simp add: pushcli_def Let_def)
  show "cpu_ok (cpus t c)"
    using lock_invD(1) [OF inv, of c] pc by (auto simp: t cpu_ok_def upd_cpu_def pushcli_def Let_def)
  have own: "owns t c l = owns s c l" for l
    using pc by (simp add: t step_defs held)
  show "lk_locked (locks t lk) \<noteq> 0 \<longleftrightarrow> owns t c lk \<or> (\<exists>d. d \<noteq> c \<and> owns s d lk)"
    using lock_invD(2) [OF inv, of lk] unfolding own by (auto simp: t upd_cpu_def)
  show "owns t c lk \<Longrightarrow> owns s c lk \<or> lk_locked (locks s lk) = 0"
    by (simp add: own)
  show "owns t c l = owns s c l" for l by (rule own)
  show "lk_cpu (locks t lk) = Some d \<longleftrightarrow> lk \<in> set (c_held (cpus (if d = c then t else s) d))" for d
    using lock_invD(4) [OF inv, of lk d] by (simp add: t upd_cpu_def held)
qed (use r in \<open>auto simp: acquire_start_def upd_cpu_def pushcli_def Let_def split: if_splits\<close>)

lemma acquire_xchg_inv:
  assumes inv: "lock_inv s" and pc: "c_pc (cpus s c) = Spin lk"
  shows "lock_inv (acquire_xchg c lk s)"
proof (rule lock_inv_local [OF inv, where c = c and lk = lk])
  let ?t = "acquire_xchg c lk s"
  have nothere: "lk_locked (locks s lk) = 0 \<Longrightarrow> \<not> owns s d lk" for d
    using lock_invD(2) [OF inv, of lk] by blast
  show "cpu_ok (cpus ?t c)"
    using lock_invD(1) [OF inv, of c] pc nothere [of c]
    by (auto simp: acquire_xchg_def Let_def step_defs cpu_ok_def)
  have own: "owns ?t c lk \<longleftrightarrow> owns s c lk \<or> lk_locked (locks s lk) = 0"
    by (auto simp: acquire_xchg_def Let_def step_defs)
  then show "owns ?t c lk \<Longrightarrow> owns s c lk \<or> lk_locked (locks s lk) = 0" by blast
  show "lk_locked (locks ?t lk) \<noteq> 0 \<longleftrightarrow> owns ?t c lk \<or> (\<exists>d. d \<noteq> c \<and> owns s d lk)"
    using lock_invD(2) [OF inv, of lk] unfolding own
    by (auto simp: acquire_xchg_def Let_def upd_cpu_def upd_lock_def)
  show "lk_cpu (locks ?t lk) = Some d \<longleftrightarrow> lk \<in> set (c_held (cpus (if d = c then ?t else s) d))" for d
    using lock_invD(4) [OF inv, of lk d] by (simp add: acquire_xchg_def Let_def upd_cpu_def upd_lock_def)
qed (use pc in \<open>auto simp: acquire_xchg_def Let_def step_defs\<close>)

lemma acquire_end_inv:
  assumes inv: "lock_inv s" and pc: "c_pc (cpus s c) = Got lk"
  shows "lock_inv (acquire_end c lk pcs s)"
proof (rule lock_inv_local [OF inv, where c = c and lk = lk])
  let ?t = "acquire_end c lk pcs s"
  have mine: "owns s c lk" using pc by (simp add: owns_def)
  then show "owns s c lk \<or> lk_locked (locks s lk) = 0" by blast
  have locked: "lk_locked (locks s lk) \<noteq> 0" using mine lock_invD(2) [OF inv, of lk] by blast
  have none: "lk \<notin> set (c_held (cpus s d))" if "d \<noteq> c" for d
    using that mine lock_invD(3) [OF inv, of c lk d] by (auto simp: owns_def)
  show "cpu_ok (cpus ?t c)"
    using lock_invD(1) [OF inv, of c] pc by (auto simp: acquire_end_def upd_cpu_def upd_lock_def cpu_ok_def)
  show "lk_locked (locks ?t lk) \<noteq> 0 \<longleftrightarrow> owns ?t c lk \<or> (\<exists>d. d \<noteq> c \<and> owns s d lk)"
    using locked by (simp add: acquire_end_def step_defs)
  show "lk_cpu (locks ?t lk) = Some d \<longleftrightarrow> lk \<in> set (c_held (cpus (if d = c then ?t else s) d))" for d
    using none [of d] by (simp add: acquire_end_def upd_cpu_def upd_lock_def)
qed (use pc in \<open>auto simp: acquire_end_def step_defs\<close>)

lemma release_start_inv:
  assumes inv: "lock_inv s" and pc: "c_pc (cpus s c) = Outside" and r: "release_start c lk s = Inr t"
  shows "lock_inv t"
proof (rule lock_inv_local [OF inv, where c = c and lk = lk])
  have t: "t = upd_cpu c (\<lambda>x. x\<lparr>c_pc := Dropping lk, c_held := remove1 lk (c_held x)\<rparr>)
      (upd_lock lk (\<lambda>l. l\<lparr>lk_pcs := (lk_pcs l)[0 := 0], lk_cpu := None\<rparr>) s)" and h: "holding c lk s"
    using r by (auto simp: release_start_def split: if_splits)
  have held: "lk \<in> set (c_held (cpus s c))" using h holding_iff [OF inv] by blast
  then have mine: "owns s c lk" by (simp add: owns_def)
  then show "owns s c lk \<or> lk_locked (locks s lk) = 0" by blast
  have dist: "distinct (c_held (cpus s c))"
    using lock_invD(1) [OF inv, of c] by (simp add: cpu_ok_def)
  have none: "lk \<notin> set (c_held (cpus s d))" if "d \<noteq> c" for d
    using that mine lock_invD(3) [OF inv, of c lk d] by (auto simp: owns_def)
  have len: "int (length (c_held (cpus s c))) = int (length (remove1 lk (c_held (cpus s c)))) + 1"
    using held length_pos_if_in_set [OF held] by (simp only: length_remove1 if_True)
  show "cpu_ok (cpus t c)"
    using lock_invD(1) [OF inv, of c] pc dist len
    by (auto simp: t upd_cpu_def upd_lock_def cpu_ok_def)
  show "lk_locked (locks t lk) \<noteq> 0 \<longleftrightarrow> owns t c lk \<or> (\<exists>d. d \<noteq> c \<and> owns s d lk)"
    using h by (simp add: t step_defs holding_def)
  show "lk_cpu (locks t lk) = Some d \<longleftrightarrow> lk \<in> set (c_held (cpus (if d = c then t else s) d))" for d
    using none [of d] dist by (simp add: t upd_cpu_def upd_lock_def)
  show "owns t c l = owns s c l" if "l \<noteq> lk" for l
    using that pc by (simp add: t step_defs)
  show "(l \<in> set (c_held (cpus t c))) = (l \<in> set (c_held (cpus s c)))" if "l \<noteq> lk" for l
    using that by (simp add: t upd_cpu_def upd_lock_def)
qed (use r in \<open>auto simp: release_start_def upd_cpu_def upd_lock_def split: if_splits\<close>)

lemma popcli_ok:
  assumes "cpu_ok x" "c_pc x = Dropping lk"
  obtains y where "popcli x = Inr y" "cpu_ok (y\<lparr>c_pc := Outside\<rparr>)" "c_held y = c_held x"
proof
  let ?y = "if c_ncli x = 1 \<and> c_intena x then x\<lparr>c_ncli := 0, c_if := True\<rparr>
            else x\<lparr>c_ncli := c_ncli x - 1\<rparr>"
  show "popcli x = Inr ?y" "cpu_ok (?y\<lparr>c_pc := Outside\<rparr>)" "c_held ?y = c_held x"
    using assms by (auto simp: popcli_def Let_def cpu_ok_def)
qed

text \<open>The end of release never panics, and keeps the invariant.\<close>

lemma release_end_inv:
  assumes inv: "lock_inv s" and pc: "c_pc (cpus s c) = Dropping lk"
  obtains t where "release_end c lk s = Inr t" "lock_inv t"
proof -
  let ?s = "upd_lock lk (\<lambda>l. l\<lparr>lk_locked := 0\<rparr>) s"
  obtain y where pop: "popcli (cpus s c) = Inr y" and ok: "cpu_ok (y\<lparr>c_pc := Outside\<rparr>)"
    and held: "c_held y = c_held (cpus s c)"
    using popcli_ok [OF lock_invD(1) [OF inv, of c] pc] by metis
  let ?t = "?s\<lparr>cpus := (cpus ?s)(c := y\<lparr>c_pc := Outside\<rparr>)\<rparr>"
  have r: "release_end c lk s = Inr ?t"
    using pop by (simp add: release_end_def Let_def upd_lock_def)
  have mine: "owns s c lk" using pc by (simp add: owns_def)
  have only: "\<not> owns s d lk" if "d \<noteq> c" for d
    using that mine lock_invD(3) [OF inv, of c lk d] by blast
  have out: "lk \<notin> set (c_held (cpus s c))"
    using lock_invD(1) [OF inv, of c] pc by (auto simp: cpu_ok_def)
  have "lock_inv ?t"
  proof (rule lock_inv_local [OF inv, where c = c and lk = lk])
    show "cpu_ok (cpus ?t c)" using ok by simp
    show "lk_locked (locks ?t lk) \<noteq> 0 \<longleftrightarrow> owns ?t c lk \<or> (\<exists>d. d \<noteq> c \<and> owns s d lk)"
      using only out held by (auto simp: owns_def upd_lock_def)
    show "lk_cpu (locks ?t lk) = Some d \<longleftrightarrow> lk \<in> set (c_held (cpus (if d = c then ?t else s) d))" for d
      using lock_invD(4) [OF inv, of lk d] held by (simp add: upd_lock_def)
  qed (use mine pc held in \<open>auto simp: step_defs\<close>)
  with r show ?thesis by (rule that)
qed

theorem lock_step_inv: "lock_step s t \<Longrightarrow> lock_inv s \<Longrightarrow> lock_inv t"
proof (induction rule: lock_step.induct)
  case (start s c lk t)
  then show ?case by (blast intro: acquire_start_inv)
next
  case (spin s c lk)
  then show ?case by (blast intro: acquire_xchg_inv)
next
  case (got s c lk pcs)
  then show ?case by (blast intro: acquire_end_inv)
next
  case (drop s c lk t)
  then show ?case by (blast intro: release_start_inv)
next
  case (free s c lk t)
  then show ?case using release_end_inv [OF free(3,1)] by (metis sum.inject(2))
qed

lemma lock_steps_inv: "lock_step\<^sup>*\<^sup>* s t \<Longrightarrow> lock_inv s \<Longrightarrow> lock_inv t"
  by (induction rule: rtranclp_induct) (auto intro: lock_step_inv)

section \<open>An undisturbed acquire and release\<close>

text \<open>\<open>acquire\<close> and \<open>release\<close> run by a CPU while the others stand still; None is a spin without end.\<close>

definition acquire :: "nat \<Rightarrow> lockid \<Rightarrow> u32 list \<Rightarrow> smp \<Rightarrow> (string + smp) option" where
  "acquire c lk pcs s =
     (case acquire_start c lk s of
        Inl m \<Rightarrow> Some (Inl m)
      | Inr s \<Rightarrow> let t = acquire_xchg c lk s in
          if c_pc (cpus t c) = Got lk then Some (Inr (acquire_end c lk pcs t)) else None)"

definition release :: "nat \<Rightarrow> lockid \<Rightarrow> smp \<Rightarrow> string + smp" where
  "release c lk s = (case release_start c lk s of Inl m \<Rightarrow> Inl m | Inr s \<Rightarrow> release_end c lk s)"

lemma pushcli_fields [simp]:
  "c_pc (pushcli x) = c_pc x" "c_held (pushcli x) = c_held x"
  by (simp_all add: pushcli_def Let_def)

lemma acquire_cases:
  assumes "lock_inv s" "c_pc (cpus s c) = Outside"
  shows "lk \<in> set (c_held (cpus s c)) \<Longrightarrow> acquire c lk pcs s = Some (Inl ''acquire'')"
    "lk \<notin> set (c_held (cpus s c)) \<Longrightarrow> (\<exists>d. owns s d lk) \<Longrightarrow> acquire c lk pcs s = None"
    "(\<nexists>d. owns s d lk) \<Longrightarrow> \<exists>t. acquire c lk pcs s = Some (Inr t) \<and> lock_inv t
       \<and> c_held (cpus t c) = lk # c_held (cpus s c) \<and> (\<forall>d. d \<noteq> c \<longrightarrow> cpus t d = cpus s d)"
proof -
  have h: "holding c lk (upd_cpu c pushcli s) \<longleftrightarrow> lk \<in> set (c_held (cpus s c))"
    using holding_iff [OF assms(1), of c lk] by (simp add: holding_def upd_cpu_def)
  show "lk \<in> set (c_held (cpus s c)) \<Longrightarrow> acquire c lk pcs s = Some (Inl ''acquire'')"
    using h by (simp add: acquire_def acquire_start_def Let_def)
  assume out: "lk \<notin> set (c_held (cpus s c))"
  then obtain s1 where s1: "acquire_start c lk s = Inr s1"
    "s1 = upd_cpu c (\<lambda>x. x\<lparr>c_pc := Spin lk\<rparr>) (upd_cpu c pushcli s)"
    using h by (simp add: acquire_start_def Let_def)
  assume "\<exists>d. owns s d lk"
  then have "lk_locked (locks s lk) \<noteq> 0" using lock_invD(2) [OF assms(1)] by blast
  then show "acquire c lk pcs s = None"
    using s1 by (simp add: acquire_def acquire_xchg_def upd_cpu_def upd_lock_def Let_def)
next
  assume free: "\<nexists>d. owns s d lk"
  then have out: "lk \<notin> set (c_held (cpus s c))" by (auto simp: owns_def)
  have h: "\<not> holding c lk (upd_cpu c pushcli s)"
    using holding_iff [OF assms(1), of c lk] out by (simp add: holding_def upd_cpu_def)
  define s1 where "s1 = upd_cpu c (\<lambda>x. x\<lparr>c_pc := Spin lk\<rparr>) (upd_cpu c pushcli s)"
  have s1: "acquire_start c lk s = Inr s1" using h by (simp add: acquire_start_def Let_def s1_def)
  have zero: "lk_locked (locks s lk) = 0" using free lock_invD(2) [OF assms(1)] by blast
  have pcs: "c_pc (cpus s1 c) = Spin lk" "c_pc (cpus (acquire_xchg c lk s1) c) = Got lk"
    using zero by (simp_all add: s1_def acquire_xchg_def upd_cpu_def upd_lock_def Let_def)
  have inv: "lock_inv (acquire_end c lk pcs (acquire_xchg c lk s1))"
    by (rule acquire_end_inv [OF acquire_xchg_inv [OF acquire_start_inv [OF assms s1] pcs(1)] pcs(2)])
  show "\<exists>t. acquire c lk pcs s = Some (Inr t) \<and> lock_inv t
       \<and> c_held (cpus t c) = lk # c_held (cpus s c) \<and> (\<forall>d. d \<noteq> c \<longrightarrow> cpus t d = cpus s d)"
    using inv pcs s1 zero
    by (simp add: acquire_def Let_def) (simp add: s1_def acquire_end_def acquire_xchg_def upd_cpu_def upd_lock_def Let_def)
qed

lemma release_cases:
  assumes "lock_inv s" "c_pc (cpus s c) = Outside"
  shows "lk \<notin> set (c_held (cpus s c)) \<Longrightarrow> release c lk s = Inl ''release''"
    "lk \<in> set (c_held (cpus s c)) \<Longrightarrow> \<exists>t. release c lk s = Inr t \<and> lock_inv t"
proof -
  show "lk \<notin> set (c_held (cpus s c)) \<Longrightarrow> release c lk s = Inl ''release''"
    using holding_iff [OF assms(1), of c lk] by (simp add: release_def release_start_def)
  assume "lk \<in> set (c_held (cpus s c))"
  then obtain t where t: "release_start c lk s = Inr t"
    using holding_iff [OF assms(1), of c lk] by (simp add: release_start_def)
  then have pc: "c_pc (cpus t c) = Dropping lk"
    by (auto simp: release_start_def upd_cpu_def upd_lock_def split: if_splits)
  show "\<exists>t. release c lk s = Inr t \<and> lock_inv t"
    using release_end_inv [OF release_start_inv [OF assms t] pc] t by (simp add: release_def) metis
qed

section \<open>Properties\<close>

text \<open>
  C6: Mutual exclusion. However the steps of \<open>acquire\<close> and \<open>release\<close> on any number of CPUs interleave,
  from the time a CPU's exchange on \<open>lk->locked\<close> succeeds to the time it stores 0 there no other CPU
  is in this part of the code for the same lock, and \<open>lk->locked\<close> is 1 exactly during these times.
\<close>

theorem mutual_exclusion:
  assumes "lock_step\<^sup>*\<^sup>* smp_init s"
  shows "(owns s c lk \<longrightarrow> owns s d lk \<longrightarrow> c = d) \<and> (lk_locked (locks s lk) \<noteq> 0 \<longleftrightarrow> (\<exists>c. owns s c lk))"
  using lock_invD(2,3) [OF lock_steps_inv [OF assms lock_inv_init]] by blast

text \<open>CPU 0 has acquired \<open>ptable.lock\<close>.\<close>

definition one_owner :: smp where
  "one_owner = acquire_end 0 LkPtable [] (acquire_xchg 0 LkPtable
    (upd_cpu 0 (\<lambda>x. x\<lparr>c_pc := Spin LkPtable\<rparr>) (upd_cpu 0 pushcli smp_init)))"

lemma one_owner_reached: "lock_step\<^sup>*\<^sup>* smp_init one_owner"
proof -
  define a where "a = upd_cpu 0 (\<lambda>x. x\<lparr>c_pc := Spin LkPtable\<rparr>) (upd_cpu 0 pushcli smp_init)"
  define b where "b = acquire_xchg 0 LkPtable a"
  have "acquire_start 0 LkPtable smp_init = Inr a"
    by (simp add: a_def acquire_start_def holding_def smp_init_def upd_cpu_def Let_def)
  then have 1: "lock_step smp_init a" by (intro lock_step.start [of smp_init 0]) (simp_all add: smp_init_def)
  have 2: "lock_step a b"
    unfolding b_def by (intro lock_step.spin) (simp add: a_def upd_cpu_def)
  have "c_pc (cpus b 0) = Got LkPtable"
    by (simp add: b_def a_def acquire_xchg_def upd_cpu_def upd_lock_def smp_init_def Let_def)
  then have 3: "lock_step b one_owner"
    unfolding one_owner_def a_def [symmetric] b_def [symmetric] by (rule lock_step.got)
  show ?thesis
    by (rule converse_rtranclp_into_rtranclp [where r = lock_step, OF 1],
      rule converse_rtranclp_into_rtranclp [where r = lock_step, OF 2], rule r_into_rtranclp [where r = lock_step, OF 3])
qed

lemma one_owner_held: "c_held (cpus one_owner 0) = [LkPtable]" "c_pc (cpus one_owner 0) = Outside"
  by (simp_all add: one_owner_def acquire_end_def acquire_xchg_def upd_cpu_def upd_lock_def smp_init_def Let_def)

theorem mutual_exclusion_witness:
  "lock_step\<^sup>*\<^sup>* smp_init one_owner \<and> owns one_owner 0 LkPtable \<and> \<not> owns one_owner 1 LkPtable"
proof -
  have "owns one_owner 0 LkPtable" by (simp add: owns_def one_owner_held)
  with mutual_exclusion [OF one_owner_reached, of 0 LkPtable 1] one_owner_reached show ?thesis by simp
qed

text \<open>
  C18: On every CPU interrupts are off while it holds or waits for a spin lock; \<open>ncli\<close> counts the locks
  it holds plus the one it is acquiring or releasing, so that the \<open>popcli\<close> at the end of a
  \<open>release\<close> never panics.
\<close>

theorem interrupts_off:
  assumes "lock_step\<^sup>*\<^sup>* smp_init s"
  shows "(c_held (cpus s c) \<noteq> [] \<or> c_pc (cpus s c) \<noteq> Outside \<longrightarrow> \<not> c_if (cpus s c))
    \<and> c_ncli (cpus s c) = int (length (c_held (cpus s c))) + (if c_pc (cpus s c) = Outside then 0 else 1)
    \<and> (c_pc (cpus s c) = Dropping lk \<longrightarrow> (\<exists>t. release_end c lk s = Inr t))"
proof (intro conjI impI)
  have inv: "lock_inv s" by (rule lock_steps_inv [OF assms lock_inv_init])
  show n: "c_ncli (cpus s c) = int (length (c_held (cpus s c))) + (if c_pc (cpus s c) = Outside then 0 else 1)"
    using lock_invD(1) [OF inv, of c] by (simp add: cpu_ok_def)
  show "\<not> c_if (cpus s c)" if "c_held (cpus s c) \<noteq> [] \<or> c_pc (cpus s c) \<noteq> Outside"
    using lock_invD(1) [OF inv, of c] that
    unfolding cpu_ok_def by (metis add_nonneg_pos add_pos_nonneg length_greater_0_conv of_nat_0_le_iff
        of_nat_0_less_iff order_refl zero_less_one)
  show "\<exists>t. release_end c lk s = Inr t" if "c_pc (cpus s c) = Dropping lk"
    using release_end_inv [OF inv that] by blast
qed

theorem interrupts_off_witness:
  "lock_step\<^sup>*\<^sup>* smp_init one_owner \<and> \<not> c_if (cpus one_owner 0) \<and> c_ncli (cpus one_owner 0) = 1"
  using interrupts_off [OF one_owner_reached, of 0 LkPtable] one_owner_reached one_owner_held by simp

end
