(* ===== verification/Ulib.thy ===== *)
theory Ulib
  imports Cprintf Strings "HOL-Library.Char_ord"
begin

text \<open>
  ulib.c: the library of the user programs. A C string that is only read is a list of characters
  whose end is the terminating zero byte; \<open>strcpy\<close> and \<open>memmove\<close>, which write through pointers, act
  on memory. Input that a function reads with \<open>read\<close> is the list of the bytes still to come.
\<close>

section \<open>Definitions\<close>

text \<open>\<open>strcpy\<close> copies up to and including the first zero byte, and may not return if there is none.\<close>

partial_function (option) strcpy :: "memory \<Rightarrow> u32 \<Rightarrow> u32 \<Rightarrow> memory option" where
  "strcpy m s t =
     (let c = m t; m = m(s := c) in
      if c \<noteq> 0 then strcpy m (s + 1) (t + 1) else Some m)"

fun strcmp :: "string \<Rightarrow> string \<Rightarrow> int" where
  "strcmp (p # ps) (q # qs) =
     (if p = q then strcmp ps qs else int (of_char p) - int (of_char q))"
| "strcmp (p # ps) [] = int (of_char p)"
| "strcmp [] (q # qs) = - int (of_char q)"
| "strcmp [] [] = 0"

text \<open>\<open>strchr\<close>: the position of the first occurrence; the zero byte ends the string.\<close>

fun strchr :: "string \<Rightarrow> char \<Rightarrow> nat option" where
  "strchr [] c = None"
| "strchr (x # xs) c =
     (if x = CHR 0x00 then None else if x = c then Some 0 else map_option Suc (strchr xs c))"

text \<open>\<open>gets\<close> with \<open>k\<close> for the room left before the terminating zero; the second result is the input left.\<close>

fun gets_loop :: "nat \<Rightarrow> string \<Rightarrow> string \<times> string" where
  "gets_loop 0 inp = ([], inp)"
| "gets_loop (Suc k) [] = ([], [])"
| "gets_loop (Suc k) (c # inp) =
     (if c = CHR 0x0A \<or> c = CHR 0x0D then ([c], inp)
      else let (l, rest) = gets_loop k inp in (c # l, rest))"

definition gets :: "string \<Rightarrow> int \<Rightarrow> string \<times> string" where
  "gets inp maxn = gets_loop (nat (maxn - 1)) inp"

text \<open>\<open>atoi\<close>: \<open>n\<close> is a 32-bit integer.\<close>

definition is_digit :: "char \<Rightarrow> bool" where
  "is_digit c \<longleftrightarrow> CHR ''0'' \<le> c \<and> c \<le> CHR ''9''"

fun atoi_loop :: "u32 \<Rightarrow> string \<Rightarrow> u32" where
  "atoi_loop n [] = n"
| "atoi_loop n (c # s) =
     (if is_digit c then atoi_loop (n * 10 + (of_char c - of_char CHR ''0'')) s else n)"

definition atoi :: "string \<Rightarrow> u32" where
  "atoi s = atoi_loop 0 s"

text \<open>The \<open>memmove\<close> of the user library only copies upwards.\<close>

definition umemmove :: "memory \<Rightarrow> u32 \<Rightarrow> u32 \<Rightarrow> int \<Rightarrow> memory" where
  "umemmove m dst src n = copy_up m dst src (nat n)"

definition umemset :: "memory \<Rightarrow> u32 \<Rightarrow> u32 \<Rightarrow> u32 \<Rightarrow> memory" where
  "umemset m dst c n = stosb m dst c (unat n)"

section \<open>Comparing and searching\<close>

lemma of_char_nonzero: "c \<noteq> CHR 0x00 \<Longrightarrow> of_char c \<noteq> (0 :: nat)"
  using of_char_eq_iff [of c "CHR 0x00", where 'a = nat] by simp

lemma strcmp_0_iff: "CHR 0x00 \<notin> set p \<Longrightarrow> CHR 0x00 \<notin> set q \<Longrightarrow> strcmp p q = 0 \<longleftrightarrow> p = q"
proof (induction p q rule: strcmp.induct)
  case (1 p ps q qs)
  then show ?case by (auto simp: of_char_eq_iff)
next
  case (2 p ps)
  then have "p \<noteq> CHR 0x00" by auto
  then have "of_char p \<noteq> (0 :: nat)" by (rule of_char_nonzero)
  then show ?case by simp
next
  case (3 q qs)
  then have "q \<noteq> CHR 0x00" by auto
  then have "of_char q \<noteq> (0 :: nat)" by (rule of_char_nonzero)
  then show ?case by simp
qed simp

lemma strchr_None: "CHR 0x00 \<notin> set s \<Longrightarrow> strchr s c = None \<longleftrightarrow> c \<notin> set s"
  by (induction s) auto

lemma strchr_Some:
  "strchr s c = Some i \<Longrightarrow> i < length s \<and> s ! i = c \<and> c \<notin> set (take i s) \<and> CHR 0x00 \<notin> set (take (Suc i) s)"
proof (induction s arbitrary: i)
  case (Cons x s)
  then show ?case by (cases i) (auto split: if_splits)
qed simp

section \<open>Numbers\<close>

lemma decimal_digit:
  assumes "i < 10"
  shows "is_digit (digits_upper ! i) \<and> of_char (digits_upper ! i) - of_char CHR ''0'' = (of_nat i :: u32)
    \<and> length (takeWhile (\<lambda>d. d \<noteq> digits_upper ! i) digits_upper) = i"
proof -
  have "list_all (\<lambda>i. is_digit (digits_upper ! i) \<and> of_char (digits_upper ! i) - of_char CHR ''0'' = (of_nat i :: u32)
    \<and> length (takeWhile (\<lambda>d. d \<noteq> digits_upper ! i) digits_upper) = i) [0..<10]" by code_simp
  then show ?thesis using assms by (simp add: list_all_iff)
qed

definition decimal :: "string \<Rightarrow> bool" where
  "decimal r \<longleftrightarrow> list_all (\<lambda>c. \<exists>i < 10. c = digits_upper ! i) r"

lemma printint_digits_decimal: "printint_digits digits_upper n x 10 = Some r \<Longrightarrow> decimal r"
proof (induction n arbitrary: x r)
  case (Suc n)
  have "unat (x mod 10) < 10" by (simp add: unat_mod)
  then have "\<exists>i < 10. digits_upper ! unat (x mod 10) = digits_upper ! i" by blast
  then show ?case using Suc by (auto simp: decimal_def Let_def split: if_splits)
qed simp

lemma atoi_loop_append: "list_all is_digit xs \<Longrightarrow> atoi_loop n (xs @ ys) = atoi_loop (atoi_loop n xs) ys"
  by (induction xs arbitrary: n) auto

lemma decimal_digits: "decimal r \<Longrightarrow> list_all is_digit (rev r)"
  using decimal_digit by (auto simp: decimal_def list_all_iff)

lemma atoi_loop_decimal:
  "decimal r \<Longrightarrow> atoi_loop 0 (rev r) = of_nat (digits_value digits_upper 10 r)"
proof (induction r)
  case (Cons c r)
  then obtain i where i: "i < 10" "c = digits_upper ! i" by (auto simp: decimal_def)
  have r: "decimal r" using Cons.prems by (simp add: decimal_def)
  note d = decimal_digit [OF i(1), folded i(2)]
  have "atoi_loop 0 (rev (c # r)) = atoi_loop (of_nat (digits_value digits_upper 10 r)) [c]"
    using atoi_loop_append [OF decimal_digits [OF r]] Cons.IH [OF r] by simp
  also have "\<dots> = of_nat (digits_value digits_upper 10 (c # r))" using d by (simp add: add.commute mult.commute)
  finally show ?case .
qed simp

lemma atoi_printint_nonneg:
  assumes "\<not> (sg \<and> sint x < 0)" and rest: "rest = [] \<or> \<not> is_digit (hd rest)"
  shows "\<exists>t. printint digits_upper x 10 sg = Some t \<and> atoi (t @ rest) = x"
proof -
  obtain r where r: "printint_digits digits_upper 16 x 10 = Some r" "digits_value digits_upper 10 r = unat x"
    using printint_digits_table [of 10 digits_upper x] by auto
  have d: "decimal r" by (rule printint_digits_decimal [OF r(1)])
  have "atoi (rev r @ rest) = atoi_loop x rest"
    unfolding atoi_def using atoi_loop_append [OF decimal_digits [OF d]] atoi_loop_decimal [OF d] r(2) by simp
  also have "\<dots> = x" using rest by (cases rest) auto
  finally have "atoi (rev r @ rest) = x" .
  then show ?thesis using r(1) assms(1) by (auto simp: printint_def Let_def)
qed

section \<open>Properties\<close>

text \<open>
  C38: What \<open>printf\<close> prints for a non-negative \<open>%d\<close>, \<open>atoi\<close> reads back as the same 32-bit number,
  whatever text that does not start with a digit follows it.
\<close>

theorem atoi_printint:
  assumes "\<not> (sg \<and> sint x < 0)" and "rest = [] \<or> \<not> is_digit (hd rest)"
  shows "\<exists>t. printint digits_upper x 10 sg = Some t \<and> atoi (t @ rest) = x"
  by (rule atoi_printint_nonneg [OF assms])

theorem atoi_printint_witness:
  "\<exists>t. printint digits_upper 2147483647 10 True = Some t \<and> atoi (t @ '' bytes'') = 2147483647"
  by (rule atoi_printint) (simp_all add: is_digit_def less_eq_char_def)

end
