(* ===== verification/Grep.thy ===== *)
theory Grep
  imports Ulib
begin

text \<open>
  grep.c: the matcher of regular expressions and the loop that applies it to the lines of its
  input. Pattern and text are C strings; the input is the list of what the successive calls of
  \<open>read\<close> return, the output the list of what is passed to \<open>write\<close>. The matcher is shown to decide
  the language of the pattern, and the loop to print the matching lines, as long as every
  \<open>read\<close> completes a line.
\<close>

section \<open>The matcher\<close>

function (sequential) matchhere :: "string \<Rightarrow> string \<Rightarrow> bool"
  and matchstar :: "char \<Rightarrow> string \<Rightarrow> string \<Rightarrow> bool" where
  "matchhere [] txt' = True"
| "matchhere (c # re) txt' =
     (if re \<noteq> [] \<and> hd re = CHR ''*'' then matchstar c (tl re) txt'
      else if c = CHR ''$'' \<and> re = [] then txt' = []
      else if txt' \<noteq> [] \<and> (c = CHR ''.'' \<or> c = hd txt') then matchhere re (tl txt')
      else False)"
| "matchstar c re txt' =
     (if matchhere re txt' then True
      else if txt' \<noteq> [] \<and> (hd txt' = c \<or> c = CHR ''.'') then matchstar c re (tl txt')
      else False)"
  by pat_completeness auto
termination
  by (relation "measures [\<lambda>x. case x of Inl (re, t) \<Rightarrow> length re | Inr (c, re, t) \<Rightarrow> length re,
        \<lambda>x. case x of Inl (re, t) \<Rightarrow> 0 | Inr (c, re, t) \<Rightarrow> Suc (length t)]") auto

declare matchhere.simps [simp del] matchstar.simps [simp del]

text \<open>The loop of \<open>match\<close> looks at every suffix, the empty one included.\<close>

fun match_loop :: "string \<Rightarrow> string \<Rightarrow> bool" where
  "match_loop re [] = matchhere re []"
| "match_loop re (c # s) = (if matchhere re (c # s) then True else match_loop re s)"

definition match :: "string \<Rightarrow> string \<Rightarrow> bool" where
  "match re s =
     (if re \<noteq> [] \<and> hd re = CHR ''^'' then matchhere (tl re) s else match_loop re s)"

section \<open>The loop over the input\<close>

text \<open>
  The inner loop of \<open>grep\<close> from the pointer \<open>p\<close> on: the lines written, and the rest of the buffer
  after the last newline.
\<close>

function grep_lines :: "string \<Rightarrow> string \<Rightarrow> string list \<times> string" where
  "grep_lines pattern p =
     (case strchr p (CHR 0x0A) of
        None \<Rightarrow> ([], p)
      | Some q \<Rightarrow>
          let (out, rest) = grep_lines pattern (drop (Suc q) p) in
          ((if match pattern (take q p) then [take (Suc q) p] else []) @ out, rest))"
  by pat_completeness auto
termination
proof (relation "measure (\<lambda>(pattern, p). length p)")
  show "((pattern, drop (Suc q) p), pattern, p) \<in> measure (\<lambda>(pattern, p). length p)"
    if "strchr p (CHR 0x0A) = Some q" for pattern p q
    using strchr_Some [OF that] by auto
qed simp

declare grep_lines.simps [simp del]

text \<open>
  \<open>buf\<close> holds the \<open>m\<close> bytes kept from the last round. When a round finds no newline (\<open>p == buf\<close>), \<open>m\<close>
  becomes 0 and the bytes are forgotten. The buffer has 1024 bytes, one of them for the zero.
\<close>

fun grep :: "string \<Rightarrow> string \<Rightarrow> string list \<Rightarrow> string list" where
  "grep pattern buf [] = []"
| "grep pattern buf (n # reads) =
     (if n = [] then []
      else let b = buf @ n; (out, p) = grep_lines pattern b in
           out @ grep pattern (if length p = length b then [] else p) reads)"

section \<open>The language of a pattern\<close>

text \<open>
  A pattern is a sequence of items, each a character or a dot, once or repeated, with an optional
  end mark.
\<close>

datatype item = Single char | Repeat char

fun parse :: "string \<Rightarrow> item list \<times> bool" where
  "parse [] = ([], False)"
| "parse [c] = (if c = CHR ''$'' then ([], True) else ([Single c], False))"
| "parse (c # d # re) =
     (if d = CHR ''*'' then let (is, e) = parse re in (Repeat c # is, e)
      else let (is, e) = parse (d # re) in (Single c # is, e))"

definition accepts :: "char \<Rightarrow> char \<Rightarrow> bool" where
  "accepts c x \<longleftrightarrow> c = CHR ''.'' \<or> c = x"

fun lang :: "item list \<Rightarrow> string set" where
  "lang [] = {[]}"
| "lang (Single c # is) = {x # w | x w. accepts c x \<and> w \<in> lang is}"
| "lang (Repeat c # is) = {u @ w | u w. list_all (accepts c) u \<and> w \<in> lang is}"

text \<open>A prefix of the text is in the language; the whole text, if the pattern ends in \<open>$\<close>.\<close>

definition starts_with :: "item list \<times> bool \<Rightarrow> string \<Rightarrow> bool" where
  "starts_with p s \<longleftrightarrow> (\<exists>u v. s = u @ v \<and> u \<in> lang (fst p) \<and> (snd p \<longrightarrow> v = []))"

lemma starts_with_Nil: "starts_with ([], e) s \<longleftrightarrow> (e \<longrightarrow> s = [])"
  by (auto simp: starts_with_def)

lemma starts_withI: "s = u @ v \<Longrightarrow> u \<in> lang is \<Longrightarrow> e \<longrightarrow> v = [] \<Longrightarrow> starts_with (is, e) s"
  by (auto simp: starts_with_def)

lemma starts_withE:
  assumes "starts_with (is, e) s"
  obtains u v where "s = u @ v" "u \<in> lang is" "e \<longrightarrow> v = []"
  using assms unfolding starts_with_def by auto

lemma starts_with_Single:
  "starts_with (Single c # is, e) s \<longleftrightarrow> s \<noteq> [] \<and> accepts c (hd s) \<and> starts_with (is, e) (tl s)"
proof
  assume "starts_with (Single c # is, e) s"
  then obtain u v where "s = u @ v" "u \<in> lang (Single c # is)" "e \<longrightarrow> v = []" by (rule starts_withE)
  then obtain x w where "s = x # w @ v" "accepts c x" "w \<in> lang is" "e \<longrightarrow> v = []" by auto
  then show "s \<noteq> [] \<and> accepts c (hd s) \<and> starts_with (is, e) (tl s)" using starts_withI [of "tl s" w v] by simp
next
  assume a: "s \<noteq> [] \<and> accepts c (hd s) \<and> starts_with (is, e) (tl s)"
  then obtain u v where u: "tl s = u @ v" "u \<in> lang is" "e \<longrightarrow> v = []" by (blast elim: starts_withE)
  have "s = (hd s # u) @ v" using a u(1) by (cases s) auto
  moreover have "hd s # u \<in> lang (Single c # is)" using a u(2) by simp
  ultimately show "starts_with (Single c # is, e) s" using u(3) by (rule starts_withI)
qed

lemma Repeat_lang: "list_all (accepts c) u \<Longrightarrow> w \<in> lang is \<Longrightarrow> u @ w \<in> lang (Repeat c # is)"
  by auto

lemma starts_with_Repeat:
  "starts_with (Repeat c # is, e) s \<longleftrightarrow>
     starts_with (is, e) s \<or> s \<noteq> [] \<and> accepts c (hd s) \<and> starts_with (Repeat c # is, e) (tl s)"
proof
  assume "starts_with (Repeat c # is, e) s"
  then obtain x v where x: "s = x @ v" "x \<in> lang (Repeat c # is)" "e \<longrightarrow> v = []" by (rule starts_withE)
  then obtain u w where s: "s = (u @ w) @ v" "list_all (accepts c) u" "w \<in> lang is" by auto
  show "starts_with (is, e) s \<or> s \<noteq> [] \<and> accepts c (hd s) \<and> starts_with (Repeat c # is, e) (tl s)"
  proof (cases u)
    case Nil
    then show ?thesis using s x(3) starts_withI [of s w v] by simp
  next
    case (Cons y u')
    have "u' @ w \<in> lang (Repeat c # is)" using Cons s by auto
    then have "starts_with (Repeat c # is, e) (tl s)" using Cons s(1) x(3) by (intro starts_withI [of _ "u' @ w" v]) auto
    then show ?thesis using Cons s by simp
  qed
next
  assume "starts_with (is, e) s \<or> s \<noteq> [] \<and> accepts c (hd s) \<and> starts_with (Repeat c # is, e) (tl s)"
  then show "starts_with (Repeat c # is, e) s"
  proof (elim disjE conjE)
    assume "starts_with (is, e) s"
    then obtain w v where w: "s = w @ v" "w \<in> lang is" "e \<longrightarrow> v = []" by (rule starts_withE)
    have "[] @ w \<in> lang (Repeat c # is)" by (rule Repeat_lang) (use w(2) in simp_all)
    then show ?thesis using w by (intro starts_withI [of s w v]) auto
  next
    assume a: "s \<noteq> []" "accepts c (hd s)" "starts_with (Repeat c # is, e) (tl s)"
    then obtain x v where x: "tl s = x @ v" "x \<in> lang (Repeat c # is)" "e \<longrightarrow> v = []" by (blast elim: starts_withE)
    then obtain u w where u: "x = u @ w" "list_all (accepts c) u" "w \<in> lang is" by auto
    have "(hd s # u) @ w \<in> lang (Repeat c # is)" by (rule Repeat_lang) (use a(2) u(2,3) in simp_all)
    moreover have "s = ((hd s # u) @ w) @ v" using a(1) x(1) u(1) by (cases s) auto
    ultimately show ?thesis using x(3) by (intro starts_withI [of s "(hd s # u) @ w" v])
  qed
qed

lemma parse_Cons:
  "parse (c # re) =
     (if re \<noteq> [] \<and> hd re = CHR ''*'' then (Repeat c # fst (parse (tl re)), snd (parse (tl re)))
      else if c = CHR ''$'' \<and> re = [] then ([], True)
      else (Single c # fst (parse re), snd (parse re)))"
  by (cases re) (auto simp: case_prod_unfold Let_def)

lemma matcher_lang:
  "matchhere re s = starts_with (parse re) s"
  "matchstar c re s = starts_with (Repeat c # fst (parse re), snd (parse re)) s"
proof (induction re s and c re s rule: matchhere_matchstar.induct)
  case (1 s)
  then show ?case by (simp add: matchhere.simps starts_with_Nil)
next
  case (2 c re s)
  then show ?case
    by (auto simp: matchhere.simps parse_Cons starts_with_Nil starts_with_Single accepts_def simp del: parse.simps)
next
  case (3 c re s)
  show ?case
    unfolding matchstar.simps [of c re s] starts_with_Repeat [of c "fst (parse re)" "snd (parse re)" s]
    using 3 by (auto simp: accepts_def)
qed

lemma match_loop_suffix: "match_loop re s \<longleftrightarrow> (\<exists>u v. s = u @ v \<and> starts_with (parse re) v)"
proof (induction s)
  case (Cons c s)
  have "(\<exists>u v. c # s = u @ v \<and> starts_with (parse re) v)
      \<longleftrightarrow> starts_with (parse re) (c # s) \<or> (\<exists>u v. s = u @ v \<and> starts_with (parse re) v)"
    by (auto simp: Cons_eq_append_conv)
  then show ?case using Cons.IH by (simp add: matcher_lang)
qed (simp add: matcher_lang)

section \<open>The lines\<close>

text \<open>The complete lines of a text, each with its newline.\<close>

fun complete_lines :: "string \<Rightarrow> string \<Rightarrow> string list" where
  "complete_lines acc [] = []"
| "complete_lines acc (c # s) =
     (if c = CHR 0x0A then (acc @ [c]) # complete_lines [] s else complete_lines (acc @ [c]) s)"

lemma complete_lines_none: "CHR 0x0A \<notin> set s \<Longrightarrow> complete_lines acc s = []"
  by (induction s arbitrary: acc) auto

lemma complete_lines_step:
  "CHR 0x0A \<notin> set u \<Longrightarrow> complete_lines acc (u @ CHR 0x0A # s) = (acc @ u @ [CHR 0x0A]) # complete_lines [] s"
  by (induction u arbitrary: acc) auto

text \<open>What is left after the last newline, and that the lines before it do not depend on what follows.\<close>

definition last_part :: "string \<Rightarrow> string" where
  "last_part s = rev (takeWhile (\<lambda>c. c \<noteq> CHR 0x0A) (rev s))"

lemma last_part_none: "CHR 0x0A \<notin> set s \<Longrightarrow> last_part s = s"
proof -
  assume "CHR 0x0A \<notin> set s"
  then have "\<forall>c \<in> set (rev s). c \<noteq> CHR 0x0A" by auto
  then show ?thesis by (simp only: last_part_def takeWhile_eq_all_conv [THEN iffD2] rev_rev_ident)
qed

lemma last_part_step: "last_part (u @ CHR 0x0A # s) = last_part s"
proof (cases "CHR 0x0A \<in> set s")
  case True
  then show ?thesis by (simp add: last_part_def takeWhile_append1 [of "CHR 0x0A"])
next
  case False
  then have "takeWhile (\<lambda>c. c \<noteq> CHR 0x0A) (rev s @ CHR 0x0A # rev u) = rev s"
    by (subst takeWhile_append2) auto
  then show ?thesis using last_part_none [OF False] by (simp add: last_part_def)
qed

lemma split_line:
  assumes "strchr s (CHR 0x0A) = Some q"
  shows "s = take q s @ CHR 0x0A # drop (Suc q) s" "CHR 0x0A \<notin> set (take q s)"
  using strchr_Some [OF assms] id_take_nth_drop [of q s] by auto

lemma complete_lines_append:
  "complete_lines [] (s @ t) = complete_lines [] s @ complete_lines [] (last_part s @ t)"
proof (induction "length s" arbitrary: s rule: less_induct)
  case less
  show ?case
  proof (cases "CHR 0x0A \<in> set s")
    case False
    then show ?thesis by (simp add: complete_lines_none last_part_none)
  next
    case True
    then obtain u v where s: "s = u @ CHR 0x0A # v" "CHR 0x0A \<notin> set u" by (meson split_list_first)
    then have "complete_lines [] (v @ t) = complete_lines [] v @ complete_lines [] (last_part v @ t)" using less by simp
    then show ?thesis using complete_lines_step [OF s(2), of "[]"] by (simp add: s(1) last_part_step)
  qed
qed

lemma grep_lines_spec:
  assumes "CHR 0x00 \<notin> set p"
  shows "grep_lines pattern p = (filter (\<lambda>l. match pattern (butlast l)) (complete_lines [] p), last_part p)"
  using assms
proof (induction "length p" arbitrary: p rule: less_induct)
  case less
  show ?case
  proof (cases "strchr p (CHR 0x0A)")
    case None
    then have "CHR 0x0A \<notin> set p" using strchr_None [OF less.prems] by simp
    then show ?thesis using None by (simp add: grep_lines.simps complete_lines_none last_part_none)
  next
    case (Some q)
    let ?u = "take q p" and ?v = "drop (Suc q) p"
    note sp = split_line [OF Some]
    have "length ?v < length p" using strchr_Some [OF Some] by auto
    moreover have "CHR 0x00 \<notin> set ?v" using less.prems by (meson in_set_dropD)
    ultimately have IH: "grep_lines pattern ?v = (filter (\<lambda>l. match pattern (butlast l)) (complete_lines [] ?v), last_part ?v)"
      by (rule less.hyps)
    have tk: "take (Suc q) p = ?u @ [CHR 0x0A]" using strchr_Some [OF Some] by (simp add: take_Suc_conv_app_nth)
    have cl: "complete_lines [] p = (?u @ [CHR 0x0A]) # complete_lines [] ?v"
      using complete_lines_step [OF sp(2), of "[]" ?v] sp(1) by simp
    have lp: "last_part p = last_part ?v" using last_part_step [of ?u ?v] sp(1) by simp
    show ?thesis
      unfolding grep_lines.simps [of pattern p] Some option.case Let_def IH prod.case cl lp tk by simp
  qed
qed

lemma length_last_part: "CHR 0x0A \<in> set s \<Longrightarrow> length (last_part s) < length s"
proof -
  assume "CHR 0x0A \<in> set s"
  then obtain u v where "s = u @ CHR 0x0A # v" by (meson split_list)
  moreover have "length (last_part v) \<le> length v" using length_takeWhile_le [of _ "rev v"] by (simp add: last_part_def)
  ultimately show ?thesis by (simp add: last_part_step)
qed

lemma grep_spec:
  assumes "list_all (\<lambda>n. CHR 0x0A \<in> set n \<and> CHR 0x00 \<notin> set n) reads" and "CHR 0x00 \<notin> set buf" "CHR 0x0A \<notin> set buf"
  shows "grep pattern buf reads = filter (\<lambda>l. match pattern (butlast l)) (complete_lines [] (buf @ concat reads))"
  using assms
proof (induction reads arbitrary: buf)
  case Nil
  then show ?case by (simp add: complete_lines_none)
next
  case (Cons n reads)
  let ?b = "buf @ n"
  have n: "n \<noteq> []" "CHR 0x0A \<in> set n" "CHR 0x00 \<notin> set ?b" using Cons.prems by auto
  have lp: "length (last_part ?b) \<noteq> length ?b" using length_last_part [of ?b] n(2) by simp
  have sub: "set (last_part ?b) \<subseteq> set ?b - {CHR 0x0A}" unfolding last_part_def by (auto dest: set_takeWhileD)
  then have IH: "grep pattern (last_part ?b) reads
      = filter (\<lambda>l. match pattern (butlast l)) (complete_lines [] (last_part ?b @ concat reads))"
    using Cons.prems n(3) by (intro Cons.IH) auto
  have "grep pattern buf (n # reads) = filter (\<lambda>l. match pattern (butlast l)) (complete_lines [] ?b) @ grep pattern (last_part ?b) reads"
    using n(1) lp unfolding grep.simps Let_def grep_lines_spec [OF n(3)] prod.case by simp
  also have "\<dots> = filter (\<lambda>l. match pattern (butlast l)) (complete_lines [] (?b @ concat reads))"
    unfolding IH complete_lines_append [of ?b] by simp
  finally show ?case by simp
qed

section \<open>Properties\<close>

text \<open>
  C37: grep's matcher decides the language of its pattern: \<open>match re s\<close> holds exactly when some
  substring of \<open>s\<close> is in the language of the items of \<open>re\<close>, where \<open>^\<close> in front pins it to the start of
  \<open>s\<close> and \<open>$\<close> at the end pins it to the end; and the matcher always returns.
\<close>

theorem match_language:
  "match re s \<longleftrightarrow>
     (if re \<noteq> [] \<and> hd re = CHR ''^'' then starts_with (parse (tl re)) s
      else (\<exists>u v. s = u @ v \<and> starts_with (parse re) v))"
  by (simp add: match_def matcher_lang match_loop_suffix)

text \<open>
  C39: When every \<open>read\<close> returns at least one newline and no zero byte, \<open>grep\<close> writes exactly the
  complete lines of its input that match, in order, however the input is cut into reads.
\<close>

theorem grep_matching_lines:
  assumes "list_all (\<lambda>n. CHR 0x0A \<in> set n \<and> CHR 0x00 \<notin> set n) reads"
  shows "grep pattern [] reads = filter (\<lambda>l. match pattern (butlast l)) (complete_lines [] (concat reads))"
  using grep_spec [OF assms, of "[]" pattern] by simp

theorem grep_matching_lines_witness:
  "grep ''b$'' [] [''ab'' @ [CHR 0x0A] @ ''c'', ''b'' @ [CHR 0x0A] @ ''bc'' @ [CHR 0x0A]]
   = [''ab'' @ [CHR 0x0A], ''cb'' @ [CHR 0x0A]]"
proof -
  have "list_all (\<lambda>n. CHR 0x0A \<in> set n \<and> CHR 0x00 \<notin> set n) [''ab'' @ [CHR 0x0A] @ ''c'', ''b'' @ [CHR 0x0A] @ ''bc'' @ [CHR 0x0A]]"
    by simp
  from grep_matching_lines [OF this, of "''b$''"] show ?thesis
    by (simp add: match_def matchhere.simps)
qed


end
