(* ===== verification/Umalloc.thy ===== *)
theory Umalloc
  imports Machine "HOL-Library.Disjoint_Sets"
begin

text \<open>
  umalloc.c: the storage allocator of the user programs. A header is the address of its first byte;
  the two fields of the headers in memory are the maps \<open>h_ptr\<close> and \<open>h_size\<close>, which is sound because
  headers never overlap. \<open>base\<close> is the address of the static header and \<open>sbrk\<close> the system call, which
  takes a state \<open>w\<close> of the rest of the system. The loops walk a circular list and are partial
  functions: that they end is part of what is proved.
\<close>

section \<open>Definitions\<close>

record uheap =
  h_ptr :: "u32 \<Rightarrow> u32"
  h_size :: "u32 \<Rightarrow> u32"
  freep :: u32

text \<open>\<open>p + p->s.size\<close>, in units of a header, which has 8 bytes.\<close>

definition hdr_end :: "uheap \<Rightarrow> u32 \<Rightarrow> u32" where
  "hdr_end h p = p + 8 * h_size h p"

partial_function (option) free_find :: "uheap \<Rightarrow> u32 \<Rightarrow> u32 \<Rightarrow> u32 option" where
  "free_find h bp p =
     (if bp > p \<and> bp < h_ptr h p then Some p
      else if p \<ge> h_ptr h p \<and> (bp > p \<or> bp < h_ptr h p) then Some p
      else free_find h bp (h_ptr h p))"

definition join_next :: "u32 \<Rightarrow> u32 \<Rightarrow> uheap \<Rightarrow> uheap" where
  "join_next bp p h =
     (if hdr_end h bp = h_ptr h p
      then let h = h\<lparr>h_size := (h_size h)(bp := h_size h bp + h_size h (h_ptr h p))\<rparr> in
           h\<lparr>h_ptr := (h_ptr h)(bp := h_ptr h (h_ptr h p))\<rparr>
      else h\<lparr>h_ptr := (h_ptr h)(bp := h_ptr h p)\<rparr>)"

definition join_prev :: "u32 \<Rightarrow> u32 \<Rightarrow> uheap \<Rightarrow> uheap" where
  "join_prev bp p h =
     (if hdr_end h p = bp
      then let h = h\<lparr>h_size := (h_size h)(p := h_size h p + h_size h bp)\<rparr> in
           h\<lparr>h_ptr := (h_ptr h)(p := h_ptr h bp)\<rparr>
      else h\<lparr>h_ptr := (h_ptr h)(p := bp)\<rparr>)"

definition free :: "u32 \<Rightarrow> uheap \<Rightarrow> uheap option" where
  "free ap h =
     (let bp = ap - 8 in
      map_option (\<lambda>p. (join_prev bp p (join_next bp p h))\<lparr>freep := p\<rparr>) (free_find h bp (freep h)))"

definition morecore :: "(u32 \<Rightarrow> 'w \<Rightarrow> u32 \<times> 'w) \<Rightarrow> u32 \<Rightarrow> uheap \<Rightarrow> 'w \<Rightarrow> (u32 \<times> uheap \<times> 'w) option" where
  "morecore sbrk nu h w =
     (let nu = (if nu < 4096 then 4096 else nu); (p, w) = sbrk (nu * 8) w in
      if p = - 1 then Some (0, h, w)
      else map_option (\<lambda>h. (freep h, h, w)) (free (p + 8) (h\<lparr>h_size := (h_size h)(p := nu)\<rparr>)))"

text \<open>The body of the loop of \<open>malloc\<close> for a block that is big enough.\<close>

definition malloc_take :: "u32 \<Rightarrow> u32 \<Rightarrow> u32 \<Rightarrow> uheap \<Rightarrow> u32 \<times> uheap" where
  "malloc_take nunits prevp p h =
     (if h_size h p = nunits
      then (p + 8, h\<lparr>h_ptr := (h_ptr h)(prevp := h_ptr h p), freep := prevp\<rparr>)
      else let h = h\<lparr>h_size := (h_size h)(p := h_size h p - nunits)\<rparr>;
               p = hdr_end h p in
           (p + 8, h\<lparr>h_size := (h_size h)(p := nunits), freep := prevp\<rparr>))"

partial_function (option) malloc_loop :: "(u32 \<Rightarrow> 'w \<Rightarrow> u32 \<times> 'w) \<Rightarrow> u32 \<Rightarrow> u32 \<Rightarrow> u32 \<Rightarrow> uheap \<Rightarrow> 'w
    \<Rightarrow> (u32 \<times> uheap \<times> 'w) option" where
  "malloc_loop sbrk nunits prevp p h w =
     (if h_size h p \<ge> nunits
      then let (r, h) = malloc_take nunits prevp p h in Some (r, h, w)
      else if p = freep h
      then Option.bind (morecore sbrk nunits h w)
             (\<lambda>(p, h, w). if p = 0 then Some (0, h, w) else malloc_loop sbrk nunits p (h_ptr h p) h w)
      else malloc_loop sbrk nunits p (h_ptr h p) h w)"

definition nunits_of :: "u32 \<Rightarrow> u32" where
  "nunits_of nbytes = (nbytes + 8 - 1) div 8 + 1"

definition malloc :: "(u32 \<Rightarrow> 'w \<Rightarrow> u32 \<times> 'w) \<Rightarrow> u32 \<Rightarrow> u32 \<Rightarrow> uheap \<Rightarrow> 'w \<Rightarrow> (u32 \<times> uheap \<times> 'w) option" where
  "malloc sbrk base nbytes h w =
     (let h = (if freep h = 0
               then h\<lparr>h_ptr := (h_ptr h)(base := base), freep := base, h_size := (h_size h)(base := 0)\<rparr>
               else h) in
      malloc_loop sbrk (nunits_of nbytes) (freep h) (h_ptr h (freep h)) h w)"

section \<open>The free list\<close>

text \<open>The bytes of the block with header \<open>x\<close>, and the address after them.\<close>

definition fin :: "uheap \<Rightarrow> u32 \<Rightarrow> nat" where
  "fin h x = unat x + 8 * unat (h_size h x)"

definition blk :: "uheap \<Rightarrow> u32 \<Rightarrow> nat set" where
  "blk h x = {unat x ..< fin h x}"

text \<open>Following \<open>ptr\<close> from \<open>p\<close> passes the headers of \<open>xs\<close> and arrives at \<open>q\<close>.\<close>

fun chain :: "(u32 \<Rightarrow> u32) \<Rightarrow> u32 \<Rightarrow> u32 list \<Rightarrow> u32 \<Rightarrow> bool" where
  "chain f p [] q \<longleftrightarrow> p = q"
| "chain f p (x # xs) q \<longleftrightarrow> p = x \<and> chain f (f x) xs q"

definition user_top :: nat where "user_top = 0x80000000"

text \<open>
  The free list: a circle through \<open>base\<close>, in the order of addresses, whose blocks are separated by
  at least one byte; \<open>base\<close> itself is empty.
\<close>

definition ring :: "u32 \<Rightarrow> uheap \<Rightarrow> u32 list \<Rightarrow> bool" where
  "ring base h L \<longleftrightarrow> L \<noteq> [] \<and> hd L = base \<and> base \<noteq> 0 \<and> h_size h base = 0 \<and> chain (h_ptr h) base L base
     \<and> sorted_wrt (\<lambda>x y. fin h x < unat y) L
     \<and> (\<forall>x \<in> set (tl L). h_size h x \<noteq> 0) \<and> (\<forall>x \<in> set L. fin h x \<le> user_top)"

definition free_bytes :: "uheap \<Rightarrow> u32 list \<Rightarrow> nat set" where
  "free_bytes h L = (\<Union>x \<in> set L. blk h x)"

lemma chain_append: "chain f p (xs @ ys) q \<longleftrightarrow> (\<exists>r. chain f p xs r \<and> chain f r ys q)"
  by (induction xs arbitrary: p) auto

lemma chain_cong: "(\<And>x. x \<in> set xs \<Longrightarrow> f x = g x) \<Longrightarrow> chain f p xs q = chain g p xs q"
  by (induction xs arbitrary: p) auto

lemma chain_walk:
  assumes "chain f p xs q" "Q q" "\<And>x. x \<in> set xs \<Longrightarrow> Q (f x) \<Longrightarrow> Q x"
  shows "Q p \<and> (\<forall>x \<in> set xs. Q x)"
  using assms by (induction xs arbitrary: p) auto

lemma chain_next: "chain f p (xs @ x # ys) q \<Longrightarrow> f x = (case ys of [] \<Rightarrow> q | y # _ \<Rightarrow> y)"
  by (auto simp: chain_append split: list.splits)

lemma fin_ge: "unat x \<le> fin h x"
  by (simp add: fin_def)

lemma blk_empty: "h_size h x = 0 \<Longrightarrow> blk h x = {}"
  by (simp add: blk_def fin_def)

lemma hdr_end_unat: "fin h x \<le> user_top \<Longrightarrow> unat (hdr_end h x) = fin h x"
proof -
  assume a: "fin h x \<le> user_top"
  then have s: "8 * unat (h_size h x) < 2 ^ 32" "unat x + 8 * unat (h_size h x) < 2 ^ 32"
    by (simp_all add: fin_def user_top_def)
  have "unat (8 * h_size h x) = 8 * unat (h_size h x)"
    using s(1) by (subst unat_mult_lem [THEN iffD1]) auto
  then show ?thesis using s(2) by (simp add: hdr_end_def fin_def unat_add_lem [THEN iffD1])
qed

lemma ringD:
  assumes "ring base h L"
  shows "chain (h_ptr h) base L base" "sorted_wrt (\<lambda>x y. fin h x < unat y) L" "h_size h base = 0"
    "\<And>x. x \<in> set L \<Longrightarrow> fin h x \<le> user_top" "\<And>x. x \<in> set (tl L) \<Longrightarrow> h_size h x \<noteq> 0" "base \<noteq> 0"
  using assms unfolding ring_def by blast+

lemma ring_hd: "ring base h L \<Longrightarrow> \<exists>M. L = base # M"
  unfolding ring_def by (metis list.collapse)

lemma ring_base_least:
  assumes "ring base h L" "x \<in> set L" "x \<noteq> base"
  shows "unat base < unat x"
proof -
  obtain M where L: "L = base # M" using ring_hd [OF assms(1)] by blast
  have "x \<in> set M" using assms(2,3) L by simp
  then have "fin h base < unat x" using assms(1) [unfolded ring_def] L by simp
  then show ?thesis using fin_ge [of base h] by simp
qed

section \<open>free\<close>

text \<open>Every search for the place of a block ends there, wherever it starts.\<close>

lemma free_find_place:
  assumes r: "ring base h (xs @ p # ys)" and lo: "p < bp" and hi: "\<forall>y \<in> set ys. bp < y"
    and q: "q \<in> set (xs @ p # ys)"
  shows "free_find h bp q = Some p"
proof -
  define Q where "Q x \<longleftrightarrow> free_find h bp x = Some p" for x
  note c = ringD(1) [OF r] and s = ringD(2) [OF r]
  have up: "x < y" if "fin h x < unat y" for x y
    using that fin_ge [of x h] by (simp add: word_less_nat_alt)
  have bb: "base \<le> p"
    using ring_base_least [OF r, of p] by (cases "p = base") (simp_all add: word_le_nat_alt)
  have Qp: "Q p"
  proof (cases ys)
    case Nil
    then have "h_ptr h p = base" using chain_next [OF c] by simp
    then show ?thesis using lo bb unfolding Q_def by (subst free_find.simps) simp
  next
    case (Cons y zs)
    then have "h_ptr h p = y" using chain_next [OF c] by simp
    then show ?thesis using lo hi Cons unfolding Q_def by (subst free_find.simps) simp
  qed
  have left: "Q x" if "x \<in> set xs" "Q (h_ptr h x)" for x
  proof -
    obtain us vs where e: "xs = us @ x # vs" using \<open>x \<in> set xs\<close> by (meson split_list)
    have n: "h_ptr h x \<in> set (vs @ [p])"
      using chain_next [of "h_ptr h" base us x "vs @ p # ys" base] c e by (cases vs) simp_all
    have f: "\<forall>y \<in> set (vs @ [p]). fin h x < unat y" "\<forall>y \<in> set vs. fin h y < unat p"
      using s e by (simp_all add: sorted_wrt_append)
    have a: "x < h_ptr h x" using f(1) n up by blast
    have b: "h_ptr h x \<le> p" using n f(2) up [of "h_ptr h x" p] by auto
    have "\<not> bp < h_ptr h x" "\<not> h_ptr h x \<le> x" using a b lo by simp_all
    then show ?thesis using that(2) unfolding Q_def by (subst free_find.simps) simp
  qed
  have right: "Q x" if "x \<in> set ys" "Q (h_ptr h x)" for x
  proof -
    obtain us vs where e: "ys = us @ x # vs" using \<open>x \<in> set ys\<close> by (meson split_list)
    have n: "h_ptr h x = (case vs of [] \<Rightarrow> base | y # _ \<Rightarrow> y)"
      using chain_next [of "h_ptr h" base "xs @ p # us" x vs base] c e by simp
    have lt: "bp < x" using hi that(1) by blast
    have le: "base \<le> bp" using bb lo by simp
    have up': "x < h_ptr h x" if "vs \<noteq> []"
    proof -
      have "h_ptr h x \<in> set vs" using n that by (cases vs) simp_all
      moreover have "\<forall>y \<in> set vs. fin h x < unat y" using s e by (simp add: sorted_wrt_append)
      ultimately show ?thesis using up by blast
    qed
    have "\<not> (x \<ge> h_ptr h x \<and> bp < h_ptr h x)"
    proof (cases "vs = []")
      case True
      then have "h_ptr h x = base" using n by simp
      then show ?thesis using le by (metis not_le)
    next
      case False
      then show ?thesis using up' by (metis not_le)
    qed
    then show ?thesis using that(2) lt unfolding Q_def by (subst free_find.simps) auto
  qed
  have c1: "chain (h_ptr h) base xs p" and c2: "chain (h_ptr h) (h_ptr h p) ys base"
    using c by (simp_all add: chain_append)
  have 1: "Q base \<and> (\<forall>x \<in> set xs. Q x)" by (rule chain_walk [where Q = Q, OF c1 Qp left])
  have 2: "\<forall>x \<in> set ys. Q x" using chain_walk [where Q = Q, OF c2 _ right] 1 by blast
  show ?thesis using q 1 2 Qp by (auto simp: Q_def)
qed

text \<open>A block outside the free list lies between its neighbours, without overlap.\<close>

lemma between:
  assumes r: "ring base h (xs @ p # ys)" and lo: "p < bp" and hi: "\<forall>y \<in> set ys. bp < y"
    and sz: "h_size h bp \<noteq> 0" and d: "free_bytes h (xs @ p # ys) \<inter> blk h bp = {}"
  shows "fin h p \<le> unat bp" "\<And>y. y \<in> set ys \<Longrightarrow> fin h bp \<le> unat y" "bp \<notin> set (xs @ p # ys)"
proof -
  have b: "unat bp \<in> blk h bp" using sz by (simp add: blk_def fin_def unat_gt_0)
  then have "unat bp \<notin> blk h p" using d by (auto simp: free_bytes_def)
  then show "fin h p \<le> unat bp" using lo by (simp add: blk_def word_less_nat_alt)
  have nz: "h_size h y \<noteq> 0" if "y \<in> set ys" for y
    using ringD(5) [OF r, of y] that by (cases xs) auto
  show "fin h bp \<le> unat y" if "y \<in> set ys" for y
  proof -
    have "unat y \<in> blk h y" using nz [OF that] by (simp add: blk_def fin_def unat_gt_0)
    then have "unat y \<notin> blk h bp" using d that by (auto simp: free_bytes_def)
    moreover have "unat bp < unat y" using hi that by (simp add: word_less_nat_alt)
    ultimately show ?thesis by (simp add: blk_def)
  qed
  have "\<forall>x \<in> set xs. fin h x < unat p" using ringD(2) [OF r] by (simp add: sorted_wrt_append)
  then have "\<forall>x \<in> set xs. unat x < unat p" using fin_ge le_less_trans by blast
  then have "bp \<notin> set xs" using lo by (auto simp: word_less_nat_alt)
  then show "bp \<notin> set (xs @ p # ys)" using lo hi by auto
qed

lemma fin_cong: "h_size h x = h_size h' x \<Longrightarrow> fin h x = fin h' x"
  by (simp add: fin_def)

lemma blk_cong: "h_size h x = h_size h' x \<Longrightarrow> blk h x = blk h' x"
  by (simp add: blk_def fin_def)

text \<open>Two blocks that touch are one.\<close>

lemma fin_join:
  assumes e: "fin h a = unat b" and u: "fin h b \<le> user_top" and s: "h_size h' a = h_size h a + h_size h b"
  shows "fin h' a = fin h b" "blk h' a = blk h a \<union> blk h b" "h_size h a \<le> h_size h' a"
proof -
  have "unat (h_size h a) + unat (h_size h b) < 2 ^ 32"
    using e u by (simp add: fin_def user_top_def)
  then have sum: "unat (h_size h a + h_size h b) = unat (h_size h a) + unat (h_size h b)"
    by (simp add: unat_add_lem [THEN iffD1])
  then show *: "fin h' a = fin h b" using e s by (simp add: fin_def)
  show "h_size h a \<le> h_size h' a" using sum s by (simp add: word_le_nat_alt)
  show "blk h' a = blk h a \<union> blk h b"
    unfolding blk_def * using e fin_ge [of a h] fin_ge [of b h] by (simp add: ivl_disj_un_two(3))
qed

text \<open>What the list after \<open>bp\<close> looks like once the first half of \<open>free\<close> has linked \<open>bp\<close> to it.\<close>

definition linked :: "u32 \<Rightarrow> u32 \<Rightarrow> uheap \<Rightarrow> uheap \<Rightarrow> u32 list \<Rightarrow> u32 list \<Rightarrow> bool" where
  "linked base bp h h' ys zs \<longleftrightarrow> chain (h_ptr h') (h_ptr h' bp) zs base \<and> set zs \<subseteq> set ys
     \<and> (\<forall>x. x \<noteq> bp \<longrightarrow> h_size h' x = h_size h x \<and> h_ptr h' x = h_ptr h x)
     \<and> sorted_wrt (\<lambda>x y. fin h x < unat y) zs \<and> (\<forall>y \<in> set zs. fin h' bp < unat y)
     \<and> fin h' bp \<le> user_top \<and> h_size h bp \<le> h_size h' bp
     \<and> blk h' bp \<union> free_bytes h zs = blk h bp \<union> free_bytes h ys"

lemma join_next_linked:
  assumes r: "ring base h (xs @ p # ys)" and lo: "p < bp" and hi: "\<forall>y \<in> set ys. bp < y"
    and sz: "h_size h bp \<noteq> 0" and d: "free_bytes h (xs @ p # ys) \<inter> blk h bp = {}"
    and u: "fin h bp \<le> user_top"
  shows "\<exists>zs. linked base bp h (join_next bp p h) ys zs"
proof -
  note bt = between [OF r lo hi sz d]
  have c: "chain (h_ptr h) (h_ptr h p) ys base" using ringD(1) [OF r] by (simp add: chain_append)
  have s: "sorted_wrt (\<lambda>x y. fin h x < unat y) ys" using ringD(2) [OF r] by (simp add: sorted_wrt_append)
  have pbp: "p \<noteq> bp" and nys: "bp \<notin> set ys" using bt(3) by auto
  show ?thesis
  proof (cases "hdr_end h bp = h_ptr h p")
    case False
    define h' where "h' = join_next bp p h"
    have h': "h' = h\<lparr>h_ptr := (h_ptr h)(bp := h_ptr h p)\<rparr>" using False by (simp add: h'_def join_next_def)
    have ne: "fin h bp \<noteq> unat y" if "y \<in> set ys" for y
    proof (cases ys)
      case (Cons z zs)
      have "fin h bp \<noteq> unat z" using False c Cons hdr_end_unat [OF u] by (auto simp: word_unat_eq_iff)
      moreover have "unat z \<le> unat y" using s Cons that fin_ge [of z h] by (auto dest: less_imp_le)
      ultimately show ?thesis using bt(2) [of z] Cons by auto
    qed (use that in simp)
    have f: "fin h' x = fin h x" "blk h' x = blk h x" for x by (simp_all add: h' fin_def blk_def)
    have "linked base bp h h' ys ys"
      unfolding linked_def f
    proof (intro conjI)
      show "chain (h_ptr h') (h_ptr h' bp) ys base"
        using c nys by (subst chain_cong [of ys "h_ptr h'" "h_ptr h"]) (auto simp: h')
    qed (use s u bt(2) ne in \<open>auto simp: h' le_less\<close>)
    then show ?thesis unfolding h'_def by blast
  next
    case True
    define h' where "h' = join_next bp p h"
    obtain z zs where ys: "ys = z # zs"
    proof (cases ys)
      case Nil
      then have "h_ptr h p = base" using c by simp
      then have "fin h bp = unat base" using True hdr_end_unat [OF u] by simp
      moreover have "unat base \<le> unat p"
        using ring_base_least [OF r, of p] by (cases "p = base") simp_all
      ultimately show ?thesis using lo fin_ge [of bp h] by (simp add: word_less_nat_alt)
    qed
    have z: "h_ptr h p = z" and cz: "chain (h_ptr h) (h_ptr h z) zs base" using c ys by simp_all
    have h': "h_size h' = (h_size h)(bp := h_size h bp + h_size h z)" "h_ptr h' = (h_ptr h)(bp := h_ptr h z)"
      using True z pbp nys ys by (simp_all add: h'_def join_next_def Let_def)
    have e: "fin h bp = unat z" using True z hdr_end_unat [OF u] by simp
    have uz: "fin h z \<le> user_top" using ringD(4) [OF r, of z] ys by simp
    have "h_size h' bp = h_size h bp + h_size h z" using h' by simp
    note j = fin_join [OF e uz this]
    have "linked base bp h h' ys zs"
      unfolding linked_def j(1,2)
    proof (intro conjI)
      show "chain (h_ptr h') (h_ptr h' bp) zs base"
        using cz nys ys by (subst chain_cong [of zs "h_ptr h'" "h_ptr h"]) (auto simp: h')
      show "blk h bp \<union> blk h z \<union> free_bytes h zs = blk h bp \<union> free_bytes h ys"
        by (auto simp: ys free_bytes_def)
    qed (use s ys uz j(3) in \<open>auto simp: h'\<close>)
    then show ?thesis unfolding h'_def by blast
  qed
qed

text \<open>Replacing what follows \<open>p\<close> in the list.\<close>

lemma ring_rebuild:
  assumes r: "ring base h (xs @ p # ys)"
    and c: "chain (h_ptr h') (h_ptr h' p) ws base"
    and same: "\<And>x. x \<in> set xs \<Longrightarrow> h_ptr h' x = h_ptr h x \<and> h_size h' x = h_size h x"
    and s: "sorted_wrt (\<lambda>x y. fin h' x < unat y) (p # ws)"
    and p: "h_size h' p = h_size h p \<or> p \<noteq> base \<and> h_size h' p \<noteq> 0" "fin h' p \<le> user_top"
    and w: "\<And>x. x \<in> set ws \<Longrightarrow> h_size h' x \<noteq> 0 \<and> fin h' x \<le> user_top"
  shows "ring base h' (xs @ p # ws)"
proof -
  have f: "fin h' x = fin h x" if "x \<in> set xs" for x using same [OF that] by (simp add: fin_def)
  have hdb: "hd (xs @ p # ws) = base" using ring_hd [OF r] by (cases xs) auto
  have "chain (h_ptr h) base xs p" using ringD(1) [OF r] by (simp add: chain_append)
  then have ch: "chain (h_ptr h') base xs p" using same chain_cong [of xs "h_ptr h'" "h_ptr h"] by simp
  have so: "sorted_wrt (\<lambda>x y. fin h x < unat y) xs" "\<forall>x \<in> set xs. fin h x < unat p"
    using ringD(2) [OF r] by (simp_all add: sorted_wrt_append)
  have so': "sorted_wrt (\<lambda>x y. fin h' x < unat y) xs"
    by (rule sorted_wrt_mono_rel [OF _ so(1)]) (simp add: f)
  have lt: "\<forall>x \<in> set xs. \<forall>y \<in> set (p # ws). fin h' x < unat y"
  proof (intro ballI)
    fix x y assume xy: "x \<in> set xs" "y \<in> set (p # ws)"
    have "unat p \<le> unat y" using xy(2) s fin_ge [of p h'] by fastforce
    then show "fin h' x < unat y" using so(2) xy(1) f [OF xy(1)] by fastforce
  qed
  have pb: "xs = [] \<Longrightarrow> p = base" using hdb by simp
  have nb: "h_size h x \<noteq> 0" if "x \<in> set (tl (xs @ [p]))" for x
    using ringD(5) [OF r, of x] that by (cases xs) auto
  have sz: "h_size h' x \<noteq> 0" if "x \<in> set (tl (xs @ p # ws))" for x
  proof (cases "x \<in> set ws")
    case False
    then have x: "x \<in> set (tl (xs @ [p]))" using that by (cases xs) auto
    show ?thesis
    proof (cases "x \<in> set xs")
      case False
      then have "x = p" using x by (cases xs) auto
      then show ?thesis using p(1) nb [OF x] by auto
    qed (use nb [OF x] same in simp)
  qed (use w in blast)
  have b0: "h_size h' base = 0"
  proof (cases xs)
    case Nil then show ?thesis using pb p(1) ringD(3) [OF r] by auto
  next
    case (Cons a as) then show ?thesis using hdb same [of base] ringD(3) [OF r] by simp
  qed
  have top: "\<forall>x \<in> set (xs @ p # ws). fin h' x \<le> user_top"
    using p(2) w f ringD(4) [OF r] by auto
  show ?thesis unfolding ring_def
    using hdb ringD(6) [OF r] b0 ch c so' lt s sz top by (auto simp: chain_append sorted_wrt_append)
qed

text \<open>
  Freeing a block that is not in the list, from any position of \<open>freep\<close>: the call returns, and the
  bytes of the block are added to the free bytes. Headers outside the list keep their size.
\<close>

definition freed :: "u32 \<Rightarrow> u32 \<Rightarrow> uheap \<Rightarrow> u32 list \<Rightarrow> uheap \<Rightarrow> u32 list \<Rightarrow> bool" where
  "freed base bp h L h' L' \<longleftrightarrow> ring base h' L' \<and> freep h' \<in> set L'
     \<and> free_bytes h' L' = blk h bp \<union> free_bytes h L \<and> set L' \<subseteq> insert bp (set L)
     \<and> (\<forall>x. x \<notin> set L \<longrightarrow> x \<noteq> bp \<longrightarrow> h_size h' x = h_size h x) \<and> (\<exists>x \<in> set L'. h_size h bp \<le> h_size h' x)"

lemma free_bytes_simps [simp]:
  "free_bytes h [] = {}" "free_bytes h (x # xs) = blk h x \<union> free_bytes h xs"
  "free_bytes h (xs @ ys) = free_bytes h xs \<union> free_bytes h ys"
  by (auto simp: free_bytes_def)

lemma free_bytes_cong: "(\<And>x. x \<in> set xs \<Longrightarrow> h_size h x = h_size h' x) \<Longrightarrow> free_bytes h xs = free_bytes h' xs"
  unfolding free_bytes_def by (rule SUP_cong [OF refl]) (rule blk_cong)

text \<open>The new list is the part before \<open>p\<close>, unchanged, \<open>p\<close>, and a new rest.\<close>

lemma freedI:
  assumes r: "ring base h (xs @ p # ys)" and R: "ring base h' (xs @ p # ws)" and f: "freep h' = p"
    and ws: "set ws \<subseteq> insert bp (set ys)" and same: "\<And>x. x \<noteq> p \<Longrightarrow> x \<noteq> bp \<Longrightarrow> h_size h' x = h_size h x"
    and bx: "bp \<notin> set xs" "p \<notin> set xs"
    and b: "blk h' p \<union> free_bytes h' ws = blk h p \<union> blk h bp \<union> free_bytes h ys"
    and big: "\<exists>x \<in> set (xs @ p # ws). h_size h bp \<le> h_size h' x"
  shows "freed base bp h (xs @ p # ys) h' (xs @ p # ws)"
proof -
  have "free_bytes h' xs = free_bytes h xs" by (rule free_bytes_cong) (metis same bx)
  then have "free_bytes h' (xs @ p # ws) = blk h bp \<union> free_bytes h (xs @ p # ys)" using b by auto
  moreover have "freep h' \<in> set (xs @ p # ws)" using f by simp
  moreover have "set (xs @ p # ws) \<subseteq> insert bp (set (xs @ p # ys))" using ws by auto
  moreover have "\<forall>x. x \<notin> set (xs @ p # ys) \<longrightarrow> x \<noteq> bp \<longrightarrow> h_size h' x = h_size h x" using same by auto
  ultimately show ?thesis using R big unfolding freed_def by blast
qed

lemma linkedD:
  assumes "linked base bp h h1 ys zs"
  shows "chain (h_ptr h1) (h_ptr h1 bp) zs base" "set zs \<subseteq> set ys"
    "\<And>x. x \<noteq> bp \<Longrightarrow> h_size h1 x = h_size h x" "\<And>x. x \<noteq> bp \<Longrightarrow> h_ptr h1 x = h_ptr h x"
    "sorted_wrt (\<lambda>x y. fin h x < unat y) zs" "\<And>y. y \<in> set zs \<Longrightarrow> fin h1 bp < unat y"
    "fin h1 bp \<le> user_top" "h_size h bp \<le> h_size h1 bp"
    "blk h1 bp \<union> free_bytes h zs = blk h bp \<union> free_bytes h ys"
  using assms unfolding linked_def by blast+

lemma linked_others:
  assumes r: "ring base h (xs @ p # ys)" and lo: "p < bp" and hi: "\<forall>y \<in> set ys. bp < y" and nb: "bp \<notin> set xs"
    and zs: "set zs \<subseteq> set ys"
  shows "\<And>x. x \<in> set xs \<union> set zs \<Longrightarrow> x \<noteq> p \<and> x \<noteq> bp"
    "\<And>x. x \<in> set zs \<Longrightarrow> h_size h x \<noteq> 0 \<and> fin h x \<le> user_top"
proof -
  have "p \<notin> set xs" using ringD(2) [OF r] fin_ge [of p h] by (auto simp: sorted_wrt_append)
  moreover have "p \<notin> set ys" "bp \<notin> set ys" using lo hi by (meson order.asym)+
  ultimately show "x \<noteq> p \<and> x \<noteq> bp" if "x \<in> set xs \<union> set zs" for x using that zs nb by auto
  show "h_size h x \<noteq> 0 \<and> fin h x \<le> user_top" if "x \<in> set zs" for x
    using ringD(4,5) [OF r, of x] that zs by (cases xs) auto
qed

lemma join_prev_merge:
  assumes r: "ring base h (xs @ p # ys)" and lo: "p < bp" and hi: "\<forall>y \<in> set ys. bp < y"
    and sz: "h_size h bp \<noteq> 0" and d: "free_bytes h (xs @ p # ys) \<inter> blk h bp = {}"
    and l: "linked base bp h h1 ys zs" and True: "hdr_end h1 p = bp"
  shows "freed base bp h (xs @ p # ys) ((join_prev bp p h1)\<lparr>freep := p\<rparr>) (xs @ p # zs)"
proof -
  note bt = between [OF r lo hi sz d] and l' = linkedD [OF l]
  have nin: "p \<noteq> bp" "bp \<notin> set xs" using bt(3) by auto
  note ot = linked_others [OF r lo hi nin(2) l'(2)]
  define h2 where "h2 = (join_prev bp p h1)\<lparr>freep := p\<rparr>"
  have h2: "h_size h2 = (h_size h1)(p := h_size h1 p + h_size h1 bp)" "h_ptr h2 = (h_ptr h1)(p := h_ptr h1 bp)"
    and fp: "freep h2 = p"
    using True nin(1) by (simp_all add: h2_def join_prev_def Let_def)
  have p1: "h_size h1 p = h_size h p" using l'(3) nin(1) by blast
  have up: "fin h p \<le> user_top" using ringD(4) [OF r, of p] by simp
  have e: "fin h1 p = unat bp" using True hdr_end_unat [of h1 p] up fin_cong [OF p1] by simp
  have s2: "h_size h2 p = h_size h1 p + h_size h1 bp" using h2 by simp
  note j = fin_join [OF e l'(7) s2]
  have same: "h_size h2 x = h_size h x" "h_ptr h2 x = h_ptr h x" if "x \<noteq> p" "x \<noteq> bp" for x
    using h2 l'(3,4) that by simp_all
  have big: "h_size h bp \<le> h_size h2 p"
    using l'(8) e l'(7) unfolding s2 by (subst add.commute, subst word_le_nat_alt) (simp add: fin_def user_top_def unat_add_lem [THEN iffD1] word_le_nat_alt)
  have pb: "p \<noteq> base" using e ringD(3) [OF r] p1 lo by (auto simp: fin_def word_less_nat_alt)
  have fz: "fin h2 x = fin h x" if "x \<in> set zs" for x using same(1) [of x] ot(1) [of x] that by (simp add: fin_def)
  have R: "ring base h2 (xs @ p # zs)"
  proof (rule ring_rebuild [OF r])
    have "chain (h_ptr h2) (h_ptr h1 bp) zs base"
      using l'(1) chain_cong [of zs "h_ptr h2" "h_ptr h1"] ot(1) h2(2) by auto
    then show "chain (h_ptr h2) (h_ptr h2 p) zs base" by (simp add: h2(2))
    show "h_ptr h2 x = h_ptr h x \<and> h_size h2 x = h_size h x" if "x \<in> set xs" for x
      using same ot(1) that by simp
    have "sorted_wrt (\<lambda>x y. fin h2 x < unat y) zs" by (rule sorted_wrt_mono_rel [OF _ l'(5)]) (simp add: fz)
    then show "sorted_wrt (\<lambda>x y. fin h2 x < unat y) (p # zs)" using l'(6) j(1) by simp
    show "h_size h2 p = h_size h p \<or> p \<noteq> base \<and> h_size h2 p \<noteq> 0" using pb big sz by auto
    show "fin h2 p \<le> user_top" using j(1) l'(7) by simp
    show "h_size h2 x \<noteq> 0 \<and> fin h2 x \<le> user_top" if "x \<in> set zs" for x
      using same(1) [of x] ot [of x] fz that by simp
  qed
  have "blk h2 p \<union> free_bytes h2 zs = blk h p \<union> blk h bp \<union> free_bytes h ys"
    using j(2) l'(9) free_bytes_cong [of zs h2 h] same(1) ot(1) blk_cong [OF p1] by (simp add: Un_assoc)
  then show ?thesis unfolding h2_def [symmetric]
    using big ot(1) nin(2) l'(2) same(1) by (intro freedI [OF r R fp]) auto
qed

lemma join_prev_link:
  assumes r: "ring base h (xs @ p # ys)" and lo: "p < bp" and hi: "\<forall>y \<in> set ys. bp < y"
    and sz: "h_size h bp \<noteq> 0" and d: "free_bytes h (xs @ p # ys) \<inter> blk h bp = {}"
    and l: "linked base bp h h1 ys zs" and False: "hdr_end h1 p \<noteq> bp"
  shows "freed base bp h (xs @ p # ys) ((join_prev bp p h1)\<lparr>freep := p\<rparr>) (xs @ p # bp # zs)"
proof -
  note bt = between [OF r lo hi sz d] and l' = linkedD [OF l]
  have nin: "p \<noteq> bp" "bp \<notin> set xs" using bt(3) by auto
  note ot = linked_others [OF r lo hi nin(2) l'(2)]
  define h2 where "h2 = (join_prev bp p h1)\<lparr>freep := p\<rparr>"
  have h2: "h_size h2 = h_size h1" "h_ptr h2 = (h_ptr h1)(p := bp)" and fp: "freep h2 = p"
    using False by (simp_all add: h2_def join_prev_def)
  have p1: "h_size h1 p = h_size h p" using l'(3) nin(1) by blast
  have up: "fin h p \<le> user_top" using ringD(4) [OF r, of p] by simp
  have e: "fin h p < unat bp"
    using False hdr_end_unat [of h1 p] up fin_cong [OF p1] bt(1) by (auto simp: le_less word_unat_eq_iff)
  have same: "h_size h2 x = h_size h x" if "x \<noteq> bp" for x using h2 l'(3) that by simp
  have fz: "fin h2 x = fin h x" if "x \<noteq> bp" for x using same [OF that] by (simp add: fin_def)
  have f2: "fin h2 bp = fin h1 bp" "blk h2 bp = blk h1 bp" by (simp_all add: fin_def blk_def h2)
  have R: "ring base h2 (xs @ p # bp # zs)"
  proof (rule ring_rebuild [OF r])
    have "chain (h_ptr h2) (h_ptr h1 bp) zs base"
      using l'(1) chain_cong [of zs "h_ptr h2" "h_ptr h1"] ot(1) h2(2) by auto
    then show "chain (h_ptr h2) (h_ptr h2 p) (bp # zs) base" using nin(1) by (simp add: h2(2))
    show "h_ptr h2 x = h_ptr h x \<and> h_size h2 x = h_size h x" if "x \<in> set xs" for x
      using same h2(2) l'(4) ot(1) that by simp
    have "sorted_wrt (\<lambda>x y. fin h2 x < unat y) zs"
      by (rule sorted_wrt_mono_rel [OF _ l'(5)]) (use fz ot(1) in auto)
    moreover have "\<forall>y \<in> set zs. fin h p < unat y" using e l'(6) fin_ge [of bp h1] by fastforce
    ultimately show "sorted_wrt (\<lambda>x y. fin h2 x < unat y) (p # bp # zs)"
      using l'(6) f2 fz [OF nin(1)] e by simp
    show "h_size h2 p = h_size h p \<or> p \<noteq> base \<and> h_size h2 p \<noteq> 0" using same nin(1) by blast
    show "fin h2 p \<le> user_top" using fz [OF nin(1)] up by simp
    show "h_size h2 x \<noteq> 0 \<and> fin h2 x \<le> user_top" if "x \<in> set (bp # zs)" for x
      using that f2 l'(7,8) sz same [of x] ot [of x] fz [of x] h2(1) by auto
  qed
  have "blk h2 p \<union> free_bytes h2 (bp # zs) = blk h p \<union> blk h bp \<union> free_bytes h ys"
    using f2(2) l'(9) free_bytes_cong [of zs h2 h] same ot(1) blk_cong [of h2 p h] nin(1) by (auto simp: Un_assoc)
  then show ?thesis unfolding h2_def [symmetric]
    using l'(2,8) h2(1) ot(1) nin(2) same by (intro freedI [OF r R fp]) auto
qed

text \<open>The place of a block in the list.\<close>

lemma place_exists:
  assumes r: "ring base h L" and b: "base < bp" and n: "bp \<notin> set L"
  obtains xs p ys where "L = xs @ p # ys" "p < bp" "\<forall>y \<in> set ys. bp < y"
proof -
  obtain M where L: "L = base # M" using ring_hd [OF r] by blast
  have "\<exists>x \<in> set L. x < bp" using b L by simp
  then obtain xs p ys where s: "L = xs @ p # ys" "p < bp" "\<forall>y \<in> set ys. \<not> y < bp"
    using split_list_last_prop [of L "\<lambda>x. x < bp"] by blast
  then have "\<forall>y \<in> set ys. bp < y" using n by (auto simp: not_less le_less)
  with s show thesis using that by blast
qed

lemma free_spec:
  assumes r: "ring base h L" and fp: "freep h \<in> set L" and b: "base < bp" and sz: "h_size h bp \<noteq> 0"
    and u: "fin h bp \<le> user_top" and d: "free_bytes h L \<inter> blk h bp = {}"
  obtains h' L' where "free (bp + 8) h = Some h'" "freed base bp h L h' L'"
proof -
  have n: "bp \<notin> set L"
  proof
    assume "bp \<in> set L"
    then have "blk h bp \<subseteq> free_bytes h L" by (auto simp: free_bytes_def)
    moreover have "unat bp \<in> blk h bp" using sz by (simp add: blk_def fin_def unat_gt_0)
    ultimately show False using d by auto
  qed
  obtain xs p ys where L: "L = xs @ p # ys" "p < bp" "\<forall>y \<in> set ys. bp < y"
    by (rule place_exists [OF r b n])
  note r' = r [unfolded L(1)] and d' = d [unfolded L(1)]
  obtain zs where l: "linked base bp h (join_next bp p h) ys zs"
    using join_next_linked [OF r' L(2,3) sz d' u] by blast
  have "free (bp + 8) h = Some ((join_prev bp p (join_next bp p h))\<lparr>freep := p\<rparr>)"
    using free_find_place [OF r' L(2,3)] fp L(1) by (simp add: free_def)
  then show thesis
    using join_prev_merge [OF r' L(2,3) sz d' l] join_prev_link [OF r' L(2,3) sz d' l] L(1) that by blast
qed

section \<open>malloc\<close>

lemma ring_disjoint:
  assumes r: "ring base h (xs @ p # ys)"
  shows "blk h p \<inter> free_bytes h (xs @ ys) = {}" "p \<notin> set (xs @ ys)"
proof -
  have s: "\<forall>x \<in> set xs. fin h x < unat p" "\<forall>y \<in> set ys. fin h p < unat y"
    using ringD(2) [OF r] by (simp_all add: sorted_wrt_append)
  have "blk h p \<inter> blk h x = {}" if "x \<in> set (xs @ ys)" for x
    using that s by (force simp: blk_def)
  then show "blk h p \<inter> free_bytes h (xs @ ys) = {}" by (auto simp: free_bytes_def)
  show "p \<notin> set (xs @ ys)" using s fin_ge [of p h] by auto
qed

text \<open>A block of \<open>n\<close> units with header \<open>a\<close> has been cut out of the free bytes.\<close>

definition taken :: "u32 \<Rightarrow> uheap \<Rightarrow> u32 list \<Rightarrow> u32 \<Rightarrow> u32 \<Rightarrow> uheap \<Rightarrow> u32 list \<Rightarrow> bool" where
  "taken base h L a n h' L' \<longleftrightarrow> ring base h' L' \<and> freep h' \<in> set L' \<and> set L' \<subseteq> set L \<and> h_size h' a = n
     \<and> blk h' a \<inter> free_bytes h' L' = {} \<and> blk h' a \<union> free_bytes h' L' = free_bytes h L
     \<and> (\<forall>x. x \<notin> set L \<longrightarrow> x \<noteq> a \<longrightarrow> h_size h' x = h_size h x)"

lemma take_whole:
  assumes r: "ring base h (us @ q # p # vs)" and e: "h_size h p = n"
  shows "taken base h (us @ q # p # vs) p n (h\<lparr>h_ptr := (h_ptr h)(q := h_ptr h p), freep := q\<rparr>) (us @ q # vs)"
proof -
  define h' where "h' = h\<lparr>h_ptr := (h_ptr h)(q := h_ptr h p), freep := q\<rparr>"
  have f: "fin h' x = fin h x" "blk h' x = blk h x" for x by (simp_all add: h'_def fin_def blk_def)
  have fb: "free_bytes h' xs = free_bytes h xs" for xs by (simp add: free_bytes_def f)
  have rp: "ring base h ((us @ [q]) @ p # vs)" using r by simp
  note dq = ring_disjoint(2) [OF r] and dp = ring_disjoint [OF rp]
  have c: "chain (h_ptr h) (h_ptr h p) vs base" using ringD(1) [OF r] by (simp add: chain_append)
  have s: "sorted_wrt (\<lambda>x y. fin h x < unat y) (q # vs)" using ringD(2) [OF r] by (simp add: sorted_wrt_append)
  have t: "h_size h x \<noteq> 0 \<and> fin h x \<le> user_top" if "x \<in> set vs" for x
    using ringD(4,5) [OF r, of x] that by (cases us) auto
  have R: "ring base h' (us @ q # vs)"
  proof (rule ring_rebuild [OF r])
    have "chain (h_ptr h') (h_ptr h p) vs base"
      by (subst chain_cong [of vs "h_ptr h'" "h_ptr h"]) (use c dq in \<open>auto simp: h'_def\<close>)
    then show "chain (h_ptr h') (h_ptr h' q) vs base" by (simp add: h'_def)
    show "h_ptr h' x = h_ptr h x \<and> h_size h' x = h_size h x" if "x \<in> set us" for x
      using that dq by (auto simp: h'_def)
    show "h_size h' q = h_size h q \<or> q \<noteq> base \<and> h_size h' q \<noteq> 0" by (simp add: h'_def)
    show "fin h' q \<le> user_top" using ringD(4) [OF r, of q] by (simp add: f)
    show "h_size h' x \<noteq> 0 \<and> fin h' x \<le> user_top" if "x \<in> set vs" for x
      using t [OF that] by (simp add: f) (simp add: h'_def)
  qed (simp only: f s)
  have "blk h p \<inter> free_bytes h (us @ q # vs) = {}" using dp(1) by simp
  moreover have "blk h p \<union> free_bytes h (us @ q # vs) = free_bytes h (us @ q # p # vs)" by auto
  moreover have "freep h' \<in> set (us @ q # vs)" "h_size h' = h_size h" by (simp_all add: h'_def)
  ultimately show ?thesis using R e unfolding taken_def h'_def [symmetric] fb f by auto
qed

lemma take_tail:
  assumes r: "ring base h (us @ p # vs)" and g: "n < h_size h p" and nz: "n \<noteq> 0"
    and q: "q \<in> set (us @ p # vs)"
    and h1: "h1 = h\<lparr>h_size := (h_size h)(p := h_size h p - n)\<rparr>" and a: "a = hdr_end h1 p"
    and h': "h' = h1\<lparr>h_size := (h_size h1)(a := n), freep := q\<rparr>"
  shows "taken base h (us @ p # vs) a n h' (us @ p # vs)"
proof -
  have u: "unat (h_size h p - n) = unat (h_size h p) - unat n" "unat n < unat (h_size h p)" "0 < unat n"
    using g nz unat_sub [OF order.strict_implies_order [OF g]]
    by (simp_all add: word_less_nat_alt unat_gt_0)
  have up: "fin h p \<le> user_top" using ringD(4) [OF r, of p] by simp
  have f1: "fin h1 p = unat p + 8 * (unat (h_size h p) - unat n)" using u by (simp add: h1 fin_def)
  then have le: "fin h1 p \<le> user_top" and ua: "unat a = fin h1 p"
    using up u hdr_end_unat [of h1 p] by (simp_all add: fin_def a)
  have lt: "unat p < unat a" "unat a < fin h p" using ua f1 u by (simp_all add: fin_def)
  have fa: "fin h' a = fin h p" using ua f1 u by (simp add: h' fin_def)
  have pa: "p \<noteq> a" using lt by auto
  have ina: "unat a \<in> blk h p" using lt by (simp add: blk_def)
  note dp = ring_disjoint [OF r]
  have na: "a \<notin> set (us @ vs)"
  proof
    assume m: "a \<in> set (us @ vs)"
    have "\<forall>x \<in> set us. fin h x < unat p" "\<forall>y \<in> set vs. fin h p < unat y"
      using ringD(2) [OF r] by (simp_all add: sorted_wrt_append)
    then show False using m lt fin_ge [of a h] by fastforce
  qed
  have same: "h_size h' x = h_size h x" if "x \<noteq> p" "x \<noteq> a" for x using that by (simp add: h' h1)
  have sp: "h_size h' p = h_size h p - n" "h_ptr h' = h_ptr h" "freep h' = q" using pa by (simp_all add: h' h1)
  have fp: "fin h' p = unat a" using sp u f1 ua by (simp add: fin_def)
  have fo: "fin h' x = fin h x" if "x \<in> set (us @ vs)" for x
    using same [of x] that na dp(2) by (auto intro: fin_cong)
  have sv: "sorted_wrt (\<lambda>x y. fin h x < unat y) vs" "\<forall>y \<in> set vs. fin h p < unat y"
    using ringD(2) [OF r] by (simp_all add: sorted_wrt_append)
  have R: "ring base h' (us @ p # vs)"
  proof (rule ring_rebuild [OF r])
    show "chain (h_ptr h') (h_ptr h' p) vs base" using ringD(1) [OF r] by (simp add: sp chain_append)
    show "h_ptr h' x = h_ptr h x \<and> h_size h' x = h_size h x" if "x \<in> set us" for x
      using same [of x] that na dp(2) sp(2) by auto
    have "sorted_wrt (\<lambda>x y. fin h' x < unat y) vs" by (rule sorted_wrt_mono_rel [OF _ sv(1)]) (simp add: fo)
    then show "sorted_wrt (\<lambda>x y. fin h' x < unat y) (p # vs)" using sv(2) fp lt(2) by fastforce
    have "p \<noteq> base" using ringD(3) [OF r] u by auto
    moreover have "h_size h' p \<noteq> 0" using sp u by auto
    ultimately show "h_size h' p = h_size h p \<or> p \<noteq> base \<and> h_size h' p \<noteq> 0" by blast
    show "fin h' p \<le> user_top" using fp ua le by simp
    show "h_size h' x \<noteq> 0 \<and> fin h' x \<le> user_top" if "x \<in> set vs" for x
    proof -
      have "h_size h' x = h_size h x" using same [of x] that na dp(2) by auto
      then show ?thesis using ringD(4,5) [OF r, of x] fo [of x] that by (cases us) auto
    qed
  qed
  have bo: "free_bytes h' (us @ vs) = free_bytes h (us @ vs)"
    by (rule free_bytes_cong) (metis same na dp(2))
  have split: "blk h' p = {unat p ..< unat a}" "blk h' a = {unat a ..< fin h p}" "blk h p = blk h' p \<union> blk h' a"
    using fp fa lt by (auto simp: blk_def)
  have "blk h' a \<inter> free_bytes h' (us @ p # vs) = {}" using bo dp(1) split by auto
  moreover have "blk h' a \<union> free_bytes h' (us @ p # vs) = free_bytes h (us @ p # vs)" using bo split(3) by auto
  moreover have "h_size h' a = n" by (simp add: h')
  ultimately show ?thesis using R q sp(3) same unfolding taken_def by auto
qed

lemma malloc_take_spec:
  assumes r: "ring base h L" and q: "q \<in> set L" and g: "n \<le> h_size h (h_ptr h q)" and nz: "n \<noteq> 0"
  obtains a h' L' where "malloc_take n q (h_ptr h q) h = (a + 8, h')" "taken base h L a n h' L'"
proof -
  define p where "p = h_ptr h q"
  obtain us ws where L: "L = us @ q # ws" using q by (meson split_list)
  have "p \<noteq> base" using g nz ringD(3) [OF r] p_def by auto
  then obtain vs where ws: "ws = p # vs"
    using chain_next [of "h_ptr h" base us q ws base] ringD(1) [OF r] L p_def by (cases ws) auto
  show thesis
  proof (cases "h_size h p = n")
    case True
    then show thesis
      using take_whole [OF r [unfolded L ws] True] L ws that by (simp add: malloc_take_def p_def)
  next
    case False
    define h1 a h' where d: "h1 = h\<lparr>h_size := (h_size h)(p := h_size h p - n)\<rparr>" "a = hdr_end h1 p"
      "h' = h1\<lparr>h_size := (h_size h1)(a := n), freep := q\<rparr>"
    have "malloc_take n q p h = (a + 8, h')" using False by (simp add: malloc_take_def Let_def d)
    moreover have "taken base h ((us @ [q]) @ p # vs) a n h' ((us @ [q]) @ p # vs)"
      using r g False L ws nz by (intro take_tail [where q = q, OF _ _ _ _ d]) (auto simp: p_def)
    ultimately show thesis using L ws that p_def by simp
  qed
qed

text \<open>The circle as it is seen from \<open>f\<close>.\<close>

lemma ring_from:
  assumes r: "ring base h L" and f: "f \<in> set L"
  obtains M where "chain (h_ptr h) (h_ptr h f) M f" "set L = insert f (set M)" "f \<notin> set M"
proof -
  obtain xs ys where L: "L = xs @ f # ys" using f by (meson split_list)
  have "chain (h_ptr h) (h_ptr h f) (ys @ xs) f" using ringD(1) [OF r] L by (auto simp: chain_append)
  then show thesis using that [of "ys @ xs"] ring_disjoint(2) [OF r [unfolded L]] L by auto
qed

lemma malloc_loop_cases:
  "n \<le> h_size h p \<Longrightarrow> malloc_take n q p h = (a, h') \<Longrightarrow> malloc_loop sbrk n q p h w = Some (a, h', w)"
  "\<not> n \<le> h_size h p \<Longrightarrow> p \<noteq> freep h \<Longrightarrow> malloc_loop sbrk n q p h w = malloc_loop sbrk n p (h_ptr h p) h w"
  "\<not> n \<le> h_size h p \<Longrightarrow> p = freep h \<Longrightarrow> malloc_loop sbrk n q p h w = Option.bind (morecore sbrk n h w)
      (\<lambda>(p, h, w). if p = 0 then Some (0, h, w) else malloc_loop sbrk n p (h_ptr h p) h w)"
  by (subst malloc_loop.simps, simp)+

lemma malloc_finds:
  assumes r: "ring base h L" and f: "freep h \<in> set L" and b: "b \<in> set L" "n \<le> h_size h b" and nz: "n \<noteq> 0"
  obtains a h' L' where "malloc_loop sbrk n (freep h) (h_ptr h (freep h)) h w = Some (a + 8, h', w)"
    "taken base h L a n h' L'"
proof -
  obtain M where M: "chain (h_ptr h) (h_ptr h (freep h)) M (freep h)" "set L = insert (freep h) (set M)"
    "freep h \<notin> set M"
    by (rule ring_from [OF r f])
  define good where "good res \<longleftrightarrow> (\<exists>a h' L'. res = Some (a + 8, h', w) \<and> taken base h L a n h' L')" for res
  define Q where "Q x \<longleftrightarrow> (\<forall>q \<in> set L. h_ptr h q = x \<longrightarrow> good (malloc_loop sbrk n q x h w))" for x
  have fit: "good (malloc_loop sbrk n q x h w)"
    if q: "q \<in> set L" and x: "h_ptr h q = x" and le: "n \<le> h_size h x" for q x
  proof -
    obtain a h' L' where t: "malloc_take n q (h_ptr h q) h = (a + 8, h')" "taken base h L a n h' L'"
      by (rule malloc_take_spec [OF r q _ nz]) (use le x in auto)
    show ?thesis unfolding good_def
      using malloc_loop_cases(1) [OF le t(1) [unfolded x], of sbrk w] t(2) by blast
  qed
  have "b \<in> set (M @ [freep h])" using b M(2) by simp
  then obtain us vs where s: "M @ [freep h] = us @ b # vs" by (meson split_list)
  have "chain (h_ptr h) (h_ptr h (freep h)) (M @ [freep h]) (h_ptr h (freep h))" using M(1) by (simp add: chain_append)
  then have c: "chain (h_ptr h) (h_ptr h (freep h)) us b" unfolding s by (auto simp: chain_append)
  have us: "set us \<subseteq> set M" using s by (cases vs rule: rev_cases) auto
  have step: "Q x" if "x \<in> set us" "Q (h_ptr h x)" for x
  proof -
    have x: "x \<in> set L" "x \<noteq> freep h" using that us M by auto
    have "good (malloc_loop sbrk n x (h_ptr h x) h w)" using that(2) x unfolding Q_def by blast
    then have "good (malloc_loop sbrk n q x h w)" if "q \<in> set L" "h_ptr h q = x" for q
      using fit [OF that] malloc_loop_cases(2) [OF _ x(2), of n sbrk q w] by (cases "n \<le> h_size h x") simp_all
    then show ?thesis unfolding Q_def by blast
  qed
  have "Q b" using fit b unfolding Q_def by blast
  then have "Q (h_ptr h (freep h))" using chain_walk [where Q = Q, OF c _ step] by blast
  then show thesis using f that unfolding Q_def good_def by blast
qed

lemma malloc_no_fit:
  assumes r: "ring base h L" and f: "freep h \<in> set L" and b: "\<forall>x \<in> set L. h_size h x < n"
  shows "malloc_loop sbrk n (freep h) (h_ptr h (freep h)) h w =
    Option.bind (morecore sbrk n h w)
      (\<lambda>(p, h, w). if p = 0 then Some (0, h, w) else malloc_loop sbrk n p (h_ptr h p) h w)"
    (is "_ = ?M")
proof -
  obtain M where M: "chain (h_ptr h) (h_ptr h (freep h)) M (freep h)" "set L = insert (freep h) (set M)"
    "freep h \<notin> set M"
    by (rule ring_from [OF r f])
  define Q where "Q x \<longleftrightarrow> (\<forall>q. malloc_loop sbrk n q x h w = ?M)" for x
  have "\<not> n \<le> h_size h (freep h)" using b f by (auto simp: not_le)
  note core = malloc_loop_cases(3) [OF this refl]
  have "Q (freep h)" unfolding Q_def by (rule allI) (rule core)
  moreover have "Q x" if "x \<in> set M" "Q (h_ptr h x)" for x
  proof -
    have "\<not> n \<le> h_size h x" "x \<noteq> freep h" using that b M by (auto simp: not_le)
    then have "malloc_loop sbrk n q x h w = malloc_loop sbrk n x (h_ptr h x) h w" for q
      by (rule malloc_loop_cases(2))
    then show ?thesis using that(2) unfolding Q_def by simp
  qed
  ultimately have "Q (h_ptr h (freep h))" using chain_walk [where Q = Q, OF M(1)] by blast
  then show ?thesis unfolding Q_def by blast
qed

section \<open>The heap of a program\<close>

text \<open>
  What the program relies on of \<open>sbrk\<close>: called with a positive number of bytes it fails and changes
  nothing, or returns the old break and moves it up. \<open>brk w\<close> is the break in the state \<open>w\<close>.
\<close>

definition sbrk_ok :: "(u32 \<Rightarrow> 'w \<Rightarrow> u32 \<times> 'w) \<Rightarrow> ('w \<Rightarrow> nat) \<Rightarrow> bool" where
  "sbrk_ok sbrk brk \<longleftrightarrow> (\<forall>n w a w'. 0 < n \<longrightarrow> unat n < 2 ^ 31 \<longrightarrow> sbrk n w = (a, w') \<longrightarrow>
     a = - 1 \<and> brk w' = brk w \<or> unat a = brk w \<and> brk w' = brk w + unat n \<and> brk w' \<le> user_top)"

text \<open>
  The heap between the first break \<open>lo\<close> and the present one is divided into the free blocks and the
  blocks in use, those with the headers \<open>live\<close>. Before the first call of \<open>malloc\<close> there is no list.
\<close>

definition divided :: "('w \<Rightarrow> nat) \<Rightarrow> nat \<Rightarrow> u32 \<Rightarrow> uheap \<Rightarrow> 'w \<Rightarrow> u32 set \<Rightarrow> u32 list \<Rightarrow> bool" where
  "divided brk lo base h w live L \<longleftrightarrow> ring base h L \<and> freep h \<in> set L
     \<and> (\<forall>x \<in> live. h_size h x \<noteq> 0 \<and> blk h x \<inter> free_bytes h L = {})
     \<and> disjoint_family_on (blk h) live \<and> free_bytes h L \<union> (\<Union>x \<in> live. blk h x) = {lo ..< brk w}"

definition heap_inv :: "('w \<Rightarrow> nat) \<Rightarrow> nat \<Rightarrow> u32 \<Rightarrow> uheap \<Rightarrow> 'w \<Rightarrow> u32 set \<Rightarrow> bool" where
  "heap_inv brk lo base h w live \<longleftrightarrow> base \<noteq> 0 \<and> unat base < lo \<and> lo \<le> brk w \<and> brk w \<le> user_top
     \<and> (freep h = 0 \<and> live = {} \<and> lo = brk w \<or> (\<exists>L. divided brk lo base h w live L))"

lemma dividedD:
  assumes "divided brk lo base h w live L"
  shows "ring base h L" "freep h \<in> set L" "\<And>x. x \<in> live \<Longrightarrow> h_size h x \<noteq> 0"
    "\<And>x. x \<in> live \<Longrightarrow> blk h x \<inter> free_bytes h L = {}"
    "disjoint_family_on (blk h) live" "free_bytes h L \<union> (\<Union>x \<in> live. blk h x) = {lo ..< brk w}"
  using assms unfolding divided_def by blast+

lemma divided_bounds:
  assumes d: "divided brk lo base h w live L" and top: "brk w \<le> user_top" and b: "unat base < lo"
  shows "\<And>x. x \<in> live \<Longrightarrow> lo \<le> unat x \<and> fin h x \<le> brk w \<and> base < x \<and> unat x \<in> blk h x"
    "\<And>x. x \<in> set L \<Longrightarrow> x \<noteq> base \<Longrightarrow> unat x \<in> blk h x \<and> unat x < brk w \<and> fin h x \<le> brk w"
proof -
  note u = dividedD(6) [OF d] and r = dividedD(1) [OF d]
  have ends: "unat x \<in> blk h x \<and> lo \<le> unat x \<and> fin h x \<le> brk w" if "blk h x \<subseteq> {lo ..< brk w}" "h_size h x \<noteq> 0" for x
  proof -
    have f: "unat x < fin h x" using that(2) by (simp add: fin_def unat_gt_0)
    then have m: "unat x \<in> blk h x" "fin h x - 1 \<in> blk h x" by (auto simp: blk_def)
    have "lo \<le> unat x" using subsetD [OF that(1) m(1)] by simp
    moreover have "fin h x - 1 < brk w" using subsetD [OF that(1) m(2)] by simp
    then have "fin h x \<le> brk w" using f by linarith
    ultimately show ?thesis using m(1) by blast
  qed
  show "lo \<le> unat x \<and> fin h x \<le> brk w \<and> base < x \<and> unat x \<in> blk h x" if "x \<in> live" for x
  proof -
    have "h_size h x \<noteq> 0" "blk h x \<subseteq> {lo ..< brk w}" using dividedD(3) [OF d that] that u by blast+
    from ends [OF this(2,1)] b show ?thesis by (auto simp: word_less_nat_alt)
  qed
  show "unat x \<in> blk h x \<and> unat x < brk w \<and> fin h x \<le> brk w" if x: "x \<in> set L" "x \<noteq> base" for x
  proof -
    obtain M where "L = base # M" using ring_hd [OF r] by blast
    then have "h_size h x \<noteq> 0" using ringD(5) [OF r, of x] x by auto
    moreover have "blk h x \<subseteq> {lo ..< brk w}" using u x(1) unfolding free_bytes_def by blast
    ultimately have e: "unat x \<in> blk h x \<and> lo \<le> unat x \<and> fin h x \<le> brk w" using ends [of x] by blast
    then have "unat x < fin h x" by (simp add: blk_def)
    with e show ?thesis by simp
  qed
qed

lemma free_divided:
  assumes i: "heap_inv brk lo base h w live" and x: "x \<in> live"
  obtains h' where "free (x + 8) h = Some h'" "heap_inv brk lo base h' w (live - {x})"
    "\<forall>y \<in> live - {x}. h_size h' y = h_size h y"
proof -
  obtain L where d: "divided brk lo base h w live L" using i x by (auto simp: heap_inv_def)
  have g: "base \<noteq> 0" "unat base < lo" "lo \<le> brk w" "brk w \<le> user_top" using i by (simp_all add: heap_inv_def)
  note bd = divided_bounds [OF d g(4,2)]
  note D = dividedD [OF d]
  have dx: "free_bytes h L \<inter> blk h x = {}" using D(4) [OF x] by blast
  have t: "base < x" "fin h x \<le> user_top" using bd(1) [OF x] g(4) by simp_all
  obtain h' L' where f: "free (x + 8) h = Some h'" "freed base x h L h' L'"
    by (rule free_spec [OF D(1,2) t(1) D(3) [OF x] t(2) dx])
  have F: "ring base h' L'" "freep h' \<in> set L'" "free_bytes h' L' = blk h x \<union> free_bytes h L"
    "\<And>y. y \<notin> set L \<Longrightarrow> y \<noteq> x \<Longrightarrow> h_size h' y = h_size h y"
    using f(2) unfolding freed_def by blast+
  have nL: "y \<notin> set L" if y: "y \<in> live" for y
  proof
    assume "y \<in> set L"
    then have "unat y \<in> free_bytes h L" using bd(1) [OF y] unfolding free_bytes_def by blast
    then show False using D(4) [OF y] bd(1) [OF y] by blast
  qed
  have same: "\<forall>y \<in> live - {x}. h_size h' y = h_size h y" using F(4) nL by blast
  have bl: "\<And>y. y \<in> live - {x} \<Longrightarrow> blk h' y = blk h y" by (rule blk_cong) (use same in blast)
  have dj: "blk h y \<inter> blk h x = {}" if "y \<in> live - {x}" for y
    using D(5) x that by (auto simp: disjoint_family_on_def)
  have "divided brk lo base h' w (live - {x}) L'"
    unfolding divided_def
  proof (intro conjI ballI)
    show "disjoint_family_on (blk h') (live - {x})" using D(5) bl by (auto simp: disjoint_family_on_def)
    have "(\<Union>y \<in> live - {x}. blk h' y) = (\<Union>y \<in> live - {x}. blk h y)" using bl by auto
    moreover have "(\<Union>y \<in> live. blk h y) = blk h x \<union> (\<Union>y \<in> live - {x}. blk h y)" using x by auto
    ultimately show "free_bytes h' L' \<union> (\<Union>y \<in> live - {x}. blk h' y) = {lo ..< brk w}"
      using F(3) D(6) by (simp add: Un_ac)
    show "h_size h' y \<noteq> 0" if "y \<in> live - {x}" for y using same D(3) that by simp
    show "blk h' y \<inter> free_bytes h' L' = {}" if "y \<in> live - {x}" for y
      unfolding bl [OF that] F(3) using dj [OF that] D(4) [of y] that by blast
  qed (use F(1,2) in simp_all)
  then have "heap_inv brk lo base h' w (live - {x})" using g unfolding heap_inv_def by blast
  then show thesis using that f(1) same by blast
qed

text \<open>The number of bytes \<open>morecore\<close> asks for.\<close>

definition core_bytes :: "u32 \<Rightarrow> u32" where
  "core_bytes n = (if n < 4096 then 4096 else n) * 8"

lemma morecore_spec:
  assumes sb: "sbrk_ok sbrk brk" and i: "divided brk lo base h w live L" and b: "unat base < lo" "lo \<le> brk w"
    and top: "brk w \<le> user_top" and n: "unat n < 2 ^ 28" and no: "\<forall>x \<in> set L. h_size h x < n"
  obtains (fail) w' where "fst (sbrk (core_bytes n) w) = - 1" "morecore sbrk n h w = Some (0, h, w')" "brk w' = brk w"
    | (more) a m h' L' w' where "morecore sbrk n h w = Some (freep h', h', w')" "unat a = brk w"
      "n \<le> m" "m \<noteq> 0" "brk w' = brk w + 8 * unat m" "brk w' \<le> user_top"
      "freed base a (h\<lparr>h_size := (h_size h)(a := m)\<rparr>) L h' L'"
proof -
  define m where "m = (if n < 4096 then 4096 else n)"
  have m: "n \<le> m" "m \<noteq> 0" "unat m < 2 ^ 28" using n by (auto simp: m_def word_less_nat_alt word_le_nat_alt)
  have "unat m * unat (8 :: u32) < 2 ^ 32" using m(3) by simp
  then have u8: "unat (m * 8) = 8 * unat m" by (subst unat_mult_lem [THEN iffD1]) auto
  obtain a w' where s: "sbrk (m * 8) w = (a, w')" by (cases "sbrk (m * 8) w")
  have "0 < m * 8" "unat (m * 8) < 2 ^ 31" using u8 m by (simp_all add: word_less_nat_alt unat_gt_0)
  then consider "a = - 1" "brk w' = brk w"
    | "unat a = brk w" "brk w' = brk w + unat (m * 8)" "brk w' \<le> user_top"
    using sb s unfolding sbrk_ok_def by blast
  then show thesis
  proof cases
    case 1
    then have "morecore sbrk n h w = Some (0, h, w')" using s by (simp add: morecore_def m_def [symmetric])
    moreover have "core_bytes n = m * 8" by (simp add: core_bytes_def m_def)
    ultimately show thesis using fail [of w'] s 1 by simp
  next
    case 2
    define h1 where "h1 = h\<lparr>h_size := (h_size h)(a := m)\<rparr>"
    have "unat (- 1 :: u32) = 4294967295" by (simp add: unsigned_minus_1_eq_mask mask_eq_exp_minus_1)
    then have na: "a \<noteq> - 1" using 2(1) top by (auto simp: user_top_def)
    note D = dividedD [OF i] and bd = divided_bounds [OF i top b(1)]
    have ab: "a \<noteq> base" using 2(1) b by auto
    then have aL: "a \<notin> set L" using bd(2) [of a] 2(1) by auto
    then have f: "fin h1 x = fin h x" "blk h1 x = blk h x" if "x \<in> set L" for x
      using that by (auto simp: h1_def fin_def blk_def)
    have fb: "free_bytes h1 L = free_bytes h L" using f by (simp add: free_bytes_def)
    have "sorted_wrt (\<lambda>x y. fin h1 x < unat y) L"
      by (rule sorted_wrt_mono_rel [OF _ ringD(2) [OF D(1)]]) (simp add: f)
    moreover have "\<forall>x \<in> set (tl L). h_size h1 x \<noteq> 0"
      using ringD(5) [OF D(1)] m(2) by (auto simp: h1_def)
    ultimately have R: "ring base h1 L"
      using D(1) f ab unfolding ring_def by (simp add: h1_def)
    have ba: "base < a" using 2(1) b by (simp add: word_less_nat_alt)
    have fa: "fin h1 a = brk w'" "h_size h1 a \<noteq> 0" using 2 u8 m(2) by (simp_all add: h1_def fin_def)
    have "free_bytes h L \<subseteq> {lo ..< brk w}" using D(6) by blast
    then have dj: "free_bytes h1 L \<inter> blk h1 a = {}" using 2(1) unfolding fb by (auto simp: blk_def)
    obtain h' L' where fr: "free (a + 8) h1 = Some h'" "freed base a h1 L h' L'"
      by (rule free_spec [OF R _ ba fa(2) _ dj]) (use D(2) fa 2 in \<open>simp_all add: h1_def\<close>)
    have "morecore sbrk n h w = Some (freep h', h', w')"
      using s na fr(1) by (simp add: morecore_def m_def [symmetric] h1_def)
    then show thesis using more [of h' w' a m L'] 2 u8 m fr(2) unfolding h1_def by simp
  qed
qed

text \<open>Cutting a block out of the free bytes of a divided heap, some of which may be new.\<close>

lemma taken_divided:
  assumes i: "divided brk lo base h w live L" and g: "lo \<le> brk w" "brk w \<le> brk w'" "brk w \<le> user_top" "unat base < lo"
    and t: "taken base h2 L2 a n h' L'" and nz: "n \<noteq> 0"
    and fb: "free_bytes h2 L2 = free_bytes h L \<union> {brk w ..< brk w'}"
    and same: "\<And>x. x \<in> live \<Longrightarrow> x \<notin> set L2 \<and> h_size h2 x = h_size h x"
  shows "divided brk lo base h' w' (insert a live) L'" "a \<notin> live" "\<forall>x \<in> live. h_size h' x = h_size h x"
proof -
  note D = dividedD [OF i] and bd = divided_bounds [OF i g(3,4)]
  have T: "ring base h' L'" "freep h' \<in> set L'" "h_size h' a = n" "blk h' a \<inter> free_bytes h' L' = {}"
    "blk h' a \<union> free_bytes h' L' = free_bytes h2 L2" "\<And>x. x \<notin> set L2 \<Longrightarrow> x \<noteq> a \<Longrightarrow> h_size h' x = h_size h2 x"
    using t unfolding taken_def by blast+
  have "unat a \<in> blk h' a" using T(3) nz by (simp add: blk_def fin_def unat_gt_0)
  then have ua: "unat a \<in> free_bytes h L \<union> {brk w ..< brk w'}" using T(5) fb by blast
  have below: "blk h x \<inter> {brk w ..< brk w'} = {}" if "x \<in> live" for x
    using bd(1) [OF that] by (auto simp: blk_def)
  show na: "a \<notin> live" using ua D(4) bd(1) below by blast
  have s': "h_size h' x = h_size h x" if "x \<in> live" for x
    using T(6) [of x] same [OF that] na that by auto
  then show "\<forall>x \<in> live. h_size h' x = h_size h x" by blast
  have bl: "blk h' x = blk h x" if "x \<in> live" for x by (rule blk_cong) (rule s' [OF that])
  have dj: "blk h x \<inter> (blk h' a \<union> free_bytes h' L') = {}" if "x \<in> live" for x
    unfolding T(5) fb using D(4) [OF that] below [OF that] by blast
  have U: "(\<Union>x \<in> live. blk h' x) = (\<Union>x \<in> live. blk h x)" using bl by auto
  have "free_bytes h' L' \<union> (blk h' a \<union> (\<Union>x \<in> live. blk h' x)) = {lo ..< brk w} \<union> {brk w ..< brk w'}"
    unfolding U D(6) [symmetric] using T(5) fb by blast
  then have "free_bytes h' L' \<union> (\<Union>x \<in> insert a live. blk h' x) = {lo ..< brk w'}"
    using g(1,2) by (simp add: ivl_disj_un_two(3))
  moreover have "disjoint_family_on (blk h') (insert a live)"
    unfolding disjoint_family_on_def
  proof (intro ballI impI)
    fix x y assume xy: "x \<in> insert a live" "y \<in> insert a live" "x \<noteq> y"
    consider "x \<in> live" "y \<in> live" | "x = a" "y \<in> live" | "x \<in> live" "y = a" using xy by blast
    then show "blk h' x \<inter> blk h' y = {}"
    proof cases
      case 1 then show ?thesis using D(5) xy(3) bl unfolding disjoint_family_on_def by simp
    next
      case 2 then show ?thesis using bl [OF 2(2)] dj [OF 2(2)] by blast
    next
      case 3 then show ?thesis using bl [OF 3(1)] dj [OF 3(1)] by blast
    qed
  qed
  moreover have "\<forall>x \<in> insert a live. h_size h' x \<noteq> 0 \<and> blk h' x \<inter> free_bytes h' L' = {}"
    using T(3,4) nz s' D(3) bl dj by fastforce
  ultimately show "divided brk lo base h' w' (insert a live) L'" using T(1,2) unfolding divided_def by blast
qed

lemma nunits_of_unat:
  assumes "nbytes \<le> 0x7FFFFFF0"
  shows "unat (nunits_of nbytes) = (unat nbytes + 7) div 8 + 1" "unat (nunits_of nbytes) < 2 ^ 28"
    "nunits_of nbytes \<noteq> 0"
proof -
  have b: "unat nbytes \<le> 0x7FFFFFF0" using assms by (simp add: word_le_nat_alt)
  have "nbytes + 8 - 1 = nbytes + 7" by simp
  moreover have s: "unat (nbytes + 7) = unat nbytes + 7" using b by (simp add: unat_add_lem [THEN iffD1])
  ultimately have d: "unat ((nbytes + 8 - 1) div 8) = (unat nbytes + 7) div 8" by (simp only: unat_div) simp
  then have "unat ((nbytes + 8 - 1) div 8) + 1 < 2 ^ 28" using b by simp
  then show *: "unat (nunits_of nbytes) = (unat nbytes + 7) div 8 + 1"
    unfolding nunits_of_def using d by (subst unat_add_lem [THEN iffD1]) auto
  then show "unat (nunits_of nbytes) < 2 ^ 28" using b by simp
  show "nunits_of nbytes \<noteq> 0" using * by auto
qed

text \<open>The first call makes a list of \<open>base\<close> alone.\<close>

lemma first_list:
  assumes "base \<noteq> 0" "unat base < brk w" "brk w \<le> user_top"
    and h: "h = h0\<lparr>h_ptr := (h_ptr h0)(base := base), freep := base, h_size := (h_size h0)(base := 0)\<rparr>"
  shows "divided brk (brk w) base h w {} [base]"
  using assms(1-3) unfolding divided_def ring_def by (simp add: h fin_def free_bytes_def blk_def disjoint_family_on_def)

text \<open>After \<open>morecore\<close> has added a block, the loop finds one that is big enough.\<close>

lemma malloc_more:
  assumes i: "divided brk lo base h w live L" and g: "unat base < lo" "lo \<le> brk w" "brk w \<le> user_top" and n: "n \<noteq> 0"
    and f: "unat a = brk w" "n \<le> m" "brk w' = brk w + 8 * unat m"
      "freed base a (h\<lparr>h_size := (h_size h)(a := m)\<rparr>) L h2 L2"
    and nL: "\<And>x. x \<in> live \<Longrightarrow> x \<notin> set L"
  obtains c h' L' where "malloc_loop sbrk n (freep h2) (h_ptr h2 (freep h2)) h2 w' = Some (c + 8, h', w')"
    "freep h2 \<noteq> 0" "divided brk lo base h' w' (insert c live) L'" "c \<notin> live"
    "\<forall>x \<in> live. h_size h' x = h_size h x" "h_size h' c = n"
proof -
  note bd = divided_bounds [OF i g(3,1)]
  define h1 where "h1 = h\<lparr>h_size := (h_size h)(a := m)\<rparr>"
  have F: "ring base h2 L2" "freep h2 \<in> set L2" "free_bytes h2 L2 = blk h1 a \<union> free_bytes h1 L"
    "set L2 \<subseteq> insert a (set L)" "\<And>x. x \<notin> set L \<Longrightarrow> x \<noteq> a \<Longrightarrow> h_size h2 x = h_size h1 x"
    "\<exists>x \<in> set L2. h_size h1 a \<le> h_size h2 x"
    using f(4) unfolding h1_def [symmetric] freed_def by blast+
  have "a \<noteq> base" using f(1) g by auto
  then have aL: "a \<notin> set L" using bd(2) [of a] f(1) by auto
  have "free_bytes h1 L = free_bytes h L" by (rule free_bytes_cong) (use aL in \<open>auto simp: h1_def\<close>)
  moreover have "blk h1 a = {brk w ..< brk w'}" using f(1,3) by (simp add: blk_def fin_def h1_def)
  ultimately have fb: "free_bytes h2 L2 = free_bytes h L \<union> {brk w ..< brk w'}" using F(3) by blast
  have same: "x \<notin> set L2 \<and> h_size h2 x = h_size h x" if "x \<in> live" for x
  proof -
    have "x \<noteq> a" using bd(1) [OF that] f(1) fin_ge [of x h] by (auto simp: blk_def)
    then show ?thesis using nL [OF that] F(4) F(5) [of x] by (auto simp: h1_def)
  qed
  obtain b where b: "b \<in> set L2" "n \<le> h_size h2 b" using F(6) f(2) by (auto simp: h1_def)
  obtain c h' L' where t: "malloc_loop sbrk n (freep h2) (h_ptr h2 (freep h2)) h2 w' = Some (c + 8, h', w')"
    "taken base h2 L2 c n h' L'"
    by (rule malloc_finds [OF F(1,2) b n])
  have "unat base \<le> unat (freep h2)" using ring_base_least [OF F(1,2)] by (cases "freep h2 = base") auto
  then have nz: "freep h2 \<noteq> 0" using ringD(6) [OF F(1)] by (auto simp: unat_eq_0)
  have sz: "h_size h' c = n" using t(2) unfolding taken_def by blast
  have le: "brk w \<le> brk w'" using f(3) by simp
  note e = taken_divided [OF i g(2) le g(3,1) t(2) n fb same]
  show thesis by (rule that [OF t(1) nz e(1,2,3) sz])
qed

lemma malloc_list:
  assumes sb: "sbrk_ok sbrk brk" and i: "divided brk lo base h w live L" and g: "unat base < lo" "lo \<le> brk w" "brk w \<le> user_top"
    and n: "unat n < 2 ^ 28" "n \<noteq> 0" and res: "res = malloc_loop sbrk n (freep h) (h_ptr h (freep h)) h w"
  obtains (fail) w' where "res = Some (0, h, w')" "fst (sbrk (core_bytes n) w) = - 1" "brk w' = brk w"
    | (got) a h' w' L' where "res = Some (a + 8, h', w')" "divided brk lo base h' w' (insert a live) L'" "a \<notin> live"
      "\<forall>x \<in> live. h_size h' x = h_size h x" "h_size h' a = n" "brk w \<le> brk w'" "brk w' \<le> user_top"
proof -
  note D = dividedD [OF i] and bd = divided_bounds [OF i g(3,1)]
  have nL: "x \<notin> set L" if "x \<in> live" for x
    using bd(1) [OF that] D(4) [OF that] unfolding free_bytes_def by blast
  show thesis
  proof (cases "\<exists>b \<in> set L. n \<le> h_size h b")
    case True
    then obtain b where b: "b \<in> set L" "n \<le> h_size h b" by blast
    obtain a h' L' where t: "malloc_loop sbrk n (freep h) (h_ptr h (freep h)) h w = Some (a + 8, h', w)"
      "taken base h L a n h' L'"
      by (rule malloc_finds [OF D(1,2) b n(2)])
    have fb: "free_bytes h L = free_bytes h L \<union> {brk w ..< brk w}" by simp
    have sz: "h_size h' a = n" using t(2) unfolding taken_def by blast
    note e = taken_divided [OF i g(2) order.refl g(3,1) t(2) n(2) fb]
    show thesis using got [OF t(1) [folded res] e(1,2,3) sz order.refl g(3)] nL by blast
  next
    case False
    then have no: "\<forall>x \<in> set L. h_size h x < n" by (simp add: not_le)
    note r = malloc_no_fit [OF D(1,2) no, of sbrk w, folded res]
    show thesis
    proof (rule morecore_spec [OF sb i g n(1) no])
      fix w' assume f: "fst (sbrk (core_bytes n) w) = - 1" "morecore sbrk n h w = Some (0, h, w')" "brk w' = brk w"
      then show thesis using fail [OF _ f(1,3)] r by simp
    next
      fix a m h2 L2 w'
      assume f: "morecore sbrk n h w = Some (freep h2, h2, w')" "unat a = brk w" "n \<le> m" "m \<noteq> 0"
        "brk w' = brk w + 8 * unat m" "brk w' \<le> user_top" "freed base a (h\<lparr>h_size := (h_size h)(a := m)\<rparr>) L h2 L2"
      obtain c h' L' where t: "malloc_loop sbrk n (freep h2) (h_ptr h2 (freep h2)) h2 w' = Some (c + 8, h', w')"
        "freep h2 \<noteq> 0" "divided brk lo base h' w' (insert c live) L'" "c \<notin> live"
        "\<forall>x \<in> live. h_size h' x = h_size h x" "h_size h' c = n"
        by (rule malloc_more [OF i g n(2) f(2,3,5,7) nL])
      have "res = Some (c + 8, h', w')" using r f(1) t(1,2) by simp
      moreover have "brk w \<le> brk w'" using f(5) by simp
      ultimately show thesis using got [OF _ t(3-6) _ f(6)] by blast
    qed
  qed
qed

text \<open>A call of \<open>malloc\<close> that asks for \<open>n\<close> units, in any state of the heap.\<close>

lemma malloc_units:
  assumes sb: "sbrk_ok sbrk brk" and inv: "heap_inv brk lo base h w live"
    and n: "nunits_of nbytes = n" "unat n < 2 ^ 28" "n \<noteq> 0"
  shows "\<exists>r h' w'. malloc sbrk base nbytes h w = Some (r, h', w') \<and> (\<forall>x \<in> live. h_size h' x = h_size h x) \<and>
    (if r = 0 then heap_inv brk lo base h' w' live \<and> fst (sbrk (core_bytes n) w) = - 1
     else r - 8 \<notin> live \<and> heap_inv brk lo base h' w' (insert (r - 8) live) \<and>
          blk h' (r - 8) = {unat r - 8 ..< unat r - 8 + 8 * unat n} \<and> 8 \<le> unat r)"
proof -
  have g: "base \<noteq> 0" "unat base < lo" "lo \<le> brk w" "brk w \<le> user_top" using inv unfolding heap_inv_def by blast+
  define h0 where "h0 = (if freep h = 0
    then h\<lparr>h_ptr := (h_ptr h)(base := base), freep := base, h_size := (h_size h)(base := 0)\<rparr> else h)"
  have old: "\<exists>L. divided brk lo base h0 w live L \<and> (\<forall>x \<in> live. h_size h0 x = h_size h x)"
  proof (cases "freep h = 0 \<and> live = {} \<and> lo = brk w")
    case True
    then show ?thesis using first_list [of base brk w h0 h] g by (auto simp: h0_def)
  next
    case False
    then obtain L where L: "divided brk lo base h w live L" using inv unfolding heap_inv_def by blast
    have "unat base \<le> unat (freep h)"
      using ring_base_least [OF dividedD(1) [OF L] dividedD(2) [OF L]] by (cases "freep h = base") auto
    then have "freep h \<noteq> 0" using g(1) by (auto simp: unat_eq_0)
    then show ?thesis using L by (auto simp: h0_def)
  qed
  then obtain L where L: "divided brk lo base h0 w live L" and same: "\<forall>x \<in> live. h_size h0 x = h_size h x" by blast
  have res: "malloc sbrk base nbytes h w = malloc_loop sbrk n (freep h0) (h_ptr h0 (freep h0)) h0 w"
    by (simp add: malloc_def Let_def n(1) h0_def)
  show ?thesis
  proof (rule malloc_list [OF sb L g(2-4) n(2,3) res])
    fix w' assume f: "malloc sbrk base nbytes h w = Some (0, h0, w')" "fst (sbrk (core_bytes n) w) = - 1" "brk w' = brk w"
    have "divided brk lo base h0 w' live L" using L f(3) unfolding divided_def by simp
    then have "heap_inv brk lo base h0 w' live" using g f(3) unfolding heap_inv_def by auto
    then show ?thesis using f(1,2) same by (intro exI [of _ 0] exI [of _ h0] exI [of _ w']) auto
  next
    fix a h' w' L'
    assume f: "malloc sbrk base nbytes h w = Some (a + 8, h', w')" "divided brk lo base h' w' (insert a live) L'"
      "a \<notin> live" "\<forall>x \<in> live. h_size h' x = h_size h0 x" "h_size h' a = n" "brk w \<le> brk w'" "brk w' \<le> user_top"
    have H: "heap_inv brk lo base h' w' (insert a live)" using f(2,6,7) g unfolding heap_inv_def by auto
    have "fin h' a \<le> user_top" using divided_bounds(1) [OF f(2,7) g(2), of a] f(7) by simp
    then have "unat a + 8 * unat n \<le> user_top" using f(5) by (simp add: fin_def)
    moreover have "0 < unat n" using n(3) by (simp add: unat_gt_0)
    ultimately have u: "unat (a + 8) = unat a + 8" by (subst unat_add_lem [THEN iffD1]) (auto simp: user_top_def)
    have nz: "a + 8 \<noteq> 0" using u by auto
    have "blk h' a = {unat (a + 8) - 8 ..< unat (a + 8) - 8 + 8 * unat n}" using u f(5) by (simp add: blk_def fin_def)
    then show ?thesis using f H nz same u
      by (intro exI [of _ "a + 8"] exI [of _ h'] exI [of _ w']) auto
  qed
qed

text \<open>
  C29: \<open>malloc\<close> always returns. It gives 0 only if \<open>sbrk\<close> has refused, and then the heap is as it was; or
  it gives a pointer to \<open>nbytes\<close> bytes inside a new block that overlaps no block in use and no free
  block. The sizes of the blocks in use are kept, and the heap up to the break is again divided into
  the blocks in use and the free list.
\<close>

theorem malloc_correct:
  assumes "sbrk_ok sbrk brk" "heap_inv brk lo base h w live" "nbytes \<le> 0x7FFFFFF0"
  shows "\<exists>r h' w'. malloc sbrk base nbytes h w = Some (r, h', w') \<and> (\<forall>x \<in> live. h_size h' x = h_size h x) \<and>
    (if r = 0 then heap_inv brk lo base h' w' live \<and> fst (sbrk (core_bytes (nunits_of nbytes)) w) = - 1
     else r - 8 \<notin> live \<and> heap_inv brk lo base h' w' (insert (r - 8) live) \<and>
          {unat r ..< unat r + unat nbytes} \<subseteq> blk h' (r - 8))"
proof -
  note n = nunits_of_unat [OF assms(3)]
  have "{r ..< r + unat nbytes} \<subseteq> {r - 8 ..< r - 8 + 8 * ((unat nbytes + 7) div 8 + 1)}" if "8 \<le> r" for r
    using that by auto
  note room = this [of "unat r" for r]
  obtain r h' w' where m: "malloc sbrk base nbytes h w = Some (r, h', w')" "\<forall>x \<in> live. h_size h' x = h_size h x"
    "if r = 0 then heap_inv brk lo base h' w' live \<and> fst (sbrk (core_bytes (nunits_of nbytes)) w) = - 1
     else r - 8 \<notin> live \<and> heap_inv brk lo base h' w' (insert (r - 8) live) \<and>
          blk h' (r - 8) = {unat r - 8 ..< unat r - 8 + 8 * ((unat nbytes + 7) div 8 + 1)} \<and> 8 \<le> unat r"
    using malloc_units [OF assms(1,2) refl n(2,3)] unfolding n(1) by blast
  show ?thesis
    using m room [of r] by (intro exI [of _ r] exI [of _ h'] exI [of _ w']) (auto split: if_splits)
qed

text \<open>
  C30: \<open>free\<close> of a block in use always returns, wherever \<open>freep\<close> stands. The bytes of the block become
  free, the other blocks in use keep their sizes, and the heap is again divided into the blocks in
  use and the free list, which stays sorted by address with adjacent blocks merged.
\<close>

theorem free_correct:
  assumes "heap_inv brk lo base h w live" "x \<in> live"
  shows "\<exists>h'. free (x + 8) h = Some h' \<and> heap_inv brk lo base h' w (live - {x})
    \<and> (\<forall>y \<in> live - {x}. h_size h' y = h_size h y)"
  by (rule free_divided [OF assms]) blast

text \<open>
  C32: a request of almost 4 GB wraps around in the computation of the number of units: \<open>malloc\<close>
  succeeds with a block that consists of its header only, without a single byte for the caller.
\<close>

theorem malloc_wraps:
  assumes "sbrk_ok sbrk brk" "heap_inv brk lo base h w live" "nbytes \<ge> 0xFFFFFFF9" "fst (sbrk 0x8000 w) \<noteq> - 1"
  shows "\<exists>r h' w'. malloc sbrk base nbytes h w = Some (r, h', w') \<and> r \<noteq> 0 \<and> blk h' (r - 8) = {unat r - 8 ..< unat r}"
proof -
  define k where "k = unat nbytes - 0xFFFFFFF9"
  have u: "unat nbytes = 0xFFFFFFF9 + k" using assms(3) by (simp add: k_def word_le_nat_alt)
  have "unat nbytes < 2 ^ 32" using unsigned_less [of nbytes] by simp
  then have k: "k < 7" using u by simp
  have "nbytes = of_nat (unat nbytes)" by simp
  then have "nbytes = 0xFFFFFFF9 + of_nat k" unfolding u by (simp only: of_nat_add of_nat_numeral)
  then have "nbytes + 8 - 1 = of_nat k" by simp
  moreover have "unat (of_nat k div 8 :: u32) = 0" using k by (simp add: unat_div unat_of_nat)
  then have "of_nat k div 8 = (0 :: u32)" by (simp only: unat_eq_0)
  ultimately have n: "nunits_of nbytes = 1" by (simp only: nunits_of_def) simp
  obtain r h' w' where m: "malloc sbrk base nbytes h w = Some (r, h', w')"
    "if r = 0 then heap_inv brk lo base h' w' live \<and> fst (sbrk (core_bytes 1) w) = - 1
     else r - 8 \<notin> live \<and> heap_inv brk lo base h' w' (insert (r - 8) live) \<and>
          blk h' (r - 8) = {unat r - 8 ..< unat r - 8 + 8 * unat (1 :: u32)} \<and> 8 \<le> unat r"
    using malloc_units [OF assms(1,2) n] by auto
  then show ?thesis
    using assms(4) by (intro exI [of _ r] exI [of _ h'] exI [of _ w']) (auto simp: core_bytes_def split: if_splits)
qed

text \<open>A system whose break moves up to a limit, a heap not yet used, and one with a block in use.\<close>

definition bump :: "u32 \<Rightarrow> nat \<Rightarrow> u32 \<times> nat" where
  "bump n w = (if w + unat n \<le> user_top then (of_nat w, w + unat n) else (- 1, w))"

lemma bump_ok: "sbrk_ok bump id"
  unfolding sbrk_ok_def bump_def by (auto simp: user_top_def unat_of_nat split: if_splits)

definition new_heap :: uheap where
  "new_heap = \<lparr>h_ptr = (\<lambda>_. 0), h_size = (\<lambda>_. 0), freep = 0\<rparr>"

definition one_block :: uheap where
  "one_block = \<lparr>h_ptr = (\<lambda>_. 0)(0x1000 := 0x1000), h_size = (\<lambda>_. 0)(0x2000 := 2), freep = 0x1000\<rparr>"

lemma new_heap_inv: "heap_inv id 0x2000 0x1000 new_heap 0x2000 {}"
  by (simp add: heap_inv_def new_heap_def user_top_def)

lemma one_block_inv: "heap_inv id 0x2000 0x1000 one_block 0x2010 {0x2000}"
proof -
  have "divided id 0x2000 0x1000 one_block 0x2010 {0x2000} [0x1000]"
    by (simp add: divided_def ring_def one_block_def fin_def blk_def free_bytes_def disjoint_family_on_def user_top_def)
  then show ?thesis unfolding heap_inv_def by (auto simp: user_top_def)
qed

theorem malloc_correct_witness:
  "\<exists>r h' w'. malloc bump 0x1000 100 one_block 0x2010 = Some (r, h', w') \<and>
    (\<forall>x \<in> {0x2000}. h_size h' x = h_size one_block x) \<and>
    (if r = 0 then heap_inv id 0x2000 0x1000 h' w' {0x2000} \<and> fst (bump (core_bytes (nunits_of 100)) 0x2010) = - 1
     else r - 8 \<notin> {0x2000} \<and> heap_inv id 0x2000 0x1000 h' w' (insert (r - 8) {0x2000}) \<and>
          {unat r ..< unat r + unat (100 :: u32)} \<subseteq> blk h' (r - 8))"
  by (rule malloc_correct [OF bump_ok one_block_inv]) simp

theorem malloc_wraps_witness:
  "\<exists>r h' w'. malloc bump 0x1000 0xFFFFFFFF new_heap 0x2000 = Some (r, h', w') \<and> r \<noteq> 0
    \<and> blk h' (r - 8) = {unat r - 8 ..< unat r}"
  by (rule malloc_wraps [OF bump_ok new_heap_inv]) (simp_all add: bump_def user_top_def)

theorem free_correct_witness:
  "\<exists>h'. free (0x2000 + 8) one_block = Some h' \<and> heap_inv id 0x2000 0x1000 h' 0x2010 ({0x2000} - {0x2000})
    \<and> (\<forall>y \<in> {0x2000} - {0x2000}. h_size h' y = h_size one_block y)"
  by (rule free_correct [OF one_block_inv]) simp


end
