(* ===== verification/Waiting.thy ===== *)
theory Waiting
  imports Sleeplock
begin

text \<open>
  Sleeping and waking on several CPUs. Any number of processes run \<open>acquiresleep\<close> and then
  \<open>releasesleep\<close> of sleeplock.c on the same lock, in any interleaving of the atomic steps of these
  functions and of \<open>sleep\<close>, \<open>wakeup\<close> and the scheduler of proc.c. It is shown that at most one process
  holds the lock, that every run ends, and that a run can only end with every process through: no
  wakeup is lost.
\<close>

section \<open>Steps\<close>

text \<open>
  Where a process is: about to take the spin lock of the sleep lock, at the test of the loop, about
  to take \<open>ptable.lock\<close> in \<open>sleep\<close>, to release the spin lock, to go to sleep, off the CPU, back on it,
  about to retake the spin lock, to release it with the sleep lock taken, holding the sleep lock, and
  the steps of \<open>releasesleep\<close>.
\<close>

datatype pc = A_acq | A_test | S_ptable | S_unlock | S_sleep | S_off | S_back | S_relock | A_unlock | Holding
  | R_acq | R_clear | R_ptable | R_wake | R_ptrel | R_unlock | Out

text \<open>
  \<open>spin\<close> and \<open>plock\<close> are the processes that hold the spin lock of the sleep lock and \<open>ptable.lock\<close>.
  Taking a lock that is held has no step: the CPU spins.
\<close>

record slrun =
  mach :: machine
  lck :: sleeplock
  spin :: "nat option"
  plock :: "nat option"
  pcs :: "nat \<Rightarrow> pc"

definition goto :: "nat \<Rightarrow> pc \<Rightarrow> slrun \<Rightarrow> slrun" where
  "goto p l s = s\<lparr>pcs := (pcs s)(p := l)\<rparr>"

definition acquiresleep_step :: "nat \<Rightarrow> slrun \<Rightarrow> slrun option" where
  "acquiresleep_step p s =
     (case pcs s p of
        A_acq \<Rightarrow> if spin s = None then Some (goto p A_test (s\<lparr>spin := Some p\<rparr>)) else None
      | A_test \<Rightarrow>
          if sl_locked (lck s) then Some (goto p S_ptable s)
          else Some (goto p A_unlock (s\<lparr>lck := \<lparr>sl_locked = True, sl_pid = p_pid (proc_at (mach s) p)\<rparr>\<rparr>))
      | A_unlock \<Rightarrow> Some (goto p Holding (s\<lparr>spin := None\<rparr>))
      | _ \<Rightarrow> None)"

definition sleep_step :: "chan \<Rightarrow> nat \<Rightarrow> slrun \<Rightarrow> slrun option" where
  "sleep_step ch p s =
     (case pcs s p of
        S_ptable \<Rightarrow> if plock s = None then Some (goto p S_unlock (s\<lparr>plock := Some p\<rparr>)) else None
      | S_unlock \<Rightarrow> Some (goto p S_sleep (s\<lparr>spin := None\<rparr>))
      | S_sleep \<Rightarrow>
          Some (goto p S_off (s\<lparr>mach := upd_proc p (\<lambda>q. q\<lparr>p_chan := ch, p_state := SLEEPING\<rparr>) (mach s),
                               plock := None\<rparr>))
      | S_back \<Rightarrow>
          Some (goto p S_relock (s\<lparr>mach := upd_proc p (\<lambda>q. q\<lparr>p_chan := NoChan\<rparr>) (mach s), plock := None\<rparr>))
      | S_relock \<Rightarrow> if spin s = None then Some (goto p A_test (s\<lparr>spin := Some p\<rparr>)) else None
      | _ \<Rightarrow> None)"

text \<open>The scheduler of some CPU takes \<open>ptable.lock\<close> and finds the process runnable.\<close>

definition scheduler_step :: "nat \<Rightarrow> slrun \<Rightarrow> slrun option" where
  "scheduler_step p s =
     (if pcs s p = S_off \<and> plock s = None \<and> p_state (proc_at (mach s) p) = RUNNABLE
      then Some (goto p S_back (s\<lparr>mach := upd_proc p (\<lambda>q. q\<lparr>p_state := RUNNING\<rparr>) (mach s), plock := Some p\<rparr>))
      else None)"

definition releasesleep_step :: "chan \<Rightarrow> nat \<Rightarrow> slrun \<Rightarrow> slrun option" where
  "releasesleep_step ch p s =
     (case pcs s p of
        Holding \<Rightarrow> Some (goto p R_acq s)
      | R_acq \<Rightarrow> if spin s = None then Some (goto p R_clear (s\<lparr>spin := Some p\<rparr>)) else None
      | R_clear \<Rightarrow> Some (goto p R_ptable (s\<lparr>lck := \<lparr>sl_locked = False, sl_pid = 0\<rparr>\<rparr>))
      | R_ptable \<Rightarrow> if plock s = None then Some (goto p R_wake (s\<lparr>plock := Some p\<rparr>)) else None
      | R_wake \<Rightarrow> Some (goto p R_ptrel (s\<lparr>mach := wakeup1 ch (mach s)\<rparr>))
      | R_ptrel \<Rightarrow> Some (goto p R_unlock (s\<lparr>plock := None\<rparr>))
      | R_unlock \<Rightarrow> Some (goto p Out (s\<lparr>spin := None\<rparr>))
      | _ \<Rightarrow> None)"

definition steps :: "chan \<Rightarrow> nat \<Rightarrow> slrun \<Rightarrow> slrun set" where
  "steps ch p s = set_option (acquiresleep_step p s) \<union> set_option (sleep_step ch p s)
     \<union> set_option (scheduler_step p s) \<union> set_option (releasesleep_step ch p s)"

definition nprocs :: "slrun \<Rightarrow> nat" where
  "nprocs s = length (ptable (mach s))"

inductive step :: "chan \<Rightarrow> slrun \<Rightarrow> slrun \<Rightarrow> bool" for ch where
  step: "p < nprocs s \<Longrightarrow> t \<in> steps ch p s \<Longrightarrow> step ch s t"

definition ready :: "slrun \<Rightarrow> bool" where
  "ready s \<longleftrightarrow> spin s = None \<and> plock s = None \<and> \<not> sl_locked (lck s)
     \<and> (\<forall>p < nprocs s. pcs s p = A_acq \<and> p_state (proc_at (mach s) p) = RUNNING)"

section \<open>Effect of the steps\<close>

lemma goto_simps [simp]:
  "mach (goto p l s) = mach s" "lck (goto p l s) = lck s" "spin (goto p l s) = spin s" "plock (goto p l s) = plock s"
  "pcs (goto p l s) q = (if q = p then l else pcs s q)" "nprocs (goto p l s) = nprocs s"
  by (simp_all add: goto_def nprocs_def)

lemma upd_proc_length [simp]: "length (ptable (upd_proc p f m)) = length (ptable m)"
  by (simp add: upd_proc_def)

lemma proc_at_upd: "p < length (ptable m) \<Longrightarrow> proc_at (upd_proc p f m) q = (if q = p then f (proc_at m p) else proc_at m q)"
  by (simp add: proc_at_def upd_proc_def)

lemma wakeup1_length [simp]: "length (ptable (wakeup1 ch m)) = length (ptable m)"
  by (simp add: wakeup1_def)

lemma wakeup1_at:
  "i < length (ptable m) \<Longrightarrow> proc_at (wakeup1 ch m) i =
     (if p_state (proc_at m i) = SLEEPING \<and> p_chan (proc_at m i) = ch
      then (proc_at m i)\<lparr>p_state := RUNNABLE\<rparr> else proc_at m i)"
  by (simp add: wakeup1_def proc_at_def)

lemmas step_defs = steps_def acquiresleep_step_def sleep_step_def scheduler_step_def releasesleep_step_def

text \<open>The steps one by one.\<close>

inductive micro :: "chan \<Rightarrow> nat \<Rightarrow> slrun \<Rightarrow> slrun \<Rightarrow> bool" for ch p s where
  acq: "pcs s p = A_acq \<Longrightarrow> spin s = None \<Longrightarrow> micro ch p s (goto p A_test (s\<lparr>spin := Some p\<rparr>))"
| busy: "pcs s p = A_test \<Longrightarrow> sl_locked (lck s) \<Longrightarrow> micro ch p s (goto p S_ptable s)"
| take: "pcs s p = A_test \<Longrightarrow> \<not> sl_locked (lck s) \<Longrightarrow>
    micro ch p s (goto p A_unlock (s\<lparr>lck := \<lparr>sl_locked = True, sl_pid = p_pid (proc_at (mach s) p)\<rparr>\<rparr>))"
| held: "pcs s p = A_unlock \<Longrightarrow> micro ch p s (goto p Holding (s\<lparr>spin := None\<rparr>))"
| pt: "pcs s p = S_ptable \<Longrightarrow> plock s = None \<Longrightarrow> micro ch p s (goto p S_unlock (s\<lparr>plock := Some p\<rparr>))"
| unlk: "pcs s p = S_unlock \<Longrightarrow> micro ch p s (goto p S_sleep (s\<lparr>spin := None\<rparr>))"
| slp: "pcs s p = S_sleep \<Longrightarrow>
    micro ch p s (goto p S_off (s\<lparr>mach := upd_proc p (\<lambda>q. q\<lparr>p_chan := ch, p_state := SLEEPING\<rparr>) (mach s), plock := None\<rparr>))"
| run: "pcs s p = S_off \<Longrightarrow> plock s = None \<Longrightarrow> p_state (proc_at (mach s) p) = RUNNABLE \<Longrightarrow>
    micro ch p s (goto p S_back (s\<lparr>mach := upd_proc p (\<lambda>q. q\<lparr>p_state := RUNNING\<rparr>) (mach s), plock := Some p\<rparr>))"
| resume: "pcs s p = S_back \<Longrightarrow>
    micro ch p s (goto p S_relock (s\<lparr>mach := upd_proc p (\<lambda>q. q\<lparr>p_chan := NoChan\<rparr>) (mach s), plock := None\<rparr>))"
| relk: "pcs s p = S_relock \<Longrightarrow> spin s = None \<Longrightarrow> micro ch p s (goto p A_test (s\<lparr>spin := Some p\<rparr>))"
| rel: "pcs s p = Holding \<Longrightarrow> micro ch p s (goto p R_acq s)"
| racq: "pcs s p = R_acq \<Longrightarrow> spin s = None \<Longrightarrow> micro ch p s (goto p R_clear (s\<lparr>spin := Some p\<rparr>))"
| clr: "pcs s p = R_clear \<Longrightarrow> micro ch p s (goto p R_ptable (s\<lparr>lck := \<lparr>sl_locked = False, sl_pid = 0\<rparr>\<rparr>))"
| rpt: "pcs s p = R_ptable \<Longrightarrow> plock s = None \<Longrightarrow> micro ch p s (goto p R_wake (s\<lparr>plock := Some p\<rparr>))"
| wake: "pcs s p = R_wake \<Longrightarrow> micro ch p s (goto p R_ptrel (s\<lparr>mach := wakeup1 ch (mach s)\<rparr>))"
| ptrel: "pcs s p = R_ptrel \<Longrightarrow> micro ch p s (goto p R_unlock (s\<lparr>plock := None\<rparr>))"
| fin: "pcs s p = R_unlock \<Longrightarrow> micro ch p s (goto p Out (s\<lparr>spin := None\<rparr>))"

lemma steps_micro: "t \<in> steps ch p s \<longleftrightarrow> micro ch p s t"
  by (cases "pcs s p") (auto simp: step_defs micro.simps)

section \<open>Every run ends\<close>

text \<open>
  A step moves its process on in the order of the ranks; only \<open>wakeup1\<close> moves others back, and each
  process calls it once.
\<close>

fun rank :: "procstate \<Rightarrow> pc \<Rightarrow> nat" where
  "rank st A_acq = 18"
| "rank st S_off = (if st = SLEEPING then 10 else 17)"
| "rank st S_back = 16"
| "rank st S_relock = 15"
| "rank st A_test = 14"
| "rank st S_ptable = 13"
| "rank st S_unlock = 12"
| "rank st S_sleep = 11"
| "rank st A_unlock = 9"
| "rank st Holding = 8"
| "rank st R_acq = 7"
| "rank st R_clear = 6"
| "rank st R_ptable = 5"
| "rank st R_wake = 4"
| "rank st R_ptrel = 3"
| "rank st R_unlock = 2"
| "rank st Out = 1"

definition to_wake :: "slrun \<Rightarrow> nat" where
  "to_wake s = (\<Sum>p < nprocs s. if pcs s p \<in> {R_ptrel, R_unlock, Out} then 0 else 1)"

definition to_go :: "slrun \<Rightarrow> nat" where
  "to_go s = (\<Sum>p < nprocs s. rank (p_state (proc_at (mach s) p)) (pcs s p))"

lemma sum_one_less:
  fixes f g :: "nat \<Rightarrow> nat"
  assumes "p < n" "f p < g p" "\<And>q. q < n \<Longrightarrow> q \<noteq> p \<Longrightarrow> f q = g q"
  shows "(\<Sum>q < n. f q) < (\<Sum>q < n. g q)"
proof -
  have "(\<Sum>q \<in> {..<n} - {p}. f q) = (\<Sum>q \<in> {..<n} - {p}. g q)" by (rule sum.cong) (use assms(3) in auto)
  then show ?thesis using assms(1,2) by (simp add: sum.remove [of "{..<n}" p])
qed

lemma micro_nprocs: "micro ch p s t \<Longrightarrow> nprocs t = nprocs s"
  by (cases rule: micro.cases) (auto simp: nprocs_def)

lemma micro_others: "micro ch p s t \<Longrightarrow> q \<noteq> p \<Longrightarrow> pcs t q = pcs s q"
  by (cases rule: micro.cases) auto

lemma micro_state:
  assumes "micro ch p s t" "q < nprocs s" "p < nprocs s" "pcs s p \<noteq> R_wake" "q \<noteq> p"
  shows "proc_at (mach t) q = proc_at (mach s) q"
  using assms by (cases rule: micro.cases) (auto simp: nprocs_def proc_at_upd)

lemma micro_advances:
  assumes m: "micro ch p s t" and p: "p < nprocs s"
  shows "to_wake t < to_wake s \<or> to_wake t = to_wake s \<and> to_go t < to_go s"
proof (cases "pcs s p = R_wake")
  case True
  have "pcs t p = R_ptrel" using m True by (cases rule: micro.cases) auto
  then have "to_wake t < to_wake s" unfolding to_wake_def micro_nprocs [OF m]
    using p True micro_others [OF m] by (intro sum_one_less [of p]) auto
  then show ?thesis ..
next
  case False
  have "rank (p_state (proc_at (mach t) p)) (pcs t p) < rank (p_state (proc_at (mach s) p)) (pcs s p)"
    using m p False by (cases rule: micro.cases) (auto simp: proc_at_upd nprocs_def)
  then have "to_go t < to_go s" unfolding to_go_def micro_nprocs [OF m]
    using p micro_others [OF m] micro_state [OF m _ p False] by (intro sum_one_less [of p]) auto
  moreover have "pcs t p \<in> {R_ptrel, R_unlock, Out} \<longleftrightarrow> pcs s p \<in> {R_ptrel, R_unlock, Out}"
    using m False by (cases rule: micro.cases) auto
  then have "to_wake t = to_wake s" unfolding to_wake_def micro_nprocs [OF m]
    using micro_others [OF m] by (intro sum.cong) (auto, metis+)
  ultimately show ?thesis by blast
qed

lemma step_wf: "wf {(t, s). step ch s t}"
  by (rule wf_subset [of "measures [to_wake, to_go]"])
     (auto simp: step.simps steps_micro dest: micro_advances)

section \<open>The invariant\<close>

text \<open>
  Who holds the spin lock, \<open>ptable.lock\<close> and the sleep lock; the states of the processes; and that
  a process that sleeps, or has decided to, has a wakeup coming: the sleep lock is taken, or its
  release has not reached \<open>wakeup1\<close>.
\<close>

definition with_spin :: "pc set" where
  "with_spin = {A_test, S_ptable, S_unlock, A_unlock, R_clear, R_ptable, R_wake, R_ptrel, R_unlock}"

definition with_plock :: "pc set" where
  "with_plock = {S_unlock, S_sleep, S_back, R_wake, R_ptrel}"

definition with_lock :: "pc set" where
  "with_lock = {A_unlock, Holding, R_acq, R_clear}"

definition waiting :: "slrun \<Rightarrow> nat \<Rightarrow> bool" where
  "waiting s p \<longleftrightarrow> pcs s p \<in> {S_ptable, S_unlock, S_sleep} \<or> pcs s p = S_off \<and> p_state (proc_at (mach s) p) = SLEEPING"

text \<open>A lock is held by the one process that is in the part \<open>W\<close> of the code, or by none.\<close>

definition held_in :: "pc set \<Rightarrow> slrun \<Rightarrow> nat option \<Rightarrow> bool" where
  "held_in W s h \<longleftrightarrow> (\<forall>p < nprocs s. pcs s p \<in> W \<longleftrightarrow> h = Some p) \<and> (\<forall>p. h = Some p \<longrightarrow> p < nprocs s)"

definition lock_ok :: "slrun \<Rightarrow> bool" where
  "lock_ok s \<longleftrightarrow> (\<exists>h. held_in with_lock s h \<and> (sl_locked (lck s) \<longleftrightarrow> h \<noteq> None))"

definition state_ok :: "chan \<Rightarrow> slrun \<Rightarrow> bool" where
  "state_ok ch s \<longleftrightarrow> (\<forall>p < nprocs s. pcs s p = S_off \<longrightarrow> p_state (proc_at (mach s) p) = RUNNABLE
     \<or> p_state (proc_at (mach s) p) = SLEEPING \<and> p_chan (proc_at (mach s) p) = ch)"

definition wake_ok :: "slrun \<Rightarrow> bool" where
  "wake_ok s \<longleftrightarrow> (\<forall>p < nprocs s. waiting s p \<longrightarrow>
     sl_locked (lck s) \<or> (\<exists>q < nprocs s. pcs s q \<in> {R_ptable, R_wake}))"

definition sl_inv :: "chan \<Rightarrow> slrun \<Rightarrow> bool" where
  "sl_inv ch s \<longleftrightarrow> held_in with_spin s (spin s) \<and> held_in with_plock s (plock s) \<and> lock_ok s \<and> state_ok ch s \<and> wake_ok s"

lemmas pc_sets = with_spin_def with_plock_def with_lock_def

lemma inv_ready: "ready s \<Longrightarrow> sl_inv ch s"
  by (auto simp: ready_def sl_inv_def held_in_def lock_ok_def state_ok_def wake_ok_def pc_sets waiting_def)

text \<open>A step keeps the holder, takes the free lock or gives it back.\<close>

definition lock_move :: "pc set \<Rightarrow> nat \<Rightarrow> slrun \<Rightarrow> slrun \<Rightarrow> nat option \<Rightarrow> nat option \<Rightarrow> bool" where
  "lock_move W p s t h h' \<longleftrightarrow>
     h' = h \<and> (pcs t p \<in> W \<longleftrightarrow> pcs s p \<in> W)
   \<or> h = None \<and> h' = Some p \<and> pcs t p \<in> W
   \<or> h' = None \<and> pcs s p \<in> W \<and> pcs t p \<notin> W"

lemma held_in_move:
  assumes h: "held_in W s h" and m: "lock_move W p s t h h'" and p: "p < nprocs s" "nprocs t = nprocs s"
    and o: "\<And>q. q \<noteq> p \<Longrightarrow> pcs t q = pcs s q"
  shows "held_in W t h'"
proof -
  have H: "\<And>q. q < nprocs s \<Longrightarrow> (pcs s q \<in> W) = (h = Some q)" "\<And>q. h = Some q \<Longrightarrow> q < nprocs s"
    using h by (auto simp: held_in_def)
  have "(pcs t q \<in> W) = (h' = Some q)" if "q < nprocs s" for q
  proof (cases "q = p")
    case True
    then show ?thesis using m H(1) [OF p(1)] by (auto simp: lock_move_def)
  next
    case False
    then show ?thesis using m H(1) [OF p(1)] H(1) [OF that] o [OF False] by (auto simp: lock_move_def)
  qed
  moreover have "q < nprocs s" if "h' = Some q" for q
    using that m H(2) p(1) by (auto simp: lock_move_def)
  ultimately show ?thesis by (auto simp: held_in_def p(2))
qed

lemma spin_move: "micro ch p s t \<Longrightarrow> lock_move with_spin p s t (spin s) (spin t)"
  unfolding lock_move_def with_spin_def by (erule micro.cases) simp_all

lemma plock_move: "micro ch p s t \<Longrightarrow> lock_move with_plock p s t (plock s) (plock t)"
  unfolding lock_move_def with_plock_def by (erule micro.cases) simp_all

lemma lock_move_locked:
  assumes m: "micro ch p s t" and h: "sl_locked (lck s) \<longleftrightarrow> h \<noteq> None"
  obtains h' where "lock_move with_lock p s t h h'" "sl_locked (lck t) \<longleftrightarrow> h' \<noteq> None"
  using m h that [of h] that [of "Some p"] that [of None]
  by (cases rule: micro.cases) (auto simp: lock_move_def with_lock_def)

lemma lock_ok_micro:
  assumes m: "micro ch p s t" and p: "p < nprocs s" and l: "lock_ok s"
  shows "lock_ok t"
proof -
  obtain h where h: "held_in with_lock s h" "sl_locked (lck s) \<longleftrightarrow> h \<noteq> None" using l unfolding lock_ok_def by blast
  obtain h' where h': "lock_move with_lock p s t h h'" "sl_locked (lck t) \<longleftrightarrow> h' \<noteq> None"
    by (rule lock_move_locked [OF m h(2)])
  show ?thesis unfolding lock_ok_def
    using held_in_move [OF h(1) h'(1) p micro_nprocs [OF m] micro_others [OF m]] h'(2) by blast
qed

lemma state_ok_micro:
  assumes m: "micro ch p s t" and p: "p < nprocs s" and i: "state_ok ch s"
  shows "state_ok ch t"
  unfolding state_ok_def micro_nprocs [OF m]
proof (intro allI impI)
  fix q assume q: "q < nprocs s" and off: "pcs t q = S_off"
  have ok: "pcs s q = S_off \<longrightarrow> p_state (proc_at (mach s) q) = RUNNABLE
     \<or> p_state (proc_at (mach s) q) = SLEEPING \<and> p_chan (proc_at (mach s) q) = ch"
    using i q unfolding state_ok_def by blast
  show "p_state (proc_at (mach t) q) = RUNNABLE
     \<or> p_state (proc_at (mach t) q) = SLEEPING \<and> p_chan (proc_at (mach t) q) = ch"
  proof (cases "q = p \<or> pcs s p = R_wake")
    case True
    show ?thesis using m True p q off ok
      by (cases rule: micro.cases) (auto simp: nprocs_def proc_at_upd wakeup1_at split: if_splits)
  next
    case False
    then show ?thesis using micro_state [OF m q p] micro_others [OF m] ok off by simp
  qed
qed

lemma held_in_here: "held_in W s h \<Longrightarrow> p < nprocs s \<Longrightarrow> pcs s p \<in> W \<Longrightarrow> h = Some p"
  by (simp add: held_in_def)

lemma held_in_other: "held_in W s (Some p) \<Longrightarrow> q < nprocs s \<Longrightarrow> q \<noteq> p \<Longrightarrow> pcs s q \<notin> W"
  by (simp add: held_in_def)

text \<open>While a process is about to call \<open>wakeup1\<close>, it has both spin locks; afterwards nobody waits.\<close>

lemma wake_none_waiting:
  assumes t: "t = goto p R_ptrel (s\<lparr>mach := wakeup1 ch (mach s)\<rparr>)" and q: "q < nprocs s"
    and h: "held_in with_spin s (Some p)" "held_in with_plock s (Some p)" "state_ok ch s"
  shows "\<not> waiting t q"
proof (cases "q = p")
  case True
  then show ?thesis by (simp add: waiting_def t)
next
  case False
  have pc: "pcs t q = pcs s q" and m: "mach t = wakeup1 ch (mach s)" using False by (simp_all add: t)
  have a: "pcs s q \<noteq> S_ptable" "pcs s q \<noteq> S_unlock" "pcs s q \<noteq> S_sleep"
    using held_in_other [OF h(1) q False] held_in_other [OF h(2) q False] by (auto simp: pc_sets)
  have b: "p_state (proc_at (wakeup1 ch (mach s)) q) \<noteq> SLEEPING" if "pcs s q = S_off"
  proof -
    have "p_state (proc_at (mach s) q) = RUNNABLE \<or> p_state (proc_at (mach s) q) = SLEEPING \<and> p_chan (proc_at (mach s) q) = ch"
      using h(3) q that unfolding state_ok_def by blast
    then show ?thesis using wakeup1_at [of q "mach s" ch] q by (auto simp: nprocs_def)
  qed
  show ?thesis unfolding waiting_def pc m using a b by simp
qed

lemma wake_ok_micro:
  assumes m: "micro ch p s t" and p: "p < nprocs s"
    and i: "held_in with_spin s (spin s)" "held_in with_plock s (plock s)" "state_ok ch s" "wake_ok s"
  shows "wake_ok t"
proof (cases "pcs s p = R_wake")
  case True
  have t: "t = goto p R_ptrel (s\<lparr>mach := wakeup1 ch (mach s)\<rparr>)" using m True by (cases rule: micro.cases) simp_all
  have hs: "spin s = Some p" "plock s = Some p"
    using held_in_here [OF i(1) p] held_in_here [OF i(2) p] True by (simp_all add: pc_sets)
  have "\<not> waiting t q" if q: "q < nprocs s" for q
    by (rule wake_none_waiting [OF t q i(1) [unfolded hs] i(2) [unfolded hs] i(3)])
  then show ?thesis unfolding wake_ok_def micro_nprocs [OF m] by blast
next
  case False
  show ?thesis unfolding wake_ok_def micro_nprocs [OF m]
  proof (intro allI impI)
    fix q assume q: "q < nprocs s" and w: "waiting t q"
    show "sl_locked (lck t) \<or> (\<exists>q < nprocs s. pcs t q \<in> {R_ptable, R_wake})"
    proof (cases "sl_locked (lck t) \<or> pcs t p \<in> {R_ptable, R_wake}")
      case True
      then show ?thesis using p by blast
    next
      case no: False
      have keep: "sl_locked (lck t) \<longleftrightarrow> sl_locked (lck s)" "pcs s p \<notin> {R_ptable, R_wake}"
        using m False no by (cases rule: micro.cases; simp)+
      have "waiting s q \<or> sl_locked (lck s)"
      proof (cases "q = p")
        case True
        show ?thesis using m True w p by (cases rule: micro.cases) (auto simp: waiting_def)
      next
        case qp: False
        then show ?thesis using w micro_state [OF m q p False qp] micro_others [OF m qp] by (simp add: waiting_def)
      qed
      then have "\<exists>r < nprocs s. pcs s r \<in> {R_ptable, R_wake}" using i(4) q keep no by (auto simp: wake_ok_def)
      then show ?thesis using micro_others [OF m] keep(2) by metis
    qed
  qed
qed

lemma sl_inv_step:
  assumes "step ch s t" "sl_inv ch s"
  shows "sl_inv ch t"
proof -
  obtain p where p: "p < nprocs s" "micro ch p s t" using assms(1) by (auto simp: step.simps steps_micro)
  note n = micro_nprocs [OF p(2)] and o = micro_others [OF p(2)]
  have i: "held_in with_spin s (spin s)" "held_in with_plock s (plock s)" "lock_ok s" "state_ok ch s" "wake_ok s"
    using assms(2) unfolding sl_inv_def by blast+
  show ?thesis unfolding sl_inv_def
    using held_in_move [OF i(1) spin_move [OF p(2)] p(1) n o] held_in_move [OF i(2) plock_move [OF p(2)] p(1) n o]
      lock_ok_micro [OF p(2,1) i(3)] state_ok_micro [OF p(2,1) i(4)] wake_ok_micro [OF p(2,1) i(1,2,4,5)] by blast
qed

lemma sl_inv_run:
  assumes "(step ch)\<^sup>*\<^sup>* s t" "ready s"
  shows "sl_inv ch t \<and> nprocs t = nprocs s"
  using assms(1)
proof (induction rule: rtranclp_induct)
  case base
  then show ?case using inv_ready [OF assms(2)] by simp
next
  case (step t u)
  then show ?case using sl_inv_step [OF step.hyps(2)] by (auto simp: step.simps steps_micro dest: micro_nprocs)
qed

text \<open>Every run can be continued to its end.\<close>

lemma run_to_end: "\<exists>t. (step ch)\<^sup>*\<^sup>* s t \<and> (\<forall>u. \<not> step ch t u)"
proof -
  let ?Q = "{t. (step ch)\<^sup>*\<^sup>* s t}"
  have "s \<in> ?Q" by simp
  then obtain t where t: "t \<in> ?Q" "\<And>u. (u, t) \<in> {(t, s). step ch s t} \<Longrightarrow> u \<notin> ?Q"
    by (rule wfE_min [OF step_wf [of ch]]) blast
  have "\<not> step ch t u" for u
  proof
    assume "step ch t u"
    then have "u \<notin> ?Q" "u \<in> ?Q" using t by (auto intro: rtranclp.rtrancl_into_rtrancl)
    then show False by blast
  qed
  then show ?thesis using t(1) by blast
qed

section \<open>No process is left behind\<close>

text \<open>The process that holds a spin lock, or is on a CPU with both free, has a step.\<close>

lemma moves:
  "plock s = None \<Longrightarrow> spin s = None \<Longrightarrow> pcs s p \<noteq> Out \<Longrightarrow> pcs s p \<noteq> S_off \<Longrightarrow> \<exists>t. micro ch p s t"
  "pcs s p \<in> with_plock \<Longrightarrow> \<exists>t. micro ch p s t"
  "plock s = None \<Longrightarrow> pcs s p \<in> with_spin \<Longrightarrow> \<exists>t. micro ch p s t"
  by (cases "pcs s p"; cases "sl_locked (lck s)"; auto simp: pc_sets intro: micro.intros)+

lemma stuck_out:
  assumes i: "sl_inv ch s" and stuck: "\<And>p t. p < nprocs s \<Longrightarrow> \<not> micro ch p s t" and p: "p < nprocs s"
  shows "pcs s p = Out"
proof -
  have I: "held_in with_spin s (spin s)" "held_in with_plock s (plock s)" "lock_ok s" "state_ok ch s" "wake_ok s"
    using i unfolding sl_inv_def by blast+
  have "pcs s q \<notin> with_plock" if "q < nprocs s" for q using stuck [OF that] moves(2) by blast
  then have pl: "plock s = None" using I(2) unfolding held_in_def by (cases "plock s") auto
  have "pcs s q \<notin> with_spin" if "q < nprocs s" for q using stuck [OF that] moves(3) [OF pl] by blast
  then have sp: "spin s = None" using I(1) unfolding held_in_def by (cases "spin s") auto
  have rest: "pcs s q = Out \<or> pcs s q = S_off" if "q < nprocs s" for q
    using stuck [OF that] moves(1) [OF pl sp] by blast
  have "\<not> sl_locked (lck s)"
  proof
    assume "sl_locked (lck s)"
    then obtain q where "q < nprocs s" "pcs s q \<in> with_lock" using I(3) unfolding lock_ok_def held_in_def by auto
    then show False using rest [of q] by (auto simp: with_lock_def)
  qed
  then have "\<not> waiting s p" using I(5) p rest unfolding wake_ok_def by fastforce
  moreover have "\<not> (pcs s p = S_off \<and> p_state (proc_at (mach s) p) = RUNNABLE)" using stuck [OF p] pl micro.run by blast
  ultimately show ?thesis using I(4) p rest [OF p] unfolding waiting_def state_ok_def by blast
qed

text \<open>
  C31: processes that take a sleep lock and give it back, any number of them in any interleaving, never
  run for ever: every sequence of steps of \<open>acquiresleep\<close>, \<open>releasesleep\<close>, \<open>sleep\<close>, \<open>wakeup\<close> and the
  scheduler is finite, although every \<open>wakeup\<close> sends all waiting processes round the loop again.
\<close>

theorem sleeplock_runs_end: "wf {(t, s). step ch s t}"
  by (rule step_wf)

text \<open>
  C28: no wakeup is lost. When processes that start by taking a free sleep lock have made any steps and
  no step is possible any more, every one of them has had the lock and given it back: none is left
  asleep or spinning.
\<close>

theorem sleeplock_live:
  assumes "ready s" "(step ch)\<^sup>*\<^sup>* s t" "\<forall>u. \<not> step ch t u" "p < nprocs s"
  shows "pcs t p = Out"
proof -
  have i: "sl_inv ch t" "nprocs t = nprocs s" using sl_inv_run [OF assms(2,1)] by blast+
  have "\<not> micro ch q t u" if "q < nprocs t" for q u using assms(3) that by (auto simp: step.simps steps_micro)
  then show ?thesis using stuck_out [OF i(1)] assms(4) i(2) by simp
qed

text \<open>
  A sleep lock excludes: in no reachable state are two processes between the end of
  \<open>acquiresleep\<close> and the start of \<open>releasesleep\<close>.
\<close>

theorem sleeplock_excludes:
  assumes "ready s" "(step ch)\<^sup>*\<^sup>* s t" "p < nprocs s" "q < nprocs s" "pcs t p = Holding" "pcs t q = Holding"
  shows "p = q"
proof -
  have i: "sl_inv ch t" "nprocs t = nprocs s" using sl_inv_run [OF assms(2,1)] by blast+
  then obtain h where h: "held_in with_lock t h" unfolding sl_inv_def lock_ok_def by blast
  have "h = Some p" "h = Some q"
    using held_in_here [OF h, of p] held_in_here [OF h, of q] assms(3-6) i(2) by (simp_all add: with_lock_def)
  then show ?thesis by simp
qed

text \<open>Two running processes and a free lock; and the steps by which the first takes the lock.\<close>

definition two_procs :: slrun where
  "two_procs =
     \<lparr>mach = \<lparr>mem = (\<lambda>_. 0), sym_end = 0, sym_data = 0, held = [],
              ptable = replicate 2 (blank_proc\<lparr>p_state := RUNNING\<rparr>), initproc = None, nextpid = 1, cpu = 0,
              cpu_proc = (\<lambda>_. None), ticks = 0, cons_locking = False, console = []\<rparr>,
      lck = \<lparr>sl_locked = False, sl_pid = 0\<rparr>, spin = None, plock = None, pcs = (\<lambda>_. A_acq)\<rparr>"

lemma two_procs_ready: "ready two_procs" "nprocs two_procs = 2"
  by (simp_all add: ready_def two_procs_def nprocs_def proc_at_def nth_replicate)

lemma first_takes: "\<exists>t. (step ch)\<^sup>*\<^sup>* two_procs t \<and> pcs t 0 = Holding"
proof -
  define s1 where "s1 = goto 0 A_test (two_procs\<lparr>spin := Some 0\<rparr>)"
  define s2 where "s2 = goto 0 A_unlock (s1\<lparr>lck := \<lparr>sl_locked = True, sl_pid = p_pid (proc_at (mach s1) 0)\<rparr>\<rparr>)"
  define s3 where "s3 = goto 0 Holding (s2\<lparr>spin := None\<rparr>)"
  have n: "nprocs s1 = 2" "nprocs s2 = 2" using two_procs_ready(2) by (simp_all add: s1_def s2_def nprocs_def)
  have "micro ch 0 two_procs s1" unfolding s1_def by (rule micro.acq) (simp_all add: two_procs_def)
  then have 1: "step ch two_procs s1" using two_procs_ready(2) by (intro step.intros [of 0]) (simp_all add: steps_micro)
  have "micro ch 0 s1 s2" unfolding s2_def by (rule micro.take) (simp_all add: s1_def two_procs_def)
  then have 2: "step ch s1 s2" using n by (intro step.intros [of 0]) (simp_all add: steps_micro)
  have "micro ch 0 s2 s3" unfolding s3_def by (rule micro.held) (simp add: s2_def)
  then have 3: "step ch s2 s3" using n by (intro step.intros [of 0]) (simp_all add: steps_micro)
  have "(step ch)\<^sup>*\<^sup>* two_procs s3"
    using 1 2 3 by (meson rtranclp.rtrancl_refl rtranclp.rtrancl_into_rtrancl)
  then show ?thesis by (intro exI [of _ s3]) (simp add: s3_def)
qed

theorem sleeplock_live_witness:
  "\<exists>t. (step (ChBufLock 0))\<^sup>*\<^sup>* two_procs t \<and> pcs t 0 = Out \<and> pcs t 1 = Out"
proof -
  obtain t where t: "(step (ChBufLock 0))\<^sup>*\<^sup>* two_procs t" "\<forall>u. \<not> step (ChBufLock 0) t u"
    using run_to_end by blast
  show ?thesis
    using sleeplock_live [OF two_procs_ready(1) t, of 0] sleeplock_live [OF two_procs_ready(1) t, of 1] t(1)
    by (intro exI [of _ t]) (simp add: two_procs_ready(2))
qed

theorem sleeplock_excludes_witness:
  "\<exists>t. (step (ChBufLock 0))\<^sup>*\<^sup>* two_procs t \<and> pcs t 0 = Holding \<and> pcs t 1 \<noteq> Holding"
proof -
  obtain t where t: "(step (ChBufLock 0))\<^sup>*\<^sup>* two_procs t" "pcs t 0 = Holding" using first_takes by blast
  have "pcs t 1 \<noteq> Holding"
    using sleeplock_excludes [OF two_procs_ready(1) t(1), of 0 1] t(2) two_procs_ready(2) by auto
  then show ?thesis using t by blast
qed

end
