(* ===== verification/Usys.thy ===== *)
theory Usys
  imports Ulib
begin

text \<open>
  User programs as the system calls they make: user.h, and the functions of ulib.c and printf.c that
  make several calls. A program is a possibly infinite tree: each node is a system call with what the
  program does for each result. The relation \<open>runs\<close> gives the program left after a sequence of input
  and what it has written until then.
\<close>

section \<open>System calls\<close>

text \<open>
  \<open>exec\<close> and \<open>exit\<close> do not return, the first unless it fails. A successful \<open>read\<close> returns bytes, none at
  the end of the file; \<open>fstat\<close> gives the type, the number and the size of the inode. \<open>Print\<close> is a
  whole call of \<open>printf\<close>, whose writes are not checked; \<open>Undefined\<close> is a call of it that reads an
  argument that is not there.
\<close>

codatatype prog =
    Exit
  | Undefined
  | Sys_exec string "string list" prog
  | Sys_open string int "int \<Rightarrow> prog"
  | Sys_close int prog
  | Sys_dup int prog
  | Sys_pipe "(int \<times> int) option \<Rightarrow> prog"
  | Sys_fork "int \<Rightarrow> prog"
  | Sys_wait "int \<Rightarrow> prog"
  | Sys_chdir string "int \<Rightarrow> prog"
  | Sys_read int nat "string option \<Rightarrow> prog"
  | Sys_write int string "int \<Rightarrow> prog"
  | Sys_fstat int "(u16 \<times> u32 \<times> u32) option \<Rightarrow> prog"
  | Sys_mknod string int int prog
  | Sys_mkdir string "int \<Rightarrow> prog"
  | Sys_link string string "int \<Rightarrow> prog"
  | Sys_unlink string "int \<Rightarrow> prog"
  | Sys_kill u32 prog
  | Sys_sleep int prog
  | Print int string prog

definition printf :: "int \<Rightarrow> string \<Rightarrow> carg list \<Rightarrow> prog \<Rightarrow> prog" where
  "printf fd fmt args k =
     (case uformat False fmt args of None \<Rightarrow> Undefined | Some t \<Rightarrow> Print fd t k)"

definition ustat :: "string \<Rightarrow> ((u16 \<times> u32 \<times> u32) option \<Rightarrow> prog) \<Rightarrow> prog" where
  "ustat n k =
     Sys_open n 0 (\<lambda>fd. if fd < 0 then k None else Sys_fstat fd (\<lambda>st. Sys_close fd (k st)))"

section \<open>Runs\<close>

text \<open>
  \<open>runs p rs out q\<close>: with the results \<open>rs\<close> of its calls of \<open>read\<close>, and all other calls successful, \<open>p\<close>
  writes the texts \<open>out\<close>, each with the descriptor it goes to, and continues as \<open>q\<close>.
\<close>

inductive runs :: "prog \<Rightarrow> string option list \<Rightarrow> (int \<times> string) list \<Rightarrow> prog \<Rightarrow> bool" where
  runs_refl: "runs p [] [] p"
| runs_read: "runs (k r) rs out q \<Longrightarrow> runs (Sys_read fd n k) (r # rs) out q"
| runs_write: "runs (k (int (length b))) rs out q \<Longrightarrow> runs (Sys_write fd b k) rs ((fd, b) # out) q"
| runs_print: "runs p rs out q \<Longrightarrow> runs (Print fd t p) rs ((fd, t) # out) q"
| runs_close: "runs p rs out q \<Longrightarrow> runs (Sys_close fd p) rs out q"
| runs_open: "0 \<le> fd \<Longrightarrow> runs (k fd) rs out q \<Longrightarrow> runs (Sys_open f mode k) rs out q"

lemmas runs_intros = runs_refl runs_read runs_write runs_print runs_close

lemma runs_trans: "runs p rs out q \<Longrightarrow> runs q rs' out' q' \<Longrightarrow> runs p (rs @ rs') (out @ out') q'"
  by (induction rule: runs.induct) (auto intro: runs.intros)

inductive_cases runs_printE: "runs (Print fd t p) rs out q"
inductive_cases runs_readE: "runs (Sys_read fd n k) rs out q"

text \<open>The output that goes to descriptor 1, as one text.\<close>

definition stdout :: "(int \<times> string) list \<Rightarrow> string" where
  "stdout out = concat (map snd (filter (\<lambda>w. fst w = 1) out))"

lemma stdout_simps [simp]:
  "stdout [] = []" "stdout ((fd, t) # out) = (if fd = 1 then t @ stdout out else stdout out)"
  "stdout (xs @ ys) = stdout xs @ stdout ys"
  by (simp_all add: stdout_def)

end
