(* ===== verification/Sh.thy ===== *)
theory Sh
  imports Usys
begin

text \<open>
  sh.c: the shell. A pointer into the command line is the part of the line from there on, so that
  \<open>es\<close> is the empty string and \<open>s < es\<close> says that the string is not empty. A command is the tree
  that the constructors build; a token is the pair of the pointers \<open>q\<close> and \<open>eq\<close>. What \<open>runcmd\<close> does is
  the tree of the system calls it makes, with a branch for every result it distinguishes.
\<close>

section \<open>Tokens\<close>

type_synonym ptr = string

definition whitespace :: string where
  "whitespace = [CHR '' '', CHR 0x09, CHR 0x0D, CHR 0x0A, CHR 0x0B]"

definition symbols :: string where
  "symbols = ''<|>&;()''"

definition skip_white :: "ptr \<Rightarrow> ptr" where
  "skip_white s = dropWhile (\<lambda>c. strchr whitespace c \<noteq> None) s"

text \<open>\<open>gettoken\<close> returns the kind of the token, its start, its end, and where parsing goes on.\<close>

definition gettoken :: "ptr \<Rightarrow> char \<times> ptr \<times> ptr \<times> ptr" where
  "gettoken ps =
     (let q = skip_white ps in
      case q of
        [] \<Rightarrow> (CHR 0x00, q, q, q)
      | c # s \<Rightarrow>
          if c \<in> {CHR ''|'', CHR ''('', CHR '')'', CHR '';'', CHR ''&'', CHR ''<''} then (c, q, s, skip_white s)
          else if c = CHR ''>'' then
            (if s \<noteq> [] \<and> hd s = CHR ''>'' then (CHR ''+'', q, tl s, skip_white (tl s))
             else (c, q, s, skip_white s))
          else
            let s = dropWhile (\<lambda>c. strchr whitespace c = None \<and> strchr symbols c = None) q in
            (CHR ''a'', q, s, skip_white s))"

definition peek :: "ptr \<Rightarrow> string \<Rightarrow> bool \<times> ptr" where
  "peek ps toks = (let s = skip_white ps in (s \<noteq> [] \<and> strchr toks (hd s) \<noteq> None, s))"

section \<open>Commands\<close>

text \<open>The tree of commands, over tokens of type \<open>'a\<close>; the parser's tokens are pairs of pointers.\<close>

datatype 'a cmd =
    EXEC "'a list"
  | REDIR "'a cmd" 'a int int
  | PIPE "'a cmd" "'a cmd"
  | LIST "'a cmd" "'a cmd"
  | BACK "'a cmd"

type_synonym token = "ptr \<times> ptr"

text \<open>Storing an argument in the \<open>execcmd\<close> under the redirections.\<close>

fun add_arg :: "'a \<Rightarrow> 'a cmd \<Rightarrow> 'a cmd" where
  "add_arg a (EXEC args) = EXEC (args @ [a])"
| "add_arg a (REDIR c f mode fd) = REDIR (add_arg a c) f mode fd"
| "add_arg a c = c"

text \<open>A result with the new value of \<open>*ps\<close>, a call of \<open>panic\<close>, or not enough fuel for the nesting.\<close>

datatype 'a parsed = Parsed 'a ptr | Sh_panic string | No_fuel

fun bindP :: "'a parsed \<Rightarrow> ('a \<Rightarrow> ptr \<Rightarrow> 'b parsed) \<Rightarrow> 'b parsed" where
  "bindP (Parsed a s) f = f a s"
| "bindP (Sh_panic m) f = Sh_panic m"
| "bindP No_fuel f = No_fuel"

abbreviation (input) O_RDONLY :: int where "O_RDONLY \<equiv> 0"
abbreviation (input) O_WRONLY_CREATE :: int where "O_WRONLY_CREATE \<equiv> 0x201"
abbreviation (input) MAXARGS :: nat where "MAXARGS \<equiv> 10"

section \<open>Progress of the scanner\<close>

lemma skip_white_length: "length (skip_white s) \<le> length s"
  by (simp add: skip_white_def length_dropWhile_le)

lemma skip_white_idem [simp]: "skip_white (skip_white s) = skip_white s"
  by (simp add: skip_white_def)

lemma strchr_sets:
  "strchr whitespace c = None \<longleftrightarrow> c \<notin> set whitespace" "strchr symbols c = None \<longleftrightarrow> c \<notin> set symbols"
  by (rule strchr_None, simp add: whitespace_def symbols_def)+

lemma set_symbols: "set symbols = insert (CHR ''>'') {CHR ''|'', CHR ''('', CHR '')'', CHR '';'', CHR ''&'', CHR ''<''}"
  unfolding symbols_def by auto

lemma skip_white_hd: "skip_white s = c # r \<Longrightarrow> strchr whitespace c = None"
  unfolding skip_white_def by (metis (mono_tags) hd_dropWhile list.distinct(1) list.sel(1))

definition word_char :: "char \<Rightarrow> bool" where
  "word_char c \<longleftrightarrow> strchr whitespace c = None \<and> strchr symbols c = None"

text \<open>The kinds of token.\<close>

lemma gettoken_end: "skip_white ps = [] \<Longrightarrow> gettoken ps = (CHR 0x00, [], [], [])"
  by (simp add: gettoken_def)

lemma gettoken_symbol:
  assumes "skip_white ps = c # r" "c \<in> set symbols" "c = CHR ''>'' \<longrightarrow> r = [] \<or> hd r \<noteq> CHR ''>''"
  shows "gettoken ps = (c, c # r, r, skip_white r)"
proof (cases "c = CHR ''>''")
  case True
  then have "\<not> (r \<noteq> [] \<and> hd r = CHR ''>'')" using assms(3) by blast
  then show ?thesis unfolding gettoken_def assms(1) Let_def True by simp
next
  case False
  then have "c \<in> {CHR ''|'', CHR ''('', CHR '')'', CHR '';'', CHR ''&'', CHR ''<''}" using assms(2) set_symbols by blast
  then show ?thesis unfolding gettoken_def assms(1) Let_def list.case by (simp only: if_True)
qed

lemma gettoken_append:
  "skip_white ps = CHR ''>'' # CHR ''>'' # r \<Longrightarrow> gettoken ps = (CHR ''+'', CHR ''>'' # CHR ''>'' # r, r, skip_white r)"
  by (simp add: gettoken_def Let_def)

lemma gettoken_word:
  assumes "skip_white ps = c # r" "word_char c"
  shows "gettoken ps = (CHR ''a'', c # r, dropWhile word_char r, skip_white (dropWhile word_char r))"
proof -
  have n: "c \<notin> {CHR ''|'', CHR ''('', CHR '')'', CHR '';'', CHR ''&'', CHR ''<''}" "c \<noteq> CHR ''>''"
    using assms(2) set_symbols by (auto simp: word_char_def strchr_sets)
  have "dropWhile word_char (c # r) = dropWhile word_char r" using assms(2) by simp
  then show ?thesis
    unfolding gettoken_def assms(1) Let_def list.case word_char_def [abs_def]
    by (simp only: n if_False simp_thms)
qed

lemma gettoken_cases:
  assumes g: "gettoken ps = (t, q, eq, s)"
  obtains "t = CHR 0x00" "skip_white ps = []" "q = []" "eq = []" "s = []"
  | c r where "skip_white ps = c # r" "c \<in> set symbols" "t = c" "q = c # r" "eq = r" "s = skip_white r"
  | r where "skip_white ps = CHR ''>'' # CHR ''>'' # r" "t = CHR ''+''" "eq = r" "s = skip_white r"
  | c r where "skip_white ps = c # r" "word_char c" "t = CHR ''a''" "q = c # r"
      "eq = dropWhile word_char r" "s = skip_white eq"
proof (cases "skip_white ps")
  case Nil
  show thesis by (rule that(1)) (use g gettoken_end [OF Nil] Nil in simp_all)
next
  case (Cons c r)
  show thesis
  proof (cases "word_char c")
    case True
    show thesis by (rule that(4) [OF Cons True]) (use g gettoken_word [OF Cons True] in auto)
  next
    case False
    then have sym: "c \<in> set symbols" using skip_white_hd [OF Cons] by (simp add: word_char_def strchr_sets)
    show thesis
    proof (cases "c = CHR ''>'' \<longrightarrow> r = [] \<or> hd r \<noteq> CHR ''>''")
      case one: True
      show thesis by (rule that(2) [OF Cons sym]) (use g gettoken_symbol [OF Cons sym one] in auto)
    next
      case two: False
      then obtain r' where "r = CHR ''>'' # r'" by (cases r) simp_all
      then have w: "skip_white ps = CHR ''>'' # CHR ''>'' # r'" using Cons two by simp
      show thesis by (rule that(3) [OF w]) (use g gettoken_append [OF w] in auto)
    qed
  qed
qed

text \<open>Every token but the end of the line takes at least one character.\<close>

lemma gettoken_progress:
  assumes "gettoken ps = (t, q, eq, s)"
  shows "t = CHR 0x00 \<and> s = [] \<or> length s < length ps"
proof -
  have le: "length (skip_white ps) \<le> length ps" "length (skip_white r) \<le> length r"
    "length (dropWhile word_char r) \<le> length r" for r
    by (simp_all add: skip_white_length length_dropWhile_le)
  show ?thesis
  proof (rule gettoken_cases [OF assms])
    fix c r assume "skip_white ps = c # r" "s = skip_white r"
    then show ?thesis using le(1) le(2) [of r] by simp
  next
    fix r assume "skip_white ps = CHR ''>'' # CHR ''>'' # r" "s = skip_white r"
    then show ?thesis using le(1) le(2) [of r] by simp
  next
    fix c r assume "skip_white ps = c # r" "eq = dropWhile word_char r" "s = skip_white eq"
    then show ?thesis using le(1) le(2) [of eq] le(3) [of r] by simp
  qed simp
qed

lemma peek_length: "(p, s) = peek ps toks \<Longrightarrow> length s \<le> length ps"
  by (simp add: peek_def Let_def skip_white_length)

lemma gettoken_length: "(t, q, eq, s) = gettoken ps \<Longrightarrow> length s \<le> length ps"
  using gettoken_progress [of ps t q eq s] by auto

lemma gettoken_shrinks: "(t, q, eq, s) = gettoken ps \<Longrightarrow> t \<noteq> CHR 0x00 \<Longrightarrow> length s < length ps"
  using gettoken_progress [of ps t q eq s] by auto

lemma gettoken_nonempty: "gettoken ps = (t, q, eq, s) \<Longrightarrow> ps \<noteq> [] \<Longrightarrow> length s < length ps"
  using gettoken_progress [of ps t q eq s] by auto

lemma peeked_shrinks:
  assumes "(True, s) = peek ps ts" "(t, q, eq, s') = gettoken s"
  shows "length s' < length ps"
proof -
  have "s \<noteq> []" using assms(1) by (simp add: peek_def Let_def)
  then show ?thesis
    using peek_length [OF assms(1)] gettoken_nonempty [of s t q eq s'] assms(2) by simp
qed

lemma redir_shrinks:
  assumes "(p, s) = peek ps ts" "(a, b, c, s1) = gettoken s" "(CHR ''a'', q, eq, s2) = gettoken s1"
  shows "length s2 < length ps"
  using peek_length [OF assms(1)] gettoken_length [OF assms(2)] gettoken_shrinks [OF assms(3)] by simp

section \<open>The parser\<close>

text \<open>The switch of \<open>parseredirs\<close>.\<close>

definition redir_of :: "char \<Rightarrow> token cmd \<Rightarrow> token \<Rightarrow> token cmd" where
  "redir_of tok c f =
     (if tok = CHR ''<'' then REDIR c f O_RDONLY 0
      else if tok = CHR ''>'' then REDIR c f O_WRONLY_CREATE 1
      else if tok = CHR ''+'' then REDIR c f O_WRONLY_CREATE 1
      else c)"

function parseredirs :: "token cmd \<Rightarrow> ptr \<Rightarrow> token cmd parsed" where
  "parseredirs c ps =
     (let (p, s) = peek ps ''<>'' in
      if \<not> p then Parsed c s
      else let (tok, _, _, s) = gettoken s; (t, q, eq, s') = gettoken s in
           if t \<noteq> CHR ''a'' then Sh_panic ''missing file for redirection''
           else parseredirs (redir_of tok c (q, eq)) s')"
  by pat_completeness auto
termination
  by (relation "measure (\<lambda>(c, ps). length ps)") (auto dest: redir_shrinks)

declare parseredirs.simps [simp del]

lemma parseredirs_eq:
  assumes "peek ps ''<>'' = (p, s1)" "gettoken s1 = (tok, a, b, s2)" "gettoken s2 = (t, q, eq, s3)"
  shows "parseredirs c ps =
    (if \<not> p then Parsed c s1 else if t \<noteq> CHR ''a'' then Sh_panic ''missing file for redirection''
     else parseredirs (redir_of tok c (q, eq)) s3)"
  by (subst parseredirs.simps) (simp add: assms)

text \<open>Induction over the redirections.\<close>

lemma parseredirs_induct [consumes 1, case_names stop redir]:
  assumes "parseredirs c ps = Parsed d s"
    and stop: "\<And>c ps s. peek ps ''<>'' = (False, s) \<Longrightarrow> Q c ps c s"
    and redir: "\<And>c ps s1 tok a b s2 q eq s3 d s. peek ps ''<>'' = (True, s1) \<Longrightarrow> gettoken s1 = (tok, a, b, s2) \<Longrightarrow>
      gettoken s2 = (CHR ''a'', q, eq, s3) \<Longrightarrow> length s3 < length ps \<Longrightarrow>
      parseredirs (redir_of tok c (q, eq)) s3 = Parsed d s \<Longrightarrow> Q (redir_of tok c (q, eq)) s3 d s \<Longrightarrow> Q c ps d s"
  shows "Q c ps d s"
  using assms(1)
proof (induction "length ps" arbitrary: c ps rule: less_induct)
  case less
  obtain p s1 where p: "peek ps ''<>'' = (p, s1)" by (cases "peek ps ''<>''")
  obtain tok a b s2 where g: "gettoken s1 = (tok, a, b, s2)" by (cases "gettoken s1")
  obtain t q eq s3 where h: "gettoken s2 = (t, q, eq, s3)" by (cases "gettoken s2")
  note e = less.prems [unfolded parseredirs_eq [OF p g h]]
  show ?case
  proof (cases p)
    case True
    then have t: "t = CHR ''a''" and r: "parseredirs (redir_of tok c (q, eq)) s3 = Parsed d s"
      using e by (simp_all split: if_splits)
    have l: "length s3 < length ps" using redir_shrinks p g h t by metis
    have p': "peek ps ''<>'' = (True, s1)" using p True by simp
    show ?thesis by (rule redir [OF p' g h [unfolded t] l r less.hyps [OF l r]])
  next
    case False
    then show ?thesis using e stop [of ps s1 c] p by simp
  qed
qed

lemma parseredirs_length: "parseredirs c ps = Parsed d s \<Longrightarrow> length s \<le> length ps"
  by (induction rule: parseredirs_induct) (auto dest: peek_length [OF sym])

lemma parseredirs_fuel: "parseredirs c ps \<noteq> No_fuel"
proof (induction "length ps" arbitrary: c ps rule: less_induct)
  case less
  obtain p s1 where p: "peek ps ''<>'' = (p, s1)" by (cases "peek ps ''<>''")
  obtain tok a b s2 where g: "gettoken s1 = (tok, a, b, s2)" by (cases "gettoken s1")
  obtain t q eq s3 where h: "gettoken s2 = (t, q, eq, s3)" by (cases "gettoken s2")
  have "length s3 < length ps" if "t = CHR ''a''" using redir_shrinks p g h that by metis
  then show ?case using less [of s3] unfolding parseredirs_eq [OF p g h] by simp
qed

text \<open>The loop of \<open>parseexec\<close> over the arguments.\<close>

function parseargs :: "nat \<Rightarrow> token cmd \<Rightarrow> ptr \<Rightarrow> token cmd parsed" where
  "parseargs argc ret ps =
     (let (p, s) = peek ps ''|)&;'' in
      if p then Parsed ret s
      else let (tok, q, eq, s) = gettoken s in
           if tok = CHR 0x00 then Parsed ret s
           else if tok \<noteq> CHR ''a'' then Sh_panic ''syntax''
           else if Suc argc \<ge> MAXARGS then Sh_panic ''too many args''
           else case parseredirs (add_arg (q, eq) ret) s of
                  Parsed ret s \<Rightarrow> parseargs (Suc argc) ret s
                | Sh_panic m \<Rightarrow> Sh_panic m
                | No_fuel \<Rightarrow> No_fuel)"
  by pat_completeness auto
termination
  by (relation "measure (\<lambda>(argc, c, ps). length ps)")
     (auto dest!: parseredirs_length gettoken_shrinks peek_length)

declare parseargs.simps [simp del]

text \<open>The loop of \<open>parseline\<close> over the ampersands.\<close>

function parsebacks :: "token cmd \<Rightarrow> ptr \<Rightarrow> token cmd \<times> ptr" where
  "parsebacks c ps =
     (let (p, s) = peek ps ''&'' in
      if p then let (_, _, _, s) = gettoken s in parsebacks (BACK c) s
      else (c, s))"
  by pat_completeness auto
termination
  by (relation "measure (\<lambda>(c, ps). length ps)") (auto dest: peeked_shrinks)

declare parsebacks.simps [simp del]

text \<open>The fuel bounds the depth of the calls.\<close>

fun parseline :: "nat \<Rightarrow> ptr \<Rightarrow> token cmd parsed"
  and parsepipe :: "nat \<Rightarrow> ptr \<Rightarrow> token cmd parsed"
  and parseexec :: "nat \<Rightarrow> ptr \<Rightarrow> token cmd parsed"
  and parseblock :: "nat \<Rightarrow> ptr \<Rightarrow> token cmd parsed" where
  "parseline 0 ps = No_fuel"
| "parseline (Suc n) ps =
     bindP (parsepipe n ps)
       (\<lambda>c s. let (c, s) = parsebacks c s; (p, s) = peek s '';'' in
          if p then let (_, _, _, s) = gettoken s in bindP (parseline n s) (\<lambda>r s. Parsed (LIST c r) s)
          else Parsed c s)"
| "parsepipe 0 ps = No_fuel"
| "parsepipe (Suc n) ps =
     bindP (parseexec n ps)
       (\<lambda>c s. let (p, s) = peek s ''|'' in
          if p then let (_, _, _, s) = gettoken s in bindP (parsepipe n s) (\<lambda>r s. Parsed (PIPE c r) s)
          else Parsed c s)"
| "parseblock 0 ps = No_fuel"
| "parseblock (Suc n) ps =
     (let (p, s) = peek ps ''('' in
      if \<not> p then Sh_panic ''parseblock''
      else let (_, _, _, s) = gettoken s in
           bindP (parseline n s)
             (\<lambda>c s. let (p, s) = peek s '')'' in
                if \<not> p then Sh_panic ''syntax - missing )''
                else let (_, _, _, s) = gettoken s in parseredirs c s))"
| "parseexec 0 ps = No_fuel"
| "parseexec (Suc n) ps =
     (let (p, s) = peek ps ''('' in
      if p then parseblock n s
      else bindP (parseredirs (EXEC []) s) (\<lambda>ret s. parseargs 0 ret s))"

definition parsecmd :: "string \<Rightarrow> token cmd parsed" where
  "parsecmd buf =
     bindP (parseline (4 * length buf + 4) buf)
       (\<lambda>c s. let (_, s) = peek s [] in if s \<noteq> [] then Sh_panic (''leftovers: '' @ s @ [CHR 0x0A] @ ''syntax'') else Parsed c s)"

section \<open>Terminating the tokens\<close>

text \<open>
  \<open>nulterminate\<close> writes a zero at the end of every token; \<open>b\<close> is the array that holds the line of
  length \<open>n\<close> and its terminating zero.
\<close>

definition put_nul :: "nat \<Rightarrow> token \<Rightarrow> string \<Rightarrow> string" where
  "put_nul n t b = b[n - length (snd t) := CHR 0x00]"

fun nulterminate :: "nat \<Rightarrow> token cmd \<Rightarrow> string \<Rightarrow> string" where
  "nulterminate n (EXEC args) b = fold (put_nul n) args b"
| "nulterminate n (REDIR c f mode fd) b = put_nul n f (nulterminate n c b)"
| "nulterminate n (PIPE l r) b = nulterminate n r (nulterminate n l b)"
| "nulterminate n (LIST l r) b = nulterminate n r (nulterminate n l b)"
| "nulterminate n (BACK c) b = nulterminate n c b"

text \<open>The C string that starts at the pointer of a token.\<close>

definition cstring :: "nat \<Rightarrow> string \<Rightarrow> token \<Rightarrow> string" where
  "cstring n b t = takeWhile (\<lambda>c. c \<noteq> CHR 0x00) (drop (n - length (fst t)) b)"

section \<open>Running commands\<close>

definition sh_panic :: "string \<Rightarrow> prog" where
  "sh_panic m = Print 2 (m @ [CHR 0x0A]) Exit"

definition fork1 :: "(int \<Rightarrow> prog) \<Rightarrow> prog" where
  "fork1 k = Sys_fork (\<lambda>pid. if pid = - 1 then sh_panic ''fork'' else k pid)"

fun runcmd :: "string cmd \<Rightarrow> prog" where
  "runcmd (EXEC []) = Exit"
| "runcmd (EXEC (a # args)) =
     Sys_exec a (a # args) (Print 2 (''exec '' @ a @ '' failed'' @ [CHR 0x0A]) Exit)"
| "runcmd (REDIR c f mode fd) =
     Sys_close fd (Sys_open f mode
       (\<lambda>r. if r < 0 then Print 2 (''open '' @ f @ '' failed'' @ [CHR 0x0A]) Exit else runcmd c))"
| "runcmd (LIST l r) = fork1 (\<lambda>pid. if pid = 0 then runcmd l else Sys_wait (\<lambda>_. runcmd r))"
| "runcmd (PIPE l r) =
     Sys_pipe (\<lambda>p. case p of
        None \<Rightarrow> sh_panic ''pipe''
      | Some (p0, p1) \<Rightarrow>
          fork1 (\<lambda>pid. if pid = 0 then Sys_close 1 (Sys_dup p1 (Sys_close p0 (Sys_close p1 (runcmd l))))
            else fork1 (\<lambda>pid. if pid = 0 then Sys_close 0 (Sys_dup p0 (Sys_close p0 (Sys_close p1 (runcmd r))))
              else Sys_close p0 (Sys_close p1 (Sys_wait (\<lambda>_. Sys_wait (\<lambda>_. Exit)))))))"
| "runcmd (BACK c) = fork1 (\<lambda>pid. if pid = 0 then runcmd c else Exit)"

text \<open>What the child runs for a line: the parser's messages come before \<open>exit\<close>.\<close>

definition run_line :: "string \<Rightarrow> prog" where
  "run_line buf =
     (case parsecmd buf of
        Parsed c _ \<Rightarrow> runcmd (map_cmd (cstring (length buf) (nulterminate (length buf) c (buf @ [CHR 0x00]))) c)
      | Sh_panic m \<Rightarrow> sh_panic m
      | No_fuel \<Rightarrow> Exit)"

text \<open>One round of the loop of \<open>main\<close> on a line, and the loop on the rest \<open>k\<close>.\<close>

definition main_line :: "string \<Rightarrow> prog \<Rightarrow> prog" where
  "main_line buf k =
     (if take 3 buf = ''cd ''
      then let dir = drop 3 (butlast buf) in
           Sys_chdir dir (\<lambda>r. if r < 0 then Print 2 (''cannot cd '' @ dir @ [CHR 0x0A]) k else k)
      else fork1 (\<lambda>pid. if pid = 0 then run_line buf else Sys_wait (\<lambda>_. k)))"

lemma gets_loop_append: "gets_loop n inp = (l, rest) \<Longrightarrow> inp = l @ rest"
  by (induction n inp arbitrary: l rest rule: gets_loop.induct) (auto split: if_splits prod.splits)

lemma gets_loop_shrinks: "gets_loop n inp = (l, rest) \<Longrightarrow> l \<noteq> [] \<Longrightarrow> length rest < length inp"
  by (drule gets_loop_append) simp

text \<open>\<open>inp\<close> is what is typed; the line buffer has 100 bytes.\<close>

function sh_main :: "string \<Rightarrow> prog" where
  "sh_main inp =
     Print 2 ''$ ''
       (let (buf, rest) = gets inp 100 in
        if buf = [] then Exit
        else if hd buf = CHR 0x00 then Exit
        else main_line (takeWhile (\<lambda>c. c \<noteq> CHR 0x00) buf) (sh_main rest))"
  by pat_completeness auto
termination
  by (relation "measure length") (auto simp: gets_def dest: gets_loop_shrinks [OF sym])

text \<open>\<open>main\<close>: the shell opens the console until three descriptors are in use, and runs its input.\<close>

primcorec sh_open :: "prog \<Rightarrow> prog" where
  "sh_open k =
     Sys_open ''console'' 2 (\<lambda>fd. if fd < 0 then k else if fd \<ge> 3 then Sys_close fd k else sh_open k)"

definition sh_program :: "string \<Rightarrow> prog" where
  "sh_program inp = sh_open (sh_main inp)"

end
