(* ===== verification/ShParse.thy ===== *)
theory ShParse
  imports Sh "HOL-Library.Sublist"
begin

text \<open>
  Properties of the shell's parser: it always returns; the trees it returns are well formed, and
  after \<open>nulterminate\<close> the argument pointers are the C strings of the tokens; and printing a command
  and parsing it gives the command back.
\<close>

section \<open>Tokens\<close>

text \<open>A token is a word: not empty, of word characters only, and not followed by another one.\<close>

definition tok_ok :: "string \<Rightarrow> token \<Rightarrow> bool" where
  "tok_ok buf t \<longleftrightarrow> suffix (fst t) buf \<and> (\<exists>w. fst t = w @ snd t \<and> w \<noteq> [] \<and> list_all word_char w)
     \<and> (snd t = [] \<or> \<not> word_char (hd (snd t)))"

lemma skip_white_suffix: "suffix (skip_white s) s"
  by (simp add: skip_white_def suffix_dropWhile)

lemma peek_suffix: "peek ps toks = (p, s) \<Longrightarrow> suffix s ps"
  by (auto simp: peek_def Let_def skip_white_suffix)

lemma gettoken_suffix:
  assumes "gettoken ps = (t, q, eq, s)"
  shows "suffix s ps"
proof -
  have d: "suffix (dropWhile word_char r) r" for r by (rule suffix_dropWhile)
  show ?thesis
  proof (rule gettoken_cases [OF assms])
    fix c r assume "skip_white ps = c # r" "s = skip_white r"
    then show ?thesis using skip_white_suffix [of ps] skip_white_suffix [of r]
      by (metis suffix_ConsD suffix_order.trans)
  next
    fix r assume "skip_white ps = CHR ''>'' # CHR ''>'' # r" "s = skip_white r"
    then show ?thesis using skip_white_suffix [of ps] skip_white_suffix [of r]
      by (metis suffix_ConsD suffix_order.trans)
  next
    fix c r assume "skip_white ps = c # r" "eq = dropWhile word_char r" "s = skip_white eq"
    then show ?thesis using skip_white_suffix [of ps] skip_white_suffix [of eq] d [of r]
      by (metis suffix_ConsD suffix_order.trans)
  qed simp
qed

lemma gettoken_tok_ok:
  assumes g: "gettoken ps = (CHR ''a'', q, eq, s)" and b: "suffix ps buf"
  shows "tok_ok buf (q, eq)"
proof (rule gettoken_cases [OF g])
  fix c r assume h: "skip_white ps = c # r" "word_char c" "q = c # r" "eq = dropWhile word_char r"
  have "suffix q buf" using h(1,3) skip_white_suffix [of ps] b suffix_order.trans by metis
  moreover have "q = (c # takeWhile word_char r) @ eq" using h by simp
  moreover have "list_all word_char (c # takeWhile word_char r)" using h(2) by (auto simp: list_all_iff dest: set_takeWhileD)
  moreover have "eq = [] \<or> \<not> word_char (hd eq)" using h(4) hd_dropWhile by blast
  ultimately show ?thesis unfolding tok_ok_def by force
qed (auto simp: symbols_def)

section \<open>Well-formed commands\<close>

fun wf_cmd :: "string \<Rightarrow> token cmd \<Rightarrow> bool" where
  "wf_cmd buf (EXEC args) \<longleftrightarrow> length args < MAXARGS \<and> list_all (tok_ok buf) args"
| "wf_cmd buf (REDIR c f mode fd) \<longleftrightarrow> wf_cmd buf c \<and> tok_ok buf f
     \<and> (mode = O_RDONLY \<and> fd = 0 \<or> mode = O_WRONLY_CREATE \<and> fd = 1)"
| "wf_cmd buf (PIPE l r) \<longleftrightarrow> wf_cmd buf l \<and> wf_cmd buf r"
| "wf_cmd buf (LIST l r) \<longleftrightarrow> wf_cmd buf l \<and> wf_cmd buf r"
| "wf_cmd buf (BACK c) \<longleftrightarrow> wf_cmd buf c"

text \<open>An \<open>execcmd\<close> with \<open>k\<close> arguments under redirections.\<close>

fun exec_with :: "nat \<Rightarrow> 'a cmd \<Rightarrow> bool" where
  "exec_with k (EXEC args) \<longleftrightarrow> length args = k"
| "exec_with k (REDIR c f mode fd) \<longleftrightarrow> exec_with k c"
| "exec_with k _ \<longleftrightarrow> False"

lemma add_arg_wf:
  "exec_with k c \<Longrightarrow> wf_cmd buf c \<Longrightarrow> tok_ok buf t \<Longrightarrow> Suc k < MAXARGS \<Longrightarrow> wf_cmd buf (add_arg t c) \<and> exec_with (Suc k) (add_arg t c)"
  by (induction t c rule: add_arg.induct) auto

lemma redir_of_wf: "wf_cmd buf c \<Longrightarrow> tok_ok buf f \<Longrightarrow> wf_cmd buf (redir_of tok c f)"
  by (simp add: redir_of_def)

lemma redir_of_exec: "exec_with k (redir_of tok c f) = exec_with k c"
  by (simp add: redir_of_def)

lemma parseredirs_wf:
  assumes "parseredirs c ps = Parsed d s" "suffix ps buf" "wf_cmd buf c"
  shows "suffix s buf \<and> wf_cmd buf d \<and> (exec_with k c \<longrightarrow> exec_with k d)"
  using assms
proof (induction rule: parseredirs_induct)
  case (stop c ps s)
  then show ?case using peek_suffix suffix_order.trans by blast
next
  case (redir c ps s1 tok a b s2 q eq s3 d s)
  have "suffix s2 buf" using redir peek_suffix gettoken_suffix suffix_order.trans by meson
  then have "tok_ok buf (q, eq)" "suffix s3 buf"
    using redir.hyps(3) gettoken_tok_ok gettoken_suffix suffix_order.trans by (blast, meson)
  then show ?case using redir.IH redir.prems redir_of_wf redir_of_exec by metis
qed

lemma parseargs_eq:
  assumes "peek ps ''|)&;'' = (p, s1)" "gettoken s1 = (tok, q, eq, s2)"
  shows "parseargs k c ps =
    (if p then Parsed c s1 else if tok = CHR 0x00 then Parsed c s2 else if tok \<noteq> CHR ''a'' then Sh_panic ''syntax''
     else if Suc k \<ge> MAXARGS then Sh_panic ''too many args''
     else bindP (parseredirs (add_arg (q, eq) c) s2) (\<lambda>d s. parseargs (Suc k) d s))"
  by (subst parseargs.simps) (simp add: assms split: parsed.split)

lemma parseargs_wf:
  assumes "parseargs k c ps = Parsed d s" "suffix ps buf" "wf_cmd buf c" "exec_with k c"
  shows "suffix s buf \<and> wf_cmd buf d"
  using assms
proof (induction "length ps" arbitrary: k c ps rule: less_induct)
  case less
  obtain p s1 where p: "peek ps ''|)&;'' = (p, s1)" by (cases "peek ps ''|)&;''")
  obtain tok q eq s2 where g: "gettoken s1 = (tok, q, eq, s2)" by (cases "gettoken s1")
  have s: "suffix s1 buf" "suffix s2 buf"
    using less.prems(2) peek_suffix [OF p] gettoken_suffix [OF g] suffix_order.trans by blast+
  note e = less.prems(1) [unfolded parseargs_eq [OF p g]]
  show ?case
  proof (cases "p \<or> tok = CHR 0x00")
    case True
    then show ?thesis using e s less.prems(3) by (auto split: if_splits)
  next
    case False
    then have t: "tok = CHR ''a''" "Suc k < MAXARGS"
      and b: "bindP (parseredirs (add_arg (q, eq) c) s2) (\<lambda>d s. parseargs (Suc k) d s) = Parsed d s"
      using e by (simp_all split: if_splits)
    obtain d' s' where r: "parseredirs (add_arg (q, eq) c) s2 = Parsed d' s'" "parseargs (Suc k) d' s' = Parsed d s"
      using b by (cases "parseredirs (add_arg (q, eq) c) s2") simp_all
    have a: "wf_cmd buf (add_arg (q, eq) c)" "exec_with (Suc k) (add_arg (q, eq) c)"
      using add_arg_wf [OF less.prems(4,3) gettoken_tok_ok [OF g [unfolded t] s(1)] t(2)] by blast+
    have w: "suffix s' buf" "wf_cmd buf d'" "exec_with (Suc k) d'" using parseredirs_wf [OF r(1) s(2) a(1)] a(2) by blast+
    have "length s1 \<le> length ps" "length s2 < length s1" "length s' \<le> length s2"
      using peek_length [OF p [symmetric]] gettoken_shrinks [OF g [symmetric]] t(1) parseredirs_length [OF r(1)] by simp_all
    then show ?thesis using less.hyps [OF _ r(2) w] by simp
  qed
qed

lemma parseargs_fuel: "parseargs k c ps \<noteq> No_fuel"
proof (induction "length ps" arbitrary: k c ps rule: less_induct)
  case less
  obtain p s1 where p: "peek ps ''|)&;'' = (p, s1)" by (cases "peek ps ''|)&;''")
  obtain tok q eq s2 where g: "gettoken s1 = (tok, q, eq, s2)" by (cases "gettoken s1")
  have l: "length s1 \<le> length ps" "tok \<noteq> CHR 0x00 \<Longrightarrow> length s2 < length s1"
    using peek_length [OF p [symmetric]] gettoken_shrinks [OF g [symmetric]] by blast+
  show ?case
  proof (cases "parseredirs (add_arg (q, eq) c) s2")
    case (Parsed d s)
    then show ?thesis using less [of s] l parseredirs_length [OF Parsed] unfolding parseargs_eq [OF p g] by auto
  qed (use parseredirs_fuel in \<open>auto simp: parseargs_eq [OF p g]\<close>)
qed

lemma parsebacks_eq:
  assumes "peek ps ''&'' = (p, s1)" "gettoken s1 = (t, q, eq, s2)"
  shows "parsebacks c ps = (if p then parsebacks (BACK c) s2 else (c, s1))"
  by (subst parsebacks.simps) (simp add: assms)

lemma parsebacks_wf:
  assumes "parsebacks c ps = (d, s)"
  shows "suffix s ps \<and> (wf_cmd buf c \<longrightarrow> wf_cmd buf d)"
  using assms
proof (induction "length ps" arbitrary: c ps rule: less_induct)
  case less
  obtain p s1 where p: "peek ps ''&'' = (p, s1)" by (cases "peek ps ''&''")
  obtain t q eq s2 where g: "gettoken s1 = (t, q, eq, s2)" by (cases "gettoken s1")
  note e = less.prems [unfolded parsebacks_eq [OF p g]]
  show ?case
  proof (cases p)
    case True
    then have "length s2 < length ps" using peeked_shrinks p g by metis
    then have "suffix s s2 \<and> (wf_cmd buf c \<longrightarrow> wf_cmd buf d)" using less.hyps [of s2 "BACK c"] e True by simp
    then show ?thesis using peek_suffix [OF p] gettoken_suffix [OF g] suffix_order.trans by meson
  next
    case False
    then show ?thesis using e peek_suffix [OF p] by simp
  qed
qed

section \<open>The recursive functions\<close>

lemma bindP_Parsed: "bindP m f = Parsed c s \<longleftrightarrow> (\<exists>a t. m = Parsed a t \<and> f a t = Parsed c s)"
  by (cases m) simp_all

lemma bindP_fuel: "m \<noteq> No_fuel \<Longrightarrow> (\<And>a t. m = Parsed a t \<Longrightarrow> f a t \<noteq> No_fuel) \<Longrightarrow> bindP m f \<noteq> No_fuel"
  by (cases m) simp_all

text \<open>Looking for a symbol and taking it.\<close>

definition accept :: "string \<Rightarrow> ptr \<Rightarrow> (ptr \<Rightarrow> 'a) \<Rightarrow> (ptr \<Rightarrow> 'a) \<Rightarrow> 'a" where
  "accept toks ps yes no = (let (p, s) = peek ps toks in if p then (let (_, _, _, s) = gettoken s in yes s) else no s)"

lemma accept_cases:
  obtains s where "accept toks ps yes no = yes s" "suffix s ps" "length s < length ps"
  | s where "accept toks ps yes no = no s" "suffix s ps" "s = skip_white ps"
proof -
  obtain p s1 where p: "peek ps toks = (p, s1)" by (cases "peek ps toks")
  obtain t q eq s2 where g: "gettoken s1 = (t, q, eq, s2)" by (cases "gettoken s1")
  show thesis
  proof (cases p)
    case True
    then have p': "peek ps toks = (True, s1)" using p by simp
    have "length s2 < length ps" by (rule peeked_shrinks [OF p' [symmetric] g [symmetric]])
    moreover have "suffix s2 ps" using peek_suffix [OF p] gettoken_suffix [OF g] suffix_order.trans by blast
    moreover have "accept toks ps yes no = yes s2" by (simp add: accept_def p' g)
    ultimately show thesis by (intro that(1))
  next
    case False
    then have "accept toks ps yes no = no s1" by (simp add: accept_def p)
    moreover have "s1 = skip_white ps" using p by (simp add: peek_def Let_def)
    ultimately show thesis using peek_suffix [OF p] by (intro that(2))
  qed
qed

lemma if_flip: "(if \<not> b then x else y) = (if b then y else x)"
  by simp

lemma parse_eqs:
  "parseline (Suc n) ps = bindP (parsepipe n ps)
     (\<lambda>c s. let (c, s) = parsebacks c s in
        accept '';'' s (\<lambda>s. bindP (parseline n s) (\<lambda>r s. Parsed (LIST c r) s)) (\<lambda>s. Parsed c s))"
  "parsepipe (Suc n) ps = bindP (parseexec n ps)
     (\<lambda>c s. accept ''|'' s (\<lambda>s. bindP (parsepipe n s) (\<lambda>r s. Parsed (PIPE c r) s)) (\<lambda>s. Parsed c s))"
  "parseblock (Suc n) ps = accept ''('' ps
     (\<lambda>s. bindP (parseline n s) (\<lambda>c s. accept '')'' s (\<lambda>s. parseredirs c s) (\<lambda>_. Sh_panic ''syntax - missing )'')))
     (\<lambda>_. Sh_panic ''parseblock'')"
  by (simp_all only: parseline.simps(2) parsepipe.simps(2) parseblock.simps(2) accept_def Let_def if_flip)

lemma parseexec_eq:
  assumes "peek ps ''('' = (p, s)"
  shows "parseexec (Suc n) ps = (if p then parseblock n s else bindP (parseredirs (EXEC []) s) (\<lambda>c s. parseargs 0 c s))"
  by (simp add: assms)

declare parseline.simps(2) [simp del] parsepipe.simps(2) [simp del] parseexec.simps(2) [simp del]
  parseblock.simps(2) [simp del]

definition wf_result :: "string \<Rightarrow> token cmd parsed \<Rightarrow> bool" where
  "wf_result buf r \<longleftrightarrow> (\<forall>c s. r = Parsed c s \<longrightarrow> suffix s buf \<and> wf_cmd buf c)"

lemma wf_result_bind:
  assumes "wf_result buf m" "\<And>a t. m = Parsed a t \<Longrightarrow> suffix t buf \<Longrightarrow> wf_cmd buf a \<Longrightarrow> wf_result buf (f a t)"
  shows "wf_result buf (bindP m f)"
  using assms by (cases m) (auto simp: wf_result_def)

lemma wf_result_accept:
  assumes "suffix ps buf" "\<And>s. suffix s buf \<Longrightarrow> wf_result buf (yes s)" "\<And>s. suffix s buf \<Longrightarrow> wf_result buf (no s)"
  shows "wf_result buf (accept toks ps yes no)"
proof (rule accept_cases [of toks ps yes no])
qed (use assms suffix_order.trans in metis)+

lemma wf_result_simps [simp]:
  "wf_result buf (Parsed c s) \<longleftrightarrow> suffix s buf \<and> wf_cmd buf c" "wf_result buf (Sh_panic m)" "wf_result buf No_fuel"
  by (simp_all add: wf_result_def)

lemma parse_wf:
  "suffix ps buf \<Longrightarrow> wf_result buf (parseline n ps)"
  "suffix ps buf \<Longrightarrow> wf_result buf (parsepipe n ps)"
  "suffix ps buf \<Longrightarrow> wf_result buf (parseexec n ps)"
  "suffix ps buf \<Longrightarrow> wf_result buf (parseblock n ps)"
proof (induction n arbitrary: ps)
  case (Suc n)
  {
    case 1
    show ?case unfolding parse_eqs
    proof (rule wf_result_bind [OF Suc.IH(2) [OF 1]])
      fix c s assume c: "suffix s buf" "wf_cmd buf c"
      obtain d t where d: "parsebacks c s = (d, t)" by (cases "parsebacks c s")
      then have "suffix t buf" "wf_cmd buf d" using parsebacks_wf [OF d, of buf] c suffix_order.trans by blast+
      then show "wf_result buf (let (c, s) = parsebacks c s in
          accept '';'' s (\<lambda>s. bindP (parseline n s) (\<lambda>r s. Parsed (LIST c r) s)) (\<lambda>s. Parsed c s))"
        using Suc.IH(1) by (auto simp: d intro!: wf_result_accept wf_result_bind)
    qed
  next
    case 2
    show ?case unfolding parse_eqs
      using Suc.IH(2) by (intro wf_result_bind [OF Suc.IH(3) [OF 2]] wf_result_accept wf_result_bind) auto
  next
    case 3
    obtain p s where p: "peek ps ''('' = (p, s)" by (cases "peek ps ''(''")
    have s: "suffix s buf" using 3 peek_suffix [OF p] suffix_order.trans by blast
    have "wf_result buf (bindP (parseredirs (EXEC []) s) (\<lambda>c s. parseargs 0 c s))"
      using parseredirs_wf [OF _ s, of "EXEC []" _ _ 0] parseargs_wf
      by (fastforce simp: wf_result_def bindP_Parsed)
    then show ?case unfolding parseexec_eq [OF p] using Suc.IH(4) [OF s] by simp
  next
    case 4
    have r: "wf_result buf (parseredirs c s)" if "suffix s buf" "wf_cmd buf c" for c s
      using parseredirs_wf [OF _ that] by (auto simp: wf_result_def)
    show ?case unfolding parse_eqs
      using Suc.IH(1) r 4 by (intro wf_result_accept wf_result_bind) auto
  }
qed simp_all

section \<open>Enough fuel\<close>

lemma parse_length:
  "parseline n ps = Parsed c s \<Longrightarrow> length s \<le> length ps"
  "parsepipe n ps = Parsed c s \<Longrightarrow> length s \<le> length ps"
  "parseexec n ps = Parsed c s \<Longrightarrow> length s \<le> length ps"
  using parse_wf(1-3) [of ps ps n] by (auto simp: wf_result_def suffix_length_le)

lemma accept_fuel:
  assumes "\<And>s. length s < length ps \<Longrightarrow> yes s \<noteq> No_fuel" "\<And>s. no s \<noteq> No_fuel"
  shows "accept toks ps yes no \<noteq> No_fuel"
  by (rule accept_cases [of toks ps yes no]) (use assms in metis)+

text \<open>Four calls per character, and four more.\<close>

lemma parse_fuel:
  "4 * length ps + 4 \<le> n \<Longrightarrow> parseline n ps \<noteq> No_fuel"
  "4 * length ps + 3 \<le> n \<Longrightarrow> parsepipe n ps \<noteq> No_fuel"
  "4 * length ps + 2 \<le> n \<Longrightarrow> parseexec n ps \<noteq> No_fuel"
  "4 * length ps + 1 \<le> n \<Longrightarrow> parseblock n ps \<noteq> No_fuel"
proof (induction n arbitrary: ps)
  case (Suc n)
  {
    case 1
    show ?case unfolding parse_eqs
    proof (rule bindP_fuel)
      fix c s assume m: "parsepipe n ps = Parsed c s"
      obtain d t where d: "parsebacks c s = (d, t)" by (cases "parsebacks c s")
      have "length t \<le> length ps" using parse_length(2) [OF m] parsebacks_wf [OF d] suffix_length_le order.trans by blast
      then have "parseline n u \<noteq> No_fuel" if "length u < length t" for u using that 1 by (intro Suc.IH(1)) simp
      then show "(let (c, s) = parsebacks c s in accept '';'' s
          (\<lambda>s. bindP (parseline n s) (\<lambda>r s. Parsed (LIST c r) s)) (\<lambda>s. Parsed c s)) \<noteq> No_fuel"
        unfolding d Let_def prod.case by (intro accept_fuel bindP_fuel) simp_all
    qed (use Suc.IH(2) 1 in simp)
  next
    case 2
    show ?case unfolding parse_eqs
    proof (rule bindP_fuel)
      fix c s assume m: "parseexec n ps = Parsed c s"
      have "parsepipe n u \<noteq> No_fuel" if "length u < length s" for u
        using that 2 parse_length(3) [OF m] by (intro Suc.IH(2)) simp
      then show "accept ''|'' s (\<lambda>s. bindP (parsepipe n s) (\<lambda>r s. Parsed (PIPE c r) s)) (\<lambda>s. Parsed c s) \<noteq> No_fuel"
        by (intro accept_fuel bindP_fuel) simp_all
    qed (use Suc.IH(3) 2 in simp)
  next
    case 3
    obtain p s where p: "peek ps ''('' = (p, s)" by (cases "peek ps ''(''")
    have "4 * length s + 1 \<le> n" using 3 peek_length [OF p [symmetric]] by simp
    then show ?case unfolding parseexec_eq [OF p]
      using Suc.IH(4) bindP_fuel [OF parseredirs_fuel parseargs_fuel] by simp
  next
    case 4
    have "parseline n s \<noteq> No_fuel" if "length s < length ps" for s using that 4 by (intro Suc.IH(1)) simp
    then show ?case unfolding parse_eqs using parseredirs_fuel by (intro accept_fuel bindP_fuel) simp_all
  }
qed simp_all

lemma parsecmd_parsed: "parsecmd buf = Parsed c s \<Longrightarrow> wf_cmd buf c"
  using parse_wf(1) [of buf buf "4 * length buf + 4"]
  by (cases "parseline (4 * length buf + 4) buf") (auto simp: parsecmd_def Let_def split: prod.splits if_splits)

lemma parsecmd_fuel: "parsecmd buf \<noteq> No_fuel"
  unfolding parsecmd_def
  by (rule bindP_fuel [OF parse_fuel(1)]) (auto simp: Let_def split: prod.splits)

section \<open>Terminating the tokens\<close>

text \<open>The text of a token.\<close>

definition tok_text :: "token \<Rightarrow> string" where
  "tok_text t = take (length (fst t) - length (snd t)) (fst t)"

text \<open>The positions where \<open>nulterminate\<close> writes.\<close>

definition nuls :: "nat \<Rightarrow> token set \<Rightarrow> nat set" where
  "nuls n T = (\<lambda>t. n - length (snd t)) ` T"

lemma nuls_simps [simp]:
  "nuls n {} = {}" "nuls n (insert t T) = insert (n - length (snd t)) (nuls n T)" "nuls n (S \<union> T) = nuls n S \<union> nuls n T"
  by (auto simp: nuls_def)

lemma put_nul_nth: "i < length b \<Longrightarrow> put_nul n t b ! i = (if i = n - length (snd t) then CHR 0x00 else b ! i)"
  by (simp add: put_nul_def)

lemma put_nul_length [simp]: "length (put_nul n t b) = length b"
  by (simp add: put_nul_def)

lemma fold_put_nul:
  "length (fold (put_nul n) ts b) = length b"
  "i < length b \<Longrightarrow> fold (put_nul n) ts b ! i = (if i \<in> nuls n (set ts) then CHR 0x00 else b ! i)"
  by (induction ts arbitrary: b) (auto simp: put_nul_nth)

lemma nulterminate_length [simp]: "length (nulterminate n c b) = length b"
  by (induction n c b rule: nulterminate.induct) (simp_all add: fold_put_nul)

lemma nulterminate_nth:
  "i < length b \<Longrightarrow> nulterminate n c b ! i = (if i \<in> nuls n (set_cmd c) then CHR 0x00 else b ! i)"
  by (induction n c b rule: nulterminate.induct) (simp_all add: fold_put_nul put_nul_nth)

lemma wf_cmd_tokens: "wf_cmd buf c \<Longrightarrow> t \<in> set_cmd c \<Longrightarrow> tok_ok buf t"
  by (induction buf c rule: wf_cmd.induct) (auto simp: list_all_iff)

text \<open>No zero is written inside a token, and one right behind it.\<close>

lemma nul_outside:
  assumes t: "tok_ok buf t" and u: "tok_ok buf u" and i: "length buf - length (fst t) \<le> i" "i < length buf - length (snd t)"
  shows "i \<noteq> length buf - length (snd u)"
proof
  assume e: "i = length buf - length (snd u)"
  obtain w where w: "fst t = w @ snd t" "list_all word_char w" using t by (auto simp: tok_ok_def)
  obtain z where z: "buf = z @ fst t" using t by (auto simp: tok_ok_def suffix_def)
  have "suffix (snd u) buf" using u by (auto simp: tok_ok_def suffix_def)
  then obtain y where y: "buf = y @ snd u" by (auto simp: suffix_def)
  have iy: "i = length y" using e y by simp
  then have "snd u \<noteq> []" using i(2) y by auto
  then have "\<not> word_char (buf ! i)" using u y iy by (auto simp: tok_ok_def hd_conv_nth nth_append)
  moreover have "word_char (buf ! i)"
  proof -
    have "buf ! i = w ! (i - length z)" "i - length z < length w" using i z w by (auto simp: nth_append)
    then show ?thesis using w(2) by (simp add: list_all_length)
  qed
  ultimately show False by blast
qed

lemma cstring_token:
  assumes wf: "\<And>u. u \<in> set_cmd c \<Longrightarrow> tok_ok buf u" and t: "t \<in> set_cmd c" and nz: "CHR 0x00 \<notin> set buf"
  shows "cstring (length buf) (nulterminate (length buf) c (buf @ [CHR 0x00])) t = tok_text t"
proof -
  define b where "b = nulterminate (length buf) c (buf @ [CHR 0x00])"
  define k m where "k = length buf - length (fst t)" and "m = length (fst t) - length (snd t)"
  obtain w where w: "fst t = w @ snd t" using wf [OF t] by (auto simp: tok_ok_def)
  obtain z where z: "buf = z @ fst t" using wf [OF t] by (auto simp: tok_ok_def suffix_def)
  have k: "k = length z" "k + m \<le> length buf" "length buf - length (snd t) = k + m"
    using w z by (simp_all add: k_def m_def)
  have nth: "b ! i = (if i \<in> nuls (length buf) (set_cmd c) then CHR 0x00 else (buf @ [CHR 0x00]) ! i)"
    if "i \<le> length buf" for i
    using that by (simp add: b_def nulterminate_nth)
  have "nulterminate (length buf) c (buf @ [CHR 0x00]) = b" by (simp add: b_def)
  have stop: "b ! (k + m) = CHR 0x00" using nth [of "k + m"] k t by (force simp: nuls_def)
  have same: "b ! (k + j) = tok_text t ! j \<and> b ! (k + j) \<noteq> CHR 0x00" if "j < m" for j
  proof -
    have "k + j \<notin> nuls (length buf) (set_cmd c)"
      using nul_outside [OF wf [OF t] wf, of _ "k + j"] that k by (auto simp: nuls_def k_def)
    then have "b ! (k + j) = buf ! (k + j)" using nth [of "k + j"] that k(2) by (simp add: nth_append)
    moreover have "buf ! (k + j) = tok_text t ! j" using that z k(1) by (simp add: tok_text_def m_def nth_append)
    moreover have "buf ! (k + j) \<noteq> CHR 0x00" using nz that k(2) by (metis add_less_mono1 less_le_trans nat_add_left_cancel_less nth_mem)
    ultimately show ?thesis by simp
  qed
  have lt: "length (tok_text t) = m" by (simp add: tok_text_def m_def)
  have "drop k b = tok_text t @ drop (k + m) b"
  proof -
    have "take m (drop k b) = tok_text t"
      by (rule nth_equalityI) (use same lt k in \<open>auto simp: b_def\<close>)
    then show ?thesis by (metis append_take_drop_id drop_drop add.commute)
  qed
  moreover have "drop (k + m) b = CHR 0x00 # drop (Suc (k + m)) b"
    using stop k(2) by (metis Cons_nth_drop_Suc b_def le_imp_less_Suc length_append_singleton nulterminate_length)
  moreover have "\<forall>x \<in> set (tok_text t). x \<noteq> CHR 0x00" using same lt by (metis in_set_conv_nth)
  ultimately show ?thesis unfolding cstring_def b_def [symmetric] k_def [symmetric] by simp
qed

text \<open>
  C35: the parser of the shell always returns, whatever the line: the depth of its calls is bounded by
  the length of the line.
\<close>

theorem parsecmd_returns: "(\<exists>c s. parsecmd buf = Parsed c s) \<or> (\<exists>m. parsecmd buf = Sh_panic m)"
  using parsecmd_fuel [of buf] by (cases "parsecmd buf") simp_all

text \<open>
  C34: every command tree the parser returns is well formed: at most nine arguments, redirections of
  descriptor 0 for reading or 1 for writing only, every token a non-empty word of the line; and after
  \<open>nulterminate\<close> every argument and file name is the C string of its token.
\<close>

theorem parsecmd_well_formed:
  assumes "parsecmd buf = Parsed c s" "CHR 0x00 \<notin> set buf"
  shows "wf_cmd buf c \<and>
    (\<forall>t \<in> set_cmd c. cstring (length buf) (nulterminate (length buf) c (buf @ [CHR 0x00])) t = tok_text t)"
  using parsecmd_parsed [OF assms(1)] cstring_token [OF _ _ assms(2)] wf_cmd_tokens by blast

section \<open>Printing and parsing\<close>

text \<open>A command as a line: the parts of a compound command in parentheses.\<close>

fun unparse :: "string cmd \<Rightarrow> string" where
  "unparse (EXEC args) = concat (map (\<lambda>a. a @ '' '') args)"
| "unparse (REDIR c f mode fd) = ''('' @ unparse c @ '')'' @ (if fd = 0 then ''<'' else ''>'') @ f"
| "unparse (PIPE l r) = ''('' @ unparse l @ '')|('' @ unparse r @ '')''"
| "unparse (LIST l r) = ''('' @ unparse l @ '');('' @ unparse r @ '')''"
| "unparse (BACK c) = ''('' @ unparse c @ '')&''"

definition word :: "string \<Rightarrow> bool" where
  "word w \<longleftrightarrow> w \<noteq> [] \<and> list_all word_char w"

text \<open>The commands that can be written.\<close>

fun writable :: "string cmd \<Rightarrow> bool" where
  "writable (EXEC args) \<longleftrightarrow> length args < MAXARGS \<and> list_all word args"
| "writable (REDIR c f mode fd) \<longleftrightarrow> writable c \<and> word f
     \<and> (mode = O_RDONLY \<and> fd = 0 \<or> mode = O_WRONLY_CREATE \<and> fd = 1)"
| "writable (PIPE l r) \<longleftrightarrow> writable l \<and> writable r"
| "writable (LIST l r) \<longleftrightarrow> writable l \<and> writable r"
| "writable (BACK c) \<longleftrightarrow> writable c"

text \<open>What may follow: the end, or a symbol that is none of \<open>X\<close>.\<close>

definition follows :: "string \<Rightarrow> string \<Rightarrow> bool" where
  "follows X s \<longleftrightarrow> s = [] \<or> hd s \<in> set symbols - set X"

lemma set_white: "set whitespace = {CHR '' '', CHR 0x09, CHR 0x0D, CHR 0x0A, CHR 0x0B}"
  by (simp add: whitespace_def)

lemma symbol_not_white: "c \<in> set symbols \<Longrightarrow> c \<notin> set whitespace"
  by (auto simp: symbols_def set_white)

lemma skip_white_id: "s = [] \<or> hd s \<notin> set whitespace \<Longrightarrow> skip_white s = s"
  by (cases s) (simp_all add: skip_white_def strchr_sets)

lemma word_char_not_white: "word_char c \<Longrightarrow> c \<notin> set whitespace \<and> c \<notin> set symbols"
  by (simp add: word_char_def strchr_sets)

lemma skip_white_follows: "follows X s \<Longrightarrow> skip_white s = s"
  by (rule skip_white_id) (auto simp: follows_def symbol_not_white)

lemma skip_white_word: "word w \<Longrightarrow> skip_white (w @ s) = w @ s"
  by (rule skip_white_id) (cases w; auto simp: word_def word_char_not_white)

lemma peek_no:
  assumes "skip_white s = s" "s = [] \<or> hd s \<notin> set toks" "CHR 0x00 \<notin> set toks"
  shows "peek s toks = (False, s)"
  using assms strchr_None [OF assms(3)] by (auto simp: peek_def Let_def)

lemma peek_yes:
  assumes "c \<in> set symbols" "c \<in> set toks" "CHR 0x00 \<notin> set toks"
  shows "peek (c # s) toks = (True, c # s)"
proof -
  have "skip_white (c # s) = c # s" using symbol_not_white [OF assms(1)] by (intro skip_white_id) simp
  moreover have "strchr toks c \<noteq> None" using assms(2) strchr_None [OF assms(3)] by blast
  ultimately show ?thesis by (auto simp: peek_def Let_def)
qed

lemma gettoken_one:
  assumes "c \<in> set symbols" "c = CHR ''>'' \<longrightarrow> s = [] \<or> hd s \<noteq> CHR ''>''"
  shows "gettoken (c # s) = (c, c # s, s, skip_white s)"
  using assms symbol_not_white [OF assms(1)] by (intro gettoken_symbol skip_white_id) simp_all

lemma gettoken_text:
  assumes w: "word w" and s: "s = [] \<or> \<not> word_char (hd s)"
  shows "gettoken (w @ s) = (CHR ''a'', w @ s, s, skip_white s)"
proof -
  obtain c v where v: "w = c # v" "word_char c" "list_all word_char v" using w by (cases w) (simp_all add: word_def)
  have "skip_white (w @ s) = c # v @ s" using skip_white_word [OF w] v(1) by simp
  moreover have "dropWhile word_char (v @ s) = s"
  proof -
    have "dropWhile word_char s = s" using s by (cases s) simp_all
    then show ?thesis using v(3) by (simp add: dropWhile_append2 list_all_iff)
  qed
  ultimately show ?thesis using gettoken_word [of "w @ s" c "v @ s"] v by simp
qed

lemma accept_no:
  assumes "follows X s" "set toks \<subseteq> set X" "CHR 0x00 \<notin> set toks"
  shows "accept toks s yes no = no s"
proof -
  have "peek s toks = (False, s)"
    using assms by (intro peek_no skip_white_follows) (auto simp: follows_def)
  then show ?thesis by (simp add: accept_def)
qed

lemma accept_yes:
  assumes "c \<in> set symbols" "c \<noteq> CHR ''>''" "c \<in> set toks" "CHR 0x00 \<notin> set toks"
  shows "accept toks (c # s) yes no = yes (skip_white s)"
  using assms by (simp add: accept_def peek_yes gettoken_one)

lemma parseredirs_none: "follows ''<>'' s \<Longrightarrow> parseredirs c s = Parsed c s"
  using peek_no [of s "''<>''"] skip_white_follows [of "''<>''" s]
  by (subst parseredirs.simps) (auto simp: follows_def)

lemma parsebacks_none: "follows ''&'' s \<Longrightarrow> parsebacks c s = (c, s)"
  using peek_no [of s "''&''"] skip_white_follows [of "''&''" s]
  by (subst parsebacks.simps) (auto simp: follows_def)

lemma tok_text_append [simp]: "tok_text (w @ s, s) = w"
  by (simp add: tok_text_def)

text \<open>One redirection after a closing parenthesis.\<close>

lemma parseredirs_one:
  assumes w: "word f" and s: "follows ''<>'' s" and t: "tok = CHR ''<'' \<or> tok = CHR ''>''"
  shows "parseredirs c (tok # f @ s) = Parsed (redir_of tok c (f @ s, s)) s"
proof -
  have sym: "tok \<in> set symbols" using t by (auto simp: symbols_def)
  have "hd (f @ s) \<noteq> CHR ''>''" using w set_symbols word_char_not_white by (cases f) (auto simp: word_def)
  then have g: "gettoken (tok # f @ s) = (tok, tok # f @ s, f @ s, f @ s)"
    using gettoken_one [OF sym, of "f @ s"] skip_white_word [OF w, of s] by simp
  have e: "s = [] \<or> \<not> word_char (hd s)" using s word_char_not_white by (auto simp: follows_def)
  have h: "gettoken (f @ s) = (CHR ''a'', f @ s, s, s)" using gettoken_text [OF w e] skip_white_follows [OF s] by simp
  have "peek (tok # f @ s) ''<>'' = (True, tok # f @ s)" using t by (intro peek_yes [OF sym]) auto
  from parseredirs_eq [OF this g h, of c] show ?thesis using parseredirs_none [OF s] by simp
qed

text \<open>The arguments of a simple command.\<close>

definition words :: "string list \<Rightarrow> string" where
  "words as = concat (map (\<lambda>a. a @ '' '') as)"

lemma words_simps [simp]: "words [] = []" "words (a # as) = a @ '' '' @ words as"
  by (simp_all add: words_def)

lemma words_start:
  assumes "list_all word as" "follows X s"
  shows "skip_white (words as @ s) = words as @ s"
    "words as @ s = [] \<or> hd (words as @ s) \<notin> set X \<inter> set symbols"
proof -
  show "skip_white (words as @ s) = words as @ s"
    using assms skip_white_follows skip_white_word by (cases as) auto
  show "words as @ s = [] \<or> hd (words as @ s) \<notin> set X \<inter> set symbols"
  proof (cases as)
    case Nil
    then show ?thesis using assms(2) by (auto simp: follows_def)
  next
    case (Cons b bs)
    then show ?thesis using assms(1) word_char_not_white by (cases b) (auto simp: word_def)
  qed
qed

lemma parseargs_words:
  assumes "list_all word as" "k + length as < MAXARGS" "follows ''<>|&;('' s"
  shows "\<exists>us. parseargs k (EXEC ts) (words as @ s) = Parsed (EXEC (ts @ us)) s \<and> map tok_text us = as"
  using assms(1,2)
proof (induction as arbitrary: k ts)
  case Nil
  show ?case
  proof (cases "s = []")
    case True
    have "peek [] ''|)&;'' = (False, [])" "gettoken [] = (CHR 0x00, [], [], [])"
      by (simp_all add: peek_def gettoken_end skip_white_def)
    from parseargs_eq [OF this] show ?thesis using True by simp
  next
    case False
    then have "hd s = CHR '')''" using assms(3) by (auto simp: follows_def symbols_def)
    then have p: "peek s ''|)&;'' = (True, s)"
      using False peek_yes [of "CHR '')''" "''|)&;''" "tl s"] by (cases s) (simp_all add: symbols_def)
    show ?thesis by (subst parseargs.simps) (simp add: p)
  qed
next
  case (Cons a as)
  define r where "r = words as @ s"
  have a: "word a" and as: "list_all word as" "Suc k + length as < MAXARGS" using Cons.prems by simp_all
  note st = words_start [OF as(1) assms(3), folded r_def]
  have w: "\<not> word_char (CHR '' '')" "skip_white (CHR '' '' # r) = r"
    using st(1) by (simp_all add: word_char_def strchr_sets whitespace_def skip_white_def)
  have "hd (a @ '' '' @ r) \<notin> set ''|)&;''" using a word_char_not_white set_symbols by (cases a) (auto simp: word_def)
  then have p: "peek (a @ '' '' @ r) ''|)&;'' = (False, a @ '' '' @ r)"
    using skip_white_word [OF a] by (intro peek_no) simp_all
  have g: "gettoken (a @ '' '' @ r) = (CHR ''a'', a @ '' '' @ r, '' '' @ r, r)"
    using gettoken_text [OF a, of "'' '' @ r"] w by simp
  have "peek r ''<>'' = (False, r)" using st by (intro peek_no) (auto simp: symbols_def)
  then have "parseredirs d r = Parsed d r" for d by (subst parseredirs.simps) simp
  then have "parseargs k (EXEC ts) (a @ '' '' @ r) = parseargs (Suc k) (EXEC (ts @ [(a @ '' '' @ r, '' '' @ r)])) r"
    unfolding parseargs_eq [OF p g] using as(2) by simp
  moreover obtain us where "parseargs (Suc k) (EXEC (ts @ [(a @ '' '' @ r, '' '' @ r)])) r =
      Parsed (EXEC ((ts @ [(a @ '' '' @ r, '' '' @ r)]) @ us)) s" "map tok_text us = as"
    using Cons.IH [OF as] unfolding r_def by blast
  moreover have "tok_text (a @ '' '' @ r, '' '' @ r) = a" by (rule tok_text_append)
  ultimately show ?case
    by (intro exI [of _ "(a @ '' '' @ r, '' '' @ r) # us"]) (simp add: r_def)
qed

text \<open>\<open>reads a\<close>: a line for \<open>a\<close>, before the end or a closing parenthesis, is read as \<open>a\<close>.\<close>

definition reads :: "string cmd \<Rightarrow> bool" where
  "reads a \<longleftrightarrow> (\<forall>n s. follows ''<>|&;('' s \<longrightarrow> 4 * length (unparse a @ s) + 4 \<le> n \<longrightarrow>
     (\<exists>c. parseline n (unparse a @ s) = Parsed c s \<and> map_cmd tok_text c = a))"

lemma line_end:
  assumes "parsepipe n ps = Parsed c s" "follows ''<>|&;('' s"
  shows "parseline (Suc n) ps = Parsed c s"
proof -
  have "follows ''&'' s" using assms(2) by (auto simp: follows_def)
  then show ?thesis using assms by (simp add: parse_eqs parsebacks_none accept_no)
qed

lemma unparse_start: "writable a \<Longrightarrow> skip_white (unparse a @ CHR '')'' # s) = unparse a @ CHR '')'' # s"
proof (cases a)
  case (EXEC args)
  assume "writable a"
  then show ?thesis using words_start(1) [of args "[]" "CHR '')'' # s"] EXEC
    by (simp add: words_def follows_def symbols_def)
qed (auto intro!: skip_white_id simp: whitespace_def)

text \<open>A command in parentheses.\<close>

lemma exec_block:
  assumes a: "reads a" "writable a" and s: "follows X s" and n: "4 * length (''('' @ unparse a @ '')'' @ s) + 2 \<le> n"
  shows "\<exists>c. map_cmd tok_text c = a \<and> parseexec n (''('' @ unparse a @ '')'' @ s) = parseredirs c s"
proof -
  obtain m where m: "n = Suc (Suc m)" using n by (cases n; cases "n - 1") auto
  have "4 * length (unparse a @ '')'' @ s) + 4 \<le> m" using n m by simp
  moreover have "follows ''<>|&;('' ('')'' @ s)" by (simp add: follows_def symbols_def)
  ultimately obtain c where c: "parseline m (unparse a @ '')'' @ s) = Parsed c ('')'' @ s)" "map_cmd tok_text c = a"
    using a(1) unfolding reads_def by blast
  have "parseblock (Suc m) (''('' @ unparse a @ '')'' @ s) = parseredirs c s"
    using c unparse_start [OF a(2), of s] skip_white_follows [OF s]
    by (simp add: parse_eqs accept_yes symbols_def)
  moreover have "peek (''('' @ unparse a @ '')'' @ s) ''('' = (True, ''('' @ unparse a @ '')'' @ s)"
    using peek_yes [of "CHR ''(''" "''(''"] by (simp add: symbols_def)
  ultimately show ?thesis using parseexec_eq m c(2) by fastforce
qed

lemma pipe_block:
  assumes a: "reads a" "writable a" and s: "follows ''<>|'' s" and n: "4 * length (''('' @ unparse a @ '')'' @ s) + 3 \<le> n"
  shows "\<exists>c. map_cmd tok_text c = a \<and> parsepipe n (''('' @ unparse a @ '')'' @ s) = Parsed c s"
proof -
  obtain m where m: "n = Suc m" using n by (cases n) auto
  have "4 * length (''('' @ unparse a @ '')'' @ s) + 2 \<le> m" using n m by simp
  from exec_block [OF a s this] obtain c where c: "map_cmd tok_text c = a"
    "parseexec m (''('' @ unparse a @ '')'' @ s) = parseredirs c s" by blast
  have "follows ''<>'' s" using s by (auto simp: follows_def)
  then have "parsepipe n (''('' @ unparse a @ '')'' @ s) = Parsed c s"
    unfolding m parse_eqs c(2) using accept_no [OF s, of "''|''"] by (simp add: parseredirs_none)
  then show ?thesis using c(1) by blast
qed

lemma readsI:
  assumes "\<And>n s. follows ''<>|&;('' s \<Longrightarrow> 4 * length (unparse a @ s) + 3 \<le> n \<Longrightarrow>
    \<exists>c. parseline (Suc n) (unparse a @ s) = Parsed c s \<and> map_cmd tok_text c = a"
  shows "reads a"
  unfolding reads_def
proof (intro allI impI)
  fix n s assume "follows ''<>|&;('' s" "4 * length (unparse a @ s) + 4 \<le> n"
  then show "\<exists>c. parseline n (unparse a @ s) = Parsed c s \<and> map_cmd tok_text c = a"
    using assms [of s "n - 1"] by (cases n) auto
qed

lemma reads_exec:
  assumes w: "writable (EXEC args)"
  shows "reads (EXEC args)"
proof (rule readsI)
  fix n s assume s: "follows ''<>|&;('' s" and n: "4 * length (unparse (EXEC args) @ s) + 3 \<le> n"
  obtain m where m: "n = Suc (Suc m)" using n by (cases n; cases "n - 1") auto
  have e: "unparse (EXEC args) @ s = words args @ s" by (simp add: words_def)
  have args: "list_all word args" "0 + length args < MAXARGS" using w by simp_all
  note st = words_start [OF args(1) s]
  have p: "peek (words args @ s) ''('' = (False, words args @ s)" using st by (intro peek_no) (auto simp: symbols_def)
  have "peek (words args @ s) ''<>'' = (False, words args @ s)" using st by (intro peek_no) (auto simp: symbols_def)
  then have r: "parseredirs (EXEC []) (words args @ s) = Parsed (EXEC []) (words args @ s)"
    by (subst parseredirs.simps) simp
  obtain us where us: "parseargs 0 (EXEC []) (words args @ s) = Parsed (EXEC us) s" "map tok_text us = args"
    using parseargs_words [OF args s, of "[]"] by auto
  have "parseexec (Suc m) (words args @ s) = Parsed (EXEC us) s" unfolding parseexec_eq [OF p] using r us(1) by simp
  then have "parsepipe n (words args @ s) = Parsed (EXEC us) s"
    unfolding m parse_eqs using accept_no [OF s, of "''|''"] by simp
  from line_end [OF this s] show "\<exists>c. parseline (Suc n) (unparse (EXEC args) @ s) = Parsed c s \<and> map_cmd tok_text c = EXEC args"
    using us(2) e by auto
qed

lemma reads_redir:
  assumes a: "reads a" and w: "writable (REDIR a f mode fd)"
  shows "reads (REDIR a f mode fd)"
proof (rule readsI)
  fix n s assume s: "follows ''<>|&;('' s" and n: "4 * length (unparse (REDIR a f mode fd) @ s) + 3 \<le> n"
  define tok where "tok = (if fd = 0 then CHR ''<'' else CHR ''>'')"
  have t: "tok = CHR ''<'' \<or> tok = CHR ''>''" by (simp add: tok_def)
  have e: "unparse (REDIR a f mode fd) @ s = ''('' @ unparse a @ '')'' @ tok # f @ s" by (simp add: tok_def)
  obtain m where m: "n = Suc m" using n by (cases n) auto
  have "4 * length (''('' @ unparse a @ '')'' @ tok # f @ s) + 2 \<le> m" using n m e by simp
  moreover have "follows [] (tok # f @ s)" using t by (auto simp: follows_def symbols_def)
  moreover have wa: "writable a" "word f" using w by simp_all
  ultimately obtain c where c: "map_cmd tok_text c = a"
    "parseexec m (''('' @ unparse a @ '')'' @ tok # f @ s) = parseredirs c (tok # f @ s)"
    using exec_block [OF a, of "[]" "tok # f @ s" m] by blast
  have "follows ''<>'' s" using s by (auto simp: follows_def)
  from parseredirs_one [OF wa(2) this t]
  have "parsepipe n (''('' @ unparse a @ '')'' @ tok # f @ s) = Parsed (redir_of tok c (f @ s, s)) s"
    unfolding m parse_eqs c(2) using accept_no [OF s, of "''|''"] by simp
  moreover have "map_cmd tok_text (redir_of tok c (f @ s, s)) = REDIR a f mode fd"
    using w c(1) by (auto simp: redir_of_def tok_def)
  ultimately show "\<exists>c. parseline (Suc n) (unparse (REDIR a f mode fd) @ s) = Parsed c s \<and> map_cmd tok_text c = REDIR a f mode fd"
    using line_end [OF _ s] e by auto
qed

lemma reads_pipe:
  assumes l: "reads l" "writable l" and r: "reads r" "writable r"
  shows "reads (PIPE l r)"
proof (rule readsI)
  fix n s assume s: "follows ''<>|&;('' s" and n: "4 * length (unparse (PIPE l r) @ s) + 3 \<le> n"
  let ?r = "''('' @ unparse r @ '')'' @ s"
  have e: "unparse (PIPE l r) @ s = ''('' @ unparse l @ '')'' @ ''|'' @ ?r" by simp
  obtain m where m: "n = Suc m" using n by (cases n) auto
  have "follows ''<>'' (''|'' @ ?r)" "follows ''<>|'' s" using s by (auto simp: follows_def symbols_def)
  note f = this
  have "4 * length (''('' @ unparse l @ '')'' @ ''|'' @ ?r) + 2 \<le> m" using n m e by simp
  from exec_block [OF l f(1) this] obtain c where c: "map_cmd tok_text c = l"
    "parseexec m (''('' @ unparse l @ '')'' @ ''|'' @ ?r) = Parsed c (''|'' @ ?r)"
    using parseredirs_none [OF f(1)] by auto
  have "4 * length ?r + 3 \<le> m" using n m by simp
  from pipe_block [OF r f(2) this] obtain d where d: "map_cmd tok_text d = r" "parsepipe m ?r = Parsed d s" by blast
  have "skip_white ?r = ?r" by (rule skip_white_id) (simp add: whitespace_def)
  then have "parsepipe n (''('' @ unparse l @ '')'' @ ''|'' @ ?r) = Parsed (PIPE c d) s"
    unfolding m parse_eqs c(2) using d(2) by (simp add: accept_yes symbols_def)
  from line_end [OF this s] show "\<exists>c. parseline (Suc n) (unparse (PIPE l r) @ s) = Parsed c s \<and> map_cmd tok_text c = PIPE l r"
    unfolding e using c(1) d(1) by auto
qed

lemma reads_list:
  assumes l: "reads l" "writable l" and r: "reads r" "writable r"
  shows "reads (LIST l r)"
proof (rule readsI)
  fix n s assume s: "follows ''<>|&;('' s" and n: "4 * length (unparse (LIST l r) @ s) + 3 \<le> n"
  let ?r = "''('' @ unparse r @ '')'' @ s"
  have e: "unparse (LIST l r) @ s = ''('' @ unparse l @ '')'' @ '';'' @ ?r" by simp
  obtain m where m: "n = Suc m" using n by (cases n) auto
  have f: "follows ''<>|'' ('';'' @ ?r)" "follows ''&'' ('';'' @ ?r)" "follows ''<>|'' s"
    using s by (auto simp: follows_def symbols_def)
  obtain c where c: "map_cmd tok_text c = l" "parsepipe n (''('' @ unparse l @ '')'' @ '';'' @ ?r) = Parsed c ('';'' @ ?r)"
    using pipe_block [OF l f(1)] n e by fastforce
  have "4 * length ?r + 3 \<le> m" using n m by simp
  from pipe_block [OF r f(3) this] obtain d where d: "map_cmd tok_text d = r" "parsepipe m ?r = Parsed d s" by blast
  note d' = line_end [OF d(2) s, folded m]
  have "skip_white ?r = ?r" by (rule skip_white_id) (simp add: whitespace_def)
  then have "parseline (Suc n) (''('' @ unparse l @ '')'' @ '';'' @ ?r) = Parsed (LIST c d) s"
    unfolding parse_eqs c(2) using d' parsebacks_none [OF f(2), of c] by (simp add: accept_yes symbols_def)
  then show "\<exists>c. parseline (Suc n) (unparse (LIST l r) @ s) = Parsed c s \<and> map_cmd tok_text c = LIST l r"
    unfolding e using c(1) d(1) by auto
qed

lemma reads_back:
  assumes a: "reads a" "writable a"
  shows "reads (BACK a)"
proof (rule readsI)
  fix n s assume s: "follows ''<>|&;('' s" and n: "4 * length (unparse (BACK a) @ s) + 3 \<le> n"
  have e: "unparse (BACK a) @ s = ''('' @ unparse a @ '')'' @ ''&'' @ s" by simp
  have f: "follows ''<>|'' (''&'' @ s)" "follows ''&'' s" using s by (auto simp: follows_def symbols_def)
  obtain c where c: "map_cmd tok_text c = a" "parsepipe n (''('' @ unparse a @ '')'' @ ''&'' @ s) = Parsed c (''&'' @ s)"
    using pipe_block [OF a f(1)] n e by fastforce
  have "peek (''&'' @ s) ''&'' = (True, ''&'' @ s)" "gettoken (''&'' @ s) = (CHR ''&'', ''&'' @ s, s, s)"
    using peek_yes [of "CHR ''&''" "''&''" s] gettoken_one [of "CHR ''&''" s] skip_white_follows [OF s]
    by (simp_all add: symbols_def)
  from parsebacks_eq [OF this, of c] have "parsebacks c (''&'' @ s) = (BACK c, s)" using parsebacks_none [OF f(2)] by simp
  then have "parseline (Suc n) (''('' @ unparse a @ '')'' @ ''&'' @ s) = Parsed (BACK c) s"
    unfolding parse_eqs c(2) using accept_no [OF s, of "'';''"] by simp
  then show "\<exists>c. parseline (Suc n) (unparse (BACK a) @ s) = Parsed c s \<and> map_cmd tok_text c = BACK a"
    unfolding e using c(1) by auto
qed

lemma writable_reads: "writable a \<Longrightarrow> reads a"
  by (induction a) (simp_all add: reads_exec reads_redir reads_pipe reads_list reads_back)

text \<open>
  C33: parsing undoes printing. Every command that can be written, with parentheses around the parts of
  pipes, lists, redirections and background commands, is read back by \<open>parsecmd\<close> as the same tree.
\<close>

theorem parsecmd_unparse:
  assumes "writable a"
  shows "\<exists>c. parsecmd (unparse a) = Parsed c [] \<and> map_cmd tok_text c = a"
proof -
  have "follows ''<>|&;('' []" by (simp add: follows_def)
  then obtain c where "parseline (4 * length (unparse a) + 4) (unparse a @ []) = Parsed c []" "map_cmd tok_text c = a"
    using writable_reads [OF assms] unfolding reads_def by force
  then show ?thesis by (auto simp: parsecmd_def peek_def skip_white_def)
qed

theorem parsecmd_unparse_witness:
  "\<exists>c. parsecmd (unparse (PIPE (EXEC [''cat'', ''README'']) (REDIR (EXEC [''grep'', ''xv6'']) ''out'' 0x201 1))) = Parsed c []
    \<and> map_cmd tok_text c = PIPE (EXEC [''cat'', ''README'']) (REDIR (EXEC [''grep'', ''xv6'']) ''out'' 0x201 1)"
  by (rule parsecmd_unparse) (simp add: word_def word_char_def strchr_sets whitespace_def symbols_def)

theorem parsecmd_well_formed_witness:
  "wf_cmd ''ls'' (EXEC [(''ls'', [])])
    \<and> cstring (length ''ls'') (nulterminate (length ''ls'') (EXEC [(''ls'', [])]) (''ls'' @ [CHR 0x00])) (''ls'', [])
        = tok_text (''ls'', [])"
proof -
  have "parsecmd ''ls'' = Parsed (EXEC [(''ls'', [])]) []" by code_simp
  from parsecmd_well_formed [OF this] show ?thesis by simp
qed

end
