(* ===== verification/Ports.thy ===== *)
theory Ports
  imports Machine
begin

unbundle bit_operations_syntax

text \<open>
  Devices as the drivers see them: the instructions of x86.h that read and write ports, and the
  volatile words of devices mapped in memory. A device is a parameter of the drivers: what it returns
  depends on the accesses made before, which the state of a driver records, the oldest first.
\<close>

datatype io =
    Inb u16
  | Outb u16 u8
  | Insl u16 nat
  | Outsl u16 "u8 list"
  | Mmio_read u32
  | Mmio_write u32 u32

text \<open>
  \<open>dev_in\<close> is the byte read from a port, \<open>dev_data\<close> the bytes an \<open>insl\<close> of so many words reads, and
  \<open>dev_word\<close> the word at an address of the device.
\<close>

record device =
  dev_in :: "io list \<Rightarrow> u16 \<Rightarrow> u8"
  dev_data :: "io list \<Rightarrow> u16 \<Rightarrow> nat \<Rightarrow> u8 list"
  dev_word :: "io list \<Rightarrow> u32 \<Rightarrow> u32"

definition inb :: "device \<Rightarrow> u16 \<Rightarrow> io list \<Rightarrow> u8 \<times> io list" where
  "inb d port h = (dev_in d h port, h @ [Inb port])"

definition outb :: "u16 \<Rightarrow> u8 \<Rightarrow> io list \<Rightarrow> io list" where
  "outb port data h = h @ [Outb port data]"

definition insl :: "device \<Rightarrow> u16 \<Rightarrow> nat \<Rightarrow> io list \<Rightarrow> u8 list \<times> io list" where
  "insl d port cnt h = (dev_data d h port cnt, h @ [Insl port cnt])"

definition outsl :: "u16 \<Rightarrow> u8 list \<Rightarrow> io list \<Rightarrow> io list" where
  "outsl port data h = h @ [Outsl port data]"

text \<open>Volatile words of a device.\<close>

definition mmio_read :: "device \<Rightarrow> u32 \<Rightarrow> io list \<Rightarrow> u32 \<times> io list" where
  "mmio_read d a h = (dev_word d h a, h @ [Mmio_read a])"

definition mmio_write :: "u32 \<Rightarrow> u32 \<Rightarrow> io list \<Rightarrow> io list" where
  "mmio_write a v h = h @ [Mmio_write a v]"

end
