(* ===== verification/Devices.thy ===== *)
theory Devices
  imports Ports
begin

unbundle bit_operations_syntax

text \<open>
  The drivers that only program device registers: picirq.c, ioapic.c, lapic.c and uart.c. Each
  operation appends its accesses to the list \<open>h\<close> of those made so far. The redirection table that
  ioapic.c programs and the date that \<open>cmostime\<close> reads are shown to be what they should be.
\<close>

section \<open>traps.h and picirq.c\<close>

abbreviation (input) T_IRQ0 :: u32 where "T_IRQ0 \<equiv> 32"
abbreviation (input) IRQ_TIMER :: u32 where "IRQ_TIMER \<equiv> 0"
abbreviation (input) IRQ_COM1 :: u32 where "IRQ_COM1 \<equiv> 4"
abbreviation (input) IRQ_IDE :: u32 where "IRQ_IDE \<equiv> 14"
abbreviation (input) IRQ_ERROR :: u32 where "IRQ_ERROR \<equiv> 19"
abbreviation (input) IRQ_SPURIOUS :: u32 where "IRQ_SPURIOUS \<equiv> 31"

definition picinit :: "io list \<Rightarrow> io list" where
  "picinit h = outb (0xA0 + 1) 0xFF (outb (0x20 + 1) 0xFF h)"

section \<open>ioapic.c\<close>

abbreviation (input) IOAPIC :: u32 where "IOAPIC \<equiv> 0xFEC00000"
abbreviation (input) REG_ID :: u32 where "REG_ID \<equiv> 0"
abbreviation (input) REG_VER :: u32 where "REG_VER \<equiv> 1"
abbreviation (input) REG_TABLE :: u32 where "REG_TABLE \<equiv> 0x10"
abbreviation (input) INT_DISABLED :: u32 where "INT_DISABLED \<equiv> 0x10000"

text \<open>The structure \<open>ioapic\<close>: the word \<open>reg\<close>, and \<open>data\<close> after three words of padding.\<close>

definition ioapicread :: "device \<Rightarrow> u32 \<Rightarrow> io list \<Rightarrow> u32 \<times> io list" where
  "ioapicread d reg h = mmio_read d (IOAPIC + 16) (mmio_write IOAPIC reg h)"

definition ioapicwrite :: "u32 \<Rightarrow> u32 \<Rightarrow> io list \<Rightarrow> io list" where
  "ioapicwrite reg dat h = mmio_write (IOAPIC + 16) dat (mmio_write IOAPIC reg h)"

definition ioapic_disable :: "nat \<Rightarrow> io list \<Rightarrow> io list" where
  "ioapic_disable i h =
     ioapicwrite (REG_TABLE + 2 * of_nat i + 1) 0
       (ioapicwrite (REG_TABLE + 2 * of_nat i) (INT_DISABLED OR (T_IRQ0 + of_nat i)) h)"

text \<open>The first result is the text printed.\<close>

definition ioapicinit :: "device \<Rightarrow> u8 \<Rightarrow> io list \<Rightarrow> string \<times> io list" where
  "ioapicinit d ioapicid h =
     (let (ver, h) = ioapicread d REG_VER h;
          maxintr = drop_bit 16 ver AND 0xFF;
          (id, h) = ioapicread d REG_ID h in
      (if drop_bit 24 id \<noteq> ucast ioapicid
       then ''ioapicinit: id isn'' @ [CHR 0x27] @ ''t equal to ioapicid; not a MP'' @ [CHR 0x0A] else [],
       fold ioapic_disable [0..<unat maxintr + 1] h))"

definition ioapicenable :: "u32 \<Rightarrow> u32 \<Rightarrow> io list \<Rightarrow> io list" where
  "ioapicenable irq cpunum h =
     ioapicwrite (REG_TABLE + 2 * irq + 1) (push_bit 24 cpunum) (ioapicwrite (REG_TABLE + 2 * irq) (T_IRQ0 + irq) h)"

section \<open>lapic.c: the local interrupt controller\<close>

text \<open>The registers, as indices of words from the address \<open>lapic\<close>, which is 0 when there is none.\<close>

abbreviation (input) ID :: u32 where "ID \<equiv> 0x0020 div 4"
abbreviation (input) VER :: u32 where "VER \<equiv> 0x0030 div 4"
abbreviation (input) TPR :: u32 where "TPR \<equiv> 0x0080 div 4"
abbreviation (input) EOI :: u32 where "EOI \<equiv> 0x00B0 div 4"
abbreviation (input) SVR :: u32 where "SVR \<equiv> 0x00F0 div 4"
abbreviation (input) ESR :: u32 where "ESR \<equiv> 0x0280 div 4"
abbreviation (input) ICRLO :: u32 where "ICRLO \<equiv> 0x0300 div 4"
abbreviation (input) ICRHI :: u32 where "ICRHI \<equiv> 0x0310 div 4"
abbreviation (input) TIMER :: u32 where "TIMER \<equiv> 0x0320 div 4"
abbreviation (input) PCINT :: u32 where "PCINT \<equiv> 0x0340 div 4"
abbreviation (input) LINT0 :: u32 where "LINT0 \<equiv> 0x0350 div 4"
abbreviation (input) LINT1 :: u32 where "LINT1 \<equiv> 0x0360 div 4"
abbreviation (input) ERROR :: u32 where "ERROR \<equiv> 0x0370 div 4"
abbreviation (input) TICR :: u32 where "TICR \<equiv> 0x0380 div 4"
abbreviation (input) TDCR :: u32 where "TDCR \<equiv> 0x03E0 div 4"

abbreviation (input) ENABLE :: u32 where "ENABLE \<equiv> 0x100"
abbreviation (input) INIT :: u32 where "INIT \<equiv> 0x500"
abbreviation (input) STARTUP :: u32 where "STARTUP \<equiv> 0x600"
abbreviation (input) DELIVS :: u32 where "DELIVS \<equiv> 0x1000"
abbreviation (input) ASSERT :: u32 where "ASSERT \<equiv> 0x4000"
abbreviation (input) LEVEL :: u32 where "LEVEL \<equiv> 0x8000"
abbreviation (input) BCAST :: u32 where "BCAST \<equiv> 0x80000"
abbreviation (input) X1 :: u32 where "X1 \<equiv> 0xB"
abbreviation (input) PERIODIC :: u32 where "PERIODIC \<equiv> 0x20000"
abbreviation (input) MASKED :: u32 where "MASKED \<equiv> 0x10000"

definition lapicw :: "u32 \<Rightarrow> u32 \<Rightarrow> u32 \<Rightarrow> io list \<Rightarrow> io list" where
  "lapicw lapic index v h = mmio_write (lapic + 4 * index) v h @ [Mmio_read (lapic + 4 * ID)]"

text \<open>Waiting for the delivery of an interrupt may never end.\<close>

partial_function (option) lapic_delivered :: "device \<Rightarrow> u32 \<Rightarrow> io list \<Rightarrow> io list option" where
  "lapic_delivered d lapic h =
     (let (v, h) = mmio_read d (lapic + 4 * ICRLO) h in
      if v AND DELIVS \<noteq> 0 then lapic_delivered d lapic h else Some h)"

definition lapicinit :: "device \<Rightarrow> u32 \<Rightarrow> io list \<Rightarrow> io list option" where
  "lapicinit d lapic h =
     (if lapic = 0 then Some h
      else
        let h = lapicw lapic SVR (ENABLE OR (T_IRQ0 + IRQ_SPURIOUS)) h;
            h = lapicw lapic TDCR X1 h;
            h = lapicw lapic TIMER (PERIODIC OR (T_IRQ0 + IRQ_TIMER)) h;
            h = lapicw lapic TICR 10000000 h;
            h = lapicw lapic LINT0 MASKED h;
            h = lapicw lapic LINT1 MASKED h;
            (ver, h) = mmio_read d (lapic + 4 * VER) h;
            h = (if drop_bit 16 ver AND 0xFF \<ge> 4 then lapicw lapic PCINT MASKED h else h);
            h = lapicw lapic ERROR (T_IRQ0 + IRQ_ERROR) h;
            h = lapicw lapic ESR 0 h;
            h = lapicw lapic ESR 0 h;
            h = lapicw lapic EOI 0 h;
            h = lapicw lapic ICRHI 0 h;
            h = lapicw lapic ICRLO (BCAST OR INIT OR LEVEL) h in
        map_option (lapicw lapic TPR 0) (lapic_delivered d lapic h))"

definition lapicid :: "device \<Rightarrow> u32 \<Rightarrow> io list \<Rightarrow> u32 \<times> io list" where
  "lapicid d lapic h =
     (if lapic = 0 then (0, h)
      else let (v, h) = mmio_read d (lapic + 4 * ID) h in (drop_bit 24 v, h))"

definition lapiceoi :: "u32 \<Rightarrow> io list \<Rightarrow> io list" where
  "lapiceoi lapic h = (if lapic \<noteq> 0 then lapicw lapic EOI 0 h else h)"

text \<open>The warm reset vector: two half words at 40:67.\<close>

definition lapicstartap :: "u32 \<Rightarrow> u8 \<Rightarrow> u32 \<Rightarrow> memory \<Rightarrow> io list \<Rightarrow> memory \<times> io list" where
  "lapicstartap lapic apicid addr m h =
     (let h = outb 0x70 0xF h;
          h = outb (0x70 + 1) 0x0A h;
          wrv = P2V (push_bit 4 0x40 OR 0x67);
          m = m(wrv := 0, wrv + 1 := 0);
          m = m(wrv + 2 := byte_of 0 (drop_bit 4 addr), wrv + 3 := byte_of 1 (drop_bit 4 addr));
          h = lapicw lapic ICRHI (push_bit 24 (ucast apicid)) h;
          h = lapicw lapic ICRLO (INIT OR LEVEL OR ASSERT) h;
          h = lapicw lapic ICRLO (INIT OR LEVEL) h;
          startup = (\<lambda>h. lapicw lapic ICRLO (STARTUP OR drop_bit 12 addr)
                       (lapicw lapic ICRHI (push_bit 24 (ucast apicid)) h)) in
      (m, startup (startup h)))"

section \<open>lapic.c: the clock\<close>

record rtcdate =
  second :: u32
  minute :: u32
  hour :: u32
  day :: u32
  month :: u32
  year :: u32

definition cmos_read :: "device \<Rightarrow> u8 \<Rightarrow> io list \<Rightarrow> u32 \<times> io list" where
  "cmos_read d reg h = (let (v, h) = inb d 0x71 (outb 0x70 reg h) in (ucast v, h))"

definition fill_rtcdate :: "device \<Rightarrow> io list \<Rightarrow> rtcdate \<times> io list" where
  "fill_rtcdate d h =
     (let (se, h) = cmos_read d 0x00 h;
          (mi, h) = cmos_read d 0x02 h;
          (ho, h) = cmos_read d 0x04 h;
          (da, h) = cmos_read d 0x07 h;
          (mo, h) = cmos_read d 0x08 h;
          (ye, h) = cmos_read d 0x09 h in
      (\<lparr>second = se, minute = mi, hour = ho, day = da, month = mo, year = ye\<rparr>, h))"

text \<open>The loop of \<open>cmostime\<close>, until two readings agree.\<close>

partial_function (option) cmos_stable :: "device \<Rightarrow> io list \<Rightarrow> (rtcdate \<times> io list) option" where
  "cmos_stable d h =
     (let (t1, h) = fill_rtcdate d h;
          (a, h) = cmos_read d 0x0a h in
      if a AND 0x80 \<noteq> 0 then cmos_stable d h
      else let (t2, h) = fill_rtcdate d h in
           if t1 = t2 then Some (t1, h) else cmos_stable d h)"

definition CONV :: "u32 \<Rightarrow> u32" where
  "CONV x = drop_bit 4 x * 10 + (x AND 0xf)"

definition cmostime :: "device \<Rightarrow> io list \<Rightarrow> (rtcdate \<times> io list) option" where
  "cmostime d h =
     (let (sb, h) = cmos_read d 0x0b h;
          bcd = (sb AND push_bit 2 1 = 0) in
      case cmos_stable d h of
        None \<Rightarrow> None
      | Some (t, h) \<Rightarrow>
          let t = (if bcd
                   then \<lparr>second = CONV (second t), minute = CONV (minute t), hour = CONV (hour t),
                         day = CONV (day t), month = CONV (month t), year = CONV (year t)\<rparr>
                   else t) in
          Some (t\<lparr>year := year t + 2000\<rparr>, h))"

section \<open>uart.c\<close>

abbreviation (input) COM1 :: u16 where "COM1 \<equiv> 0x3f8"

text \<open>The loop of \<open>uartputc\<close>; \<open>n\<close> is the number of rounds left.\<close>

fun uart_wait :: "nat \<Rightarrow> device \<Rightarrow> io list \<Rightarrow> io list" where
  "uart_wait 0 d h = h"
| "uart_wait (Suc n) d h = (let (v, h) = inb d (COM1 + 5) h in if v AND 0x20 = 0 then uart_wait n d h else h)"

definition uartputc :: "device \<Rightarrow> bool \<Rightarrow> u8 \<Rightarrow> io list \<Rightarrow> io list" where
  "uartputc d uart c h = (if \<not> uart then h else outb (COM1 + 0) c (uart_wait 128 d h))"

text \<open>The first result is the variable \<open>uart\<close>.\<close>

definition uartinit :: "device \<Rightarrow> io list \<Rightarrow> bool \<times> io list" where
  "uartinit d h =
     (let h = outb (COM1 + 2) 0 h;
          h = outb (COM1 + 3) 0x80 h;
          h = outb (COM1 + 0) (of_nat (115200 div 9600)) h;
          h = outb (COM1 + 1) 0 h;
          h = outb (COM1 + 3) 0x03 h;
          h = outb (COM1 + 4) 0 h;
          h = outb (COM1 + 1) 0x01 h;
          (st, h) = inb d (COM1 + 5) h in
      if st = 0xFF then (False, h)
      else
        let (_, h) = inb d (COM1 + 2) h;
            (_, h) = inb d (COM1 + 0) h;
            h = ioapicenable IRQ_COM1 0 h in
        (True, fold (\<lambda>c. uartputc d True (of_char c)) (''xv6...'' @ [CHR 0x0A]) h))"

definition uartgetc :: "device \<Rightarrow> bool \<Rightarrow> io list \<Rightarrow> int \<times> io list" where
  "uartgetc d uart h =
     (if \<not> uart then (- 1, h)
      else let (st, h) = inb d (COM1 + 5) h in
           if st AND 0x01 = 0 then (- 1, h)
           else let (v, h) = inb d (COM1 + 0) h in (int (unat v), h))"

section \<open>The redirection table\<close>

text \<open>The registers of the I/O interrupt controller: a write to \<open>data\<close> goes to the register last selected.\<close>

fun ioapic_step :: "io \<Rightarrow> u32 \<times> (u32 \<Rightarrow> u32) \<Rightarrow> u32 \<times> (u32 \<Rightarrow> u32)" where
  "ioapic_step (Mmio_write a v) (sel, regs) =
     (if a = IOAPIC then (v, regs) else if a = IOAPIC + 16 then (sel, regs(sel := v)) else (sel, regs))"
| "ioapic_step _ x = x"

definition ioapic_regs :: "io list \<Rightarrow> u32 \<Rightarrow> u32" where
  "ioapic_regs h = snd (fold ioapic_step h (0, \<lambda>_. 0))"

lemma ioapic_regs_append [simp]:
  "ioapic_regs (ioapicwrite r v h) = (ioapic_regs h)(r := v)"
  "ioapic_regs (snd (ioapicread d r h)) = ioapic_regs h"
  by (cases "fold ioapic_step h (0, \<lambda>_. 0)";
      simp add: ioapic_regs_def ioapicwrite_def ioapicread_def mmio_write_def mmio_read_def)+

lemma table_index:
  assumes "i < 256" "j < 256"
  shows "REG_TABLE + 2 * of_nat i = REG_TABLE + 2 * of_nat j \<longleftrightarrow> i = j"
    "REG_TABLE + 2 * of_nat i + 1 = REG_TABLE + 2 * of_nat j + 1 \<longleftrightarrow> i = j"
    "REG_TABLE + 2 * of_nat i \<noteq> REG_TABLE + 2 * of_nat j + 1"
proof -
  have u: "unat (REG_TABLE + 2 * of_nat k) = 16 + 2 * k" "unat (REG_TABLE + 2 * of_nat k + 1) = 17 + 2 * k" if "k < 256" for k
  proof -
    have "(2 * of_nat k :: u32) = of_nat (2 * k)" "REG_TABLE + of_nat (2 * k) = of_nat (16 + 2 * k)"
      "REG_TABLE + of_nat (2 * k) + 1 = of_nat (17 + 2 * k)" by simp_all
    then show "unat (REG_TABLE + 2 * of_nat k) = 16 + 2 * k" "unat (REG_TABLE + 2 * of_nat k + 1) = 17 + 2 * k"
      using that by (simp_all only: unat_of_nat) simp_all
  qed
  show "REG_TABLE + 2 * of_nat i = REG_TABLE + 2 * of_nat j \<longleftrightarrow> i = j"
    "REG_TABLE + 2 * of_nat i + 1 = REG_TABLE + 2 * of_nat j + 1 \<longleftrightarrow> i = j"
    "REG_TABLE + 2 * of_nat i \<noteq> REG_TABLE + 2 * of_nat j + 1"
    using u [OF assms(1)] u [OF assms(2)] by (auto simp only: word_unat_eq_iff) presburger
qed

lemma disabled_entries:
  "n \<le> 256 \<Longrightarrow> i < n \<Longrightarrow>
     ioapic_regs (fold ioapic_disable [0..<n] h) (REG_TABLE + 2 * of_nat i) = INT_DISABLED OR (T_IRQ0 + of_nat i)
     \<and> ioapic_regs (fold ioapic_disable [0..<n] h) (REG_TABLE + 2 * of_nat i + 1) = 0"
proof (induction n)
  case (Suc n)
  then show ?case
    using table_index [of i n] table_index [of n i] by (cases "i = n") (auto simp: ioapic_disable_def)
qed simp

text \<open>
  After \<open>ioapicinit\<close> and \<open>ioapicenable\<close> for one interrupt, that interrupt is routed to the CPU with its
  vector and every other one the controller has is masked.
\<close>

lemma ioapic_enabled_only:
  fixes cpunum :: u32
  assumes "ioapicinit d ioapicid h = (msg, h')" "irq < 256" "i < 256"
    and "i \<le> unat (drop_bit 16 (fst (ioapicread d REG_VER h)) AND 0xFF :: u32)"
  defines "regs \<equiv> ioapic_regs (ioapicenable (of_nat irq) cpunum h')"
  shows "regs (REG_TABLE + 2 * of_nat irq) = T_IRQ0 + of_nat irq"
    "regs (REG_TABLE + 2 * of_nat irq + 1) = push_bit 24 cpunum"
    "i \<noteq> irq \<Longrightarrow> regs (REG_TABLE + 2 * of_nat i) = INT_DISABLED OR (T_IRQ0 + of_nat i)"
    "i \<noteq> irq \<Longrightarrow> regs (REG_TABLE + 2 * of_nat i + 1) = 0"
proof -
  define n where "n = unat (drop_bit 16 (fst (ioapicread d REG_VER h)) AND 0xFF :: u32)"
  have "x AND 0xFF \<le> 0xFF" for x :: u32 by (rule word_and_le1)
  then have "unat (x AND 0xFF) \<le> 0xFF" for x :: u32 by (simp add: word_le_nat_alt)
  then have n: "n + 1 \<le> 256" unfolding n_def by simp
  obtain h0 where h': "h' = fold ioapic_disable [0..<n + 1] h0"
    using assms(1) unfolding ioapicinit_def n_def by (auto simp: Let_def split: prod.splits)
  note D = disabled_entries [OF n, of i h0, folded h']
  note T = table_index [OF assms(3,2)] table_index [OF assms(2,3)]
  show "regs (REG_TABLE + 2 * of_nat irq) = T_IRQ0 + of_nat irq" "regs (REG_TABLE + 2 * of_nat irq + 1) = push_bit 24 cpunum"
    by (simp_all add: regs_def ioapicenable_def)
  show "regs (REG_TABLE + 2 * of_nat i) = INT_DISABLED OR (T_IRQ0 + of_nat i)" if "i \<noteq> irq"
    using that T D assms(4) unfolding regs_def ioapicenable_def n_def by simp
  show "regs (REG_TABLE + 2 * of_nat i + 1) = 0" if "i \<noteq> irq"
    using that T D assms(4) unfolding regs_def ioapicenable_def n_def by simp
qed

section \<open>The date\<close>

text \<open>A clock whose registers \<open>f\<close> do not change while they are read.\<close>

definition steady_clock :: "device \<Rightarrow> (u8 \<Rightarrow> u8) \<Rightarrow> bool" where
  "steady_clock d f \<longleftrightarrow> (\<forall>h r. dev_in d (h @ [Outb 0x70 r]) 0x71 = f r)"

definition bcd :: "nat \<Rightarrow> u8" where
  "bcd n = of_nat (16 * (n div 10) + n mod 10)"

lemma CONV_bcd: "n < 100 \<Longrightarrow> CONV (ucast (bcd n)) = of_nat n"
proof -
  have "list_all (\<lambda>n. CONV (ucast (bcd n)) = of_nat n) [0..<100]" by code_simp
  then show "n < 100 \<Longrightarrow> CONV (ucast (bcd n)) = of_nat n" by (simp add: list_all_iff)
qed

lemma cmos_read_steady: "steady_clock d f \<Longrightarrow> cmos_read d r h = (ucast (f r), h @ [Outb 0x70 r, Inb 0x71])"
  by (simp add: cmos_read_def inb_def outb_def steady_clock_def)

lemma cmostime_steady:
  assumes c: "steady_clock d f" and up: "f 0x0a AND 0x80 = 0" and mode: "f 0x0b AND 4 = 0"
    and f: "f 0 = bcd se" "f 2 = bcd mi" "f 4 = bcd ho" "f 7 = bcd da" "f 8 = bcd mo" "f 9 = bcd ye"
    and n: "se < 100" "mi < 100" "ho < 100" "da < 100" "mo < 100" "ye < 100"
  shows "\<exists>h'. cmostime d h = Some (\<lparr>second = of_nat se, minute = of_nat mi, hour = of_nat ho, day = of_nat da,
     month = of_nat mo, year = of_nat (2000 + ye)\<rparr>, h')"
proof -
  have u: "unat (ucast w :: u32) = unat w" for w :: u8
    using unsigned_less [of w, where 'a = nat] by (simp add: unsigned_ucast_eq take_bit_eq_mod)
  have "((ucast w :: u32) = 0) = (w = 0)" for w :: u8 by (simp add: word_unat_eq_iff u)
  then have z: "((ucast x :: u32) AND ucast y = 0) = (x AND y = 0)" for x y :: u8
    by (simp add: unsigned_and_eq [symmetric])
  have "ucast (f 0x0a) AND (0x80 :: u32) = 0" "ucast (f 0x0b) AND (4 :: u32) = 0"
    using up mode z [of "f 0x0a" "0x80"] z [of "f 0x0b" "4"] by simp_all
  then show ?thesis
    by (simp add: cmostime_def cmos_stable.simps fill_rtcdate_def cmos_read_steady [OF c] Let_def f CONV_bcd n add.commute)
qed

end
