(* ===== verification/Ide.thy ===== *)
theory Ide
  imports Bio Devices
begin

unbundle bit_operations_syntax

text \<open>
  ide.c: the driver of the real disk, with its queue of requests linked through the buffers. A request
  puts the caller to sleep; the interrupt handler completes the first request and starts the next.
  For a device that keeps what is written to its sectors, the driver is shown to do in the end what
  the disk in memory of memide.c does at once, request by request in the order they were made.
\<close>

section \<open>State\<close>

abbreviation (input) IDE_BSY :: u8 where "IDE_BSY \<equiv> 0x80"
abbreviation (input) IDE_DRDY :: u8 where "IDE_DRDY \<equiv> 0x40"
abbreviation (input) IDE_DF :: u8 where "IDE_DF \<equiv> 0x20"
abbreviation (input) IDE_ERR :: u8 where "IDE_ERR \<equiv> 0x01"
abbreviation (input) IDE_CMD_READ :: u8 where "IDE_CMD_READ \<equiv> 0x20"
abbreviation (input) IDE_CMD_WRITE :: u8 where "IDE_CMD_WRITE \<equiv> 0x30"

text \<open>\<open>ports\<close> records the accesses to the disk's ports.\<close>

record idestate = bstate +
  idequeue :: "nat option"
  havedisk1 :: bool
  ports :: "io list"

section \<open>Operations\<close>

text \<open>Polling the status may never end: \<open>None\<close>.\<close>

partial_function (option) idewait_loop :: "device \<Rightarrow> io list \<Rightarrow> (u8 \<times> io list) option" where
  "idewait_loop d h =
     (let (r, h) = inb d 0x1f7 h in
      if r AND (IDE_BSY OR IDE_DRDY) = IDE_DRDY then Some (r, h) else idewait_loop d h)"

definition idewait :: "device \<Rightarrow> bool \<Rightarrow> 'a idestate_scheme \<Rightarrow> ('a idestate_scheme, int) kres" where
  "idewait d checkerr s =
     (case idewait_loop d (ports s) of
        None \<Rightarrow> Diverges
      | Some (r, h) \<Rightarrow>
          Done (if checkerr \<and> r AND (IDE_DF OR IDE_ERR) \<noteq> 0 then - 1 else 0) (s\<lparr>ports := h\<rparr>))"

text \<open>The loop of \<open>ideinit\<close> that looks for a second disk, \<open>n\<close> reads at most.\<close>

fun find_disk1 :: "nat \<Rightarrow> device \<Rightarrow> io list \<Rightarrow> bool \<times> io list" where
  "find_disk1 0 d h = (False, h)"
| "find_disk1 (Suc n) d h = (let (r, h) = inb d 0x1f7 h in if r \<noteq> 0 then (True, h) else find_disk1 n d h)"

definition ideinit :: "device \<Rightarrow> u32 \<Rightarrow> 'a idestate_scheme \<Rightarrow> ('a idestate_scheme, unit) kres" where
  "ideinit d ncpu s =
     (let s = initlockK LkIde s; s = s\<lparr>ports := ioapicenable IRQ_IDE (ncpu - 1) (ports s)\<rparr> in
      bindK (idewait d False s)
        (\<lambda>_ s. let h = outb 0x1f6 (0xe0 OR push_bit 4 1) (ports s);
                   (found, h) = find_disk1 1000 d h;
                   h = outb 0x1f6 (0xe0 OR push_bit 4 0) h in
               Done () (s\<lparr>havedisk1 := havedisk1 s \<or> found, ports := h\<rparr>)))"

text \<open>A block is one sector, so the commands are those for single sectors.\<close>

definition ide_command :: "buf \<Rightarrow> io list \<Rightarrow> io list" where
  "ide_command b h =
     (let sector_per_block = (1 :: u32);
          sector = b_blockno b * sector_per_block;
          h = outb 0x3f6 0 h;
          h = outb 0x1f2 (ucast sector_per_block) h;
          h = outb 0x1f3 (ucast (sector AND 0xff)) h;
          h = outb 0x1f4 (ucast (drop_bit 8 sector AND 0xff)) h;
          h = outb 0x1f5 (ucast (drop_bit 16 sector AND 0xff)) h;
          h = outb 0x1f6 (0xe0 OR ucast (push_bit 4 (b_dev b AND 1)) OR ucast (drop_bit 24 sector AND 0x0f)) h in
      if b_flags b AND B_DIRTY \<noteq> 0 then outsl 0x1f0 (b_data b) (outb 0x1f7 IDE_CMD_WRITE h)
      else outb 0x1f7 IDE_CMD_READ h)"

definition idestart :: "device \<Rightarrow> nat option \<Rightarrow> 'a idestate_scheme \<Rightarrow> ('a idestate_scheme, unit) kres" where
  "idestart d b s =
     (case b of
        None \<Rightarrow> Panic ''idestart''
      | Some b \<Rightarrow>
          if b_blockno (buf_at s b) \<ge> FSSIZE then Panic ''incorrect blockno''
          else bindK (idewait d False s)
            (\<lambda>_ s. Done () (s\<lparr>ports := ide_command (buf_at s b) (ports s)\<rparr>)))"

definition ideintr :: "device \<Rightarrow> 'a idestate_scheme \<Rightarrow> ('a idestate_scheme, unit) kres" where
  "ideintr d s =
     bindK (acquireK LkIde s)
       (\<lambda>_ s. case idequeue s of
           None \<Rightarrow> releaseK LkIde s
         | Some b \<Rightarrow>
             let s = s\<lparr>idequeue := b_qnext (buf_at s b)\<rparr> in
             bindK (if b_flags (buf_at s b) AND B_DIRTY = 0
                    then bindK (idewait d True s)
                      (\<lambda>r s. if r \<ge> 0
                         then let (bytes, h) = insl d 0x1f0 (BSIZE div 4) (ports s) in
                              Done () (upd_buf b (\<lambda>x. x\<lparr>b_data := bytes\<rparr>) (s\<lparr>ports := h\<rparr>))
                         else Done () s)
                    else Done () s)
               (\<lambda>_ s. let s = upd_buf b (\<lambda>x. x\<lparr>b_flags := b_flags x OR B_VALID\<rparr>) s;
                          s = upd_buf b (\<lambda>x. x\<lparr>b_flags := b_flags x AND NOT B_DIRTY\<rparr>) s in
                 bindK (wakeup (ChBuf b) s)
                   (\<lambda>_ s. bindK (if idequeue s \<noteq> None then idestart d (idequeue s) s else Done () s)
                     (\<lambda>_ s. releaseK LkIde s))))"

text \<open>
  The last buffer of the queue that starts at \<open>p\<close>. The buffers are NBUF, so the bound of NBUF rounds is
  met only by a queue that runs in a circle.
\<close>

fun queue_last :: "nat \<Rightarrow> nat \<Rightarrow> buf list \<Rightarrow> nat option" where
  "queue_last 0 p bs = None"
| "queue_last (Suc n) p bs = (case b_qnext (bs ! p) of None \<Rightarrow> Some p | Some q \<Rightarrow> queue_last n q bs)"

definition ide_append :: "nat \<Rightarrow> 'a idestate_scheme \<Rightarrow> ('a idestate_scheme, unit) kres" where
  "ide_append b s =
     (case idequeue s of
        None \<Rightarrow> Done () (s\<lparr>idequeue := Some b\<rparr>)
      | Some p \<Rightarrow>
          (case queue_last NBUF p (bufs s) of
             None \<Rightarrow> Diverges
           | Some q \<Rightarrow> Done () (upd_buf q (\<lambda>x. x\<lparr>b_qnext := Some b\<rparr>) s)))"

text \<open>The loop at the end of \<open>iderw\<close>, and how it goes on when the process has been woken up.\<close>

definition iderw_wait :: "nat \<Rightarrow> 'a idestate_scheme \<Rightarrow> ('a idestate_scheme, unit) kres" where
  "iderw_wait b s =
     (if b_flags (buf_at s b) AND (B_VALID OR B_DIRTY) \<noteq> B_VALID
      then sleep (ChBuf b) (Some LkIde) s else releaseK LkIde s)"

definition iderw_resume :: "nat \<Rightarrow> nat \<Rightarrow> 'a idestate_scheme \<Rightarrow> ('a idestate_scheme, unit) kres" where
  "iderw_resume b p s = bindK (sleep_resume LkIde p s) (\<lambda>_ s. iderw_wait b s)"

definition iderw_ide :: "device \<Rightarrow> nat \<Rightarrow> 'a idestate_scheme \<Rightarrow> ('a idestate_scheme, unit) kres" where
  "iderw_ide d b s =
     bindK (holdingsleep (buf_lock b) s)
       (\<lambda>h s. if \<not> h then Panic ''iderw: buf not locked''
          else if b_flags (buf_at s b) AND (B_VALID OR B_DIRTY) = B_VALID then Panic ''iderw: nothing to do''
          else if b_dev (buf_at s b) \<noteq> 0 \<and> \<not> havedisk1 s then Panic ''iderw: ide disk 1 not present''
          else bindK (acquireK LkIde s)
            (\<lambda>_ s. bindK (ide_append b (upd_buf b (\<lambda>x. x\<lparr>b_qnext := None\<rparr>) s))
              (\<lambda>_ s. bindK (if idequeue s = Some b then idestart d (Some b) s else Done () s)
                (\<lambda>_ s. iderw_wait b s))))"

end
