(* ===== verification/IdeDisk.thy ===== *)
theory IdeDisk
  imports Ide BlockStore
begin

unbundle bit_operations_syntax

text \<open>
  The driver of ide.c against the disk in memory. The disk drive is specified by what it makes of the
  accesses to its ports: the registers keep the last byte written, a write command stores the
  following data in the sector the registers name. The queue of the driver is the list that the
  \<open>qnext\<close> pointers make.
\<close>

section \<open>The drive\<close>

text \<open>\<open>ata_before\<close> is the contents when the last command was given.\<close>

record ata =
  ata_regs :: "u16 \<Rightarrow> u8"
  ata_store :: "bool \<times> u32 \<Rightarrow> u8 list"
  ata_before :: "bool \<times> u32 \<Rightarrow> u8 list"

definition ata_sector :: "ata \<Rightarrow> bool \<times> u32" where
  "ata_sector a =
     (bit (ata_regs a 0x1f6) 4,
      le32 (ata_regs a 0x1f3) (ata_regs a 0x1f4) (ata_regs a 0x1f5) (ata_regs a 0x1f6 AND 0x0f))"

fun ata_step :: "io \<Rightarrow> ata \<Rightarrow> ata" where
  "ata_step (Outb p v) a =
     (let a = a\<lparr>ata_regs := (ata_regs a)(p := v)\<rparr> in
      if p = 0x1f7 then a\<lparr>ata_before := ata_store a\<rparr> else a)"
| "ata_step (Outsl p bs) a =
     (if p = 0x1f0 \<and> ata_regs a 0x1f7 = IDE_CMD_WRITE then a\<lparr>ata_store := (ata_store a)(ata_sector a := bs)\<rparr> else a)"
| "ata_step _ a = a"

definition ata_run :: "(bool \<times> u32 \<Rightarrow> u8 list) \<Rightarrow> io list \<Rightarrow> ata" where
  "ata_run img h = fold ata_step h \<lparr>ata_regs = \<lambda>_. 0, ata_store = img, ata_before = img\<rparr>"

text \<open>
  A working drive with the contents \<open>img\<close> at first: it is ready without error, and after a read command
  delivers the sector that the registers name.
\<close>

definition ata_disk :: "device \<Rightarrow> (bool \<times> u32 \<Rightarrow> u8 list) \<Rightarrow> bool" where
  "ata_disk d img \<longleftrightarrow>
     (\<forall>h. dev_in d h 0x1f7 = IDE_DRDY)
     \<and> (\<forall>h. ata_regs (ata_run img h) 0x1f7 = IDE_CMD_READ \<longrightarrow>
            dev_data d h 0x1f0 (BSIZE div 4) = ata_store (ata_run img h) (ata_sector (ata_run img h)))"

lemma ata_run_append: "ata_run img (h @ h') = fold ata_step h' (ata_run img h)"
  by (simp add: ata_run_def)

lemma ata_run_in [simp]:
  "ata_run img (h @ [Inb p]) = ata_run img h" "ata_run img (h @ [Insl p n]) = ata_run img h"
  by (simp_all add: ata_run_append)

definition to_write :: "buf \<Rightarrow> bool" where
  "to_write x \<longleftrightarrow> b_flags x AND B_DIRTY \<noteq> 0"

text \<open>The command for a buffer has been given and its request not yet completed.\<close>

definition started :: "buf \<Rightarrow> ata \<Rightarrow> bool" where
  "started x a \<longleftrightarrow>
     (if to_write x
      then ata_store a = (ata_before a)((True, b_blockno x) := b_data x)
      else ata_regs a 0x1f7 = IDE_CMD_READ \<and> ata_sector a = (True, b_blockno x) \<and> ata_store a = ata_before a)"

lemma small_sector:
  assumes "n < (FSSIZE :: u32)"
  shows "drop_bit 24 n = 0" "le32 (ucast (n AND 0xff)) (ucast (drop_bit 8 n AND 0xff)) (ucast (drop_bit 16 n AND 0xff)) 0 = n"
proof -
  have "unat n < 1000" using assms by (simp add: word_less_nat_alt)
  then show z: "drop_bit 24 n = 0"
    by (simp add: word_unat_eq_iff drop_bit_eq_div unat_div)
  have "byte_of 3 n = 0" using z by (simp add: byte_of_def)
  moreover have m: "(0xff :: u32) = mask 8" by (simp add: mask_eq_exp_minus_1)
  have "ucast (n AND 0xff) = byte_of 0 n" "ucast (drop_bit 8 n AND 0xff) = byte_of (Suc 0) n"
    "ucast (drop_bit 16 n AND 0xff) = byte_of 2 n"
    unfolding m by (auto intro!: bit_word_eqI simp: byte_of_def bit_simps)
  ultimately show "le32 (ucast (n AND 0xff)) (ucast (drop_bit 8 n AND 0xff)) (ucast (drop_bit 16 n AND 0xff)) 0 = n"
    using le32_bytes [of n] by simp
qed

lemma ide_command_run:
  assumes "b_dev x = 1" "b_blockno x < FSSIZE"
  shows "started x (ata_run img (ide_command x h))"
    "ata_before (ata_run img (ide_command x h)) = ata_store (ata_run img h)"
  using assms small_sector [OF assms(2)]
  by (simp_all add: ide_command_def outb_def outsl_def ata_run_append started_def to_write_def ata_sector_def Let_def bit_simps)

section \<open>The queue\<close>

fun chain :: "buf list \<Rightarrow> nat option \<Rightarrow> nat list \<Rightarrow> bool" where
  "chain bs p [] \<longleftrightarrow> p = None"
| "chain bs p (b # q) \<longleftrightarrow> p = Some b \<and> chain bs (b_qnext (bs ! b)) q"

lemma chain_update: "b \<notin> set q \<Longrightarrow> chain (bs[b := x]) p q = chain bs p q"
  by (induction q arbitrary: p) auto

lemma chain_same: "b_qnext x = b_qnext (bs ! b) \<Longrightarrow> chain (bs[b := x]) p q = chain bs p q"
proof (induction q arbitrary: p)
  case (Cons c q)
  then have "b_qnext (bs[b := x] ! c) = b_qnext (bs ! c)"
    by (cases "b < length bs"; cases "c = b") (auto simp: nth_list_update list_update_beyond)
  then show ?case using Cons by simp
qed simp

lemma queue_last_chain:
  assumes "chain bs (Some p) q" "length q \<le> n"
  shows "q \<noteq> [] \<and> queue_last n p bs = Some (last q)"
  using assms
proof (induction n arbitrary: p q)
  case (Suc n)
  then obtain q' where q: "q = p # q'" "chain bs (b_qnext (bs ! p)) q'" by (cases q) auto
  show ?case
  proof (cases q')
    case Nil
    then show ?thesis using q by simp
  next
    case (Cons c q'')
    then show ?thesis using q Suc.IH [of c q'] Suc.prems by simp
  qed
qed (cases q, simp_all)

lemma chain_snoc:
  assumes "chain bs p q" "q \<noteq> []" "b \<notin> set q" "distinct q" "b_qnext (bs ! b) = None" "last q < length bs"
  shows "chain (bs[last q := (bs ! last q)\<lparr>b_qnext := Some b\<rparr>]) p (q @ [b])"
  using assms
proof (induction q arbitrary: p)
  case (Cons c q)
  show ?case
  proof (cases "q = []")
    case True
    then show ?thesis using Cons.prems by simp
  next
    case False
    then have l: "last q \<in> set q" by simp
    then have "c \<noteq> last q" using Cons.prems(4) by auto
    then show ?thesis using Cons False by simp
  qed
qed simp

section \<open>The invariant\<close>

text \<open>A buffer with something to do: what \<open>iderw\<close> asks of it, for a block of the file system's disk.\<close>

definition requested :: "buf \<Rightarrow> bool" where
  "requested x \<longleftrightarrow> sl_locked (b_lock x) \<and> b_flags x AND (B_VALID OR B_DIRTY) \<noteq> B_VALID
     \<and> b_dev x = 1 \<and> b_blockno x < FSSIZE"

text \<open>The disk before the request that the drive works on.\<close>

definition disk_view :: "(bool \<times> u32 \<Rightarrow> u8 list) \<Rightarrow> nat list \<Rightarrow> 'a idestate_scheme \<Rightarrow> u32 \<Rightarrow> u8 list" where
  "disk_view img q s p =
     (if q = [] then ata_store (ata_run img (ports s)) (True, p) else ata_before (ata_run img (ports s)) (True, p))"

definition ide_ok :: "(bool \<times> u32 \<Rightarrow> u8 list) \<Rightarrow> nat list \<Rightarrow> 'a idestate_scheme \<Rightarrow> bool" where
  "ide_ok img q s \<longleftrightarrow>
     chain (bufs s) (idequeue s) q \<and> distinct q \<and> (\<forall>b \<in> set q. b < length (bufs s) \<and> requested (buf_at s b))
     \<and> (q \<noteq> [] \<longrightarrow> started (buf_at s (hd q)) (ata_run img (ports s)))"

lemma ide_okD:
  assumes "ide_ok img q s"
  shows "chain (bufs s) (idequeue s) q" "distinct q" "\<And>b. b \<in> set q \<Longrightarrow> b < length (bufs s) \<and> requested (buf_at s b)"
    "q \<noteq> [] \<Longrightarrow> started (buf_at s (hd q)) (ata_run img (ports s))"
  using assms unfolding ide_ok_def by blast+

lemma idewait_ready:
  assumes "ata_disk d img"
  shows "idewait d c s = Done 0 (s\<lparr>ports := ports s @ [Inb 0x1f7]\<rparr>)"
proof -
  have "dev_in d h 0x1f7 = IDE_DRDY" for h using assms by (simp add: ata_disk_def)
  then show ?thesis by (simp add: idewait_def idewait_loop.simps inb_def)
qed

lemma idestart_eq:
  assumes "ata_disk d img" "b_blockno (buf_at s b) < FSSIZE"
  shows "idestart d (Some b) s = Done () (s\<lparr>ports := ide_command (buf_at s b) (ports s @ [Inb 0x1f7])\<rparr>)"
  using assms(2) by (simp add: idestart_def idewait_ready [OF assms(1)] buf_at_def not_le)

text \<open>A buffer after its request: \<open>bytes\<close> is what the disk has for its block.\<close>

definition completed :: "u8 list \<Rightarrow> buf \<Rightarrow> buf" where
  "completed bytes x =
     x\<lparr>b_data := (if to_write x then b_data x else bytes), b_flags := (b_flags x OR B_VALID) AND NOT B_DIRTY\<rparr>"

lemma bit_dirty: "bit (B_DIRTY :: u32) n \<longleftrightarrow> n = 2"
  using bit_exp_iff [where 'a = u32, of 2 n] by auto

lemma flags_order: "(f OR B_VALID) AND NOT B_DIRTY = (f AND NOT B_DIRTY) OR (B_VALID :: u32)"
proof (rule bit_word_eqI)
  fix n
  have "bit (B_VALID :: u32) n \<longleftrightarrow> n = 1" using bit_exp_iff [where 'a = u32, of 1 n] by auto
  then show "bit ((f OR B_VALID) AND NOT B_DIRTY) n \<longleftrightarrow> bit ((f AND NOT B_DIRTY) OR B_VALID) n"
    if "n < LENGTH(32)" using that by (auto simp only: bit_simps bit_dirty)
qed

lemma flags_clean:
  assumes "f AND B_DIRTY = 0"
  shows "(f OR B_VALID) AND NOT B_DIRTY = f OR (B_VALID :: u32)"
proof -
  have "\<not> bit f 2" using assms bit_and_iff [of f B_DIRTY 2] by (simp add: bit_dirty)
  then have "f AND NOT B_DIRTY = f" by (intro bit_word_eqI) (auto simp only: bit_simps bit_dirty possible_bit_word)
  then show ?thesis unfolding flags_order by simp
qed

text \<open>What the disk in memory makes of a request.\<close>

lemma iderw_memory:
  assumes "requested (buf_at s b)" "b < length (bufs s)" "LkBufLock b \<notin> set (held s)" "disksize s = FSSIZE"
  shows "\<exists>u. iderw b s = Done () u \<and> bufs u = (bufs s)[b := completed (disk s (b_blockno (buf_at s b))) (buf_at s b)]
    \<and> disk u = (if to_write (buf_at s b) then (disk s)(b_blockno (buf_at s b) := b_data (buf_at s b)) else disk s)
    \<and> held u = held s \<and> disksize u = FSSIZE"
proof -
  define x where "x = buf_at s b"
  have r: "sl_locked (b_lock x)" "b_flags x AND (B_VALID OR B_DIRTY) \<noteq> B_VALID" "b_dev x = 1" "\<not> disksize s \<le> b_blockno x"
    using assms(1,4) by (simp_all add: requested_def x_def not_le)
  have h: "holdingsleep (buf_lock b) s = Done True s"
    using bl.holdingsleep_eq [of b s] assms(3) r(1) by (simp add: x_def)
  have x: "bufs s ! b = x" by (simp add: x_def buf_at_def)
  show ?thesis
    unfolding iderw_def h bindK.simps Let_def
    using r assms(2,4) x flags_clean [of "b_flags x"] flags_order [of "b_flags x"]
    by (simp add: x_def [symmetric] upd_buf_def buf_at_def to_write_def completed_def)
qed

section \<open>An interrupt completes a request\<close>

lemma started_not_dirty:
  assumes "ata_disk d img" "started x (ata_run img h)" "\<not> to_write x"
  shows "dev_data d (h @ [Inb 0x1f7]) 0x1f0 (BSIZE div 4) = ata_before (ata_run img h) (True, b_blockno x)"
  using assms unfolding ata_disk_def started_def by (metis ata_run_in(1))

text \<open>The first part of \<open>ideintr\<close>, up to the call of \<open>wakeup\<close>.\<close>

lemma ideintr_head:
  assumes d: "ata_disk d img" and st: "started (buf_at s b) (ata_run img (ports s))"
    and lk: "LkIde \<notin> set (held s)" "LkPtable \<notin> set (held s)" and q: "idequeue s = Some b" and b: "b < length (bufs s)"
  shows "\<exists>h. ata_run img h = ata_run img (ports s) \<and>
    ideintr d s =
      (let w = wakeup1 (ChBuf b) (s\<lparr>held := LkIde # held s, idequeue := b_qnext (buf_at s b), ports := h,
            bufs := (bufs s)[b := completed (ata_before (ata_run img (ports s)) (True, b_blockno (buf_at s b))) (buf_at s b)]\<rparr>) in
       bindK (if idequeue w \<noteq> None then idestart d (idequeue w) w else Done () w) (\<lambda>_ s. releaseK LkIde s))"
proof (cases "to_write (buf_at s b)")
  case True
  show ?thesis
    by (rule exI [of _ "ports s"])
      (use True assms in \<open>simp add: ideintr_def acquireK_free wakeup_eq Let_def upd_buf_def buf_at_def to_write_def completed_def\<close>)
next
  case False
  note bytes = started_not_dirty [OF d st False]
  show ?thesis
    by (rule exI [of _ "ports s @ [Inb 0x1f7] @ [Insl 0x1f0 (BSIZE div 4)]"])
      (use False assms bytes in \<open>simp add: ideintr_def acquireK_free wakeup_eq Let_def upd_buf_def buf_at_def to_write_def
         completed_def idewait_ready [OF d] insl_def ata_run_append\<close>)
qed

text \<open>
  The relation between the driver and the disk in memory: the same buffers, but for the links of the
  queue, which memide.c does not use, and the same blocks.
\<close>

definition nolink :: "buf \<Rightarrow> buf" where
  "nolink x = x\<lparr>b_qnext := None\<rparr>"

lemma nolink_simps [simp]:
  "requested (nolink x) = requested x" "to_write (nolink x) = to_write x" "b_blockno (nolink x) = b_blockno x"
  "b_data (nolink x) = b_data x" "nolink (completed bytes x) = completed bytes (nolink x)"
  by (simp_all add: nolink_def requested_def to_write_def completed_def)

lemma nolink_at:
  assumes "map nolink (bufs u) = map nolink (bufs s)"
  shows "length (bufs u) = length (bufs s)" "b < length (bufs s) \<Longrightarrow> nolink (buf_at u b) = nolink (buf_at s b)"
proof -
  show l: "length (bufs u) = length (bufs s)" using assms by (rule map_eq_imp_length_eq)
  show "nolink (buf_at u b) = nolink (buf_at s b)" if "b < length (bufs s)"
    using assms l that by (metis buf_at_def nth_map)
qed

definition ide_rel :: "(bool \<times> u32 \<Rightarrow> u8 list) \<Rightarrow> nat list \<Rightarrow> 'a idestate_scheme \<Rightarrow> 'b bstate_scheme \<Rightarrow> bool" where
  "ide_rel img q s u \<longleftrightarrow>
     map nolink (bufs u) = map nolink (bufs s) \<and> disk u = disk_view img q s \<and> held u = held s \<and> disksize u = FSSIZE"

lemma wakeup1_fields [simp]:
  "bufs (wakeup1 ch s) = bufs s" "idequeue (wakeup1 ch t) = idequeue t" "ports (wakeup1 ch t) = ports t"
  by (simp_all add: wakeup1_def)

lemma started_store:
  "started x a \<Longrightarrow> ata_store a = (if to_write x then (ata_before a)((True, b_blockno x) := b_data x) else ata_before a)"
  by (simp add: started_def)

text \<open>The request in memory, and the rest of the interrupt handler, which starts the next request.\<close>

lemma iderw_rel:
  assumes "ide_rel img (b # q) s u" "requested (buf_at s b)" "b < length (bufs s)" "LkBufLock b \<notin> set (held s)"
    and "started (buf_at s b) (ata_run img (ports s))"
  shows "\<exists>u'. iderw b u = Done () u' \<and> held u' = held s \<and> disksize u' = FSSIZE
    \<and> map nolink (bufs u') = map nolink ((bufs s)[b :=
        completed (ata_before (ata_run img (ports s)) (True, b_blockno (buf_at s b))) (buf_at s b)])
    \<and> disk u' = (\<lambda>p. ata_store (ata_run img (ports s)) (True, p))"
proof -
  define A where "A = ata_run img (ports s)"
  have m: "map nolink (bufs u) = map nolink (bufs s)" using assms(1) by (simp add: ide_rel_def)
  note n = nolink_at [OF m]
  have u: "held u = held s" "disksize u = FSSIZE" "disk u = (\<lambda>p. ata_before A (True, p))"
    using assms(1) by (simp_all add: ide_rel_def A_def fun_eq_iff disk_view_def)
  have x: "requested (buf_at u b) = requested (buf_at s b)" "to_write (buf_at u b) = to_write (buf_at s b)"
    "b_blockno (buf_at u b) = b_blockno (buf_at s b)" "b_data (buf_at u b) = b_data (buf_at s b)"
    using arg_cong [OF n(2) [OF assms(3)], of requested] arg_cong [OF n(2) [OF assms(3)], of to_write]
      arg_cong [OF n(2) [OF assms(3)], of b_blockno] arg_cong [OF n(2) [OF assms(3)], of b_data] by simp_all
  have st: "ata_store A = (if to_write (buf_at s b)
      then (ata_before A)((True, b_blockno (buf_at s b)) := b_data (buf_at s b)) else ata_before A)"
    using started_store assms(5) by (simp add: A_def)
  have "requested (buf_at u b)" "b < length (bufs u)" "LkBufLock b \<notin> set (held u)" using assms(2-4) u x n(1) by simp_all
  from iderw_memory [OF this u(2)] show ?thesis
    unfolding u x st A_def [symmetric] using m n(2) [OF assms(3)] by (auto simp: fun_eq_iff map_update)
qed

lemma ideintr_next:
  assumes d: "ata_disk d img" and ch: "chain (bufs w) (idequeue w) q" "distinct q" "held w = LkIde # hs"
    and r: "\<And>c. c \<in> set q \<Longrightarrow> c < length (bufs w) \<and> requested (buf_at w c)"
  shows "\<exists>t. bindK (if idequeue w \<noteq> None then idestart d (idequeue w) w else Done () w) (\<lambda>_ s. releaseK LkIde s) = Done () t
    \<and> ide_ok img q t \<and> bufs t = bufs w \<and> held t = hs \<and> ptable t = ptable w \<and> havedisk1 t = havedisk1 w
    \<and> disk_view img q t = (\<lambda>p. ata_store (ata_run img (ports w)) (True, p))"
proof (cases q)
  case Nil
  then show ?thesis using ch
    by (intro exI [of _ "w\<lparr>held := hs\<rparr>"]) (simp add: releaseK_first ide_ok_def disk_view_def fun_eq_iff)
next
  case (Cons c q')
  then have n: "idequeue w = Some c" using ch by simp
  have r': "b_dev (buf_at w c) = 1" "b_blockno (buf_at w c) < FSSIZE" using r [of c] Cons by (simp_all add: requested_def)
  define t where "t = w\<lparr>ports := ide_command (buf_at w c) (ports w @ [Inb 0x1f7]), held := hs\<rparr>"
  have t: "ports t = ide_command (buf_at w c) (ports w @ [Inb 0x1f7])" "bufs t = bufs w" "held t = hs"
    "idequeue t = idequeue w" "ptable t = ptable w" "havedisk1 t = havedisk1 w" "\<And>i. buf_at t i = buf_at w i" by (simp_all add: t_def buf_at_def)
  have "ide_ok img q t" unfolding ide_ok_def using ch ide_command_run(1) [OF r'] r Cons by (simp add: t)
  moreover have "disk_view img q t = (\<lambda>p. ata_store (ata_run img (ports w)) (True, p))"
    using Cons ide_command_run(2) [OF r', of img "ports w @ [Inb 0x1f7]"] by (simp add: t disk_view_def fun_eq_iff)
  ultimately show ?thesis
    using n ch(3) idestart_eq [OF d r'(2)] t by (intro exI [of _ t]) (simp add: releaseK_first t_def)
qed

lemma ideintr_sim:
  assumes d: "ata_disk d img" and ok: "ide_ok img (b # q) s" and rel: "ide_rel img (b # q) s u"
    and lk: "LkIde \<notin> set (held s)" "LkPtable \<notin> set (held s)" "LkBufLock b \<notin> set (held s)"
  shows "\<exists>t u'. ideintr d s = Done () t \<and> iderw b u = Done () u' \<and> ide_ok img q t \<and> ide_rel img q t u'
    \<and> ptable t = ptable (wakeup1 (ChBuf b) s) \<and> havedisk1 t = havedisk1 s \<and> length (bufs t) = length (bufs s)
    \<and> held t = held s"
proof -
  note C = ide_okD [OF ok]
  define x where "x = buf_at s b"
  define A where "A = ata_run img (ports s)"
  have b: "idequeue s = Some b" "b < length (bufs s)" "requested x" "started x A" "b \<notin> set q"
      "chain (bufs s) (b_qnext x) q" "distinct q" using C C(3) [of b] by (simp_all add: x_def A_def buf_at_def)
  define y where "y = completed (ata_before A (True, b_blockno x)) x"
  obtain h where h: "ata_run img h = A" and e: "ideintr d s =
      (let w = wakeup1 (ChBuf b) (s\<lparr>held := LkIde # held s, idequeue := b_qnext x, ports := h, bufs := (bufs s)[b := y]\<rparr>) in
       bindK (if idequeue w \<noteq> None then idestart d (idequeue w) w else Done () w) (\<lambda>_ s. releaseK LkIde s))"
    using ideintr_head [OF d b(4) [unfolded x_def A_def] lk(1,2) b(1,2)] unfolding x_def y_def A_def by blast
  define w where "w = wakeup1 (ChBuf b) (s\<lparr>held := LkIde # held s, idequeue := b_qnext x, ports := h, bufs := (bufs s)[b := y]\<rparr>)"
  have w: "held w = LkIde # held s" "idequeue w = b_qnext x" "ports w = h" "bufs w = (bufs s)[b := y]"
    "ptable w = ptable (wakeup1 (ChBuf b) s)" "havedisk1 w = havedisk1 s" by (simp_all add: w_def wakeup1_def)
  have ch: "chain (bufs w) (idequeue w) q" using chain_update [OF b(5)] b(6) by (simp add: w)
  have r: "c < length (bufs w) \<and> requested (buf_at w c)" if "c \<in> set q" for c
  proof -
    have "c \<noteq> b" using that b(5) by blast
    then show ?thesis using C(3) [of c] that by (simp add: buf_at_def w)
  qed
  obtain t where "ideintr d s = Done () t" "ide_ok img q t" "bufs t = bufs w" "held t = held s" "ptable t = ptable w"
      "havedisk1 t = havedisk1 w" "disk_view img q t = (\<lambda>p. ata_store A (True, p))"
    using ideintr_next [OF d ch b(7) w(1) r] e h unfolding w_def [symmetric] w(3) Let_def by auto
  moreover obtain u' where "iderw b u = Done () u'" "held u' = held s" "disksize u' = FSSIZE"
      "map nolink (bufs u') = map nolink ((bufs s)[b := y])" "disk u' = (\<lambda>p. ata_store A (True, p))"
    using iderw_rel [OF rel _ b(2) lk(3)] b(3,4) unfolding x_def y_def A_def by blast
  ultimately show ?thesis using w(4-6) by (intro exI [of _ t] exI [of _ u']) (simp add: ide_rel_def)
qed

section \<open>A request joins the queue\<close>

text \<open>Going to sleep changes the process table and the locks only.\<close>

lemma sleep_frame:
  assumes "sleep ch lk s = Asleep ch' t"
  shows "bufs t = bufs s" "idequeue t = idequeue s" "ports t = ports s" "havedisk1 t = havedisk1 s"
  using assms
  by (auto simp: sleep_def sched_check_def acquireK_def releaseK_def upd_proc_def Let_def split: option.splits if_splits)

text \<open>A buffer ready to be queued, in a state \<open>v\<close> in which its link is cleared.\<close>

definition queueable :: "nat list \<Rightarrow> nat \<Rightarrow> 'a idestate_scheme \<Rightarrow> bool" where
  "queueable q b v \<longleftrightarrow> b \<notin> set q \<and> b < length (bufs v) \<and> requested (buf_at v b) \<and> b_qnext (buf_at v b) = None"

lemma requestedD:
  "requested x \<Longrightarrow> sl_locked (b_lock x) \<and> b_flags x AND (B_VALID OR B_DIRTY) \<noteq> B_VALID \<and> b_dev x = 1 \<and> b_blockno x < FSSIZE"
  by (simp add: requested_def)

lemma enqueue_first:
  assumes d: "ata_disk d img" and q: "idequeue v = None" "queueable [] b v"
  shows "\<exists>w. bindK (ide_append b v) (\<lambda>_ s. bindK (if idequeue s = Some b then idestart d (Some b) s else Done () s) (\<lambda>_ s. iderw_wait b s))
      = sleep (ChBuf b) (Some LkIde) w
    \<and> ide_ok img [b] w \<and> disk_view img [b] w = disk_view img [] v \<and> map nolink (bufs w) = map nolink (bufs v)
    \<and> havedisk1 w = havedisk1 v \<and> ptable w = ptable v \<and> myproc w = myproc v \<and> held w = held v"
proof -
  define x where "x = buf_at v b"
  have x: "requested x" "b_qnext x = None" "b < length (bufs v)" using q(2) by (simp_all add: queueable_def x_def)
  have r: "b_flags x AND (B_VALID OR B_DIRTY) \<noteq> B_VALID" "b_dev x = 1" "b_blockno x < FSSIZE" using requestedD [OF x(1)] by simp_all
  define w where "w = v\<lparr>idequeue := Some b, ports := ide_command x (ports v @ [Inb 0x1f7])\<rparr>"
  have w: "buf_at w b = x" "bufs w = bufs v" "idequeue w = Some b" "ports w = ide_command x (ports v @ [Inb 0x1f7])"
    "havedisk1 w = havedisk1 v" "ptable w = ptable v" "myproc w = myproc v" "held w = held v"
    by (simp_all add: w_def x_def buf_at_def myproc_def)
  have a: "buf_at (v\<lparr>idequeue := Some b\<rparr>) b = x" by (simp add: x_def buf_at_def)
  have "iderw_wait b w = sleep (ChBuf b) (Some LkIde) w" using r(1) w(1) by (simp add: iderw_wait_def)
  moreover have "ide_ok img [b] w"
    using ide_command_run(1) [OF r(2,3)] x w by (simp add: ide_ok_def buf_at_def)
  moreover have "disk_view img [b] w = disk_view img [] v"
    using ide_command_run(2) [OF r(2,3), of img "ports v @ [Inb 0x1f7]"] by (simp add: disk_view_def fun_eq_iff w)
  ultimately show ?thesis
    using idestart_eq [OF d, of "v\<lparr>idequeue := Some b\<rparr>" b] r(3) a q(1) w(2,5-)
    by (intro exI [of _ w]) (simp add: ide_append_def w_def)
qed

lemma enqueue_next:
  assumes ok: "ide_ok img q v" and q: "q \<noteq> []" "queueable q b v" "length q \<le> NBUF"
  shows "\<exists>w. bindK (ide_append b v) (\<lambda>_ s. bindK (if idequeue s = Some b then idestart d (Some b) s else Done () s) (\<lambda>_ s. iderw_wait b s))
      = sleep (ChBuf b) (Some LkIde) w
    \<and> ide_ok img (q @ [b]) w \<and> disk_view img (q @ [b]) w = disk_view img q v \<and> map nolink (bufs w) = map nolink (bufs v)
    \<and> havedisk1 w = havedisk1 v \<and> ptable w = ptable v \<and> myproc w = myproc v \<and> held w = held v"
proof -
  note C = ide_okD [OF ok]
  define l where "l = last q"
  define w where "w = upd_buf l (\<lambda>x. x\<lparr>b_qnext := Some b\<rparr>) v"
  have l: "l \<in> set q" "l < length (bufs v)" using q(1) C(3) by (simp_all add: l_def)
  have b: "b \<notin> set q" "b < length (bufs v)" "requested (buf_at v b)" "b_qnext (buf_at v b) = None"
    using q(2) by (simp_all add: queueable_def)
  obtain c where c: "idequeue v = Some c" "c \<noteq> b" using C(1) q(1) b(1) by (cases q) auto
  have "ide_append b v = Done () w"
    using queue_last_chain [of "bufs v" c q NBUF] C(1) c q(3) by (simp add: ide_append_def w_def l_def)
  moreover have f: "ptable w = ptable v" "myproc w = myproc v" "held w = held v"
    by (simp_all add: w_def upd_buf_def myproc_def)
  moreover have w: "idequeue w = idequeue v" "ports w = ports v" "havedisk1 w = havedisk1 v"
    "bufs w = (bufs v)[l := (bufs v ! l)\<lparr>b_qnext := Some b\<rparr>]" by (simp_all add: w_def upd_buf_def)
  have nl: "map nolink (bufs w) = map nolink (bufs v)"
    using l(2) list_update_id [of "map nolink (bufs v)" l] by (simp add: w map_update nolink_def)
  have at: "nolink (buf_at w i) = nolink (buf_at v i)" if "i < length (bufs v)" for i by (rule nolink_at(2) [OF nl that])
  have rq: "requested (buf_at w i) = requested (buf_at v i)" if "i < length (bufs v)" for i
    using arg_cong [OF at [OF that], of requested] by simp
  have bw: "buf_at w b = buf_at v b" using b(1) l(1) by (metis buf_at_def nth_list_update_neq w(4))
  moreover have "iderw_wait b w = sleep (ChBuf b) (Some LkIde) w" using requestedD [OF b(3)] bw by (simp add: iderw_wait_def)
  moreover have ch: "chain (bufs w) (idequeue w) (q @ [b])"
    using chain_snoc [OF C(1) q(1) b(1) C(2)] b(4) l(2) by (simp add: w buf_at_def l_def)
  have st: "started (buf_at w (hd q)) (ata_run img (ports w))"
  proof -
    have h: "hd q < length (bufs v)" using C(3) q(1) by simp
    from arg_cong [OF at [OF h], of to_write] arg_cong [OF at [OF h], of b_blockno] arg_cong [OF at [OF h], of b_data]
    show ?thesis using C(4) [OF q(1)] by (simp add: started_def w)
  qed
  moreover have "ide_ok img (q @ [b]) w"
    unfolding ide_ok_def using ch st C(2,3) b(1-3) rq q(1) by (auto simp: w)
  moreover have "disk_view img (q @ [b]) w = disk_view img q v" using q(1) by (simp add: disk_view_def fun_eq_iff w)
  ultimately show ?thesis using nl c w(1,3) by (intro exI [of _ w]) simp
qed

text \<open>What \<open>iderw\<close> has done when it starts to wait.\<close>

lemma iderw_ide_enqueues:
  assumes d: "ata_disk d img" and ok: "ide_ok img q s" and b: "b \<notin> set q" "b < length (bufs s)" "requested (buf_at s b)"
    and e: "havedisk1 s" "length q \<le> NBUF" "held s = []"
  shows "\<exists>w. iderw_ide d b s = sleep (ChBuf b) (Some LkIde) w \<and> ide_ok img (q @ [b]) w
    \<and> disk_view img (q @ [b]) w = disk_view img q s \<and> map nolink (bufs w) = map nolink (bufs s) \<and> havedisk1 w
    \<and> ptable w = ptable s \<and> myproc w = myproc s \<and> held w = [LkIde]"
proof -
  note C = ide_okD [OF ok]
  define x where "x = (buf_at s b)\<lparr>b_qnext := None\<rparr>"
  define v where "v = s\<lparr>held := [LkIde], bufs := (bufs s)[b := x]\<rparr>"
  have h: "holdingsleep (buf_lock b) s = Done True s"
    using bl.holdingsleep_eq [of b s] b(3) e(3) by (simp add: requested_def)
  have v: "bufs v = (bufs s)[b := x]" "idequeue v = idequeue s" "ports v = ports s" "havedisk1 v"
    and f: "ptable v = ptable s" "myproc v = myproc s" "held v = [LkIde]"
    using e(1) by (simp_all add: v_def myproc_def)
  have e1: "iderw_ide d b s = bindK (ide_append b v)
      (\<lambda>_ s. bindK (if idequeue s = Some b then idestart d (Some b) s else Done () s) (\<lambda>_ s. iderw_wait b s))"
    using b(3) e(1,3) h by (simp add: iderw_ide_def requested_def acquireK_free upd_buf_def x_def v_def buf_at_def)
  have qb: "queueable q b v" using b by (simp add: queueable_def v buf_at_def) (simp add: x_def requested_def buf_at_def)
  have at: "buf_at v c = buf_at s c" if "c \<in> set q" for c using that b(1) by (metis buf_at_def nth_list_update_neq v(1))
  have okv: "ide_ok img q v" unfolding ide_ok_def
    using C chain_update [OF b(1)] at by (simp add: v)
  have nl: "map nolink (bufs v) = map nolink (bufs s)"
    using b(2) list_update_id [of "map nolink (bufs s)" b] by (simp add: v map_update x_def nolink_def buf_at_def)
  have dv: "disk_view img q v = disk_view img q s" by (simp add: disk_view_def fun_eq_iff v)
  show ?thesis
  proof (cases "q = []")
    case True
    then have "idequeue v = None" using C(1) by (simp add: v)
    from enqueue_first [OF d this] qb True e1 dv nl v(4) f show ?thesis by simp
  next
    case False
    from enqueue_next [OF okv this qb e(2)] e1 dv nl v(4) f show ?thesis by simp
  qed
qed

section \<open>Runs of the driver\<close>

text \<open>
  What happens to the buffers: the driver completes the request for one, or the process that owns one
  changes it. \<open>mem_action\<close> is the same with the disk in memory, where a request is completed at once.
\<close>

datatype action = Complete nat | Change nat buf

primrec mem_action :: "action \<Rightarrow> 'a bstate_scheme \<Rightarrow> ('a bstate_scheme, unit) kres" where
  "mem_action (Complete b) s = iderw b s"
| "mem_action (Change b x) s = Done () (upd_buf b (\<lambda>_. x) s)"

definition completions :: "action list \<Rightarrow> nat list" where
  "completions acts = concat (map (\<lambda>a. case a of Complete b \<Rightarrow> [b] | Change b x \<Rightarrow> []) acts)"

lemma completions_snoc [simp]:
  "completions [] = []" "completions (acts @ [Complete b]) = completions acts @ [b]"
  "completions (acts @ [Change b x]) = completions acts"
  by (simp_all add: completions_def)

text \<open>
  \<open>ide_run d s acts rs t\<close>: from \<open>s\<close> to \<open>t\<close> processes have called \<open>iderw\<close> for the buffers \<open>rs\<close>, in this order,
  and gone to sleep, and \<open>acts\<close> has happened. A buffer waiting in the queue is locked by the process that
  sleeps: nobody else requests or changes it. After a process has gone to sleep the scheduler
  releases its lock and runs another.
\<close>

inductive ide_run :: "device \<Rightarrow> 'a idestate_scheme \<Rightarrow> action list \<Rightarrow> nat list \<Rightarrow> 'a idestate_scheme \<Rightarrow> bool"
  for d s where
  run_start: "ide_run d s [] [] s"
| run_request: "ide_run d s acts rs t \<Longrightarrow> b \<notin> set (drop (length (completions acts)) rs) \<Longrightarrow> b < NBUF
    \<Longrightarrow> requested (buf_at t b) \<Longrightarrow> iderw_ide d b t = Asleep (ChBuf b) t'
    \<Longrightarrow> ide_run d s acts (rs @ [b]) (t'\<lparr>held := [], cpu_proc := c\<rparr>)"
| run_intr: "ide_run d s acts rs t \<Longrightarrow> idequeue t = Some b \<Longrightarrow> ideintr d t = Done () t'
    \<Longrightarrow> ide_run d s (acts @ [Complete b]) rs t'"
| run_change: "ide_run d s acts rs t \<Longrightarrow> b \<notin> set (drop (length (completions acts)) rs)
    \<Longrightarrow> ide_run d s (acts @ [Change b x]) rs (upd_buf b (\<lambda>_. x) t)"

text \<open>The state of the driver after the requests \<open>rs\<close> and the actions \<open>acts\<close>, with the one of memide.c.\<close>

definition ide_sim :: "(bool \<times> u32 \<Rightarrow> u8 list) \<Rightarrow> 'b bstate_scheme \<Rightarrow> action list \<Rightarrow> nat list
    \<Rightarrow> 'a idestate_scheme \<Rightarrow> nat list \<Rightarrow> 'b bstate_scheme \<Rightarrow> bool" where
  "ide_sim img u acts rs t q u' \<longleftrightarrow>
     rs = completions acts @ q \<and> forK acts mem_action u = Done () u' \<and> ide_ok img q t \<and> ide_rel img q t u'
     \<and> held t = [] \<and> havedisk1 t \<and> set q \<subseteq> {..<NBUF} \<and> length (bufs t) = NBUF + 1"

lemma ide_simD:
  assumes "ide_sim img u acts rs t q u'"
  shows "rs = completions acts @ q" "forK acts mem_action u = Done () u'" "ide_ok img q t" "ide_rel img q t u'"
    "held t = []" "havedisk1 t" "set q \<subseteq> {..<NBUF}" "length (bufs t) = NBUF + 1"
  using assms unfolding ide_sim_def by blast+

lemma forK_snoc: "forK xs body s = Done () t \<Longrightarrow> forK (xs @ [x]) body s = bindK (body x t) (\<lambda>_ s. Done () s)"
  by (simp add: forK_append)

lemma queue_bound:
  assumes "set q \<subseteq> {..<n}" "distinct q"
  shows "length q \<le> n"
  using assms card_mono [of "{..<n}" "set q"] by (simp add: distinct_card)

lemma sim_request:
  assumes d: "ata_disk d img" and S: "ide_sim img u acts rs t q u'" and b: "b \<notin> set q" "b < NBUF" "requested (buf_at t b)"
    and e: "iderw_ide d b t = Asleep (ChBuf b) t'"
  shows "ide_sim img u acts (rs @ [b]) (t'\<lparr>held := [], cpu_proc := c\<rparr>) (q @ [b]) u'"
proof -
  note D = ide_simD [OF S]
  have l: "length q \<le> NBUF" by (rule queue_bound [OF D(7) ide_okD(2) [OF D(3)]])
  have bl: "b < length (bufs t)" using b(2) D(8) by simp
  obtain w where w: "iderw_ide d b t = sleep (ChBuf b) (Some LkIde) w" "ide_ok img (q @ [b]) w" "havedisk1 w"
      "disk_view img (q @ [b]) w = disk_view img q t" "map nolink (bufs w) = map nolink (bufs t)"
    using iderw_ide_enqueues [OF d D(3) b(1) bl b(3) D(6) l D(5)] by blast
  note F = sleep_frame [OF w(1) [unfolded e, symmetric]]
  define v where "v = t'\<lparr>held := [], cpu_proc := c\<rparr>"
  have v: "bufs v = bufs w" "idequeue v = idequeue w" "ports v = ports w" "havedisk1 v" "held v = []" "\<And>i. buf_at v i = buf_at w i"
    using F w(3) by (simp_all add: v_def buf_at_def)
  have "ide_ok img (q @ [b]) v" using w(2) by (simp add: ide_ok_def v)
  moreover have "disk_view img (q @ [b]) v = disk_view img q t" using w(4) by (simp add: disk_view_def fun_eq_iff v)
  moreover have "length (bufs v) = NBUF + 1" using map_eq_imp_length_eq [OF w(5)] D(8) by (simp add: v)
  ultimately show ?thesis
    unfolding v_def [symmetric] ide_sim_def using D b(2) w(5) v by (simp add: ide_rel_def)
qed

lemma sim_intr:
  assumes d: "ata_disk d img" and S: "ide_sim img u acts rs t q u'" and b: "idequeue t = Some b" and e: "ideintr d t = Done () t'"
  shows "\<exists>q' u''. ide_sim img u (acts @ [Complete b]) rs t' q' u''"
proof -
  note D = ide_simD [OF S]
  obtain q' where q: "q = b # q'" using ide_okD(1) [OF D(3)] b by (cases q) auto
  obtain u'' where U: "iderw b u' = Done () u''" "ide_ok img q' t'" "ide_rel img q' t' u''" "havedisk1 t' = havedisk1 t"
      "length (bufs t') = length (bufs t)" "held t' = held t"
    using ideintr_sim [OF d D(3) [unfolded q] D(4) [unfolded q]] D(5) e by auto
  then show ?thesis
    using D forK_snoc [OF D(2), of "Complete b"] unfolding ide_sim_def q
    by (intro exI [of _ q'] exI [of _ u'']) (simp add: ide_rel_def)
qed

lemma sim_change:
  assumes S: "ide_sim img u acts rs t q u'" and b: "b \<notin> set q"
  shows "\<exists>u''. ide_sim img u (acts @ [Change b x]) rs (upd_buf b (\<lambda>_. x) t) q u''"
proof -
  note D = ide_simD [OF S]
  define v where "v = upd_buf b (\<lambda>_. x) t"
  have v: "bufs v = (bufs t)[b := x]" "idequeue v = idequeue t" "ports v = ports t" "held v = []" "havedisk1 v"
    using D(5,6) by (simp_all add: v_def upd_buf_def)
  have at: "buf_at v c = buf_at t c" if "c \<in> set q" for c using that b by (metis buf_at_def nth_list_update_neq v(1))
  have "ide_ok img q v" unfolding ide_ok_def using ide_okD [OF D(3)] chain_update [OF b] at by (simp add: v)
  moreover have "ide_rel img q v (upd_buf b (\<lambda>_. x) u')"
    using D(4,5) by (simp add: ide_rel_def v map_update upd_buf_def disk_view_def fun_eq_iff)
  ultimately show ?thesis
    unfolding v_def [symmetric] ide_sim_def using D v forK_snoc [OF D(2), of "Change b x"]
    by (intro exI [of _ "upd_buf b (\<lambda>_. x) u'"]) simp
qed

lemma ide_run_sim:
  assumes d: "ata_disk d img" and r: "ide_run d s acts rs t" and S: "ide_sim img u [] [] s [] u"
  shows "\<exists>q u'. ide_sim img u acts rs t q u'"
  using r
proof (induction rule: ide_run.induct)
  case run_start
  then show ?case using S by blast
next
  case (run_request acts rs t b t' c)
  then obtain q u' where S: "ide_sim img u acts rs t q u'" by blast
  then have "b \<notin> set q" using run_request.hyps ide_simD(1) [OF S] by simp
  then show ?case using sim_request [OF d S] run_request.hyps by blast
next
  case (run_intr acts rs t b t')
  then show ?case using sim_intr [OF d] by blast
next
  case (run_change acts rs t b x)
  then obtain q u' where S: "ide_sim img u acts rs t q u'" by blast
  then have "b \<notin> set q" using run_change.hyps ide_simD(1) [OF S] by simp
  then show ?case using sim_change [OF S] by blast
qed

text \<open>Requests and interrupts go through: \<open>iderw\<close> of a running process sleeps, and does not panic or hang.\<close>

lemma iderw_ide_sleeps:
  assumes d: "ata_disk d img" and S: "ide_sim img u acts rs t q u'" and b: "b \<notin> set q" "b < NBUF" "requested (buf_at t b)"
    and p: "myproc t = Some p" "p < length (ptable t)"
  shows "\<exists>t'. iderw_ide d b t = Asleep (ChBuf b) t' \<and> p_state (proc_at t' p) = SLEEPING \<and> p_chan (proc_at t' p) = ChBuf b"
proof -
  note D = ide_simD [OF S]
  have l: "length q \<le> NBUF" by (rule queue_bound [OF D(7) ide_okD(2) [OF D(3)]])
  have bl: "b < length (bufs t)" using b(2) D(8) by simp
  obtain w where w: "iderw_ide d b t = sleep (ChBuf b) (Some LkIde) w" "ptable w = ptable t" "myproc w = myproc t" "held w = [LkIde]"
    using iderw_ide_enqueues [OF d D(3) b(1) bl b(3) D(6) l D(5)] by blast
  show ?thesis unfolding w(1)
    using p w by (simp add: sleep_def acquireK_def releaseK_def sched_check_def upd_proc_def proc_at_def myproc_def)
qed

section \<open>Properties\<close>


text \<open>A machine with one process, and a drive that follows the specification.\<close>

definition blank_buf :: buf where
  "blank_buf = \<lparr>b_flags = 0, b_dev = 1, b_blockno = 7, b_lock = \<lparr>sl_locked = True, sl_pid = 1\<rparr>, b_refcnt = 1,
     b_prev = 0, b_next = 0, b_qnext = None, b_data = []\<rparr>"

definition ata_device :: "(bool \<times> u32 \<Rightarrow> u8 list) \<Rightarrow> device" where
  "ata_device img = \<lparr>dev_in = \<lambda>h p. IDE_DRDY,
     dev_data = \<lambda>h p n. ata_store (ata_run img h) (ata_sector (ata_run img h)), dev_word = \<lambda>h a. 0\<rparr>"

lemma ata_device: "ata_disk (ata_device img) img"
  by (simp add: ata_disk_def ata_device_def)

definition one_request :: idestate where
  "one_request =
     \<lparr>mem = \<lambda>_. 0, sym_end = 0x80110000, sym_data = 0x80108000,
      held = [], ptable = [blank_proc\<lparr>p_state := RUNNING, p_pid := 1\<rparr>], initproc = None, nextpid = 2, cpu = 0,
      cpu_proc = \<lambda>_. Some 0, ticks = 0, cons_locking = False, console = [], kmem_use_lock = True, kmem_freelist = 0,
      kpgdir = 0, cr3 = 0, gdt = \<lambda>_ _. SEG 0 0 0 0, ts = \<lambda>_. zero_ts, ts_addr = \<lambda>_. 0, gdtr = \<lambda>_. None,
      tr = \<lambda>_. 0, bufs = replicate 31 blank_buf, disk = \<lambda>_. [], disksize = 1000, disk_trace = [],
      idequeue = None, havedisk1 = True, ports = []\<rparr>"

lemma one_request_facts:
  "idequeue one_request = None" "havedisk1 one_request" "held one_request = []" "length (bufs one_request) = NBUF + 1"
  "myproc one_request = Some 0" "0 < length (ptable one_request)" "ports one_request = []"
  by (simp_all add: one_request_def myproc_def)

lemma one_request_run: "\<exists>t. ide_run (ata_device img) one_request [Complete 0] [0] t"
proof -
  define u where "u = one_request\<lparr>disk := \<lambda>p. ata_store (ata_run img (ports one_request)) (True, p), disksize := FSSIZE\<rparr>"
  have S: "ide_sim img u [] [] one_request [] u"
    unfolding u_def using one_request_facts by (simp add: ide_sim_def ide_ok_def ide_rel_def disk_view_def fun_eq_iff)
  have r: "requested (buf_at one_request 0)" by (simp add: requested_def buf_at_def one_request_def blank_buf_def)
  obtain t where t: "iderw_ide (ata_device img) 0 one_request = Asleep (ChBuf 0) t"
    using iderw_ide_sleeps [OF ata_device S, of 0 0] r one_request_facts by auto
  define v where "v = t\<lparr>held := [], cpu_proc := \<lambda>_. None\<rparr>"
  have R: "ide_run (ata_device img) one_request [] [0] v"
    using run_request [OF run_start, of 0 one_request "ata_device img" t "\<lambda>_. None"] r t by (simp add: v_def)
  obtain q u' where S': "ide_sim img u [] [0] v q u'" using ide_run_sim [OF ata_device R S] by blast
  then have q: "q = [0]" using ide_simD(1) [OF S'] by simp
  note D = ide_simD [OF S' [unfolded q]]
  obtain w where "ideintr (ata_device img) v = Done () w" using ideintr_sim [OF ata_device D(3,4)] D(5) by auto
  then show ?thesis using run_intr [OF R] ide_okD(1) [OF D(3)] by fastforce
qed


end
