(* ===== verification/Kbd.thy ===== *)
theory Kbd
  imports Console Devices
begin

unbundle bit_operations_syntax

text \<open>
  kbd.c with the tables of kbd.h: the decoder of scan codes. The static variable \<open>shift\<close> is passed and
  returned; the keyboard is the device. Its interrupt handler, and the one of the serial port in
  uart.c, pass the characters to \<open>consoleintr\<close>.
\<close>

section \<open>kbd.h\<close>

abbreviation (input) SHIFT :: u32 where "SHIFT \<equiv> 1"
abbreviation (input) CTL :: u32 where "CTL \<equiv> 2"
abbreviation (input) ALT :: u32 where "ALT \<equiv> 4"
abbreviation (input) CAPSLOCK :: u32 where "CAPSLOCK \<equiv> 8"
abbreviation (input) NUMLOCK :: u32 where "NUMLOCK \<equiv> 16"
abbreviation (input) SCROLLLOCK :: u32 where "SCROLLLOCK \<equiv> 32"
abbreviation (input) E0ESC :: u32 where "E0ESC \<equiv> 64"

text \<open>A table with values at some indices, zero at the others.\<close>

definition sparse :: "(nat \<times> u32) list \<Rightarrow> nat \<Rightarrow> u32" where
  "sparse t i = (case map_of t i of None \<Rightarrow> 0 | Some v \<Rightarrow> v)"

definition shiftcode :: "nat \<Rightarrow> u32" where
  "shiftcode = sparse [(0x1D, CTL), (0x2A, SHIFT), (0x36, SHIFT), (0x38, ALT), (0x9D, CTL), (0xB8, ALT)]"

definition togglecode :: "nat \<Rightarrow> u32" where
  "togglecode = sparse [(0x3A, CAPSLOCK), (0x45, NUMLOCK), (0x46, SCROLLLOCK)]"

definition chars :: "string \<Rightarrow> u32 list" where
  "chars = map of_char"

text \<open>A character table: its first rows, and the keys with codes from 0x80 on.\<close>

definition keymap :: "u32 list \<Rightarrow> (nat \<times> u32) list \<Rightarrow> nat \<Rightarrow> u32" where
  "keymap rows special i = (if i < length rows then rows ! i else sparse special i)"

definition special_keys :: "(nat \<times> u32) list" where
  "special_keys =
     [(0xC8, 0xE2), (0xD0, 0xE3), (0xC9, 0xE6), (0xD1, 0xE7), (0xCB, 0xE4), (0xCD, 0xE5),
      (0x97, 0xE0), (0xCF, 0xE1), (0xD2, 0xE8), (0xD3, 0xE9)]"

definition normal_rows :: "u32 list" where
  "normal_rows =
     [0, 0x1B] @ chars ''123456'' @ chars ''7890-='' @ [8, 9] @ chars ''qwertyui'' @ chars ''op[]'' @ [10, 0] @ chars ''as''
      @ chars ''dfghjkl;'' @ [39, 96, 0, 92] @ chars ''zxcv'' @ chars ''bnm,./'' @ [0] @ chars ''*''
      @ [0, 32, 0, 0, 0, 0, 0, 0] @ [0, 0, 0, 0, 0, 0, 0] @ chars ''7'' @ chars ''89-456+1'' @ chars ''230.'' @ [0, 0, 0, 0]"

definition normalmap :: "nat \<Rightarrow> u32" where
  "normalmap = keymap normal_rows
     ([(0x9C, 10), (0xB5, of_char CHR ''/'')] @ special_keys)"

definition shift_rows :: "u32 list" where
  "shift_rows =
     [0, 27] @ chars ''!@#$%^'' @ chars ''&*()_+'' @ [8, 9] @ chars ''QWERTYUI'' @ chars ''OP{}'' @ [10, 0] @ chars ''AS''
      @ chars ''DFGHJKL:'' @ [34, 126, 0, 124] @ chars ''ZXCV'' @ chars ''BNM<>?'' @ [0] @ chars ''*''
      @ [0, 32, 0, 0, 0, 0, 0, 0] @ [0, 0, 0, 0, 0, 0, 0] @ chars ''7'' @ chars ''89-456+1'' @ chars ''230.'' @ [0, 0, 0, 0]"

definition shiftmap :: "nat \<Rightarrow> u32" where
  "shiftmap = keymap shift_rows
     ([(0x9C, 10), (0xB5, of_char CHR ''/'')] @ special_keys)"

text \<open>\<open>C(x)\<close> is \<open>x - '@'\<close>, stored as a byte.\<close>

definition ctl :: "string \<Rightarrow> u32 list" where
  "ctl = map (\<lambda>c. (of_char c - of_char CHR ''@'') AND 0xFF)"

definition ctl_rows :: "u32 list" where
  "ctl_rows =
     replicate 8 0 @ replicate 8 0 @ ctl ''QWERTYUI'' @ ctl ''OP'' @ [0, 0, 13, 0] @ ctl ''AS''
      @ ctl ''DFGHJKL'' @ [0] @ [0, 0, 0] @ ctl [CHR 0x5C] @ ctl ''ZXCV'' @ ctl ''BNM'' @ [0, 0] @ ctl ''/'' @ [0, 0]"

definition ctlmap :: "nat \<Rightarrow> u32" where
  "ctlmap = keymap ctl_rows
     ([(0x9C, 13), (0xB5, (of_char CHR ''/'' - of_char CHR ''@'') AND 0xFF)] @ special_keys)"

section \<open>kbd.c\<close>

definition charcode :: "u32 \<Rightarrow> nat \<Rightarrow> u32" where
  "charcode i = (if i = 0 then normalmap else if i = 1 then shiftmap else ctlmap)"

text \<open>What \<open>kbdgetc\<close> makes of a byte from the keyboard: the result, and the new value of \<open>shift\<close>.\<close>

definition kbd_caps :: "u32 \<Rightarrow> u32" where
  "kbd_caps c =
     (if of_char CHR ''a'' \<le> c \<and> c \<le> of_char CHR ''z'' then c + (of_char CHR ''A'' - of_char CHR ''a'')
      else if of_char CHR ''A'' \<le> c \<and> c \<le> of_char CHR ''Z'' then c + (of_char CHR ''a'' - of_char CHR ''A'')
      else c)"

definition kbd_press :: "u32 \<Rightarrow> u32 \<Rightarrow> u32 \<times> u32" where
  "kbd_press dat shift =
     (let shift = shift OR shiftcode (unat dat);
          shift = shift XOR togglecode (unat dat);
          c = charcode (shift AND (CTL OR SHIFT)) (unat dat) in
      (if shift AND CAPSLOCK \<noteq> 0 then kbd_caps c else c, shift))"

definition kbd_byte :: "u32 \<Rightarrow> u32 \<Rightarrow> u32 \<times> u32" where
  "kbd_byte dat shift =
     (if dat = 0xE0 then (0, shift OR E0ESC)
      else if dat AND 0x80 \<noteq> 0
      then let dat = (if shift AND E0ESC \<noteq> 0 then dat else dat AND 0x7F) in
           (0, shift AND NOT (shiftcode (unat dat) OR E0ESC))
      else if shift AND E0ESC \<noteq> 0 then kbd_press (dat OR 0x80) (shift AND NOT E0ESC)
      else kbd_press dat shift)"

definition kbdgetc :: "device \<Rightarrow> u32 \<Rightarrow> io list \<Rightarrow> int \<times> u32 \<times> io list" where
  "kbdgetc d shift h =
     (let (st, h) = inb d 0x64 h in
      if st AND 0x01 = 0 then (- 1, shift, h)
      else let (dat, h) = inb d 0x60 h; (c, shift) = kbd_byte (ucast dat) shift in (int (unat c), shift, h))"

text \<open>The values \<open>consoleintr\<close> gets from \<open>kbdgetc\<close>; a keyboard that never runs empty is \<open>None\<close>.\<close>

partial_function (option) kbd_drain :: "device \<Rightarrow> u32 \<Rightarrow> io list \<Rightarrow> (int list \<times> u32 \<times> io list) option" where
  "kbd_drain d shift h =
     (let (c, shift, h) = kbdgetc d shift h in
      if c < 0 then Some ([], shift, h)
      else Option.bind (kbd_drain d shift h) (\<lambda>(cs, r). Some (c # cs, r)))"

definition kbdintr :: "device \<Rightarrow> u32 \<Rightarrow> io list \<Rightarrow> 'a kernel_scheme \<Rightarrow> ('a kernel_scheme, u32 \<times> io list) kres" where
  "kbdintr d shift h s =
     (case kbd_drain d shift h of
        None \<Rightarrow> Diverges
      | Some (cs, r) \<Rightarrow> bindK (consoleintr cs s) (\<lambda>_ s. Done r s))"

partial_function (option) uart_drain :: "device \<Rightarrow> bool \<Rightarrow> io list \<Rightarrow> (int list \<times> io list) option" where
  "uart_drain d uart h =
     (let (c, h) = uartgetc d uart h in
      if c < 0 then Some ([], h) else Option.bind (uart_drain d uart h) (\<lambda>(cs, r). Some (c # cs, r)))"

definition uartintr :: "device \<Rightarrow> bool \<Rightarrow> io list \<Rightarrow> 'a kernel_scheme \<Rightarrow> ('a kernel_scheme, io list) kres" where
  "uartintr d uart h s =
     (case uart_drain d uart h of
        None \<Rightarrow> Diverges
      | Some (cs, r) \<Rightarrow> bindK (consoleintr cs s) (\<lambda>_ s. Done r s))"

section \<open>What a key means\<close>

definition is_lower :: "u32 \<Rightarrow> bool" where
  "is_lower c \<longleftrightarrow> of_char CHR ''a'' \<le> c \<and> c \<le> of_char CHR ''z''"

lemma rows:
  "normal_rows = [0, 27, 49, 50, 51, 52, 53, 54, 55, 56, 57, 48, 45, 61, 8, 9, 113, 119, 101, 114, 116, 121, 117, 105,
     111, 112, 91, 93, 10, 0, 97, 115, 100, 102, 103, 104, 106, 107, 108, 59, 39, 96, 0, 92, 122, 120, 99, 118,
     98, 110, 109, 44, 46, 47, 0, 42, 0, 32, 0, 0, 0, 0, 0, 0, 0, 0, 0, 0, 0, 0, 0, 55,
     56, 57, 45, 52, 53, 54, 43, 49, 50, 51, 48, 46, 0, 0, 0, 0]"
  "shift_rows = [0, 27, 33, 64, 35, 36, 37, 94, 38, 42, 40, 41, 95, 43, 8, 9, 81, 87, 69, 82, 84, 89, 85, 73,
     79, 80, 123, 125, 10, 0, 65, 83, 68, 70, 71, 72, 74, 75, 76, 58, 34, 126, 0, 124, 90, 88, 67, 86,
     66, 78, 77, 60, 62, 63, 0, 42, 0, 32, 0, 0, 0, 0, 0, 0, 0, 0, 0, 0, 0, 0, 0, 55,
     56, 57, 45, 52, 53, 54, 43, 49, 50, 51, 48, 46, 0, 0, 0, 0]"
  "ctl_rows = [0, 0, 0, 0, 0, 0, 0, 0, 0, 0, 0, 0, 0, 0, 0, 0, 17, 23, 5, 18, 20, 25, 21, 9,
     15, 16, 0, 0, 13, 0, 1, 19, 4, 6, 7, 8, 10, 11, 12, 0, 0, 0, 0, 28, 26, 24, 3, 22,
     2, 14, 13, 0, 0, 239, 0, 0]"
  by (simp_all add: normal_rows_def shift_rows_def ctl_rows_def chars_def ctl_def eval_nat_numeral)

lemma row_entries:
  "list_all (\<lambda>(n, s, c). (is_lower n \<longrightarrow> s = n - 32 \<and> kbd_caps n = n - 32 \<and> kbd_caps (n - 32) = n \<and> c = n - 96)
     \<and> kbd_caps c = c) (zip normal_rows (zip shift_rows ctl_rows))"
  "list_all (\<lambda>n. \<not> is_lower n) (drop 56 normal_rows)"
  by (simp_all add: rows is_lower_def kbd_caps_def word_le_nat_alt)

lemma lower_index:
  assumes "is_lower (normalmap i)" "i < 128"
  shows "i < 56"
proof (rule ccontr)
  assume "\<not> i < 56"
  have n: "\<not> is_lower 0" by (simp add: is_lower_def)
  have l: "length normal_rows = 88" by (simp add: rows)
  have "\<not> is_lower (normal_rows ! i)" if "i < 88"
  proof -
    have "normal_rows ! i = drop 56 normal_rows ! (i - 56)" using that l \<open>\<not> i < 56\<close> by simp
    moreover have "drop 56 normal_rows ! (i - 56) \<in> set (drop 56 normal_rows)"
      using that l \<open>\<not> i < 56\<close> by (intro nth_mem) simp
    ultimately show ?thesis using row_entries(2) by (auto simp: list_all_iff)
  qed
  then have "i \<ge> 88" using assms(1) l by (auto simp: normalmap_def keymap_def split: if_splits)
  then have "normalmap i = 0" using assms(2) l by (simp add: normalmap_def keymap_def sparse_def special_keys_def)
  then show False using assms(1) n by simp
qed

lemma letter_entries:
  assumes l: "is_lower (normalmap i)" "i < 128"
  shows "shiftmap i = normalmap i - 32" "kbd_caps (normalmap i) = normalmap i - 32" "kbd_caps (normalmap i - 32) = normalmap i"
    "ctlmap i = normalmap i - 96" "kbd_caps (normalmap i - 96) = normalmap i - 96" "shiftcode i = 0" "togglecode i = 0"
proof -
  have i: "i < 56" by (rule lower_index [OF l])
  have r: "length normal_rows = 88" "length shift_rows = 88" "length ctl_rows = 56" by (simp_all add: rows)
  have e: "normalmap i = normal_rows ! i" "shiftmap i = shift_rows ! i" "ctlmap i = ctl_rows ! i"
    using i r by (simp_all add: normalmap_def shiftmap_def ctlmap_def keymap_def)
  have "zip normal_rows (zip shift_rows ctl_rows) ! i \<in> set (zip normal_rows (zip shift_rows ctl_rows))"
    using i r by (intro nth_mem) simp
  then have "(normalmap i, shiftmap i, ctlmap i) \<in> set (zip normal_rows (zip shift_rows ctl_rows))"
    using i r e by simp
  then have E: "shiftmap i = normalmap i - 32 \<and> kbd_caps (normalmap i) = normalmap i - 32
      \<and> kbd_caps (normalmap i - 32) = normalmap i \<and> ctlmap i = normalmap i - 96 \<and> kbd_caps (ctlmap i) = ctlmap i"
    using row_entries(1) l(1) unfolding list_all_iff by blast
  then show "shiftmap i = normalmap i - 32" "kbd_caps (normalmap i) = normalmap i - 32" "kbd_caps (normalmap i - 32) = normalmap i"
    "ctlmap i = normalmap i - 96" "kbd_caps (normalmap i - 96) = normalmap i - 96" by auto
  have "normalmap 29 = 0" "normalmap 42 = 0" "normalmap 54 = 0"
    by (simp_all add: normalmap_def keymap_def rows)
  then have "i \<noteq> 29" "i \<noteq> 42" "i \<noteq> 54" using l(1) by (auto simp: is_lower_def)
  then show "shiftcode i = 0" "togglecode i = 0" using i by (simp_all add: shiftcode_def togglecode_def sparse_def)
qed

lemma and_flag: "x AND 2 ^ k = (if bit x k then 2 ^ k else 0)" for x :: u32
  by (rule bit_word_eqI) (auto simp: bit_simps)

lemma shift_flags:
  fixes x :: u32
  shows "x AND SHIFT = (if bit x 0 then SHIFT else 0)" "x AND CTL = (if bit x 1 then CTL else 0)"
    "x AND CAPSLOCK = (if bit x 3 then CAPSLOCK else 0)"
    "x AND (CTL OR SHIFT) = (if bit x 1 then CTL else 0) OR (if bit x 0 then SHIFT else 0)"
proof -
  show f: "x AND SHIFT = (if bit x 0 then SHIFT else 0)" "x AND CTL = (if bit x 1 then CTL else 0)"
    "x AND CAPSLOCK = (if bit x 3 then CAPSLOCK else 0)"
    using and_flag [of x 0] and_flag [of x 1] and_flag [of x 3] by simp_all
  show "x AND (CTL OR SHIFT) = (if bit x 1 then CTL else 0) OR (if bit x 0 then SHIFT else 0)"
    unfolding bit.conj_disj_distrib f by (rule refl)
qed

lemma key_code:
  assumes "dat < (0x80 :: u32)"
  shows "dat AND 0x80 = 0" "dat \<noteq> 0xE0" "unat dat < 128"
proof -
  show i: "unat dat < 128" using assms by (simp add: word_less_nat_alt)
  have "take_bit 7 dat = dat" using i by (simp add: word_unat_eq_iff take_bit_eq_mod unat_mod)
  then have "\<not> bit dat 7" by (metis bit_take_bit_iff less_irrefl)
  then show "dat AND 0x80 = 0" using and_flag [of dat 7] by simp
  show "dat \<noteq> 0xE0" using assms by auto
qed

text \<open>
  A letter key without an escape before it: with Control the control code; otherwise upper case when
  exactly one of Shift and Caps Lock is on.
\<close>

lemma kbd_letter:
  assumes l: "is_lower (normalmap (unat dat))" and d: "dat < 0x80" and s: "shift AND E0ESC = 0"
  shows "kbd_byte dat shift =
    (if shift AND CTL \<noteq> 0 then normalmap (unat dat) - 96
     else if (shift AND SHIFT \<noteq> 0) \<noteq> (shift AND CAPSLOCK \<noteq> 0) then normalmap (unat dat) - 32
     else normalmap (unat dat), shift)"
proof -
  note k = key_code [OF d]
  define i where "i = unat dat"
  note T = letter_entries [OF l k(3), folded i_def]
  have c: "charcode 0 = normalmap" "charcode 1 = shiftmap" "charcode 2 = ctlmap" "charcode 3 = ctlmap"
    by (simp_all add: charcode_def)
  have "kbd_byte dat shift = kbd_press dat shift" using k s by (simp add: kbd_byte_def)
  also have "\<dots> = (let c = charcode (shift AND (CTL OR SHIFT)) i in
      (if shift AND CAPSLOCK \<noteq> 0 then kbd_caps c else c, shift))"
    by (simp only: kbd_press_def i_def [symmetric] T Let_def or.right_neutral xor.right_neutral)
  finally show ?thesis
    unfolding i_def [symmetric] Let_def shift_flags
    by (cases "bit shift 0"; cases "bit shift 1"; cases "bit shift 3") (simp_all add: c T)
qed

lemma add_remove_flags:
  fixes x :: u32
  assumes "x AND a = 0" "x AND e = 0"
  shows "(x OR a) AND NOT (a OR e) = x"
proof (rule bit_word_eqI)
  fix n
  have "\<not> (bit x n \<and> bit a n)" "\<not> (bit x n \<and> bit e n)"
    using assms bit_and_iff [of x a n] bit_and_iff [of x e n] by auto
  then show "bit ((x OR a) AND NOT (a OR e)) n \<longleftrightarrow> bit x n" if "n < LENGTH(32)"
    using that by (auto simp only: bit_simps possible_bit_word)
qed

text \<open>
  A modifier key that is pressed and released again leaves the modifiers as they were. (The code of a
  release has the top bit set; for 0x60 it would be the escape.)
\<close>

lemma kbd_modifier:
  assumes d: "dat < 0x80" "dat \<noteq> 0x60" and m: "togglecode (unat dat) = 0"
    and s: "shift AND E0ESC = 0" "shift AND shiftcode (unat dat) = 0"
  shows "snd (kbd_byte (dat OR 0x80) (snd (kbd_byte dat shift))) = shift"
proof -
  note k = key_code [OF d(1)]
  define sc where "sc = shiftcode (unat dat)"
  have "take_bit 7 dat = dat" using k(3) by (simp add: word_unat_eq_iff take_bit_eq_mod unat_mod)
  moreover have "(0x7F :: u32) = mask 7" by (simp add: mask_eq_exp_minus_1)
  moreover have "take_bit 7 (0x80 :: u32) = 0" by simp
  ultimately have r2: "(dat OR 0x80) AND 0x7F = dat" by (simp only: take_bit_eq_mask [symmetric] take_bit_or or.right_neutral)
  have r1: "(dat OR 0x80) AND 0x80 \<noteq> 0" by (simp add: bit.conj_disj_distrib2 k(1))
  have r4: "dat OR 0x80 \<noteq> 0xE0"
  proof
    assume "dat OR 0x80 = 0xE0"
    then have "dat = 0xE0 AND 0x7F" using r2 by simp
    then show False using d(2) by simp
  qed
  have r3: "sc AND E0ESC = 0" by (simp add: sc_def shiftcode_def sparse_def)
  note r = r1 r2 r3 r4
  have "snd (kbd_byte dat shift) = shift OR sc" using k s(1) m by (simp add: kbd_byte_def kbd_press_def Let_def sc_def)
  moreover have "(shift OR sc) AND E0ESC = 0" using s(1) r(3) by (simp add: bit.conj_disj_distrib2)
  ultimately have "snd (kbd_byte (dat OR 0x80) (snd (kbd_byte dat shift))) = (shift OR sc) AND NOT (sc OR E0ESC)"
    using r by (simp add: kbd_byte_def Let_def sc_def)
  also have "\<dots> = shift" using add_remove_flags s unfolding sc_def by blast
  finally show ?thesis .
qed

end
