(* ===== verification/Mp.thy ===== *)
theory Mp
  imports Strings Ports
begin

unbundle bit_operations_syntax

text \<open>
  mp.c: the search for the tables in which the BIOS describes the processors, and their reading. The
  tables are bytes of memory. A table whose entries are all of known types is read completely; at an
  entry of another type the loop of \<open>mpinit\<close> is shown to run forever, without reaching the panic that
  follows it.
\<close>

section \<open>Tables\<close>

definition load16 :: "memory \<Rightarrow> u32 \<Rightarrow> u16" where
  "load16 m a = ucast (m a) OR push_bit 8 (ucast (m (a + 1)))"

text \<open>The buffer a pointer points to.\<close>

definition bytes_at :: "memory \<Rightarrow> u32 \<Rightarrow> cbuf" where
  "bytes_at m a = (\<lambda>i. m (a + of_nat i))"

definition text_buf :: "string \<Rightarrow> cbuf" where
  "text_buf s = (\<lambda>i. if i < length s then of_char (s ! i) else 0)"

text \<open>The result is a byte: the sum modulo 256.\<close>

fun mp_sum :: "memory \<Rightarrow> u32 \<Rightarrow> nat \<Rightarrow> u8" where
  "mp_sum m addr 0 = 0"
| "mp_sum m addr (Suc len) = m addr + mp_sum m (addr + 1) len"

text \<open>The loop of \<open>mpsearch1\<close>; a structure \<open>mp\<close> has 16 bytes. The null pointer is \<open>None\<close>.\<close>

fun mp_scan :: "nat \<Rightarrow> memory \<Rightarrow> u32 \<Rightarrow> u32 \<Rightarrow> u32 option" where
  "mp_scan 0 m p e = None"
| "mp_scan (Suc n) m p e =
     (if p < e
      then if memcmp (bytes_at m p) (text_buf ''_MP_'') 4 = 0 \<and> mp_sum m p 16 = 0 then Some p else mp_scan n m (p + 16) e
      else None)"

definition mpsearch1 :: "memory \<Rightarrow> u32 \<Rightarrow> nat \<Rightarrow> u32 option" where
  "mpsearch1 m a len = mp_scan (len div 16 + 1) m (P2V a) (P2V a + of_nat len)"

definition mpsearch :: "memory \<Rightarrow> u32 option" where
  "mpsearch m =
     (let bda = P2V 0x400;
          p = push_bit 4 (push_bit 8 (ucast (m (bda + 0x0F))) OR ucast (m (bda + 0x0E))) :: u32;
          first = (if p \<noteq> 0 then mpsearch1 m p 1024
                   else let p = (push_bit 8 (ucast (m (bda + 0x14))) OR ucast (m (bda + 0x13))) * 1024 :: u32 in
                        mpsearch1 m (p - 1024) 1024) in
      case first of Some mp \<Rightarrow> Some mp | None \<Rightarrow> mpsearch1 m 0xF0000 0x10000)"

text \<open>
  The fields used: \<open>physaddr\<close> at 4 and \<open>imcrp\<close> at 12 of \<open>struct mp\<close>; \<open>length\<close> at 4, \<open>version\<close> at 6 and \<open>lapicaddr\<close>
  at 36 of \<open>struct mpconf\<close>, which has 44 bytes. The result is the pair of the table and \<open>mp\<close>.
\<close>

definition mpconfig :: "memory \<Rightarrow> (u32 \<times> u32) option" where
  "mpconfig m =
     (case mpsearch m of
        None \<Rightarrow> None
      | Some mp \<Rightarrow>
          if load32 m (mp + 4) = 0 then None
          else
            let conf = P2V (load32 m (mp + 4)) in
            if memcmp (bytes_at m conf) (text_buf ''PCMP'') 4 \<noteq> 0 then None
            else if m (conf + 6) \<noteq> 1 \<and> m (conf + 6) \<noteq> 4 then None
            else if mp_sum m conf (unat (load16 m (conf + 4))) \<noteq> 0 then None
            else Some (conf, mp))"

section \<open>mpinit\<close>

abbreviation (input) MPPROC :: u8 where "MPPROC \<equiv> 0"
abbreviation (input) MPBUS :: u8 where "MPBUS \<equiv> 1"
abbreviation (input) MPIOAPIC :: u8 where "MPIOAPIC \<equiv> 2"
abbreviation (input) MPIOINTR :: u8 where "MPIOINTR \<equiv> 3"
abbreviation (input) MPLINTR :: u8 where "MPLINTR \<equiv> 4"

text \<open>The variables it sets: the identifiers of the CPUs found so far, one for each of \<open>ncpu\<close>, and two addresses.\<close>

record mpstate =
  apicids :: "u8 list"
  ioapicid :: u8
  lapic :: u32

definition mp_entry :: "memory \<Rightarrow> u32 \<Rightarrow> mpstate \<Rightarrow> mpstate" where
  "mp_entry m p s =
     (if m p = MPPROC then (if length (apicids s) < NCPU then s\<lparr>apicids := apicids s @ [m (p + 1)]\<rparr> else s)
      else if m p = MPIOAPIC then s\<lparr>ioapicid := m (p + 1)\<rparr>
      else s)"

definition mp_known :: "u8 \<Rightarrow> bool" where
  "mp_known t \<longleftrightarrow> t = MPPROC \<or> t = MPIOAPIC \<or> t = MPBUS \<or> t = MPIOINTR \<or> t = MPLINTR"

definition mp_size :: "u8 \<Rightarrow> u32" where
  "mp_size t = (if t = MPPROC then 20 else 8)"

text \<open>
  The loop. In the default case of the switch, \<open>break\<close> leaves the switch and not the loop, and \<open>p\<close> is
  not advanced.
\<close>

partial_function (option) mp_entries :: "memory \<Rightarrow> u32 \<Rightarrow> u32 \<Rightarrow> bool \<Rightarrow> mpstate \<Rightarrow> (bool \<times> mpstate) option" where
  "mp_entries m p e ismp s =
     (if p < e
      then if mp_known (m p) then mp_entries m (p + mp_size (m p)) e ismp (mp_entry m p s)
           else mp_entries m p e False s
      else Some (ismp, s))"

definition mpinit :: "device \<Rightarrow> memory \<Rightarrow> mpstate \<Rightarrow> io list \<Rightarrow> (mpstate, io list) kres" where
  "mpinit d m s h =
     (case mpconfig m of
        None \<Rightarrow> Panic ''Expect to run on an SMP''
      | Some (conf, mp) \<Rightarrow>
          let s = s\<lparr>lapic := load32 m (conf + 36)\<rparr> in
          case mp_entries m (conf + 44) (conf + ucast (load16 m (conf + 4))) True s of
            None \<Rightarrow> Diverges
          | Some (ismp, s) \<Rightarrow>
              if \<not> ismp then Panic (''Didn'' @ [CHR 0x27] @ ''t find a suitable machine'')
              else if m (mp + 12) \<noteq> 0
              then let h = outb 0x22 0x70 h; (v, h) = inb d 0x23 h in Done (outb 0x23 (v OR 1) h) s
              else Done h s)"

section \<open>Reading the entries\<close>

text \<open>The addresses of the entries of a table that ends at \<open>e\<close>, all of known types.\<close>

fun entries_at :: "memory \<Rightarrow> u32 \<Rightarrow> u32 \<Rightarrow> u32 list \<Rightarrow> bool" where
  "entries_at m p e [] \<longleftrightarrow> \<not> p < e"
| "entries_at m p e (q # qs) \<longleftrightarrow> q = p \<and> p < e \<and> mp_known (m p) \<and> entries_at m (p + mp_size (m p)) e qs"

lemma mp_entries_known: "entries_at m p e qs \<Longrightarrow> mp_entries m p e ismp s = Some (ismp, fold (mp_entry m) qs s)"
proof (induction qs arbitrary: p s)
  case Nil
  then show ?case by (simp add: mp_entries.simps)
next
  case (Cons q qs)
  then show ?case by (subst mp_entries.simps) simp
qed

text \<open>The identifiers collected: those of the first processors, NCPU at most.\<close>

lemma mp_entry_cpus:
  "length (apicids s) \<le> NCPU \<Longrightarrow> apicids (fold (mp_entry m) qs s)
    = take NCPU (apicids s @ map (\<lambda>q. m (q + 1)) (filter (\<lambda>q. m q = MPPROC) qs))"
proof (induction qs arbitrary: s)
  case (Cons q qs)
  have "length (apicids (mp_entry m q s)) \<le> NCPU" using Cons.prems by (simp add: mp_entry_def)
  from Cons.IH [OF this] Cons.prems show ?case by (auto simp: mp_entry_def [of m q] take_Cons')
qed simp

text \<open>An entry of unknown type that the loop reaches after the entries at \<open>qs\<close>.\<close>

fun reaches :: "memory \<Rightarrow> u32 \<Rightarrow> u32 \<Rightarrow> u32 list \<Rightarrow> u32 \<Rightarrow> bool" where
  "reaches m p e [] r \<longleftrightarrow> r = p \<and> p < e \<and> \<not> mp_known (m p)"
| "reaches m p e (q # qs) r \<longleftrightarrow> q = p \<and> p < e \<and> mp_known (m p) \<and> reaches m (p + mp_size (m p)) e qs r"

lemma mp_entries_stuck:
  assumes "mp_entries m p e ismp s = Some y"
  shows "\<not> (p < e \<and> \<not> mp_known (m p))"
proof (rule mp_entries.raw_induct [where P = "\<lambda>m p e ismp s y. \<not> (p < e \<and> \<not> mp_known (m p))", OF _ assms])
  fix f m p e ismp s y
  assume IH: "\<And>m p e ismp s y. f m p e ismp s = Some y \<Longrightarrow> \<not> (p < e \<and> \<not> mp_known (m p))"
    and eq: "(if p < e then if mp_known (m p) then f m (p + mp_size (m p)) e ismp (mp_entry m p s) else f m p e False s
      else Some (ismp, s)) = Some y"
  show "\<not> (p < e \<and> \<not> mp_known (m p))" using IH [of m p e False s y] eq by (auto split: if_splits)
qed

lemma mp_entries_hangs: "reaches m p e qs r \<Longrightarrow> mp_entries m p e ismp s = None"
proof (induction qs arbitrary: p s)
  case Nil
  then show ?case using mp_entries_stuck [of m p e ismp s] by (cases "mp_entries m p e ismp s") auto
next
  case (Cons q qs)
  then show ?case by (subst mp_entries.simps) simp
qed

text \<open>
  On a table with entries of known types only, \<open>mpinit\<close> returns with the identifiers of the first NCPU
  processors in the order of the table.
\<close>

lemma mpinit_cpus:
  assumes "mpconfig m = Some (conf, mp)" "apicids s = []"
    and "entries_at m (conf + 44) (conf + ucast (load16 m (conf + 4))) qs"
  shows "\<exists>h' t. mpinit d m s h = Done h' t \<and> lapic t = load32 m (conf + 36)
    \<and> apicids t = take NCPU (map (\<lambda>q. m (q + 1)) (filter (\<lambda>q. m q = MPPROC) qs))"
proof -
  define u where "u = s\<lparr>lapic := load32 m (conf + 36)\<rparr>"
  have l: "lapic (fold (mp_entry m) xs v) = lapic v" for xs v by (induction xs arbitrary: v) (auto simp: mp_entry_def)
  have "apicids (fold (mp_entry m) qs u) = take NCPU (map (\<lambda>q. m (q + 1)) (filter (\<lambda>q. m q = MPPROC) qs))"
    "lapic (fold (mp_entry m) qs u) = load32 m (conf + 36)"
    using mp_entry_cpus [of u m qs] l assms(2) by (simp_all add: u_def)
  then show ?thesis
    using assms(1) mp_entries_known [OF assms(3), of True u] by (simp add: mpinit_def u_def [symmetric] Let_def inb_def)
qed

section \<open>Properties\<close>

text \<open>
  C22: an entry of unknown type in the table of the BIOS stops the kernel: the loop of \<open>mpinit\<close> that
  reaches it never ends, and the panic "Didn't find a suitable machine" that should follow is not
  reached.
\<close>

theorem mpinit_unknown_hangs:
  assumes "mpconfig m = Some (conf, mp)" "reaches m (conf + 44) (conf + ucast (load16 m (conf + 4))) qs r"
  shows "mpinit d m s h = Diverges"
  using assms mp_entries_hangs [OF assms(2)] by (simp add: mpinit_def Let_def)

text \<open>A table with one processor and one entry of type 5.\<close>

definition bad_table :: memory where
  "bad_table a =
     (if a - 0x80010000 < 16
      then [0x5F, 0x4D, 0x50, 0x5F, 0, 0, 2, 0, 1, 4, 158, 0, 0, 0, 0, 0] ! unat (a - 0x80010000)
      else if a - 0x80020000 < 72
      then ([0x50, 0x43, 0x4D, 0x50, 72, 0, 4, 160] @ replicate 28 0 @ [0, 0, 0xE0, 0xFE, 0, 0, 0, 0]
            @ [0, 1] @ replicate 18 0 @ [5, 0, 0, 0, 0, 0, 0, 0]) ! unat (a - 0x80020000)
      else if a = 0x8000040F then 0x10 else 0)"

theorem mpinit_unknown_hangs_witness:
  "mpinit \<lparr>dev_in = \<lambda>_ _. 0, dev_data = \<lambda>_ _ _. [], dev_word = \<lambda>_ _. 0\<rparr> bad_table
     \<lparr>apicids = [], ioapicid = 0, lapic = 0\<rparr> [] = Diverges"
proof (rule mpinit_unknown_hangs)
  show "mpconfig bad_table = Some (0x80020000, 0x80010000)" by code_simp
  show "reaches bad_table (0x80020000 + 44) (0x80020000 + ucast (load16 bad_table (0x80020000 + 4))) [0x8002002C] 0x80020040"
    by code_simp
qed

end
