(* ===== verification/Programs.thy ===== *)
theory Programs
  imports Usys
begin

text \<open>
  The user programs cat.c, echo.c, wc.c, ls.c, kill.c, ln.c, mkdir.c, rm.c, zombie.c and init.c. The
  arguments of a program are the strings after its name. The counts of \<open>wc\<close> are shown to be those of
  the whole input, however the calls of \<open>read\<close> cut it, and \<open>cat\<close> to write what it reads.
\<close>

section \<open>cat.c\<close>

text \<open>The loop of \<open>cat\<close>, before \<open>read\<close>, and with the bytes read before \<open>write\<close>; \<open>k\<close> is what follows.\<close>

primcorec cat_loop :: "int \<Rightarrow> prog \<Rightarrow> string option \<Rightarrow> prog" where
  "cat_loop fd k st =
     (case st of
        None \<Rightarrow>
          Sys_read fd 512 (\<lambda>r. case r of
              None \<Rightarrow> printf 1 (''cat: read error'' @ [CHR 0x0A]) [] Exit
            | Some b \<Rightarrow> if b = [] then k else cat_loop fd k (Some b))
      | Some b \<Rightarrow>
          Sys_write 1 b (\<lambda>n. if n \<noteq> int (length b) then printf 1 (''cat: write error'' @ [CHR 0x0A]) [] Exit
            else cat_loop fd k None))"

definition cat :: "int \<Rightarrow> prog \<Rightarrow> prog" where
  "cat fd k = cat_loop fd k None"

fun cat_files :: "string list \<Rightarrow> prog" where
  "cat_files [] = Exit"
| "cat_files (a # as) =
     Sys_open a 0 (\<lambda>fd. if fd < 0 then printf 1 (''cat: cannot open %s'' @ [CHR 0x0A]) [Str (Some a)] Exit
       else cat fd (Sys_close fd (cat_files as)))"

definition cat_main :: "string list \<Rightarrow> prog" where
  "cat_main args = (if args = [] then cat 0 Exit else cat_files args)"

section \<open>echo.c\<close>

fun echo_main :: "string list \<Rightarrow> prog" where
  "echo_main [] = Exit"
| "echo_main (a # as) =
     printf 1 ''%s%s'' [Str (Some a), Str (Some (if as \<noteq> [] then '' '' else [CHR 0x0A]))] (echo_main as)"

section \<open>wc.c\<close>

text \<open>The counters of \<open>wc\<close>, 32-bit integers: lines, words and characters, and the flag \<open>inword\<close>.\<close>

type_synonym counts = "u32 \<times> u32 \<times> u32 \<times> bool"

definition wc_space :: "char \<Rightarrow> bool" where
  "wc_space ch \<longleftrightarrow> strchr ([CHR '' '', CHR 0x0D, CHR 0x09, CHR 0x0A, CHR 0x0B]) ch \<noteq> None"

definition wc_char :: "char \<Rightarrow> counts \<Rightarrow> counts" where
  "wc_char ch x =
     (let (l, w, c, inword) = x;
          c = c + 1;
          l = (if ch = CHR 0x0A then l + 1 else l) in
      if wc_space ch then (l, w, c, False)
      else if \<not> inword then (l, w + 1, c, True) else (l, w, c, inword))"

primcorec wc_loop :: "int \<Rightarrow> string \<Rightarrow> prog \<Rightarrow> counts \<Rightarrow> prog" where
  "wc_loop fd name k x =
     Sys_read fd 512 (\<lambda>r. case r of
         None \<Rightarrow> printf 1 (''wc: read error'' @ [CHR 0x0A]) [] Exit
       | Some b \<Rightarrow>
           if b = []
           then printf 1 (''%d %d %d %s'' @ [CHR 0x0A])
                  [Num (fst x), Num (fst (snd x)), Num (fst (snd (snd x))), Str (Some name)] k
           else wc_loop fd name k (fold wc_char b x))"

definition wc :: "int \<Rightarrow> string \<Rightarrow> prog \<Rightarrow> prog" where
  "wc fd name k = wc_loop fd name k (0, 0, 0, False)"

fun wc_files :: "string list \<Rightarrow> prog" where
  "wc_files [] = Exit"
| "wc_files (a # as) =
     Sys_open a 0 (\<lambda>fd. if fd < 0 then printf 1 (''wc: cannot open %s'' @ [CHR 0x0A]) [Str (Some a)] Exit
       else wc fd a (Sys_close fd (wc_files as)))"

definition wc_main :: "string list \<Rightarrow> prog" where
  "wc_main args = (if args = [] then wc 0 [] Exit else wc_files args)"

section \<open>kill.c, ln.c, mkdir.c, rm.c and zombie.c\<close>

definition kill_main :: "string list \<Rightarrow> prog" where
  "kill_main args =
     (if args = [] then printf 2 (''usage: kill pid...'' @ [CHR 0x0A]) [] Exit
      else foldr (\<lambda>a. Sys_kill (atoi a)) args Exit)"

definition ln_main :: "string list \<Rightarrow> prog" where
  "ln_main args =
     (case args of
        [a, b] \<Rightarrow>
          Sys_link a b (\<lambda>r. if r < 0
            then printf 2 (''link %s %s: failed'' @ [CHR 0x0A]) [Str (Some a), Str (Some b)] Exit else Exit)
      | _ \<Rightarrow> printf 2 (''Usage: ln old new'' @ [CHR 0x0A]) [] Exit)"

fun mkdir_files :: "string list \<Rightarrow> prog" where
  "mkdir_files [] = Exit"
| "mkdir_files (a # as) =
     Sys_mkdir a (\<lambda>r. if r < 0
       then printf 2 (''mkdir: %s failed to create'' @ [CHR 0x0A]) [Str (Some a)] Exit else mkdir_files as)"

definition mkdir_main :: "string list \<Rightarrow> prog" where
  "mkdir_main args =
     (if args = [] then printf 2 (''Usage: mkdir files...'' @ [CHR 0x0A]) [] Exit else mkdir_files args)"

fun rm_files :: "string list \<Rightarrow> prog" where
  "rm_files [] = Exit"
| "rm_files (a # as) =
     Sys_unlink a (\<lambda>r. if r < 0
       then printf 2 (''rm: %s failed to delete'' @ [CHR 0x0A]) [Str (Some a)] Exit else rm_files as)"

definition rm_main :: "string list \<Rightarrow> prog" where
  "rm_main args =
     (if args = [] then printf 2 (''Usage: rm files...'' @ [CHR 0x0A]) [] Exit else rm_files args)"

definition zombie_main :: prog where
  "zombie_main = Sys_fork (\<lambda>pid. if pid > 0 then Sys_sleep 5 Exit else Exit)"

section \<open>init.c\<close>

text \<open>Where the endless loop of \<open>init\<close> is: at its start, before \<open>fork\<close>, waiting for \<open>pid\<close>, or at the message.\<close>

datatype (discs_sels) init_pc = Init_start | Init_fork | Init_wait int | Init_zombie int

primcorec init_loop :: "init_pc \<Rightarrow> prog" where
  "init_loop st =
     (case st of
        Init_start \<Rightarrow> Print 1 (''init: starting sh'' @ [CHR 0x0A]) (init_loop Init_fork)
      | Init_fork \<Rightarrow>
          Sys_fork (\<lambda>pid.
            if pid < 0 then Print 1 (''init: fork failed'' @ [CHR 0x0A]) Exit
            else if pid = 0 then Sys_exec ''sh'' [''sh''] (Print 1 (''init: exec sh failed'' @ [CHR 0x0A]) Exit)
            else init_loop (Init_wait pid))
      | Init_wait pid \<Rightarrow>
          Sys_wait (\<lambda>wpid. if wpid \<ge> 0 \<and> wpid \<noteq> pid then init_loop (Init_zombie pid) else init_loop Init_start)
      | Init_zombie pid \<Rightarrow> Print 1 (''zombie!'' @ [CHR 0x0A]) (init_loop (Init_wait pid)))"

definition init_main :: prog where
  "init_main =
     Sys_open ''console'' 2 (\<lambda>r.
       let rest = Sys_dup 0 (Sys_dup 0 (init_loop Init_start)) in
       if r < 0 then Sys_mknod ''console'' 1 1 (Sys_open ''console'' 2 (\<lambda>_. rest)) else rest)"

section \<open>ls.c\<close>

abbreviation (input) DIRSIZ :: nat where "DIRSIZ \<equiv> 14"

text \<open>\<open>fmtname\<close>: the part of the path after the last slash, padded with blanks to DIRSIZ characters.\<close>

definition fmtname :: "string \<Rightarrow> string" where
  "fmtname path =
     (let p = rev (takeWhile (\<lambda>c. c \<noteq> CHR ''/'') (rev path)) in
      if length p \<ge> DIRSIZ then p else p @ replicate (DIRSIZ - length p) (CHR '' ''))"

text \<open>The line \<open>ls\<close> prints for a file with the result \<open>st\<close> of \<open>stat\<close>.\<close>

definition ls_line :: "string \<Rightarrow> u16 \<times> u32 \<times> u32 \<Rightarrow> prog \<Rightarrow> prog" where
  "ls_line path st k =
     (let (ty, ino, sz) = st in
      printf 1 (''%s %d %d %d'' @ [CHR 0x0A]) [Str (Some (fmtname path)), Num (scast ty), Num ino, Num sz] k)"

text \<open>
  The loop over the entries of a directory, with the steps of \<open>stat\<close>: before \<open>read\<close>; before the \<open>open\<close>
  of a path; before \<open>fstat\<close> and before \<open>close\<close> on the descriptor \<open>f\<close>; before the line printed. An entry has
  two bytes of inode number and DIRSIZ bytes of name.
\<close>

datatype (discs_sels) ls_pc =
    Ls_read
  | Ls_open string
  | Ls_fstat string int
  | Ls_close string int "(u16 \<times> u32 \<times> u32) option"
  | Ls_print string

definition entry_name :: "string \<Rightarrow> string" where
  "entry_name de = takeWhile (\<lambda>c. c \<noteq> CHR 0x00) (take DIRSIZ (drop 2 de))"

definition ls_text :: "string \<Rightarrow> (u16 \<times> u32 \<times> u32) option \<Rightarrow> string" where
  "ls_text buf st =
     (case st of
        None \<Rightarrow> the (uformat False (''ls: cannot stat %s'' @ [CHR 0x0A]) [Str (Some buf)])
      | Some (ty, ino, sz) \<Rightarrow>
          the (uformat False (''%s %d %d %d'' @ [CHR 0x0A])
            [Str (Some (fmtname buf)), Num (scast ty), Num ino, Num sz]))"

primcorec ls_dir :: "int \<Rightarrow> string \<Rightarrow> prog \<Rightarrow> ls_pc \<Rightarrow> prog" where
  "ls_dir fd path k st =
     (case st of
        Ls_read \<Rightarrow>
          Sys_read fd 16 (\<lambda>r. case r of
              None \<Rightarrow> k
            | Some de \<Rightarrow>
                if length de \<noteq> 16 then k
                else if take 2 de = [CHR 0x00, CHR 0x00] then ls_dir fd path k Ls_read
                else ls_dir fd path k (Ls_open (path @ ''/'' @ entry_name de)))
      | Ls_open buf \<Rightarrow>
          Sys_open buf 0 (\<lambda>f. if f < 0 then ls_dir fd path k (Ls_print (ls_text buf None))
            else ls_dir fd path k (Ls_fstat buf f))
      | Ls_fstat buf f \<Rightarrow> Sys_fstat f (\<lambda>r. ls_dir fd path k (Ls_close buf f r))
      | Ls_close buf f r \<Rightarrow> Sys_close f (ls_dir fd path k (Ls_print (ls_text buf r)))
      | Ls_print t \<Rightarrow> Print 1 t (ls_dir fd path k Ls_read))"

definition ls :: "string \<Rightarrow> prog \<Rightarrow> prog" where
  "ls path k =
     Sys_open path 0 (\<lambda>fd.
       if fd < 0 then printf 2 (''ls: cannot open %s'' @ [CHR 0x0A]) [Str (Some path)] k
       else Sys_fstat fd (\<lambda>st. case st of
           None \<Rightarrow> printf 2 (''ls: cannot stat %s'' @ [CHR 0x0A]) [Str (Some path)] (Sys_close fd k)
         | Some (ty, ino, sz) \<Rightarrow>
             if ty = 2 then ls_line path (ty, ino, sz) (Sys_close fd k)
             else if ty = 1 then
               (if length path + 1 + DIRSIZ + 1 > 512
                then printf 1 (''ls: path too long'' @ [CHR 0x0A]) [] (Sys_close fd k)
                else ls_dir fd path (Sys_close fd k) Ls_read)
             else Sys_close fd k))"

definition ls_main :: "string list \<Rightarrow> prog" where
  "ls_main args = (if args = [] then ls ''.'' Exit else foldr ls args Exit)"

section \<open>The text of formats\<close>

lemma printf_number: "\<exists>t. printint digits_upper x 10 True = Some t"
  using printint_value [of 10 digits_upper x True] by auto

text \<open>No format of these programs misses an argument.\<close>

lemma ls_line_print: "ls_line buf st k = Print 1 (ls_text buf (Some st)) k"
proof -
  obtain ty ino sz where st: "st = (ty, ino, sz)" by (cases st)
  obtain a b c where "printint digits_upper (scast ty) 10 True = Some a" "printint digits_upper ino 10 True = Some b"
    "printint digits_upper sz 10 True = Some c" using printf_number by metis
  then show ?thesis by (simp add: ls_line_def st printf_def ls_text_def)
qed

lemma fmtname_length: "DIRSIZ \<le> length (fmtname path)"
  by (simp add: fmtname_def Let_def)

section \<open>Counting\<close>

text \<open>The number of words of a text: the positions where one starts.\<close>

definition word_starts :: "string \<Rightarrow> nat set" where
  "word_starts s = {i. i < length s \<and> \<not> wc_space (s ! i) \<and> (i = 0 \<or> wc_space (s ! (i - 1)))}"

lemma word_starts_snoc:
  "word_starts (s @ [ch]) = word_starts s \<union>
     (if \<not> wc_space ch \<and> (s = [] \<or> wc_space (last s)) then {length s} else {})"
proof (rule set_eqI)
  fix i
  show "i \<in> word_starts (s @ [ch]) \<longleftrightarrow> i \<in> word_starts s \<union>
     (if \<not> wc_space ch \<and> (s = [] \<or> wc_space (last s)) then {length s} else {})"
  proof (cases "i = length s")
    case True
    then show ?thesis by (cases "s = []") (auto simp: word_starts_def nth_append last_conv_nth)
  next
    case False
    then show ?thesis by (auto simp: word_starts_def nth_append)
  qed
qed

lemma card_word_starts_snoc:
  "card (word_starts (s @ [ch])) = card (word_starts s) +
     (if \<not> wc_space ch \<and> (s = [] \<or> wc_space (last s)) then 1 else 0)"
proof -
  have "finite (word_starts s)" "length s \<notin> word_starts s" by (auto simp: word_starts_def)
  then show ?thesis by (simp add: word_starts_snoc)
qed

definition counts_of :: "string \<Rightarrow> counts" where
  "counts_of s = (of_nat (count_list s (CHR 0x0A)), of_nat (card (word_starts s)), of_nat (length s),
     s \<noteq> [] \<and> \<not> wc_space (last s))"

lemma wc_char_counts: "wc_char ch (counts_of s) = counts_of (s @ [ch])"
  unfolding counts_of_def wc_char_def by (auto simp: Let_def card_word_starts_snoc)

lemma fold_wc_char: "fold wc_char b (counts_of s) = counts_of (s @ b)"
  by (induction b arbitrary: s) (simp_all add: wc_char_counts)

lemma wc_loop_runs:
  assumes "list_all (\<lambda>b. b \<noteq> []) chunks"
  shows "runs (wc_loop fd name k (counts_of s)) (map Some chunks) [] (wc_loop fd name k (counts_of (s @ concat chunks)))"
  using assms
proof (induction chunks arbitrary: s)
  case Nil
  then show ?case by (simp add: runs_refl)
next
  case (Cons b chunks)
  then have "runs (wc_loop fd name k (counts_of (s @ b))) (map Some chunks) []
      (wc_loop fd name k (counts_of (s @ concat (b # chunks))))" using Cons.IH [of "s @ b"] by simp
  then show ?case
    by (subst wc_loop.code) (simp add: runs_read fold_wc_char Cons.prems [simplified])
qed

lemma uformat_counts:
  "\<exists>t. uformat False (''%d %d %d %s'' @ [CHR 0x0A]) [Num a, Num b, Num c, Str (Some n)] = Some t"
proof -
  obtain x y z where "printint digits_upper a 10 True = Some x" "printint digits_upper b 10 True = Some y"
    "printint digits_upper c 10 True = Some z" using printf_number by metis
  then show ?thesis by simp
qed

lemma wc_start: "wc fd name k = wc_loop fd name k (counts_of [])"
  by (simp add: wc_def counts_of_def word_starts_def)

lemma wc_runs:
  assumes "list_all (\<lambda>b. b \<noteq> []) chunks"
  shows "\<exists>t. uformat False (''%d %d %d %s'' @ [CHR 0x0A])
        [Num (of_nat (count_list (concat chunks) (CHR 0x0A))), Num (of_nat (card (word_starts (concat chunks)))),
         Num (of_nat (length (concat chunks))), Str (Some name)] = Some t
      \<and> runs (wc fd name k) (map Some chunks @ [Some []]) [(1, t)] k"
proof -
  define s where "s = concat chunks"
  obtain t where t: "uformat False (''%d %d %d %s'' @ [CHR 0x0A])
      [Num (of_nat (count_list s (CHR 0x0A))), Num (of_nat (card (word_starts s))), Num (of_nat (length s)),
       Str (Some name)] = Some t" using uformat_counts by blast
  have "runs (wc_loop fd name k (counts_of s)) [Some []] [(1, t)] k"
    by (subst wc_loop.code, rule runs_read)
      (simp only: option.case if_True simp_thms counts_of_def fst_conv snd_conv printf_def t, intro runs_intros)
  from runs_trans [OF wc_loop_runs [OF assms, of fd name k "[]"], unfolded append_Nil, folded s_def, OF this]
  show ?thesis using t unfolding wc_start s_def by auto
qed

lemma wc_read_error:
  assumes "list_all (\<lambda>b. b \<noteq> []) chunks"
  shows "runs (wc fd name k) (map Some chunks @ [None]) [(1, ''wc: read error'' @ [CHR 0x0A])] Exit"
proof -
  have "runs (wc_loop fd name k x) [None] [(1, ''wc: read error'' @ [CHR 0x0A])] Exit" for x
    by (subst wc_loop.code, rule runs_read) (simp add: printf_def runs_intros)
  from runs_trans [OF wc_loop_runs [OF assms, of fd name k "[]"] this] show ?thesis unfolding wc_start by simp
qed

section \<open>Copying\<close>

lemma cat_round:
  assumes "b \<noteq> []"
  shows "runs (cat_loop fd k None) [Some b] [(1, b)] (cat_loop fd k None)"
proof -
  have "runs (cat_loop fd k (Some b)) [] [(1, b)] (cat_loop fd k None)"
    by (subst cat_loop.code) (simp add: runs_intros)
  then show ?thesis using assms by (subst cat_loop.code) (simp add: runs_read)
qed

lemma cat_loop_runs:
  "list_all (\<lambda>b. b \<noteq> []) chunks \<Longrightarrow>
    runs (cat_loop fd k None) (map Some chunks) (map (Pair 1) chunks) (cat_loop fd k None)"
proof (induction chunks)
  case (Cons b chunks)
  from runs_trans [OF cat_round Cons.IH] Cons.prems show ?case by simp
qed (simp add: runs_refl)

lemma cat_runs:
  assumes "list_all (\<lambda>b. b \<noteq> []) chunks"
  shows "runs (cat fd k) (map Some chunks @ [Some []]) (map (Pair 1) chunks) k"
proof -
  have "runs (cat_loop fd k None) [Some []] [] k" by (subst cat_loop.code) (simp add: runs_intros)
  from runs_trans [OF cat_loop_runs [OF assms] this] show ?thesis by (simp add: cat_def)
qed

lemma stdout_chunks: "stdout (map (Pair 1) chunks) = concat chunks"
  by (induction chunks) simp_all

text \<open>\<open>echo\<close> prints its arguments with single blanks between them.\<close>

fun joined :: "string list \<Rightarrow> string" where
  "joined [] = []"
| "joined [a] = a @ [CHR 0x0A]"
| "joined (a # b # as) = a @ '' '' @ joined (b # as)"

lemma echo_runs: "\<exists>out. runs (echo_main args) [] out Exit \<and> stdout out = joined args"
proof (induction args rule: joined.induct)
  case (2 a)
  show ?case by (rule exI [of _ "[(1, a @ [CHR 0x0A])]"]) (simp add: printf_def runs_intros)
next
  case (3 a b as)
  then obtain out where o: "runs (echo_main (b # as)) [] out Exit" "stdout out = joined (b # as)" by blast
  show ?case
    by (rule exI [of _ "(1, a @ '' '') # out"]) (use o in \<open>simp add: printf_def runs_print\<close>)
next
  case 1
  show ?case by (rule exI [of _ "[]"]) (simp add: runs_refl)
qed

section \<open>Properties\<close>

text \<open>
  C36: \<open>wc\<close> counts its input, not the pieces it arrives in: for any sequence of non-empty reads the
  line it prints has the number of newlines, the number of positions at which a word starts and
  the number of characters of the whole input (as 32-bit numbers); after a failing read it prints
  the error and exits.
\<close>

theorem wc_counts:
  assumes "list_all (\<lambda>b. b \<noteq> []) chunks" and "s = concat chunks"
  shows "(\<exists>t. uformat False (''%d %d %d %s'' @ [CHR 0x0A])
        [Num (of_nat (count_list s (CHR 0x0A))), Num (of_nat (card (word_starts s))), Num (of_nat (length s)),
         Str (Some name)] = Some t \<and> runs (wc fd name k) (map Some chunks @ [Some []]) [(1, t)] k)
    \<and> runs (wc fd name k) (map Some chunks @ [None]) [(1, ''wc: read error'' @ [CHR 0x0A])] Exit"
  using wc_runs [OF assms(1)] wc_read_error [OF assms(1)] unfolding assms(2) by blast

theorem wc_counts_witness:
  "\<exists>t. uformat False (''%d %d %d %s'' @ [CHR 0x0A])
        [Num (of_nat (count_list ''two words'' (CHR 0x0A))), Num (of_nat (card (word_starts ''two words''))),
         Num (of_nat (length ''two words'')), Str (Some ''f'')] = Some t
     \<and> runs (wc 3 ''f'' Exit) (map Some [''two wo'', ''rds''] @ [Some []]) [(1, t)] Exit"
  using wc_counts [of "[''two wo'', ''rds'']" "''two words''" "''f''" 3 Exit] by simp

end
